(* ===== verification/Prelude.thy ===== *)
theory Prelude
  imports Main "HOL-Library.Multiset"
begin

text \<open>
  Shared vocabulary of the development: arrow's status values and results, the fixed width
  integer conversions of the C++ code, the names of the data types every component uses, and
  the list lemmas the component theories share.

  An \<open>arrow::Result<T>\<close> is a sum: \<open>Inl\<close> holds the \<open>arrow::Status\<close> of a failure, \<open>Inr\<close>
  the value. A status carries the pieces of its message in the order in which the code streams
  them, so that two different failures of one function stay different values.
  \<open>Undefined\<close> is no status of arrow: it is the value of the model where the C++ has undefined
  behaviour (a dereferenced end iterator, a read outside a vector), so that a proof that a
  function returns some \<open>Inr\<close> also proves that none of this happens.
\<close>

section \<open>Statuses and results\<close>

datatype msg =
    Str string
  | Num int
  | Shp "nat list"

datatype status =
    Invalid "msg list"
  | IndexError "msg list"
  | NotImplemented "msg list"
  | KeyError "msg list"
  | TypeError "msg list"
  | IOError "msg list"
  | Undefined string

type_synonym 'a result = "status + 'a"

text \<open>\<open>ARROW_ASSIGN_OR_RAISE\<close> and \<open>ARROW_RETURN_NOT_OK\<close>: stop at the first failure.\<close>

fun rbind :: "'a result \<Rightarrow> ('a \<Rightarrow> 'b result) \<Rightarrow> 'b result" where
  "rbind (Inl e) f = Inl e"
| "rbind (Inr x) f = f x"

fun rmapM :: "('a \<Rightarrow> 'b result) \<Rightarrow> 'a list \<Rightarrow> 'b list result" where
  "rmapM f [] = Inr []"
| "rmapM f (x # xs) = rbind (f x) (\<lambda>y. rbind (rmapM f xs) (\<lambda>ys. Inr (y # ys)))"

fun rfor :: "('a \<Rightarrow> unit result) \<Rightarrow> 'a list \<Rightarrow> unit result" where
  "rfor f [] = Inr ()"
| "rfor f (x # xs) = rbind (f x) (\<lambda>_. rfor f xs)"

lemma rbind_Inr_conv: "rbind m f = Inr y \<longleftrightarrow> (\<exists>x. m = Inr x \<and> f x = Inr y)"
  by (cases m) auto

lemma rbind_Inl_conv: "rbind m f = Inl e \<longleftrightarrow> m = Inl e \<or> (\<exists>x. m = Inr x \<and> f x = Inl e)"
  by (cases m) auto

lemma rmapM_Inr_conv: "rmapM f xs = Inr ys \<longleftrightarrow> list_all2 (\<lambda>x y. f x = Inr y) xs ys"
  by (induction xs arbitrary: ys) (auto simp: rbind_Inr_conv list_all2_Cons1)

lemma rfor_Inr_conv: "rfor f xs = Inr u \<longleftrightarrow> (\<forall>x \<in> set xs. f x = Inr ())"
  by (induction xs) (auto simp: rbind_Inr_conv)

lemma rmapM_map: "(\<And>x. x \<in> set xs \<Longrightarrow> f x = Inr (g x)) \<Longrightarrow> rmapM f xs = Inr (map g xs)"
  by (induction xs) auto

text \<open>A read of a vector at a position, and a check that stops with a status.\<close>

definition at :: "'a list \<Rightarrow> nat \<Rightarrow> 'a result" where
  "at xs i = (if i < length xs then Inr (xs ! i) else Inl (Undefined ''out of range''))"

definition require :: "bool \<Rightarrow> status \<Rightarrow> unit result" where
  "require b e = (if b then Inr () else Inl e)"

lemma at_Inr_conv: "at xs i = Inr x \<longleftrightarrow> i < length xs \<and> x = xs ! i"
  by (auto simp: at_def)

lemma at_nth [simp]: "i < length xs \<Longrightarrow> at xs i = Inr (xs ! i)"
  by (simp add: at_def)

lemma require_Inr_conv: "require b e = Inr u \<longleftrightarrow> b"
  by (simp add: require_def)

lemma require_True [simp]: "require True e = Inr ()"
  by (simp add: require_def)

lemma require_False [simp]: "require False e = Inl e"
  by (simp add: require_def)

section \<open>Integers of a fixed width\<close>

text \<open>
  Sizes and positions are \<open>nat\<close> without a bound (they count elements that exist in memory), indices (\<open>std::int64_t\<close>) are \<open>int\<close>. Where the code narrows a
  value, the conversion is written out: to a 32 bit \<open>int\<close>, which wraps in two's complement,
  and to \<open>std::size_t\<close>, which is taken modulo \<open>2 ^ 64\<close>.
\<close>

type_synonym index = int
type_synonym shape = "nat list"

definition wrap_int32 :: "int \<Rightarrow> int" where
  "wrap_int32 x = (x + 2 ^ 31) mod 2 ^ 32 - 2 ^ 31"

definition wrap_int64 :: "int \<Rightarrow> int" where
  "wrap_int64 x = (x + 2 ^ 63) mod 2 ^ 64 - 2 ^ 63"

definition wrap_size :: "int \<Rightarrow> nat" where
  "wrap_size x = nat (x mod 2 ^ 64)"

lemma wrap_int32_id: "- (2 ^ 31) \<le> x \<Longrightarrow> x < 2 ^ 31 \<Longrightarrow> wrap_int32 x = x"
  by (simp add: wrap_int32_def)

lemma wrap_int64_id: "- (2 ^ 63) \<le> x \<Longrightarrow> x < 2 ^ 63 \<Longrightarrow> wrap_int64 x = x"
  by (simp add: wrap_int64_def)

lemma wrap_size_id: "n < 2 ^ 64 \<Longrightarrow> wrap_size (int n) = n"
  by (simp add: wrap_size_def)

text \<open>The product of two 64 bit integers, undefined where it does not fit.\<close>

definition mul_int64 :: "int \<Rightarrow> int \<Rightarrow> int result" where
  "mul_int64 a b =
     (if - (2 ^ 63) \<le> a * b \<and> a * b < 2 ^ 63 then Inr (a * b)
      else Inl (Undefined ''signed overflow''))"

section \<open>Lists\<close>

named_theorems list_lens \<open>lengths of the lists the operations produce\<close>

lemma sorted_nth_le: "sorted xs \<Longrightarrow> i \<le> j \<Longrightarrow> j < length xs \<Longrightarrow> xs ! i \<le> xs ! j"
  by (rule sorted_nth_mono)

lemma concat_map_singleton: "concat (map (\<lambda>x. [f x]) xs) = map f xs"
  by (induction xs) auto

lemma map2_map_map: "map2 f (map g xs) (map h xs) = map (\<lambda>x. f (g x) (h x)) xs"
  by (induction xs) auto

lemma take_drop_append: "i \<le> j \<Longrightarrow> take (j - i) (drop i xs) @ drop j xs = drop i xs"
  by (metis append_take_drop_id drop_drop le_add_diff_inverse2)

lemma prod_list_pos: "0 \<notin> set (xs :: nat list) \<Longrightarrow> 0 < prod_list xs"
  by (simp add: prod_list_zero_iff zero_less_iff_neq_zero)

lemma sum_list_map_const: "sum_list (map (\<lambda>_. c) xs) = length xs * (c :: nat)"
  by (induction xs) auto

text \<open>\<open>xs.subspan(start, n)\<close> of an \<open>absl::Span\<close>: at most \<open>n\<close> elements from \<open>start\<close>.\<close>

definition subspan :: "nat \<Rightarrow> nat \<Rightarrow> 'a list \<Rightarrow> 'a list" where
  "subspan start n xs = take n (drop start xs)"

lemma length_subspan [simp]: "length (subspan s n xs) = min n (length xs - s)"
  by (simp add: subspan_def)

lemma nth_subspan [simp]: "i < n \<Longrightarrow> s + i < length xs \<Longrightarrow> subspan s n xs ! i = xs ! (s + i)"
  by (simp add: subspan_def)

lemma subspan_all [simp]: "subspan 0 (length xs) xs = xs"
  by (simp add: subspan_def)

lemma subspan_append: "subspan s n xs @ subspan (s + n) m xs = subspan s (n + m) xs"
  by (simp add: subspan_def take_add add.commute [of s n])

lemma set_subspan_subset: "set (subspan s n xs) \<subseteq> set xs"
  unfolding subspan_def by (rule subset_trans [OF set_take_subset set_drop_subset])

lemma in_subspan_conv:
  "x \<in> set (subspan s n xs) \<longleftrightarrow> (\<exists>k. s \<le> k \<and> k < s + n \<and> k < length xs \<and> x = xs ! k)"
  (is "?L \<longleftrightarrow> ?R")
proof
  assume ?L
  then obtain i where i: "i < length (subspan s n xs)" "x = subspan s n xs ! i"
    by (auto simp: in_set_conv_nth)
  then have "x = xs ! (s + i)" "s + i < length xs" "i < n" by auto
  then show ?R by (intro exI [of _ "s + i"]) auto
next
  assume ?R
  then obtain k where k: "s \<le> k" "k < s + n" "k < length xs" "x = xs ! k" by auto
  then have "subspan s n xs ! (k - s) = x" and "k - s < length (subspan s n xs)" by auto
  then show ?L by (metis nth_mem)
qed

lemma subspan_concat_block:
  "\<forall>b \<in> set bs. length b = n \<Longrightarrow> c < length bs \<Longrightarrow> subspan (c * n) n (concat bs) = bs ! c"
proof (induction bs arbitrary: c)
  case (Cons b bs)
  then show ?case by (cases c) (auto simp: subspan_def)
qed simp

lemma distinct_filter_less:
  assumes "distinct (filter P xs)" and "i < j" and "j < length xs" and "P (xs ! j)"
  shows "xs ! i \<noteq> xs ! j"
proof
  assume eq: "xs ! i = xs ! j"
  have "xs ! i \<in> set (take j xs)" using assms(2,3) by (auto simp: in_set_conv_nth)
  then have "xs ! i \<in> set (filter P (take j xs))" using assms(4) eq by simp
  moreover have "xs ! j \<in> set (filter P (drop j xs))" using assms(3,4) by (simp add: Cons_nth_drop_Suc [symmetric])
  moreover have "distinct (filter P (take j xs) @ filter P (drop j xs))"
    using assms(1) by (simp only: filter_append [symmetric] append_take_drop_id)
  ultimately show False using eq by auto
qed

lemma distinct_filter_nth:
  assumes "distinct (filter P xs)" and "i < length xs" and "j < length xs" and "P (xs ! i)" and "xs ! i = xs ! j"
  shows "i = j"
  using distinct_filter_less [OF assms(1), of i j] distinct_filter_less [OF assms(1), of j i] assms(2-5)
  by (metis linorder_neqE_nat)

end
