(* ===== verification/Spans.thy ===== *)
theory Spans
  imports Prelude
begin

text \<open>
  The spans of \<open>cpp/arcae/data_partition.cc\<close>: sorting the indices of a selection into disk
  order, decomposing them into ranges that can be read in one go, and the tests for contiguous
  memory. A \<open>SpanPair\<close> pairs indices on disk with positions in memory; disk indices may be
  negative (nothing is read for them), memory positions are offsets from zero and so \<open>nat\<close>.
\<close>

record span_pair =
  disk :: "index list"
  mem :: "nat list"

type_synonym span_pairs = "span_pair list"

section \<open>Definitions\<close>

text \<open>
  \<open>MakeSortedIndices\<close>: the sorted indices and the permutation that sorts them. \<open>std::sort\<close> leaves
  the order of equal indices open; the model takes the stable order, and \<open>MakeSortedIndices_any_sort\<close>
  below shows what does not depend on that choice.
\<close>

definition MakeSortedIndices :: "index list \<Rightarrow> span_pair" where
  "MakeSortedIndices ids =
     (let iota = [0..<length ids]
      in if sorted ids then \<lparr>disk = ids, mem = iota\<rparr>
         else let sorted_mem = sort_key (\<lambda>l. ids ! l) iota
              in \<lparr>disk = map (\<lambda>l. ids ! l) sorted_mem, mem = sorted_mem\<rparr>)"

definition MakeSubSpan :: "index list \<Rightarrow> nat list \<Rightarrow> nat \<Rightarrow> nat \<Rightarrow> span_pair" where
  "MakeSubSpan disk_span mem_span start current =
     \<lparr>disk = subspan start (current - start) disk_span, mem = subspan start (current - start) mem_span\<rparr>"

text \<open>
  The loop of \<open>MakeSubSpans\<close> over the positions \<open>i\<close> still to visit; \<open>start\<close> is the first position
  of the range being grown and \<open>result\<close> holds the ranges closed so far.
\<close>

fun sub_spans_loop ::
  "index list \<Rightarrow> nat list \<Rightarrow> bool \<Rightarrow> nat list \<Rightarrow> nat \<Rightarrow> span_pairs \<Rightarrow> (nat \<times> span_pairs) result" where
  "sub_spans_loop disk_span mem_span entire_range [] start result = Inr (start, result)"
| "sub_spans_loop disk_span mem_span entire_range (i # is) start result =
     (if disk_span ! i < 0 then
        sub_spans_loop disk_span mem_span entire_range is start result
      else if disk_span ! start < 0 then
        sub_spans_loop disk_span mem_span entire_range is i
          (result @ [MakeSubSpan disk_span mem_span start i])
      else if disk_span ! i = disk_span ! (i - 1) then
        Inl (IndexError [Str ''Duplicate selection index '', Num (disk_span ! i)])
      else if disk_span ! i - disk_span ! (i - 1) = 1 then
        sub_spans_loop disk_span mem_span entire_range is start result
      else if \<not> entire_range then
        sub_spans_loop disk_span mem_span entire_range is i
          (result @ [MakeSubSpan disk_span mem_span start i])
      else sub_spans_loop disk_span mem_span entire_range is start result)"

definition MakeSubSpans :: "index list \<Rightarrow> nat list \<Rightarrow> bool \<Rightarrow> span_pairs result" where
  "MakeSubSpans disk_span mem_span entire_range =
     rbind (sub_spans_loop disk_span mem_span entire_range [1..<length disk_span] 0 [])
       (\<lambda>(start, result). Inr (result @ [MakeSubSpan disk_span mem_span start (length disk_span)]))"

definition SecondaryDimensionsContiguous :: "span_pairs list \<Rightarrow> bool" where
  "SecondaryDimensionsContiguous spans =
     list_all (\<lambda>sp. \<not> 1 < length sp \<and>
                    list_all (\<lambda>i. mem (sp ! 0) ! i = i) [0..<length (mem (sp ! 0))])
       (butlast spans)"

definition IsMemoryContiguous :: "span_pair \<Rightarrow> bool" where
  "IsMemoryContiguous sp =
     list_all (\<lambda>i. int (mem sp ! i) - int (mem sp ! (i - 1)) = 1) [1..<length (mem sp)]"

section \<open>Sorting\<close>

text \<open>
  What the partition relies on: the memory positions are a permutation, the disk indices are
  the selected indices in that order, and they ascend.
\<close>

locale argsort =
  fixes srt :: "index list \<Rightarrow> span_pair"
  assumes perm: "mset (mem (srt ids)) = mset [0..<length ids]"
    and disk_mem: "disk (srt ids) = map (\<lambda>l. ids ! l) (mem (srt ids))"
    and sorted_disk: "sorted (disk (srt ids))"
begin

lemma length_mem [simp]: "length (mem (srt ids)) = length ids"
  using mset_eq_length [OF perm] by simp

lemma length_disk [simp]: "length (disk (srt ids)) = length ids"
  by (simp add: disk_mem)

lemma set_mem: "set (mem (srt ids)) = {0..<length ids}"
  using mset_eq_setD [OF perm] by (simp only: set_upt)

lemma distinct_mem: "distinct (mem (srt ids))"
  using mset_eq_imp_distinct_iff [OF perm] by (simp only: distinct_upt)

lemma disk_nth: "k < length ids \<Longrightarrow> disk (srt ids) ! k = ids ! (mem (srt ids) ! k)"
  by (simp add: disk_mem)

lemma mset_disk: "mset (disk (srt ids)) = mset ids"
proof -
  have "mset (disk (srt ids)) = image_mset (\<lambda>l. ids ! l) (mset [0..<length ids])"
    by (simp only: disk_mem mset_map perm)
  also have "\<dots> = mset (map (\<lambda>l. ids ! l) [0..<length ids])" by (simp only: mset_map)
  finally show ?thesis by (simp only: map_nth)
qed

lemma mset_zip: "mset (zip (disk (srt ids)) (mem (srt ids))) = mset (zip ids [0..<length ids])"
proof -
  have "zip (disk (srt ids)) (mem (srt ids)) = map (\<lambda>l. (ids ! l, l)) (mem (srt ids))"
    by (simp add: disk_mem zip_map1 zip_same_conv_map comp_def)
  then have "mset (zip (disk (srt ids)) (mem (srt ids))) =
      image_mset (\<lambda>l. (ids ! l, l)) (mset [0..<length ids])"
    by (simp only: mset_map perm)
  also have "\<dots> = mset (map (\<lambda>l. (ids ! l, l)) [0..<length ids])" by (simp only: mset_map)
  also have "map (\<lambda>l. (ids ! l, l)) [0..<length ids] = zip ids [0..<length ids]"
    by (rule nth_equalityI) auto
  finally show ?thesis .
qed

end

lemma MakeSortedIndices_sorted: "sorted ids \<Longrightarrow> MakeSortedIndices ids = \<lparr>disk = ids, mem = [0..<length ids]\<rparr>"
  by (simp add: MakeSortedIndices_def)

interpretation sorted_ids: argsort MakeSortedIndices
proof
  fix ids :: "index list"
  show "mset (mem (MakeSortedIndices ids)) = mset [0..<length ids]"
    by (simp add: MakeSortedIndices_def Let_def)
  show "disk (MakeSortedIndices ids) = map (\<lambda>l. ids ! l) (mem (MakeSortedIndices ids))"
    by (simp add: MakeSortedIndices_def Let_def map_nth)
  show "sorted (disk (MakeSortedIndices ids))"
    by (simp add: MakeSortedIndices_def Let_def)
qed

lemmas sorted_ids_facts =
  sorted_ids.perm sorted_ids.disk_mem sorted_ids.sorted_disk sorted_ids.distinct_mem sorted_ids.set_mem

text \<open>
  \<open>std::sort\<close> may order equal indices in any way. Whatever permutation of the positions it
  returns that sorts the indices, the disk indices are those of the model; and when the
  indices are distinct, so are the memory positions.
\<close>

theorem MakeSortedIndices_any_sort:
  assumes "mset p = mset [0..<length ids]" and "sorted (map (\<lambda>l. ids ! l) p)"
  shows "map (\<lambda>l. ids ! l) p = disk (MakeSortedIndices ids) \<and>
         (distinct ids \<longrightarrow> p = mem (MakeSortedIndices ids))"
proof
  let ?f = "\<lambda>l. ids ! l"
  have "mset (map ?f p) = mset (map ?f [0..<length ids])" by (simp only: mset_map assms(1))
  then have "mset (map ?f p) = mset (disk (MakeSortedIndices ids))"
    by (simp only: map_nth sorted_ids.mset_disk)
  then show disk: "map ?f p = disk (MakeSortedIndices ids)"
    by (metis assms(2) properties_for_sort sorted_ids.sorted_disk)
  have setp: "set p = {0..<length ids}" using mset_eq_setD [OF assms(1)] by simp
  show "distinct ids \<longrightarrow> p = mem (MakeSortedIndices ids)"
  proof
    assume "distinct ids"
    then have "inj_on ?f (set p \<union> set (mem (MakeSortedIndices ids)))"
      by (auto simp: setp sorted_ids.set_mem inj_on_def nth_eq_iff_index_eq)
    moreover have "map ?f p = map ?f (mem (MakeSortedIndices ids))"
      using disk by (simp only: sorted_ids.disk_mem)
    ultimately show "p = mem (MakeSortedIndices ids)" by (simp only: inj_on_map_eq_map)
  qed
qed

theorem MakeSortedIndices_any_sort_witness:
  "disk (MakeSortedIndices [5, 3, 4]) = [3, 4, 5] \<and> mem (MakeSortedIndices [5, 3, 4]) = [1, 2, 0]"
  using MakeSortedIndices_any_sort [of "[1, 2, 0]" "[5, 3, 4]"] by (simp add: upt_rec)

section \<open>Ranges of indices\<close>

text \<open>
  A range of disk indices that one read can serve: either nothing in it is read, or every index
  is read, and then the indices are consecutive, or for the row dimension (\<open>entire_range\<close>), where
  casacore takes a list of rows, at least ascending.
\<close>

definition range_ok :: "bool \<Rightarrow> index list \<Rightarrow> bool" where
  "range_ok entire_range xs \<longleftrightarrow>
     (\<forall>x \<in> set xs. x < 0) \<or>
     (\<forall>x \<in> set xs. 0 \<le> x) \<and> successively (\<lambda>x y. if entire_range then x < y else y = x + 1) xs"

lemma range_ok_single [simp]: "range_ok er [x]"
  by (auto simp: range_ok_def)

lemma range_ok_snoc_neg: "\<forall>x \<in> set xs. x < 0 \<Longrightarrow> y < 0 \<Longrightarrow> range_ok er (xs @ [y])"
  by (auto simp: range_ok_def)

lemma range_ok_snoc_pos:
  "range_ok er xs \<Longrightarrow> xs \<noteq> [] \<Longrightarrow> 0 \<le> hd xs \<Longrightarrow> 0 \<le> y \<Longrightarrow>
   (if er then last xs < y else y = last xs + 1) \<Longrightarrow> range_ok er (xs @ [y])"
  using successively_append_iff [of "\<lambda>x y. if er then x < y else y = x + 1" xs "[y]"]
  by (cases xs) (auto simp: range_ok_def)

text \<open>Where the loop cuts: what follows cannot be served by the same read.\<close>

definition cut_between :: "bool \<Rightarrow> index list \<Rightarrow> index list \<Rightarrow> bool" where
  "cut_between er xs ys \<longleftrightarrow> 0 \<le> hd ys \<and> (hd xs < 0 \<or> \<not> er \<and> hd ys \<noteq> last xs + 1)"

lemma cut_not_ok:
  assumes "cut_between er xs ys" and "xs \<noteq> []" and "ys \<noteq> []"
  shows "\<not> range_ok er (xs @ ys)"
proof
  assume ok: "range_ok er (xs @ ys)"
  have "hd xs \<in> set xs" "hd ys \<in> set ys" using assms by simp_all
  have neg: "\<exists>x \<in> set (xs @ ys). \<not> x < 0" using assms(1) \<open>hd ys \<in> set ys\<close> by (intro bexI [of _ "hd ys"]) (auto simp: cut_between_def)
  with ok \<open>hd xs \<in> set xs\<close> have "0 \<le> hd xs" by (auto simp: range_ok_def)
  with assms(1) have er: "\<not> er" "hd ys \<noteq> last xs + 1" by (auto simp: cut_between_def)
  have "successively (\<lambda>x y. y = x + 1) (xs @ ys)"
    using ok neg er(1) unfolding range_ok_def by (simp only: if_False) blast
  with assms(2,3) er(2) show False by (simp add: successively_append_iff)
qed

lemma cut_grow: "xs \<noteq> [] \<Longrightarrow> cut_between er ys (xs @ [x]) = cut_between er ys xs"
  by (simp add: cut_between_def)

text \<open>
  The invariant of the loop before position \<open>i\<close> is visited: the closed ranges and the open one
  make up the first \<open>i\<close> positions, all of them are good ranges, none of which can be joined with the
  next, and no index that is read repeats.
\<close>

definition sub_spans_inv ::
  "index list \<Rightarrow> nat list \<Rightarrow> bool \<Rightarrow> nat \<Rightarrow> nat \<Rightarrow> span_pairs \<Rightarrow> bool" where
  "sub_spans_inv d m er i start res \<longleftrightarrow>
     start < i \<and> i \<le> length d \<and>
     concat (map disk res) = take start d \<and> concat (map mem res) = take start m \<and>
     (\<forall>s \<in> set res. disk s \<noteq> [] \<and> length (mem s) = length (disk s) \<and> range_ok er (disk s)) \<and>
     range_ok er (subspan start (i - start) d) \<and>
     successively (cut_between er) (map disk res @ [subspan start (i - start) d]) \<and>
     (\<forall>k. 0 < k \<and> k < i \<and> 0 \<le> d ! k \<longrightarrow> d ! (k - 1) < d ! k)"

lemma subspan_snoc: "start \<le> i \<Longrightarrow> i < length d \<Longrightarrow>
    subspan start (Suc i - start) d = subspan start (i - start) d @ [d ! i]"
  by (simp add: subspan_def Suc_diff_le take_Suc_conv_app_nth)

lemma subspan_hd_last:
  "start < i \<Longrightarrow> i \<le> length d \<Longrightarrow> subspan start (i - start) d \<noteq> [] \<and>
     hd (subspan start (i - start) d) = d ! start \<and> last (subspan start (i - start) d) = d ! (i - 1)"
proof -
  assume a: "start < i" "i \<le> length d"
  then have l: "length (subspan start (i - start) d) = i - start" by simp
  with a have "subspan start (i - start) d \<noteq> []" by (metis length_0_conv less_numeral_extra(3) zero_less_diff)
  with a l show ?thesis by (simp add: hd_conv_nth last_conv_nth)
qed

lemma take_subspan: "start \<le> i \<Longrightarrow> take start d @ subspan start (i - start) d = take i d"
  using subspan_append [of 0 start d "i - start"] by (simp add: subspan_def)

lemma sub_spans_inv_close:
  assumes "sub_spans_inv d m er i start res" and "length m = length d"
  shows "concat (map disk (res @ [MakeSubSpan d m start i])) = take i d"
    and "concat (map mem (res @ [MakeSubSpan d m start i])) = take i m"
    and "\<forall>s \<in> set (res @ [MakeSubSpan d m start i]).
           disk s \<noteq> [] \<and> length (mem s) = length (disk s) \<and> range_ok er (disk s)"
    and "successively (cut_between er) (map disk (res @ [MakeSubSpan d m start i]))"
  using assms subspan_hd_last [of start i d]
  by (auto simp: sub_spans_inv_def MakeSubSpan_def take_subspan)

lemma sub_spans_inv_emit:
  assumes inv: "sub_spans_inv d m er i start res" and "length m = length d" and "i < length d"
    and "0 \<le> d ! i" and "d ! (i - 1) < d ! i" and "d ! start < 0 \<or> \<not> er \<and> d ! i \<noteq> d ! (i - 1) + 1"
  shows "sub_spans_inv d m er (Suc i) i (res @ [MakeSubSpan d m start i])"
proof -
  have seg: "subspan start (i - start) d \<noteq> []" "hd (subspan start (i - start) d) = d ! start"
      "last (subspan start (i - start) d) = d ! (i - 1)"
    using subspan_hd_last [of start i d] inv by (simp_all add: sub_spans_inv_def)
  have one: "subspan i (Suc i - i) d = [d ! i]" using subspan_snoc [of i i d] assms(3) by (simp add: subspan_def)
  have "cut_between er (subspan start (i - start) d) [d ! i]" using assms(4,6) seg by (simp add: cut_between_def)
  moreover have "successively (cut_between er) (map disk res @ [subspan start (i - start) d])" using inv by (simp add: sub_spans_inv_def)
  ultimately have "successively (cut_between er) (map disk (res @ [MakeSubSpan d m start i]) @ [[d ! i]])"
    using assms(2) by (simp add: MakeSubSpan_def successively_append_iff)
  moreover have "\<forall>k. 0 < k \<and> k < Suc i \<and> 0 \<le> d ! k \<longrightarrow> d ! (k - 1) < d ! k"
    using inv assms(5) by (auto simp: sub_spans_inv_def less_Suc_eq)
  ultimately show ?thesis
    using sub_spans_inv_close [OF inv assms(2)] assms(3) one by (simp add: sub_spans_inv_def)
qed

lemma sub_spans_inv_grow:
  assumes inv: "sub_spans_inv d m er i start res" and "i < length d"
    and "range_ok er (subspan start (i - start) d @ [d ! i])"
    and "0 \<le> d ! i \<Longrightarrow> d ! (i - 1) < d ! i"
  shows "sub_spans_inv d m er (Suc i) start res"
proof -
  have "subspan start (i - start) d \<noteq> []" using subspan_hd_last [of start i d] inv by (simp add: sub_spans_inv_def)
  then show ?thesis
    using assms by (auto simp: sub_spans_inv_def subspan_snoc less_Suc_eq successively_append_iff cut_grow)
qed

text \<open>One step of the loop keeps the invariant or reports the repeated index.\<close>

lemma sub_spans_loop_correct:
  assumes "sorted d" and "length m = length d" and "sub_spans_inv d m er i start res"
  shows "(\<exists>start' res'. sub_spans_loop d m er [i..<length d] start res = Inr (start', res') \<and>
             sub_spans_inv d m er (length d) start' res') \<or>
         (\<exists>k. 0 < k \<and> k < length d \<and> 0 \<le> d ! k \<and> d ! (k - 1) = d ! k \<and>
             sub_spans_loop d m er [i..<length d] start res =
               Inl (IndexError [Str ''Duplicate selection index '', Num (d ! k)]))"
  using assms(3)
proof (induction "length d - i" arbitrary: i start res)
  case 0
  then show ?case by (auto simp: sub_spans_inv_def)
next
  case (Suc n)
  then have i: "i < length d" and n: "n = length d - Suc i" by auto
  let ?seg = "subspan start (i - start) d"
  note inv = Suc.prems
  have st: "start < i" using inv by (simp add: sub_spans_inv_def)
  note seg = subspan_hd_last [OF st less_imp_le [OF i]]
  have le: "d ! (i - 1) \<le> d ! i" using \<open>sorted d\<close> i by (simp add: sorted_nth_mono)
  have le': "\<forall>x \<in> set ?seg. x \<le> d ! i"
  proof
    fix x assume "x \<in> set ?seg"
    then obtain k where "k < i" "k < length d" "x = d ! k" using st by (auto simp: in_subspan_conv)
    then show "x \<le> d ! i" using \<open>sorted d\<close> i by (simp add: sorted_nth_mono)
  qed
  note IH = Suc.hyps(1) [OF n]
  have loop: "[i..<length d] = i # [Suc i..<length d]" using i by (simp add: upt_conv_Cons)
  have ok: "range_ok er ?seg" using inv by (simp add: sub_spans_inv_def)
  consider (neg) "d ! i < 0" | (first) "0 \<le> d ! i" "d ! start < 0"
    | (dup) "0 \<le> d ! i" "0 \<le> d ! start" "d ! i = d ! (i - 1)"
    | (succ) "0 \<le> d ! i" "0 \<le> d ! start" "d ! i = d ! (i - 1) + 1"
    | (gap) "0 \<le> d ! i" "0 \<le> d ! start" "d ! i \<noteq> d ! (i - 1)" "d ! i \<noteq> d ! (i - 1) + 1"
    by linarith
  then show ?case
  proof cases
    case neg
    then have "range_ok er (?seg @ [d ! i])" using le' by (intro range_ok_snoc_neg) fastforce+
    from IH [OF sub_spans_inv_grow [OF inv i this]] neg show ?thesis by (simp add: loop)
  next
    case first
    have "last ?seg \<in> set ?seg" and "hd ?seg \<in> set ?seg"
      using conjunct1 [OF seg] by (rule last_in_set, rule hd_in_set)
    then have "d ! (i - 1) < 0" using ok first seg by (auto simp: range_ok_def)
    with IH [OF sub_spans_inv_emit [OF inv assms(2) i]] first show ?thesis by (simp add: loop)
  next
    case dup
    then have "0 < i" "d ! (i - 1) = d ! i" using st by auto
    with dup i show ?thesis by (intro disjI2 exI [of _ i]) (simp add: loop)
  next
    case succ
    then have "range_ok er (?seg @ [d ! i])" using seg ok by (intro range_ok_snoc_pos) auto
    from IH [OF sub_spans_inv_grow [OF inv i this]] succ show ?thesis by (simp add: loop)
  next
    case gap
    with le have less: "d ! (i - 1) < d ! i" by simp
    show ?thesis
    proof (cases er)
      case True
      then have "range_ok er (?seg @ [d ! i])" using seg ok gap less by (intro range_ok_snoc_pos) auto
      from IH [OF sub_spans_inv_grow [OF inv i this less]] gap True show ?thesis by (simp add: loop)
    next
      case False
      with IH [OF sub_spans_inv_emit [OF inv assms(2) i gap(1) less]] gap show ?thesis
        by (simp add: loop)
    qed
  qed
qed

lemma sub_spans_inv_init: "d \<noteq> [] \<Longrightarrow> sub_spans_inv d m er 1 0 []"
  by (cases d) (auto simp: sub_spans_inv_def subspan_def)

text \<open>The ranges of a sorted span, or the repeated index that stops the decomposition.\<close>

lemma MakeSubSpans_cases:
  assumes "sorted d" and "length m = length d"
  obtains (ok) sps where "MakeSubSpans d m er = Inr sps" and "concat (map disk sps) = d"
      and "concat (map mem sps) = m" and "sps \<noteq> []"
      and "\<forall>s \<in> set sps. length (mem s) = length (disk s) \<and> range_ok er (disk s) \<and> (d \<noteq> [] \<longrightarrow> disk s \<noteq> [])"
      and "\<forall>k. 0 < k \<and> k < length d \<and> 0 \<le> d ! k \<longrightarrow> d ! (k - 1) < d ! k"
      and "successively (cut_between er) (map disk sps)"
  | (dup) k where "0 < k" and "k < length d" and "0 \<le> d ! k" and "d ! (k - 1) = d ! k"
      and "MakeSubSpans d m er = Inl (IndexError [Str ''Duplicate selection index '', Num (d ! k)])"
proof (cases "d = []")
  case True
  with assms(2) show ?thesis
    by (intro ok [of "[MakeSubSpan d m 0 0]"]) (auto simp: MakeSubSpans_def MakeSubSpan_def subspan_def range_ok_def)
next
  case False
  from sub_spans_loop_correct [OF assms sub_spans_inv_init [OF False, of m er]]
  consider (a) start' res' where "sub_spans_loop d m er [1..<length d] 0 [] = Inr (start', res')"
      "sub_spans_inv d m er (length d) start' res'"
    | (b) k where "0 < k" "k < length d" "0 \<le> d ! k" "d ! (k - 1) = d ! k"
      "sub_spans_loop d m er [1..<length d] 0 [] =
         Inl (IndexError [Str ''Duplicate selection index '', Num (d ! k)])" by auto
  then show ?thesis
  proof cases
    case a
    from sub_spans_inv_close [OF a(2) assms(2)] a assms(2) show ?thesis
      by (intro ok [of "res' @ [MakeSubSpan d m start' (length d)]"])
        (auto simp: MakeSubSpans_def sub_spans_inv_def)
  next
    case b
    then show ?thesis by (intro dup) (auto simp: MakeSubSpans_def)
  qed
qed

lemma MakeSubSpans_Inr_all:
  assumes "MakeSubSpans d m er = Inr sps" and "sorted d" and "length m = length d"
  shows "concat (map disk sps) = d \<and> concat (map mem sps) = m \<and> sps \<noteq> [] \<and>
    (\<forall>s \<in> set sps. length (mem s) = length (disk s) \<and> range_ok er (disk s) \<and> (d \<noteq> [] \<longrightarrow> disk s \<noteq> []))"
proof (cases rule: MakeSubSpans_cases [OF assms(2,3), of er, case_names ok dup])
  case (ok sps')
  with assms(1) show ?thesis by simp
next
  case (dup k)
  with assms(1) show ?thesis by simp
qed

lemma MakeSubSpans_Inr:
  assumes "MakeSubSpans d m er = Inr sps" and "sorted d" and "length m = length d"
  shows "concat (map disk sps) = d" and "concat (map mem sps) = m" and "sps \<noteq> []"
    and "\<forall>s \<in> set sps. length (mem s) = length (disk s) \<and> range_ok er (disk s) \<and> (d \<noteq> [] \<longrightarrow> disk s \<noteq> [])"
  using MakeSubSpans_Inr_all [OF assms] by auto

lemma MakeSubSpans_maximal:
  assumes "MakeSubSpans d m er = Inr sps" and "sorted d" and "length m = length d" and "d \<noteq> []"
  shows "successively (\<lambda>s t. \<not> range_ok er (disk s @ disk t)) sps"
proof (cases rule: MakeSubSpans_cases [OF assms(2,3), of er, case_names ok dup])
  case (ok sps')
  have "successively (\<lambda>s t. cut_between er (disk s) (disk t)) sps'" using ok(7) by (simp add: successively_map)
  then have "successively (\<lambda>s t. \<not> range_ok er (disk s @ disk t)) sps'"
    by (rule successively_mono) (use ok(5) assms(4) cut_not_ok in blast)
  with ok(1) assms(1) show ?thesis by simp
next
  case (dup k)
  with assms(1) show ?thesis by simp
qed

lemma all_pos_split: "(\<forall>k::nat. 0 < k \<longrightarrow> Q k) \<longleftrightarrow> Q 1 \<and> (\<forall>k. 0 < k \<longrightarrow> Q (Suc k))"
proof safe
  fix k :: nat assume "Q 1" and step: "\<forall>k. 0 < k \<longrightarrow> Q (Suc k)" and "0 < k"
  then show "Q k" using spec [OF step, of "k - 1"] by (cases "k = 1") auto
qed auto

lemma distinct_reads_conv:
  assumes "sorted d"
  shows "distinct (filter (\<lambda>x. 0 \<le> x) d) \<longleftrightarrow>
    (\<forall>k. 0 < k \<and> k < length d \<and> 0 \<le> d ! k \<longrightarrow> d ! (k - 1) < (d ! k :: int))"
  using assms
proof (induction d)
  case (Cons x xs)
  let ?hd = "xs \<noteq> [] \<and> 0 \<le> hd xs \<longrightarrow> x < hd xs"
  have "(\<forall>k. 0 < k \<and> k < length (x # xs) \<and> 0 \<le> (x # xs) ! k \<longrightarrow> (x # xs) ! (k - 1) < (x # xs) ! k) \<longleftrightarrow>
     ?hd \<and> (\<forall>k. 0 < k \<and> k < length xs \<and> 0 \<le> xs ! k \<longrightarrow> xs ! (k - 1) < xs ! k)"
    unfolding imp_conjL
    by (subst all_pos_split) (cases xs; auto simp: nth_Cons')
  moreover have "distinct (filter (\<lambda>x. 0 \<le> x) (x # xs)) \<longleftrightarrow>
      ?hd \<and> distinct (filter (\<lambda>x. 0 \<le> x) xs)"
    using Cons.prems by (cases xs) (auto simp: order.order_iff_strict)
  ultimately show ?case using Cons by simp
qed simp

text \<open>Spans that hold the indices of a selection, each with its position in memory, exactly once.\<close>

definition decomposes :: "bool \<Rightarrow> index list \<Rightarrow> span_pairs \<Rightarrow> bool" where
  "decomposes er ids sps \<longleftrightarrow> sps \<noteq> [] \<and>
     mset (concat (map (\<lambda>s. zip (disk s) (mem s)) sps)) = mset (zip ids [0..<length ids]) \<and>
     (\<forall>s \<in> set sps. length (mem s) = length (disk s) \<and> range_ok er (disk s) \<and> (ids \<noteq> [] \<longrightarrow> disk s \<noteq> []))"

lemma MakeSubSpans_decomposes:
  "(case MakeSubSpans (disk (MakeSortedIndices ids)) (mem (MakeSortedIndices ids)) er of
      Inr sps \<Rightarrow> distinct (filter (\<lambda>x. 0 \<le> x) ids) \<and> decomposes er ids sps
    | Inl e \<Rightarrow> \<not> distinct (filter (\<lambda>x. 0 \<le> x) ids))"
proof -
  let ?d = "disk (MakeSortedIndices ids)" and ?m = "mem (MakeSortedIndices ids)"
  have len: "length ?m = length ?d" by simp
  have "mset (filter (\<lambda>x. 0 \<le> x) ?d) = mset (filter (\<lambda>x. 0 \<le> x) ids)"
    by (simp only: mset_filter sorted_ids.mset_disk)
  then have dist: "distinct (filter (\<lambda>x. 0 \<le> x) ids) \<longleftrightarrow> distinct (filter (\<lambda>x. 0 \<le> x) ?d)"
    using mset_eq_imp_distinct_iff by blast
  note conv = dist [unfolded distinct_reads_conv [OF sorted_ids.sorted_disk]]
  show ?thesis
  proof (cases rule: MakeSubSpans_cases [OF sorted_ids.sorted_disk len, of er, case_names ok dup])
    case (ok sps)
    have "concat (map (\<lambda>s. zip (disk s) (mem s)) sps) = zip (concat (map disk sps)) (concat (map mem sps))"
      using ok(5) by (induction sps) (auto simp: zip_append)
    with ok have "concat (map (\<lambda>s. zip (disk s) (mem s)) sps) = zip ?d ?m" by simp
    moreover have "?d \<noteq> []" if "ids \<noteq> []" using that sorted_ids.length_disk [of ids] by (metis length_0_conv)
    ultimately show ?thesis using ok conv by (simp add: sorted_ids.mset_zip decomposes_def)
  next
    case (dup k)
    with conv show ?thesis by auto
  qed
qed

text \<open>
  C18. The spans made from the indices selected in one dimension. The decomposition succeeds
  exactly when no index that is read is selected twice. Then the spans are a partition, in order: one
  after the other they hold the sorted indices with their positions in memory, so that each memory
  position is paired exactly once, with the disk index that the selection holds at that position.
  Each span is a range that one read can serve, and as long as possible: no span can be joined with
  the next into such a range.
\<close>

theorem MakeSubSpans_partition:
  "(case MakeSubSpans (disk (MakeSortedIndices ids)) (mem (MakeSortedIndices ids)) er of
      Inr sps \<Rightarrow>
        distinct (filter (\<lambda>x. 0 \<le> x) ids) \<and>
        concat (map disk sps) = disk (MakeSortedIndices ids) \<and> concat (map mem sps) = mem (MakeSortedIndices ids) \<and>
        sorted (concat (map disk sps)) \<and>
        mset (concat (map (\<lambda>s. zip (disk s) (mem s)) sps)) = mset (zip ids [0..<length ids]) \<and>
        (\<forall>s \<in> set sps. length (mem s) = length (disk s) \<and> range_ok er (disk s) \<and> (ids \<noteq> [] \<longrightarrow> disk s \<noteq> [])) \<and>
        (ids \<noteq> [] \<longrightarrow> successively (\<lambda>s t. \<not> range_ok er (disk s @ disk t)) sps)
    | Inl e \<Rightarrow> \<not> distinct (filter (\<lambda>x. 0 \<le> x) ids))"
proof (cases "MakeSubSpans (disk (MakeSortedIndices ids)) (mem (MakeSortedIndices ids)) er")
  case (Inl e)
  with MakeSubSpans_decomposes [of ids er] show ?thesis by simp
next
  case (Inr sps)
  have len: "length (mem (MakeSortedIndices ids)) = length (disk (MakeSortedIndices ids))" by simp
  note all = MakeSubSpans_Inr_all [OF Inr sorted_ids.sorted_disk len]
    and max = MakeSubSpans_maximal [OF Inr sorted_ids.sorted_disk len]
  have "disk (MakeSortedIndices ids) \<noteq> []" if "ids \<noteq> []" using that sorted_ids.length_disk [of ids] by (metis length_0_conv)
  with all max MakeSubSpans_decomposes [of ids er] Inr sorted_ids.sorted_disk [of ids] show ?thesis
    by (simp add: decomposes_def)
qed

theorem MakeSubSpans_partition_witness:
  "\<exists>sps. MakeSubSpans (disk (MakeSortedIndices [9, 3, -1, 4])) (mem (MakeSortedIndices [9, 3, -1, 4])) False = Inr sps \<and>
     map disk sps = [[-1], [3, 4], [9]] \<and> concat (map mem sps) = [2, 1, 3, 0]"
proof -
  have d: "disk (MakeSortedIndices [9, 3, -1, 4]) = [-1, 3, 4, 9]" "mem (MakeSortedIndices [9, 3, -1, 4]) = [2, 1, 3, 0]"
    by code_simp+
  have m: "(case MakeSubSpans [-1, 3, 4, 9] [2, 1, 3, 0] False of Inr sps \<Rightarrow> map disk sps = [[-1], [3, 4], [9]] | Inl e \<Rightarrow> False)"
    by code_simp
  from MakeSubSpans_partition [of "[9, 3, -1, 4]" False] m show ?thesis
    by (cases "MakeSubSpans [-1, 3, 4, 9] [2, 1, 3, 0] False") (simp_all only: d sum.case, auto)
qed

end
