(* ===== verification/RowSplit.thy ===== *)
theory RowSplit
  imports Spans
begin

text \<open>
  Splitting the rows of a large read into pieces (\<open>AlignBoundary\<close>, \<open>SplitRowSpans\<close> and the
  functions \<open>MakeRowUnitStart\<close> returns, all of \<open>cpp/arcae/data_partition.cc\<close>).

  Rows read from disk are numbered by their position in the concatenation of the spans that are
  read. Boundaries between pieces are such positions. A \<open>RowUnitStart\<close> gives the first row of
  the storage unit (a band of tiles, a compressed block) that holds a row; what the splitting
  needs of it is the locale \<open>row_units\<close>.
\<close>

section \<open>Binary search\<close>

text \<open>
  The loop of \<open>std::lower_bound\<close>, \<open>std::upper_bound\<close> and their ranges versions: halve \<open>len\<close>
  positions from \<open>first\<close>, where \<open>P\<close> holds before the point sought and fails from it on.
\<close>

fun partition_point :: "(nat \<Rightarrow> bool) \<Rightarrow> nat \<Rightarrow> nat \<Rightarrow> nat" where
  "partition_point P first len =
     (if len = 0 then first
      else let half = len div 2; mid = first + half
           in if P mid then partition_point P (Suc mid) (len - half - 1)
              else partition_point P first half)"

declare partition_point.simps [simp del]

definition partitioned :: "(nat \<Rightarrow> bool) \<Rightarrow> nat \<Rightarrow> nat \<Rightarrow> bool" where
  "partitioned P lo hi \<longleftrightarrow> (\<forall>a b. lo \<le> a \<and> a \<le> b \<and> b < hi \<and> P b \<longrightarrow> P a)"

lemma partitioned_mono: "partitioned P lo hi \<Longrightarrow> lo \<le> lo' \<Longrightarrow> hi' \<le> hi \<Longrightarrow> partitioned P lo' hi'"
  unfolding partitioned_def by (meson le_trans less_le_trans)

lemma partitionedD: "partitioned P lo hi \<Longrightarrow> lo \<le> a \<Longrightarrow> a \<le> b \<Longrightarrow> b < hi \<Longrightarrow> P b \<Longrightarrow> P a"
  unfolding partitioned_def by blast

lemma partition_point_correct:
  assumes "partitioned P lo (lo + len)"
  shows "lo \<le> partition_point P lo len \<and> partition_point P lo len \<le> lo + len \<and>
    (\<forall>q. lo \<le> q \<and> q < partition_point P lo len \<longrightarrow> P q) \<and>
    (\<forall>q. partition_point P lo len \<le> q \<and> q < lo + len \<longrightarrow> \<not> P q)"
  using assms
proof (induction P lo len rule: partition_point.induct)
  case (1 P first len)
  let ?mid = "first + len div 2"
  show ?case
  proof (cases "len = 0")
    case True
    then show ?thesis by (auto simp: partition_point.simps)
  next
    case False
    then have len: "Suc ?mid + (len - len div 2 - 1) = first + len" by linarith
    show ?thesis
    proof (cases "P ?mid")
      case True
      have "partitioned P (Suc ?mid) (Suc ?mid + (len - len div 2 - 1))"
        using "1.prems" by (rule partitioned_mono) (use len in auto)
      note IH = "1.IH"(1) [OF False refl refl True this, unfolded len]
      have eq: "partition_point P first len = partition_point P (Suc ?mid) (len - len div 2 - 1)"
        using False True by (subst partition_point.simps) (simp add: Let_def)
      have low: "P q" if "first \<le> q" "q < Suc ?mid" for q
        by (rule partitionedD [OF "1.prems", of q ?mid]) (use that True False in auto)
      define r where "r = partition_point P (Suc ?mid) (len - len div 2 - 1)"
      from IH have r: "Suc ?mid \<le> r" "r \<le> first + len"
        "\<forall>q. Suc ?mid \<le> q \<and> q < r \<longrightarrow> P q" "\<forall>q. r \<le> q \<and> q < first + len \<longrightarrow> \<not> P q"
        unfolding r_def by blast+
      have "P q" if "first \<le> q" "q < r" for q
        using low that r(3) not_less by blast
      moreover have "first \<le> r" using r(1) by linarith
      ultimately show ?thesis using r unfolding eq r_def [symmetric] by blast
    next
      case neg: False
      have "partitioned P first (first + len div 2)"
        using "1.prems" by (rule partitioned_mono) auto
      note IH = "1.IH"(2) [OF False refl refl neg this]
      have eq: "partition_point P first len = partition_point P first (len div 2)"
        using False neg by (subst partition_point.simps) (simp add: Let_def)
      have high: "\<not> P q" if "?mid \<le> q" "q < first + len" for q
        using "1.prems" that neg unfolding partitioned_def by (meson le_add1)
      define r where "r = partition_point P first (len div 2)"
      from IH have r: "first \<le> r" "r \<le> ?mid"
        "\<forall>q. first \<le> q \<and> q < r \<longrightarrow> P q" "\<forall>q. r \<le> q \<and> q < ?mid \<longrightarrow> \<not> P q"
        unfolding r_def by blast+
      have "\<not> P q" if "r \<le> q" "q < first + len" for q
        using high that r(4) not_less by blast
      moreover have "r \<le> first + len" using r(2) by linarith
      ultimately show ?thesis using r unfolding eq r_def [symmetric] by blast
    qed
  qed
qed

section \<open>Aligning a boundary to a storage unit\<close>

definition ascending :: "nat \<Rightarrow> (nat \<Rightarrow> nat) \<Rightarrow> bool" where
  "ascending n f \<longleftrightarrow> (\<forall>a b. a < b \<and> b < n \<longrightarrow> f a < f b)"

lemma ascendingD: "ascending n f \<Longrightarrow> a < b \<Longrightarrow> b < n \<Longrightarrow> f a < f b"
  unfolding ascending_def by blast

definition AlignBoundary :: "nat \<Rightarrow> nat \<Rightarrow> (nat \<Rightarrow> nat) \<Rightarrow> (nat \<Rightarrow> nat) \<Rightarrow> nat" where
  "AlignBoundary p nrows row_at unit_start =
     (let row = row_at p; unit = unit_start row
      in if unit = row then p
         else let first = partition_point (\<lambda>q. row_at q < unit) 0 p;
                  down = (if first = p then p else first);
                  up = partition_point (\<lambda>q. \<not> unit < unit_start (row_at q)) (p + 1) (nrows - (p + 1));
                  next_start = (if up = nrows then nrows else up)
              in if p - down \<le> next_start - p then down else next_start)"

text \<open>What a \<open>RowUnitStart\<close> promises: units are ranges of rows, named by their first row.\<close>

locale row_units =
  fixes unit_start :: "nat \<Rightarrow> nat"
  assumes unit_le: "unit_start r \<le> r"
    and unit_mono: "r \<le> r' \<Longrightarrow> unit_start r \<le> unit_start r'"
    and unit_idem: "unit_start (unit_start r) = unit_start r"
begin

text \<open>
  The boundary returned lies in the range, and unless it is an end of the range it separates two
  units: the row before it and the row at it are in different units.
\<close>

lemma AlignBoundary_separates:
  assumes "p < nrows" and asc: "ascending nrows row_at"
  shows "AlignBoundary p nrows row_at unit_start \<le> nrows \<and>
    (0 < AlignBoundary p nrows row_at unit_start \<and> AlignBoundary p nrows row_at unit_start < nrows \<longrightarrow>
      unit_start (row_at (AlignBoundary p nrows row_at unit_start - 1)) <
      unit_start (row_at (AlignBoundary p nrows row_at unit_start)))"
proof -
  define row where "row = row_at p"
  define u where "u = unit_start row"
  define dn where "dn = partition_point (\<lambda>q. row_at q < u) 0 p"
  define up where "up = partition_point (\<lambda>q. \<not> u < unit_start (row_at q)) (p + 1) (nrows - (p + 1))"
  have asc': "a \<le> b \<Longrightarrow> b < nrows \<Longrightarrow> row_at a \<le> row_at b" for a b
    using ascendingD [OF asc, of a b] by (cases "a = b") (auto intro: less_imp_le)
  have uu: "unit_start u = u" by (simp add: u_def unit_idem)
  have eq: "AlignBoundary p nrows row_at unit_start =
      (if u = row then p else if p - dn \<le> up - p then dn else up)"
    by (simp add: AlignBoundary_def Let_def row_def u_def dn_def up_def)
  have "0 \<le> dn \<and> dn \<le> 0 + p \<and> (\<forall>q. 0 \<le> q \<and> q < dn \<longrightarrow> row_at q < u) \<and>
      (\<forall>q. dn \<le> q \<and> q < 0 + p \<longrightarrow> \<not> row_at q < u)"
    unfolding dn_def
  proof (intro partition_point_correct, unfold partitioned_def, intro allI impI)
    fix a b assume "0 \<le> a \<and> a \<le> b \<and> b < 0 + p \<and> row_at b < u"
    then show "row_at a < u" using asc' [of a b] \<open>p < nrows\<close> by simp
  qed
  then have dn: "dn \<le> p" "\<forall>q < dn. row_at q < u" "\<forall>q. dn \<le> q \<and> q < p \<longrightarrow> \<not> row_at q < u"
    by auto
  have "p + 1 \<le> up \<and> up \<le> p + 1 + (nrows - (p + 1)) \<and>
      (\<forall>q. p + 1 \<le> q \<and> q < up \<longrightarrow> \<not> u < unit_start (row_at q)) \<and>
      (\<forall>q. up \<le> q \<and> q < p + 1 + (nrows - (p + 1)) \<longrightarrow> \<not> \<not> u < unit_start (row_at q))"
    unfolding up_def
  proof (intro partition_point_correct, unfold partitioned_def, intro allI impI)
    fix a b assume "p + 1 \<le> a \<and> a \<le> b \<and> b < p + 1 + (nrows - (p + 1)) \<and> \<not> u < unit_start (row_at b)"
    then have "a \<le> b" "b < nrows" "\<not> u < unit_start (row_at b)" using \<open>p < nrows\<close> by auto
    then show "\<not> u < unit_start (row_at a)" using unit_mono [OF asc' [of a b]] by simp
  qed
  then have up: "p < up" "up \<le> nrows" "\<forall>q. p < q \<and> q < up \<longrightarrow> unit_start (row_at q) \<le> u"
    "\<forall>q. up \<le> q \<and> q < nrows \<longrightarrow> u < unit_start (row_at q)"
    using \<open>p < nrows\<close> by (auto simp: not_less Suc_le_eq)
  have "unit_start (row_at (up - 1)) \<le> u"
    using up by (cases "up - 1 = p") (auto simp: u_def row_def)
  moreover have "unit_start (row_at (dn - 1)) < u \<and> u \<le> unit_start (row_at dn)" if "0 < dn"
  proof
    have "row_at (dn - 1) < u" using dn(2) that by simp
    then show "unit_start (row_at (dn - 1)) < u" using unit_le [of "row_at (dn - 1)"] by linarith
    have "u \<le> row_at dn"
      using dn(1,3) unit_le [of row] by (cases "dn = p") (auto simp: u_def row_def not_less)
    then show "u \<le> unit_start (row_at dn)" using unit_mono uu by metis
  qed
  moreover have "unit_start (row_at (p - 1)) < u" if "u = row" "0 < p"
    using ascendingD [OF asc, of "p - 1" p] that \<open>p < nrows\<close> unit_le [of "row_at (p - 1)"] by (simp add: row_def)
  ultimately show ?thesis
    using up dn(1) \<open>p < nrows\<close> unfolding eq by (auto simp: u_def row_def)
qed

end

section \<open>The storage units of a column\<close>

text \<open>
  The functions \<open>MakeRowUnitStart\<close> returns. Dysco compresses blocks of \<open>rows\<close> rows from row 0.
  For a tiled storage manager, casacore gives the hypercube of a row and the position of its cell
  in it (\<open>getHypercube\<close>, which throws for a row in no hypercube: \<open>None\<close>); the lookup is a
  parameter. Tile shapes are positive, so the remainder is defined.
\<close>

definition dysco_unit_start :: "nat \<Rightarrow> nat \<Rightarrow> nat" where
  "dysco_unit_start rows row = row - row mod rows"

record hypercube =
  cubeShape :: "nat list"
  tileShape :: "nat list"
  cell_position :: "nat list"

definition band_offset :: "hypercube \<Rightarrow> nat \<Rightarrow> nat" where
  "band_offset cube first_row_axis =
     (let last = length (cell_position cube) - 1
      in foldl (\<lambda>offset d. offset * cubeShape cube ! d + cell_position cube ! d)
           (cell_position cube ! last mod tileShape cube ! last)
           (rev [first_row_axis..<last]))"

definition tsm_unit_start :: "(nat \<Rightarrow> hypercube option) \<Rightarrow> int \<Rightarrow> nat \<Rightarrow> nat" where
  "tsm_unit_start getHypercube cell_ndim row =
     (case getHypercube row of
        None \<Rightarrow> row
      | Some cube \<Rightarrow>
          let ndim = int (length (cell_position cube));
              first_row_axis = (if 0 < cell_ndim then cell_ndim else ndim - 1)
          in if ndim \<le> first_row_axis \<or> int (length (tileShape cube)) \<noteq> ndim \<or>
                int (length (cubeShape cube)) \<noteq> ndim
             then row
             else let offset = band_offset cube (nat first_row_axis)
                  in if offset \<le> row then row - offset else row)"

text \<open>What \<open>MakeRowUnitStart\<close> reads of the table and of the column's data manager.\<close>

record column_storage =
  isRootTable :: bool
  dataManagerType :: string
  is_tiled :: bool
  hypercube_of :: "nat \<Rightarrow> hypercube option"
  cell_ndim :: int
  rowsPerBlock :: "nat option"
  throws :: bool

definition MakeRowUnitStart :: "column_storage \<Rightarrow> (nat \<Rightarrow> nat) option" where
  "MakeRowUnitStart st =
     (if \<not> isRootTable st then None
      else if throws st then None
      else if dataManagerType st = ''TiledCellStMan'' then None
      else if is_tiled st then
        (if cell_ndim st \<le> 0 \<and> dataManagerType st = ''TiledDataStMan'' then None
         else Some (tsm_unit_start (hypercube_of st) (cell_ndim st)))
      else if dataManagerType st = ''DyscoStMan'' then
        (case rowsPerBlock st of
           None \<Rightarrow> None
         | Some rows \<Rightarrow> if rows \<le> 1 then None else Some (dysco_unit_start rows))
      else None)"

lemma dysco_unit_start_eq: "dysco_unit_start rows row = rows * (row div rows)"
  by (simp add: dysco_unit_start_def minus_mod_eq_mult_div)

interpretation dysco: row_units "dysco_unit_start rows" for rows
proof
  fix r r' :: nat
  show "dysco_unit_start rows r \<le> r" by (simp add: dysco_unit_start_def)
  show "dysco_unit_start rows (dysco_unit_start rows r) = dysco_unit_start rows r"
    by (cases "rows = 0") (simp_all add: dysco_unit_start_eq)
  assume "r \<le> r'"
  then show "dysco_unit_start rows r \<le> dysco_unit_start rows r'"
    by (simp add: dysco_unit_start_eq div_le_mono)
qed

section \<open>Splitting the rows\<close>

text \<open>\<open>disk.size() == 0 || disk[0] < 0\<close>: nothing of such a span is read.\<close>

definition is_read :: "span_pair \<Rightarrow> bool" where
  "is_read sp \<longleftrightarrow> \<not> (disk sp = [] \<or> disk sp ! 0 < 0)"

fun starts_from :: "nat \<Rightarrow> index list list \<Rightarrow> nat list" where
  "starts_from start [] = []"
| "starts_from start (r # rs) = start # starts_from (start + length r) rs"

definition row_at :: "index list list \<Rightarrow> nat list \<Rightarrow> nat \<Rightarrow> nat" where
  "row_at read read_starts p =
     (let s = partition_point (\<lambda>k. \<not> p < read_starts ! k) 0 (length read_starts) - 1
      in nat (read ! s ! (p - read_starts ! s)))"

text \<open>
  The position before which piece \<open>split\<close> should end, and the loop over \<open>split\<close> that collects the
  position after the last row of each piece.
\<close>

definition piece_end :: "(nat \<Rightarrow> nat) option \<Rightarrow> (nat \<Rightarrow> nat) \<Rightarrow> nat \<Rightarrow> nat \<Rightarrow> nat \<Rightarrow> nat" where
  "piece_end unit_start rows nrows nsplits split =
     (let even = split * nrows div nsplits
      in case unit_start of None \<Rightarrow> even | Some u \<Rightarrow> AlignBoundary even nrows rows u)"

fun split_ends ::
  "(nat \<Rightarrow> nat) option \<Rightarrow> (nat \<Rightarrow> nat) \<Rightarrow> nat \<Rightarrow> nat \<Rightarrow> nat list \<Rightarrow> nat list \<Rightarrow> nat list" where
  "split_ends unit_start rows nrows nsplits [] ends = ends @ [nrows]"
| "split_ends unit_start rows nrows nsplits (split # splits) ends =
     (let end = piece_end unit_start rows nrows nsplits split
      in if (if ends = [] then 0 else last ends) < end \<and> end < nrows
         then split_ends unit_start rows nrows nsplits splits (ends @ [end])
         else split_ends unit_start rows nrows nsplits splits ends)"

text \<open>
  The inner loop over one span. \<open>None\<close> stands for a loop that does not end and for a read of
  \<open>ends\<close> past its last element or behind the current position.
\<close>

partial_function (option) split_span ::
  "nat list \<Rightarrow> span_pair \<Rightarrow> nat \<Rightarrow> nat \<Rightarrow> nat \<Rightarrow> span_pairs \<Rightarrow> (nat \<times> nat \<times> span_pairs) option" where
  "split_span ends sp start position piece result =
     (if start < length (disk sp) then
        if piece < length ends \<and> position \<le> ends ! piece then
          let n = min (length (disk sp) - start) (ends ! piece - position)
          in split_span ends sp (start + n) (position + n)
               (if position + n = ends ! piece then piece + 1 else piece)
               (result @ [\<lparr>disk = subspan start n (disk sp), mem = subspan start n (mem sp)\<rparr>])
        else None
      else Some (position, piece, result))"

fun split_spans :: "nat list \<Rightarrow> span_pairs \<Rightarrow> nat \<Rightarrow> nat \<Rightarrow> span_pairs \<Rightarrow> span_pairs option" where
  "split_spans ends [] position piece result = Some result"
| "split_spans ends (sp # sps) position piece result =
     (if \<not> is_read sp then split_spans ends sps position piece (result @ [sp])
      else case split_span ends sp 0 position piece result of
             None \<Rightarrow> None
           | Some (position', piece', result') \<Rightarrow> split_spans ends sps position' piece' result')"

definition SplitRowSpans ::
  "span_pairs \<Rightarrow> nat \<Rightarrow> nat \<Rightarrow> (nat \<Rightarrow> nat) option \<Rightarrow> span_pairs result" where
  "SplitRowSpans spans nrows nsplits unit_start =
     (let read = map disk (filter is_read spans);
          read_starts = starts_from 0 read;
          ends = split_ends unit_start (row_at read read_starts) nrows nsplits [1..<nsplits] []
      in case split_spans ends spans 0 0 [] of
           None \<Rightarrow> Inl (Undefined ''SplitRowSpans'')
         | Some result \<Rightarrow> Inr result)"

subsection \<open>Rows by position\<close>

lemma length_starts_from [simp, list_lens]: "length (starts_from a rs) = length rs"
  by (induction a rs rule: starts_from.induct) auto

lemma starts_from_nth: "k < length rs \<Longrightarrow> starts_from a rs ! k = a + length (concat (take k rs))"
proof (induction a rs arbitrary: k rule: starts_from.induct)
  case (2 a r rs)
  then show ?case by (cases k) auto
qed simp

lemma starts_from_mono: "j \<le> k \<Longrightarrow> k < length rs \<Longrightarrow> starts_from a rs ! j \<le> starts_from a rs ! k"
proof -
  assume jk: "j \<le> k" "k < length rs"
  have "take k rs = take j rs @ take (k - j) (drop j rs)" using take_add [of j "k - j" rs] jk by simp
  then show ?thesis using jk by (simp add: starts_from_nth)
qed

lemma row_at_concat:
  assumes "p < length (concat read)"
  shows "row_at read (starts_from 0 read) p = nat (concat read ! p)"
proof -
  let ?st = "starts_from 0 read"
  define r where "r = partition_point (\<lambda>k. \<not> p < ?st ! k) 0 (length ?st)"
  have "partitioned (\<lambda>k. \<not> p < ?st ! k) 0 (0 + length ?st)"
  proof (unfold partitioned_def, intro allI impI)
    fix a b assume "0 \<le> a \<and> a \<le> b \<and> b < 0 + length ?st \<and> \<not> p < ?st ! b"
    then have ab: "a \<le> b" "b < length read" "\<not> p < ?st ! b" by simp_all
    from starts_from_mono [OF ab(1,2), of 0] ab(3) show "\<not> p < ?st ! a" by (meson less_le_trans)
  qed
  note pp = partition_point_correct [OF this, folded r_def]
  have "r \<le> length read" and below: "\<forall>k < r. \<not> p < ?st ! k"
    and r3: "\<forall>k. r \<le> k \<and> k < length read \<longrightarrow> p < ?st ! k"
    using pp unfolding length_starts_from add_0 by blast+
  then have r: "r \<le> length read" "\<forall>k < r. ?st ! k \<le> p" by (simp_all only: not_less)
  have "read \<noteq> []" using assms by auto
  then have "?st ! 0 = 0" by (cases read) auto
  then have "0 < r" using r3 \<open>read \<noteq> []\<close> by (metis gr0I le_refl length_greater_0_conv not_less0)
  define s where "s = r - 1"
  have s: "s < length read" "?st ! s \<le> p" using r(1,2) \<open>0 < r\<close> by (auto simp: s_def)
  have dec: "read = take s read @ read ! s # drop (Suc s) read"
    using s(1) by (rule id_take_nth_drop)
  have st: "?st ! s = length (concat (take s read))" using s(1) by (simp add: starts_from_nth)
  have upper: "p < length (concat (take s read)) + length (read ! s)"
  proof (cases "Suc s < length read")
    case True
    then have "p < ?st ! Suc s" using r3 \<open>0 < r\<close> by (simp add: s_def)
    with True s(1) show ?thesis by (simp add: starts_from_nth take_Suc_conv_app_nth)
  next
    case False
    then have "drop (Suc s) read = []" by simp
    with dec assms show ?thesis by (metis append_Nil2 concat.simps concat_append length_append)
  qed
  have "concat read ! p = (concat (take s read) @ read ! s @ concat (drop (Suc s) read)) ! p"
    by (subst dec) simp
  also have "\<dots> = read ! s ! (p - ?st ! s)"
  proof -
    have "p - ?st ! s < length (read ! s)" using s(2) upper st by linarith
    with s(2) st show ?thesis by (simp add: nth_append)
  qed
  finally show ?thesis by (simp only: row_at_def Let_def flip: r_def s_def)
qed

subsection \<open>The ends of the pieces\<close>

lemma split_ends_sorted:
  assumes "sorted_wrt (<) ends" and "\<forall>e \<in> set ends. 0 < e \<and> e < N" and "0 < N"
  shows "sorted_wrt (<) (split_ends us rows N m ks ends) \<and>
    (\<forall>e \<in> set (split_ends us rows N m ks ends). 0 < e \<and> e \<le> N) \<and>
    split_ends us rows N m ks ends \<noteq> [] \<and> last (split_ends us rows N m ks ends) = N"
  using assms(1,2)
proof (induction ks arbitrary: ends)
  case Nil
  then show ?case using assms(3) by (auto simp: sorted_wrt_append)
next
  case (Cons k ks)
  let ?e = "piece_end us rows N m k"
  show ?case
  proof (cases "(if ends = [] then 0 else last ends) < ?e \<and> ?e < N")
    case True
    have "sorted_wrt (<) (ends @ [?e])"
    proof (cases ends rule: rev_cases)
      case (snoc es l)
      then have "l < ?e" and "\<forall>x \<in> set es. x < l" using True Cons.prems by (auto simp: sorted_wrt_append)
      then have "\<forall>x \<in> set es. x < ?e" by (blast intro: less_trans)
      with snoc \<open>l < ?e\<close> Cons.prems show ?thesis by (simp add: sorted_wrt_append)
    qed simp
    moreover have "0 < ?e" and "?e < N" using le_less_trans [OF le0 conjunct1 [OF True]] True by blast+
    then have "\<forall>e \<in> set (ends @ [?e]). 0 < e \<and> e < N" using Cons.prems by simp
    moreover have "split_ends us rows N m (k # ks) ends = split_ends us rows N m ks (ends @ [?e])"
      using True by (simp only: split_ends.simps Let_def if_True simp_thms)
    ultimately show ?thesis using Cons.IH [of "ends @ [?e]"] by metis
  next
    case False
    then have "split_ends us rows N m (k # ks) ends = split_ends us rows N m ks ends"
      by (simp only: split_ends.simps Let_def if_False)
    with Cons.IH [OF Cons.prems] show ?thesis by metis
  qed
qed

lemma even_split_less: "0 < m \<Longrightarrow> m \<le> N \<Longrightarrow> j * N div m < Suc j * N div (m :: nat)"
proof -
  assume m: "0 < m" "m \<le> N"
  have "Suc (j * N div m) = (j * N + m) div m" using m div_add_self2 [of m "j * N"] by simp
  also have "\<dots> \<le> Suc j * N div m" using m by (intro div_le_mono) simp
  finally show ?thesis by simp
qed

lemma even_split_size:
  assumes "0 < (m :: nat)"
  shows "n div m \<le> Suc i * n div m - i * n div m \<and> Suc i * n div m - i * n div m \<le> n div m + 1"
proof -
  have "i * n mod m + n mod m < 2 * m"
    using mod_less_divisor [OF assms, of "i * n"] mod_less_divisor [OF assms, of n] by linarith
  then have "(i * n mod m + n mod m) div m \<le> 1" using less_mult_imp_div_less [of _ 2 m] by fastforce
  moreover have "Suc i * n div m = i * n div m + n div m + (i * n mod m + n mod m) div m"
    using div_add1_eq [of "i * n" n m] by (simp add: add.commute)
  ultimately show ?thesis by simp
qed

lemma split_ends_even:
  assumes "0 < m" and "m \<le> N" and "1 \<le> j" and "j \<le> m"
  shows "split_ends None rows N m [j..<m] (map (\<lambda>k. k * N div m) [1..<j]) =
    map (\<lambda>k. k * N div m) [1..<m + 1]"
  using assms(3,4)
proof (induction "m - j" arbitrary: j)
  case 0
  then show ?case using assms(1) by simp
next
  case (Suc n)
  let ?ends = "map (\<lambda>k. k * N div m) [1..<j]"
  have j: "j < m" using Suc by simp
  have less: "(if ?ends = [] then 0 else last ?ends) < j * N div m"
  proof (cases "j = 1")
    case True
    with even_split_less [OF assms(1,2), of 0] show ?thesis by simp
  next
    case False
    then obtain i where i: "j = Suc i" "1 \<le> i" using Suc.prems(1) by (cases j) auto
    then have "?ends = map (\<lambda>k. k * N div m) [1..<i] @ [i * N div m]" by simp
    with even_split_less [OF assms(1,2), of i] i show ?thesis by simp
  qed
  have "j * N < N * m" using j assms by (simp add: mult.commute)
  then have "j * N div m < N" using assms(1) by (simp add: less_mult_imp_div_less)
  moreover have "piece_end None rows N m j = j * N div m" by (simp add: piece_end_def)
  ultimately have "split_ends None rows N m [j..<m] ?ends =
      split_ends None rows N m [Suc j..<m] (?ends @ [j * N div m])"
    using j less by (simp only: upt_conv_Cons split_ends.simps Let_def if_True simp_thms)
  also have "?ends @ [j * N div m] = map (\<lambda>k. k * N div m) [1..<Suc j]"
    using Suc.prems(1) by simp
  finally show ?case using Suc.hyps(1) [of "Suc j"] Suc.hyps(2) j by simp
qed

context row_units begin

lemma split_ends_aligned:
  assumes "ascending N rows" and "0 < N"
    and "\<forall>k \<in> set ks. k < m"
    and "\<forall>e \<in> set ends. unit_start (rows (e - 1)) < unit_start (rows e)"
    and "\<forall>e \<in> set ends. 0 < e"
  shows "\<forall>e \<in> set (split_ends (Some unit_start) rows N m ks ends). e < N \<longrightarrow>
      unit_start (rows (e - 1)) < unit_start (rows e)"
  using assms(3-5)
proof (induction ks arbitrary: ends)
  case (Cons k ks)
  let ?e = "piece_end (Some unit_start) rows N m k"
  have "k * N < N * m" using Cons.prems(1) assms(2) by simp
  then have "k * N div m < N" by (simp add: less_mult_imp_div_less)
  from AlignBoundary_separates [OF this assms(1)]
  have e: "0 < ?e \<and> ?e < N \<longrightarrow> unit_start (rows (?e - 1)) < unit_start (rows ?e)"
    by (simp add: piece_end_def)
  show ?case
  proof (cases "(if ends = [] then 0 else last ends) < ?e \<and> ?e < N")
    case True
    have "0 < ?e" and "?e < N" using le_less_trans [OF le0 conjunct1 [OF True]] True by blast+
    with Cons.prems e have "\<forall>e \<in> set (ends @ [?e]). unit_start (rows (e - 1)) < unit_start (rows e)"
      and "\<forall>e \<in> set (ends @ [?e]). 0 < e" and "\<forall>k \<in> set ks. k < m" by simp_all
    moreover have "split_ends (Some unit_start) rows N m (k # ks) ends =
        split_ends (Some unit_start) rows N m ks (ends @ [?e])"
      using True by (simp only: split_ends.simps Let_def if_True simp_thms)
    ultimately show ?thesis using Cons.IH [of "ends @ [?e]"] by metis
  next
    case False
    then have "split_ends (Some unit_start) rows N m (k # ks) ends =
        split_ends (Some unit_start) rows N m ks ends"
      by (simp only: split_ends.simps Let_def if_False)
    moreover have "\<forall>k \<in> set ks. k < m" using Cons.prems(1) by simp
    ultimately show ?thesis using Cons.IH [OF _ Cons.prems(2,3)] by metis
  qed
qed auto

end

subsection \<open>The pieces\<close>

text \<open>Running totals of a list of sizes: where each piece ends.\<close>

fun cum :: "nat \<Rightarrow> nat list \<Rightarrow> nat list" where
  "cum a [] = []"
| "cum a (n # ns) = (a + n) # cum (a + n) ns"

abbreviation sizes :: "span_pairs \<Rightarrow> nat list" where
  "sizes sps \<equiv> map (\<lambda>s. length (disk s)) sps"

text \<open>\<open>piece\<close> is the piece that holds \<open>position\<close>: the ends before it have been reached, no other.\<close>

definition piece_inv :: "nat list \<Rightarrow> nat \<Rightarrow> nat \<Rightarrow> bool" where
  "piece_inv ends piece position \<longleftrightarrow> piece \<le> length ends \<and>
     (\<forall>k < piece. ends ! k \<le> position) \<and> (\<forall>k. piece \<le> k \<and> k < length ends \<longrightarrow> position < ends ! k)"

lemma piece_inv_advance:
  assumes "sorted_wrt (<) ends" and "piece_inv ends piece position" and "piece < length ends"
    and "position \<le> position'" and "position' \<le> ends ! piece"
  shows "piece_inv ends (if position' = ends ! piece then piece + 1 else piece) position'"
proof -
  have above: "ends ! piece < ends ! k" if "piece < k" "k < length ends" for k
    using assms(1) that by (simp add: sorted_wrt_iff_nth_less)
  have "position' < ends ! k" if "piece < k" "k < length ends" for k
    using above [OF that] assms(5) by linarith
  moreover have "ends ! k \<le> position'" if "k < piece" for k
    using that assms(2,4) unfolding piece_inv_def by (meson le_trans)
  moreover have "position' < ends ! k" if "piece \<le> k" "k < length ends" "position' \<noteq> ends ! piece" for k
  proof (cases "k = piece")
    case False
    with that above [of k] assms(5) show ?thesis by linarith
  qed (use that assms(5) in simp)
  ultimately show ?thesis
    using assms(3) unfolding piece_inv_def by (auto simp: less_Suc_eq Suc_le_eq)
qed

lemma piece_inv_filter:
  assumes "sorted_wrt (<) ends" and "piece_inv ends piece position" and "piece < length ends"
  shows "filter (\<lambda>e. position < e \<and> e < b) ends =
    (if ends ! piece < b then ends ! piece # filter (\<lambda>e. ends ! piece < e \<and> e < b) ends else [])"
proof -
  let ?pre = "take piece ends" and ?post = "drop (Suc piece) ends"
  have ends: "ends = ?pre @ ends ! piece # ?post" using assms(3) by (rule id_take_nth_drop)
  have pre: "\<forall>e \<in> set ?pre. e \<le> position"
    using assms(2) by (auto simp: piece_inv_def in_set_conv_nth)
  have pos: "position < ends ! piece" using assms(2,3) by (simp add: piece_inv_def)
  have post: "\<forall>e \<in> set ?post. ends ! piece < e"
    using assms(1,3) by (auto simp: sorted_wrt_iff_nth_less in_set_conv_nth)
  have f1: "filter (\<lambda>e. position < e \<and> e < b) ?pre = []" "filter (\<lambda>e. ends ! piece < e \<and> e < b) ?pre = []"
    using pre pos by (auto simp: filter_empty_conv)
  have f2: "filter (\<lambda>e. position < e \<and> e < b) ?post = filter (\<lambda>e. e < b) ?post"
    "filter (\<lambda>e. ends ! piece < e \<and> e < b) ?post = filter (\<lambda>e. e < b) ?post"
    using post pos by (auto intro!: filter_cong intro: less_trans)
  have f3: "filter (\<lambda>e. e < b) ?post = []" if "\<not> ends ! piece < b"
    using post that by (auto simp: filter_empty_conv)
  have "filter (\<lambda>e. position < e \<and> e < b) ends =
      filter (\<lambda>e. position < e \<and> e < b) (?pre @ ends ! piece # ?post)" using ends by simp
  also have "\<dots> = (if ends ! piece < b then [ends ! piece] else []) @ filter (\<lambda>e. e < b) ?post"
    using pos f1 f2 by simp
  finally have l: "filter (\<lambda>e. position < e \<and> e < b) ends =
      (if ends ! piece < b then [ends ! piece] else []) @ filter (\<lambda>e. e < b) ?post" .
  have "filter (\<lambda>e. ends ! piece < e \<and> e < b) ends =
      filter (\<lambda>e. ends ! piece < e \<and> e < b) (?pre @ ends ! piece # ?post)" using ends by simp
  also have "\<dots> = filter (\<lambda>e. e < b) ?post" using f1 f2 by simp
  finally show ?thesis using l f3 by simp
qed

text \<open>Pieces of one span: ranges of it, in order, that end at the ends of pieces or of the span.\<close>

definition pieces_of :: "span_pair \<Rightarrow> span_pairs \<Rightarrow> bool" where
  "pieces_of sp new \<longleftrightarrow> (\<forall>s \<in> set new. disk s \<noteq> [] \<and>
     (\<exists>a n. s = \<lparr>disk = subspan a n (disk sp), mem = subspan a n (mem sp)\<rparr>))"

lemma split_span_correct:
  assumes "sorted_wrt (<) ends" and "length (mem sp) = length (disk sp)"
    and "piece_inv ends piece position" and "start \<le> length (disk sp)" and "ends \<noteq> []"
    and "position + (length (disk sp) - start) \<le> last ends"
  shows "\<exists>piece' new.
    split_span ends sp start position piece result =
      Some (position + (length (disk sp) - start), piece', result @ new) \<and>
    piece_inv ends piece' (position + (length (disk sp) - start)) \<and> pieces_of sp new \<and>
    concat (map disk new) = drop start (disk sp) \<and> concat (map mem new) = drop start (mem sp) \<and>
    cum position (sizes new) =
      (if start < length (disk sp)
       then filter (\<lambda>e. position < e \<and> e < position + (length (disk sp) - start)) ends @
            [position + (length (disk sp) - start)]
       else [])"
  using assms(3,4,6)
proof (induction "length (disk sp) - start" arbitrary: start position piece result rule: less_induct)
  case less
  let ?len = "length (disk sp)"
  show ?case
  proof (cases "start < ?len")
    case False
    with less.prems assms(2) show ?thesis
      by (intro exI [of _ piece] exI [of _ "[]"]) (simp add: split_span.simps pieces_of_def)
  next
    case True
    have piece: "piece < length ends"
    proof (rule ccontr)
      assume "\<not> piece < length ends"
      then have "last ends \<le> position"
        using less.prems(1) assms(5) by (simp add: piece_inv_def last_conv_nth)
      with less.prems(3) True show False by simp
    qed
    then have pos: "position < ends ! piece" using less.prems(1) by (simp add: piece_inv_def)
    define n where "n = min (?len - start) (ends ! piece - position)"
    have n: "0 < n" "start + n \<le> ?len" "position + n \<le> ends ! piece"
      using True pos by (auto simp: n_def)
    have total: "position + n + (?len - (start + n)) = position + (?len - start)" using n(2) by simp
    let ?piece = "if position + n = ends ! piece then piece + 1 else piece"
    let ?s = "\<lparr>disk = subspan start n (disk sp), mem = subspan start n (mem sp)\<rparr>"
    have inv: "piece_inv ends ?piece (position + n)"
      using piece_inv_advance [OF assms(1) less.prems(1) piece, of "position + n"] n(3) by simp
    have dec: "?len - (start + n) < ?len - start" using True n(1) by linarith
    obtain piece' new where
      run: "split_span ends sp (start + n) (position + n) ?piece (result @ [?s]) =
        Some (position + (?len - start), piece', (result @ [?s]) @ new)"
      and inv': "piece_inv ends piece' (position + (?len - start))" and new: "pieces_of sp new"
      and cat: "concat (map disk new) = drop (start + n) (disk sp)" "concat (map mem new) = drop (start + n) (mem sp)"
      and cum: "cum (position + n) (sizes new) =
        (if start + n < ?len
         then filter (\<lambda>e. position + n < e \<and> e < position + (?len - start)) ends @ [position + (?len - start)]
         else [])"
      using less.hyps [OF dec inv n(2), of "result @ [?s]"] less.prems(3) unfolding total by blast
    have "split_span ends sp start position piece result =
        Some (position + (?len - start), piece', result @ ?s # new)"
      using run True piece pos by (subst split_span.simps) (simp add: n_def [symmetric] Let_def)
    moreover have "pieces_of sp (?s # new)"
    proof -
      have "subspan start n (disk sp) \<noteq> []" using n True by (simp add: subspan_def)
      then show ?thesis using new by (auto simp: pieces_of_def)
    qed
    moreover have "concat (map disk (?s # new)) = drop start (disk sp)"
      and "concat (map mem (?s # new)) = drop start (mem sp)"
      using cat by (simp_all add: subspan_def add.commute [of start] flip: drop_drop)
    moreover have "cum position (sizes (?s # new)) =
        filter (\<lambda>e. position < e \<and> e < position + (?len - start)) ends @ [position + (?len - start)]"
    proof (cases "start + n < ?len")
      case True
      then have "position + n = ends ! piece" using pos by (simp add: n_def)
      with True cum n show ?thesis
        using piece_inv_filter [OF assms(1) less.prems(1) piece, of "position + (?len - start)"] by simp
    next
      case False
      then have "n = ?len - start" using n(2) by simp
      with False cum n show ?thesis
        using piece_inv_filter [OF assms(1) less.prems(1) piece, of "position + (?len - start)"] by simp
    qed
    ultimately show ?thesis using inv' True by (intro exI [of _ piece'] exI [of _ "?s # new"]) simp
  qed
qed

fun piece_ends :: "nat list \<Rightarrow> nat \<Rightarrow> nat list \<Rightarrow> nat list" where
  "piece_ends ends a [] = []"
| "piece_ends ends a (n # ns) = filter (\<lambda>e. a < e \<and> e < a + n) ends @ (a + n) # piece_ends ends (a + n) ns"

lemma cum_append: "cum a (xs @ ys) = cum a xs @ cum (a + sum_list xs) ys"
  by (induction xs arbitrary: a) (auto simp: add.assoc)

lemma length_cum [simp, list_lens]: "length (cum a ns) = length ns"
  by (induction ns arbitrary: a) auto

lemma sum_sizes: "sum_list (sizes sps) = length (concat (map disk sps))"
  by (induction sps) auto

lemma length_piece_ends:
  "sorted_wrt (<) ends \<Longrightarrow> length (piece_ends ends a ns) \<le> length (filter (\<lambda>e. a < e \<and> e < a + sum_list ns) ends) + length ns"
proof (induction ns arbitrary: a)
  case (Cons n ns)
  have "length (filter (\<lambda>e. a < e \<and> e < a + n) ends) + length (filter (\<lambda>e. a + n < e \<and> e < a + n + sum_list ns) ends) =
      length (filter (\<lambda>e. (a < e \<and> e < a + n) \<or> (a + n < e \<and> e < a + n + sum_list ns)) ends)"
    by (induction ends) auto
  also have "\<dots> \<le> length (filter (\<lambda>e. a < e \<and> e < a + sum_list (n # ns)) ends)"
    by (induction ends) auto
  finally show ?case using Cons.IH [OF Cons.prems, of "a + n"] by (simp add: add.assoc)
qed simp

definition span_ok :: "span_pair \<Rightarrow> bool" where
  "span_ok sp \<longleftrightarrow> length (mem sp) = length (disk sp) \<and> (is_read sp \<longrightarrow> (\<forall>x \<in> set (disk sp). 0 \<le> x))"

lemma pieces_of_read:
  assumes "pieces_of sp new" and "is_read sp" and "span_ok sp"
  shows "filter is_read new = new" and "\<forall>s \<in> set new. span_ok s \<and> is_read s"
proof -
  have "is_read s \<and> span_ok s" if "s \<in> set new" for s
  proof -
    from assms(1) [unfolded pieces_of_def, THEN bspec, OF that]
    obtain a n where s: "s = \<lparr>disk = subspan a n (disk sp), mem = subspan a n (mem sp)\<rparr>" "disk s \<noteq> []"
      by (elim conjE exE)
    have "\<forall>x \<in> set (disk s). 0 \<le> x"
      using s(1) set_subspan_subset [of a n "disk sp"] assms(2,3) by (auto simp: span_ok_def)
    moreover have "disk s ! 0 \<in> set (disk s)" using s(2) by simp
    ultimately show ?thesis using s assms(3) by (auto simp: is_read_def span_ok_def)
  qed
  then show "filter is_read new = new" and "\<forall>s \<in> set new. span_ok s \<and> is_read s"
    by (auto simp: filter_id_conv)
qed

lemma split_spans_correct:
  assumes "sorted_wrt (<) ends" and "ends \<noteq> []"
    and "\<forall>sp \<in> set sps. span_ok sp" and "piece_inv ends piece position"
    and "position + sum_list (sizes (filter is_read sps)) \<le> last ends"
  shows "\<exists>new. split_spans ends sps position piece result = Some (result @ new) \<and>
    concat (map disk new) = concat (map disk sps) \<and> concat (map mem new) = concat (map mem sps) \<and>
    (\<forall>s \<in> set new. span_ok s) \<and>
    (\<forall>s \<in> set new. is_read s \<longrightarrow> (\<exists>sp \<in> set sps. is_read sp \<and> pieces_of sp [s])) \<and>
    filter (\<lambda>s. \<not> is_read s) new = filter (\<lambda>s. \<not> is_read s) sps \<and>
    concat (map disk (filter is_read new)) = concat (map disk (filter is_read sps)) \<and>
    cum position (sizes (filter is_read new)) = piece_ends ends position (sizes (filter is_read sps))"
  using assms(3-5)
proof (induction sps arbitrary: position piece result)
  case (Cons sp sps)
  show ?case
  proof (cases "is_read sp")
    case False
    with Cons.prems have prems: "\<forall>sp \<in> set sps. span_ok sp" "piece_inv ends piece position"
      "position + sum_list (sizes (filter is_read sps)) \<le> last ends" by auto
    obtain new where "split_spans ends sps position piece (result @ [sp]) = Some ((result @ [sp]) @ new) \<and>
        concat (map disk new) = concat (map disk sps) \<and> concat (map mem new) = concat (map mem sps) \<and>
        (\<forall>s \<in> set new. span_ok s) \<and>
        (\<forall>s \<in> set new. is_read s \<longrightarrow> (\<exists>sp \<in> set sps. is_read sp \<and> pieces_of sp [s])) \<and>
        filter (\<lambda>s. \<not> is_read s) new = filter (\<lambda>s. \<not> is_read s) sps \<and>
        concat (map disk (filter is_read new)) = concat (map disk (filter is_read sps)) \<and>
        cum position (sizes (filter is_read new)) = piece_ends ends position (sizes (filter is_read sps))"
      using Cons.IH [OF prems, of "result @ [sp]"] by blast
    with False Cons.prems(1) show ?thesis by (intro exI [of _ "sp # new"]) simp
  next
    case True
    let ?n = "length (disk sp)"
    have ok: "span_ok sp" and rest: "\<forall>sp \<in> set sps. span_ok sp" using Cons.prems(1) by auto
    have sum: "position + ?n + sum_list (sizes (filter is_read sps)) \<le> last ends"
      using Cons.prems(3) True by simp
    obtain piece' new where
      run: "split_span ends sp 0 position piece result = Some (position + ?n, piece', result @ new)"
      and inv: "piece_inv ends piece' (position + ?n)" and new: "pieces_of sp new"
      and cat: "concat (map disk new) = disk sp" "concat (map mem new) = mem sp"
      and cum: "cum position (sizes new) =
        (if 0 < ?n then filter (\<lambda>e. position < e \<and> e < position + ?n) ends @ [position + ?n] else [])"
      using split_span_correct [OF assms(1) _ Cons.prems(2) _ assms(2), of sp 0 result] ok sum
      by (auto simp: span_ok_def)
    note new_read = pieces_of_read [OF new True ok]
    have "0 < ?n" using True by (auto simp: is_read_def)
    obtain new' where
      "split_spans ends sps (position + ?n) piece' (result @ new) = Some ((result @ new) @ new') \<and>
        concat (map disk new') = concat (map disk sps) \<and> concat (map mem new') = concat (map mem sps) \<and>
        (\<forall>s \<in> set new'. span_ok s) \<and>
        (\<forall>s \<in> set new'. is_read s \<longrightarrow> (\<exists>sp \<in> set sps. is_read sp \<and> pieces_of sp [s])) \<and>
        filter (\<lambda>s. \<not> is_read s) new' = filter (\<lambda>s. \<not> is_read s) sps \<and>
        concat (map disk (filter is_read new')) = concat (map disk (filter is_read sps)) \<and>
        cum (position + ?n) (sizes (filter is_read new')) =
          piece_ends ends (position + ?n) (sizes (filter is_read sps))"
      using Cons.IH [OF rest inv sum, of "result @ new"] by blast
    moreover have "filter (\<lambda>s. \<not> is_read s) new = []" using new_read(2) by (auto simp: filter_empty_conv)
    moreover have "\<forall>s \<in> set new. pieces_of sp [s]" using new by (auto simp: pieces_of_def)
    moreover have "sum_list (sizes new) = ?n" using cat(1) by (simp only: sum_sizes)
    ultimately show ?thesis using True cat cum new_read \<open>0 < ?n\<close>
      by (intro exI [of _ "new @ new'"]) (auto simp: run cum_append)
  qed
qed simp

subsection \<open>What the split returns\<close>

definition read_rows :: "span_pairs \<Rightarrow> index list" where
  "read_rows spans = concat (map disk (filter is_read spans))"

definition ends_of :: "span_pairs \<Rightarrow> nat \<Rightarrow> nat \<Rightarrow> (nat \<Rightarrow> nat) option \<Rightarrow> nat list" where
  "ends_of spans nrows nsplits us =
     (let read = map disk (filter is_read spans)
      in split_ends us (row_at read (starts_from 0 read)) nrows nsplits [1..<nsplits] [])"

lemma length_split_ends: "length (split_ends us rows N m ks ends) \<le> length ends + length ks + 1"
proof (induction ks arbitrary: ends)
  case (Cons k ks)
  have "length (split_ends us rows N m ks (ends @ [e])) \<le> length ends + length (k # ks) + 1" for e
    using Cons.IH [of "ends @ [e]"] by simp
  moreover have "length (split_ends us rows N m ks ends) \<le> length ends + length (k # ks) + 1"
    using Cons.IH [of ends] by simp
  ultimately show ?case by (simp add: Let_def)
qed simp

lemma SplitRowSpans_run:
  assumes "\<forall>sp \<in> set spans. span_ok sp" and "nrows = length (read_rows spans)" and "0 < nrows"
  obtains res where "SplitRowSpans spans nrows nsplits us = Inr res"
    and "concat (map disk res) = concat (map disk spans)" and "concat (map mem res) = concat (map mem spans)"
    and "\<forall>s \<in> set res. span_ok s"
    and "\<forall>s \<in> set res. is_read s \<longrightarrow> (\<exists>sp \<in> set spans. is_read sp \<and> pieces_of sp [s])"
    and "filter (\<lambda>s. \<not> is_read s) res = filter (\<lambda>s. \<not> is_read s) spans"
    and "read_rows res = read_rows spans"
    and "cum 0 (sizes (filter is_read res)) =
      piece_ends (ends_of spans nrows nsplits us) 0 (sizes (filter is_read spans))"
proof -
  let ?ends = "ends_of spans nrows nsplits us"
  let ?rows = "row_at (map disk (filter is_read spans)) (starts_from 0 (map disk (filter is_read spans)))"
  have ends: "sorted_wrt (<) ?ends" "?ends \<noteq> []" "last ?ends = nrows"
    "\<forall>e \<in> set ?ends. 0 < e \<and> e \<le> nrows"
    using split_ends_sorted [of "[]" nrows us ?rows nsplits "[1..<nsplits]"] assms(3)
    by (simp_all add: ends_of_def Let_def)
  have inv: "piece_inv ?ends 0 0" using ends(4) by (auto simp: piece_inv_def)
  have "0 + sum_list (sizes (filter is_read spans)) \<le> last ?ends"
    using assms(2) ends(3) by (simp add: sum_sizes read_rows_def)
  from split_spans_correct [OF ends(1,2) assms(1) inv this, of "[]"]
  obtain new where new: "split_spans ?ends spans 0 0 [] = Some ([] @ new) \<and>
    concat (map disk new) = concat (map disk spans) \<and> concat (map mem new) = concat (map mem spans) \<and>
    (\<forall>s \<in> set new. span_ok s) \<and>
    (\<forall>s \<in> set new. is_read s \<longrightarrow> (\<exists>sp \<in> set spans. is_read sp \<and> pieces_of sp [s])) \<and>
    filter (\<lambda>s. \<not> is_read s) new = filter (\<lambda>s. \<not> is_read s) spans \<and>
    concat (map disk (filter is_read new)) = concat (map disk (filter is_read spans)) \<and>
    cum 0 (sizes (filter is_read new)) = piece_ends ?ends 0 (sizes (filter is_read spans))"
    by blast
  show ?thesis
    by (rule that [of new]) (use new in \<open>simp_all add: SplitRowSpans_def Let_def ends_of_def read_rows_def\<close>)
qed

lemma ends_of_facts:
  assumes "0 < nrows"
  shows "sorted_wrt (<) (ends_of spans nrows nsplits us)" "ends_of spans nrows nsplits us \<noteq> []"
    "last (ends_of spans nrows nsplits us) = nrows"
    "\<forall>e \<in> set (ends_of spans nrows nsplits us). 0 < e \<and> e \<le> nrows"
  using split_ends_sorted [of "[]" nrows us _ nsplits "[1..<nsplits]"] assms
  by (simp_all add: ends_of_def Let_def)

text \<open>When one span holds every row that is read, the pieces end exactly at the collected ends.\<close>

lemma piece_ends_single:
  assumes "sorted_wrt (<) ends" and "ends \<noteq> []" and "last ends = N" and "\<forall>e \<in> set ends. 0 < e"
  shows "piece_ends ends 0 [N] = ends"
proof (cases ends rule: rev_cases)
  case (snoc es l)
  with assms have "\<forall>e \<in> set es. 0 < e \<and> e < N" "l = N" by (auto simp: sorted_wrt_append)
  then have "filter (\<lambda>e. 0 < e \<and> e < N) es = es" by (simp add: filter_id_conv)
  with snoc \<open>l = N\<close> show ?thesis by simp
qed (use assms in simp)

lemma cum_nth: "i < length ns \<Longrightarrow> cum a ns ! i = a + sum_list (take (Suc i) ns)"
proof (induction ns arbitrary: a i)
  case (Cons n ns)
  then show ?case by (cases i) auto
qed simp

lemma piece_borders:
  assumes "\<forall>s \<in> set sps. disk s \<noteq> []" and "Suc i < length sps"
  shows "last (disk (sps ! i)) = concat (map disk sps) ! (cum 0 (sizes sps) ! i - 1)"
    and "hd (disk (sps ! Suc i)) = concat (map disk sps) ! (cum 0 (sizes sps) ! i)"
proof -
  let ?pre = "concat (map disk (take i sps))" and ?post = "concat (map disk (drop (Suc (Suc i)) sps))"
  have "sps = take i sps @ sps ! i # sps ! Suc i # drop (Suc (Suc i)) sps"
    using assms(2) by (simp add: Cons_nth_drop_Suc)
  then have cat: "concat (map disk sps) = ?pre @ disk (sps ! i) @ disk (sps ! Suc i) @ ?post"
    by (metis (no_types, lifting) concat.simps(2) concat_append list.simps(9) map_append)
  have c: "cum 0 (sizes sps) ! i = length ?pre + length (disk (sps ! i))"
    using assms(2) by (simp add: cum_nth take_map take_Suc_conv_app_nth sum_sizes [symmetric])
  have ne: "disk (sps ! i) \<noteq> []" "disk (sps ! Suc i) \<noteq> []" using assms by auto
  from ne(1) have "length ?pre + length (disk (sps ! i)) - 1 = length ?pre + (length (disk (sps ! i)) - 1)"
    by (cases "disk (sps ! i)") auto
  with ne show "last (disk (sps ! i)) = concat (map disk sps) ! (cum 0 (sizes sps) ! i - 1)"
    unfolding c cat by (simp add: nth_append last_conv_nth)
  from ne show "hd (disk (sps ! Suc i)) = concat (map disk sps) ! (cum 0 (sizes sps) ! i)"
    unfolding c cat by (simp add: nth_append hd_conv_nth)
qed

section \<open>Properties\<close>

text \<open>
  C19. Splitting the rows of a read terminates without an out of range access, whatever the storage
  units are, and changes nothing but the grouping: the disk indices and the memory positions
  of the result, span after span, are those of the input; the spans of missing rows are kept as they
  are; every other span is a range of one input span; and there are at most \<open>nsplits\<close> pieces, plus
  one for every further span that is read.
\<close>

theorem SplitRowSpans_regroups:
  assumes "\<forall>sp \<in> set spans. span_ok sp" and "nrows = length (read_rows spans)" and "0 < nrows"
    and "0 < nsplits"
  shows "\<exists>res. SplitRowSpans spans nrows nsplits unit_start = Inr res \<and>
    concat (map disk res) = concat (map disk spans) \<and> concat (map mem res) = concat (map mem spans) \<and>
    filter (\<lambda>s. \<not> is_read s) res = filter (\<lambda>s. \<not> is_read s) spans \<and>
    (\<forall>s \<in> set res. is_read s \<longrightarrow> (\<exists>sp \<in> set spans. is_read sp \<and> pieces_of sp [s])) \<and>
    length (filter is_read res) < nsplits + length (filter is_read spans)"
proof -
  let ?ends = "ends_of spans nrows nsplits unit_start"
  obtain res where res: "SplitRowSpans spans nrows nsplits unit_start = Inr res"
    "concat (map disk res) = concat (map disk spans)" "concat (map mem res) = concat (map mem spans)"
    "\<forall>s \<in> set res. is_read s \<longrightarrow> (\<exists>sp \<in> set spans. is_read sp \<and> pieces_of sp [s])"
    "filter (\<lambda>s. \<not> is_read s) res = filter (\<lambda>s. \<not> is_read s) spans"
    "cum 0 (sizes (filter is_read res)) = piece_ends ?ends 0 (sizes (filter is_read spans))"
    using SplitRowSpans_run [OF assms(1-3)] by metis
  note ends = ends_of_facts [OF assms(3), of spans nsplits unit_start]
  have N: "sum_list (sizes (filter is_read spans)) = nrows"
    using assms(2) by (simp only: sum_sizes read_rows_def)
  have "filter (\<lambda>e. 0 < e \<and> e < nrows) ?ends = butlast ?ends"
  proof -
    have "?ends = butlast ?ends @ [nrows]" using ends(2,3) append_butlast_last_id by metis
    then obtain es where es: "?ends = es @ [nrows]" by blast
    then have "\<forall>e \<in> set es. 0 < e \<and> e < nrows" using ends(1,4) by (simp add: sorted_wrt_append)
    then have "filter (\<lambda>e. 0 < e \<and> e < nrows) es = es" by (simp add: filter_id_conv)
    then show ?thesis by (simp add: es)
  qed
  moreover have "length ?ends \<le> nsplits"
    using length_split_ends [of unit_start _ nrows nsplits "[1..<nsplits]" "[]"] assms(4)
    by (simp add: ends_of_def Let_def)
  ultimately have "length (filter (\<lambda>e. 0 < e \<and> e < nrows) ?ends) < nsplits"
    using ends(2) assms(4) by (cases ?ends) auto
  moreover have "length (filter is_read res) = length (piece_ends ?ends 0 (sizes (filter is_read spans)))"
    using arg_cong [OF res(6), of length] by simp
  ultimately have "length (filter is_read res) < nsplits + length (filter is_read spans)"
    using length_piece_ends [OF ends(1), of 0 "sizes (filter is_read spans)"] N by simp
  with res show ?thesis by blast
qed

theorem SplitRowSpans_regroups_witness:
  "\<exists>res. SplitRowSpans [\<lparr>disk = [-1], mem = [1]\<rparr>, \<lparr>disk = [0, 4, 5, 6], mem = [3, 2, 0, 4]\<rparr>] 4 2
      (Some (dysco_unit_start 4)) = Inr res \<and> concat (map disk res) = [-1, 0, 4, 5, 6]"
proof -
  let ?sps = "[\<lparr>disk = [-1], mem = [1]\<rparr>, \<lparr>disk = [0, 4, 5, 6], mem = [3, 2, 0, 4]\<rparr>]"
  have "\<forall>sp \<in> set ?sps. span_ok sp" by (auto simp: span_ok_def is_read_def)
  moreover have "4 = length (read_rows ?sps)" by (simp add: read_rows_def is_read_def)
  ultimately show ?thesis
    using SplitRowSpans_regroups [of ?sps 4 2 "Some (dysco_unit_start 4)"] by fastforce
qed

text \<open>
  C30. Without storage units, a span of rows is split evenly: into exactly as many pieces
  as asked for, whose sizes differ by at most one row.
\<close>

theorem SplitRowSpans_even:
  assumes "\<forall>s \<in> set spans. span_ok s" and "filter is_read spans = [sp]"
    and "nrows = length (disk sp)" and "0 < nsplits" and "nsplits \<le> nrows"
  shows "\<exists>res. SplitRowSpans spans nrows nsplits None = Inr res \<and>
    length (filter is_read res) = nsplits \<and>
    (\<forall>a \<in> set (filter is_read res). \<forall>b \<in> set (filter is_read res).
       length (disk a) \<le> length (disk b) + 1)"
proof -
  have rr: "nrows = length (read_rows spans)" using assms(2,3) by (simp add: read_rows_def)
  have pos: "0 < nrows" using assms(4,5) by simp
  obtain res where res: "SplitRowSpans spans nrows nsplits None = Inr res"
    "cum 0 (sizes (filter is_read res)) = piece_ends (ends_of spans nrows nsplits None) 0 (sizes (filter is_read spans))"
    using SplitRowSpans_run [OF assms(1) rr pos] by metis
  note ends = ends_of_facts [OF pos, of spans nsplits None]
  have "ends_of spans nrows nsplits None = map (\<lambda>k. k * nrows div nsplits) [1..<nsplits + 1]"
    using split_ends_even [of nsplits nrows 1] assms(4,5) by (simp add: ends_of_def Let_def)
  then have cum: "cum 0 (sizes (filter is_read res)) = map (\<lambda>k. k * nrows div nsplits) [1..<nsplits + 1]"
    using res(2) piece_ends_single [OF ends(1-3)] ends(4) assms(2,3) by simp
  let ?ns = "sizes (filter is_read res)"
  have len: "length ?ns = nsplits" using arg_cong [OF cum, of length] by simp
  have size: "?ns ! i = Suc i * nrows div nsplits - i * nrows div nsplits" if "i < nsplits" for i
  proof -
    have c: "cum 0 ?ns ! j = Suc j * nrows div nsplits" if "j < nsplits" for j
      using that cum by (simp del: upt_Suc)
    have "sum_list (take (Suc i) ?ns) = Suc i * nrows div nsplits" "sum_list (take i ?ns) = i * nrows div nsplits"
      using c [OF that] c [of "i - 1"] that len by (cases i; simp add: cum_nth)+
    moreover have "sum_list (take (Suc i) ?ns) = sum_list (take i ?ns) + ?ns ! i"
      using that len by (simp add: take_Suc_conv_app_nth)
    ultimately show ?thesis by simp
  qed
  have bound: "nrows div nsplits \<le> ?ns ! i \<and> ?ns ! i \<le> nrows div nsplits + 1" if "i < nsplits" for i
    using size [OF that] even_split_size [OF assms(4), of nrows i] by simp
  then have "\<forall>x \<in> set ?ns. nrows div nsplits \<le> x \<and> x \<le> nrows div nsplits + 1"
    using len by (metis in_set_conv_nth)
  then have "\<forall>a \<in> set (filter is_read res). \<forall>b \<in> set (filter is_read res). length (disk a) \<le> length (disk b) + 1"
  proof (intro ballI)
    fix a b assume "a \<in> set (filter is_read res)" "b \<in> set (filter is_read res)"
    then have "length (disk a) \<in> set ?ns" "length (disk b) \<in> set ?ns" by auto
    with \<open>\<forall>x \<in> set ?ns. _ x\<close> have "length (disk a) \<le> nrows div nsplits + 1" "nrows div nsplits \<le> length (disk b)"
      by blast+
    then show "length (disk a) \<le> length (disk b) + 1" by linarith
  qed
  with res(1) len show ?thesis by auto
qed

theorem SplitRowSpans_even_witness:
  "\<exists>res. SplitRowSpans [\<lparr>disk = [0, 1, 2, 3, 4, 5, 6], mem = [0, 1, 2, 3, 4, 5, 6]\<rparr>] 7 3 None = Inr res \<and>
     length (filter is_read res) = 3"
proof -
  let ?sp = "\<lparr>disk = [0, 1, 2, 3, 4, 5, 6], mem = [0, 1, 2, 3, 4, 5, 6]\<rparr>"
  have "\<forall>s \<in> set [?sp]. span_ok s" by (auto simp: span_ok_def is_read_def)
  moreover have "filter is_read [?sp] = [?sp]" by (simp add: is_read_def)
  ultimately show ?thesis using SplitRowSpans_even [of "[?sp]" ?sp 7 3] by fastforce
qed

text \<open>
  C29. Aligned splits never share a storage unit: when one span holds the rows that are read, in
  ascending order, then for any two consecutive pieces the last row of one and the first row of
  the next are in different units, the second one later. Units are monotone in the rows, so
  no unit is read by two pieces.
\<close>

theorem SplitRowSpans_aligned:
  assumes "row_units u" and "\<forall>s \<in> set spans. span_ok s" and "filter is_read spans = [sp]"
    and "nrows = length (disk sp)" and "range_ok True (disk sp)"
  shows "\<exists>res. SplitRowSpans spans nrows nsplits (Some u) = Inr res \<and>
    (\<forall>i. Suc i < length (filter is_read res) \<longrightarrow>
       u (nat (last (disk (filter is_read res ! i)))) < u (nat (hd (disk (filter is_read res ! Suc i)))))"
proof -
  let ?d = "disk sp"
  have "sp \<in> set (filter is_read spans)" using assms(3) by simp
  then have sp: "is_read sp" "span_ok sp" using assms(2) by auto
  then have ne: "?d \<noteq> []" and nonneg: "\<forall>x \<in> set ?d. 0 \<le> x" by (auto simp: is_read_def span_ok_def)
  have rr: "read_rows spans = ?d" using assms(3) by (simp add: read_rows_def)
  have pos: "0 < nrows" using ne assms(4) by simp
  have "hd ?d \<in> set ?d" using ne by simp
  with nonneg assms(5) have "successively (<) ?d" by (fastforce simp: range_ok_def)
  then have sorted: "sorted_wrt (<) ?d" by (simp add: successively_conv_sorted_wrt)
  let ?rows = "row_at [?d] (starts_from 0 [?d])"
  have rows: "?rows p = nat (?d ! p)" if "p < nrows" for p
    using row_at_concat [of p "[?d]"] that assms(4) by simp
  have asc: "ascending nrows ?rows"
    unfolding ascending_def
  proof (intro allI impI)
    fix a b assume ab: "a < b \<and> b < nrows"
    then have "?d ! a < ?d ! b" using sorted assms(4) by (simp add: sorted_wrt_iff_nth_less)
    moreover have "0 \<le> ?d ! a" using ab nonneg assms(4) by simp
    ultimately show "?rows a < ?rows b" using rows ab by simp
  qed
  obtain res where res: "SplitRowSpans spans nrows nsplits (Some u) = Inr res"
    "read_rows res = read_rows spans" "\<forall>s \<in> set res. span_ok s"
    "cum 0 (sizes (filter is_read res)) = piece_ends (ends_of spans nrows nsplits (Some u)) 0 (sizes (filter is_read spans))"
    using SplitRowSpans_run [OF assms(2) _ pos] rr assms(4) by metis
  note ends = ends_of_facts [OF pos, of spans nsplits "Some u"]
  have cum: "cum 0 (sizes (filter is_read res)) = ends_of spans nrows nsplits (Some u)"
    using res(4) piece_ends_single [OF ends(1-3)] ends(4) assms(3,4) by simp
  have aligned: "\<forall>e \<in> set (ends_of spans nrows nsplits (Some u)). e < nrows \<longrightarrow> u (?rows (e - 1)) < u (?rows e)"
    using row_units.split_ends_aligned [OF assms(1) asc pos, of "[1..<nsplits]" nsplits "[]"] assms(3)
    by (simp add: ends_of_def Let_def)
  let ?ps = "filter is_read res"
  have "u (nat (last (disk (?ps ! i)))) < u (nat (hd (disk (?ps ! Suc i))))" if i: "Suc i < length ?ps" for i
  proof -
    let ?e = "cum 0 (sizes ?ps) ! i"
    have cat: "concat (map disk ?ps) = ?d" using res(2) rr by (simp add: read_rows_def)
    have "\<forall>s \<in> set ?ps. disk s \<noteq> []" by (auto simp: is_read_def)
    note borders = piece_borders [OF this i, unfolded cat]
    have e: "?e \<in> set (ends_of spans nrows nsplits (Some u))" using i unfolding cum [symmetric] by simp
    have "cum 0 (sizes ?ps) ! i < cum 0 (sizes ?ps) ! Suc i"
      using ends(1) i unfolding cum [symmetric] by (simp add: sorted_wrt_iff_nth_less)
    moreover have "cum 0 (sizes ?ps) ! Suc i \<le> nrows"
      using ends(4) i unfolding cum [symmetric] by simp
    ultimately have "?e < nrows" by simp
    moreover from this have "?e - 1 < nrows" by simp
    ultimately show ?thesis using aligned e borders rows by simp
  qed
  with res(1) show ?thesis by blast
qed

theorem SplitRowSpans_aligned_witness:
  "row_units (dysco_unit_start 4) \<and>
   (\<exists>res. SplitRowSpans [\<lparr>disk = [0, 1, 2, 5, 6, 9], mem = [0, 1, 2, 3, 4, 5]\<rparr>] 6 2 (Some (dysco_unit_start 4)) = Inr res)"
proof -
  let ?sp = "\<lparr>disk = [0, 1, 2, 5, 6, 9], mem = [0, 1, 2, 3, 4, 5 :: nat]\<rparr>"
  have ok: "\<forall>s \<in> set [?sp]. span_ok s" by (auto simp: span_ok_def is_read_def)
  have one: "filter is_read [?sp] = [?sp]" by (simp add: is_read_def)
  have len: "6 = length (disk ?sp)" by simp
  have rng: "range_ok True (disk ?sp)" by (simp add: range_ok_def)
  show ?thesis
    using SplitRowSpans_aligned [OF dysco.row_units_axioms ok one len rng] dysco.row_units_axioms by blast
qed

end
