(* ===== verification/NDIndex.thy ===== *)
theory NDIndex
  imports Prelude
begin

text \<open>
  FORTRAN ordered (column major) arrays, the layout of every buffer and every casacore array the
  code handles. The first dimension is the fastest. \<open>strides_from\<close> gives the strides, \<open>lin\<close>
  the linear index of a multi-index, \<open>box\<close> all multi-indices of a shape in memory order.
  The theory holds no code: it is the arithmetic the partition and the copy loops rest on.
\<close>

section \<open>Strides and linear indices\<close>

definition dot :: "nat list \<Rightarrow> nat list \<Rightarrow> nat" where
  "dot xs ys = sum_list (map2 (*) xs ys)"

fun strides_from :: "nat \<Rightarrow> shape \<Rightarrow> nat list" where
  "strides_from p [] = []"
| "strides_from p (s # ss) = p # strides_from (p * s) ss"

definition lin :: "shape \<Rightarrow> nat list \<Rightarrow> nat" where
  "lin sh idx = dot idx (strides_from 1 sh)"

definition in_box :: "shape \<Rightarrow> nat list \<Rightarrow> bool" where
  "in_box sh idx \<longleftrightarrow> list_all2 (<) idx sh"

lemma dot_simps [simp]:
  "dot [] ys = 0" "dot xs [] = 0" "dot (x # xs) (y # ys) = x * y + dot xs ys"
  by (simp_all add: dot_def)

lemma length_strides_from [simp, list_lens]: "length (strides_from p sh) = length sh"
  by (induction p sh rule: strides_from.induct) auto

lemma strides_from_nth: "d < length sh \<Longrightarrow> strides_from p sh ! d = p * prod_list (take d sh)"
proof (induction p sh arbitrary: d rule: strides_from.induct)
  case (2 p s ss)
  then show ?case by (cases d) auto
qed simp

lemma dot_strides_scale: "dot idx (strides_from (p * q) sh) = p * dot idx (strides_from q sh)"
proof (induction idx arbitrary: q sh)
  case (Cons i idx)
  show ?case
  proof (cases sh)
    case (Cons s ss)
    have "dot idx (strides_from (p * (q * s)) ss) = p * dot idx (strides_from (q * s) ss)"
      by (rule Cons.IH)
    with Cons show ?thesis by (simp add: algebra_simps)
  qed simp
qed simp

lemma lin_Nil [simp]: "lin [] idx = 0" "lin sh [] = 0"
  by (simp_all add: lin_def)

lemma lin_Cons [simp]: "lin (s # ss) (i # is) = i + s * lin ss is"
  using dot_strides_scale [of "is" s 1 ss] by (simp add: lin_def)

lemma in_box_simps [simp]:
  "in_box [] idx \<longleftrightarrow> idx = []" "in_box sh [] \<longleftrightarrow> sh = []"
  "in_box (s # ss) (i # is) \<longleftrightarrow> i < s \<and> in_box ss is"
  by (auto simp: in_box_def)

lemma in_box_Cons: "in_box (s # ss) idx \<longleftrightarrow> (\<exists>i is. idx = i # is \<and> i < s \<and> in_box ss is)"
  by (cases idx) auto

lemma in_box_length: "in_box sh idx \<Longrightarrow> length idx = length sh"
  by (simp add: in_box_def list_all2_lengthD)

lemma in_box_conv: "in_box sh idx \<longleftrightarrow> length idx = length sh \<and> (\<forall>d < length sh. idx ! d < sh ! d)"
  by (auto simp: in_box_def list_all2_conv_all_nth)

lemma lin_less: "in_box sh idx \<Longrightarrow> lin sh idx < prod_list sh"
proof (induction sh arbitrary: idx)
  case (Cons s ss)
  then obtain i "is" where idx: "idx = i # is" and "i < s" and b: "in_box ss is"
    by (auto simp: in_box_Cons)
  have "Suc (lin ss is) \<le> prod_list ss" using Cons.IH [OF b] by simp
  then have "s * Suc (lin ss is) \<le> s * prod_list ss" by (rule mult_le_mono2)
  with \<open>i < s\<close> idx show ?case by simp
qed simp

lemma lin_inj: "in_box sh a \<Longrightarrow> in_box sh b \<Longrightarrow> lin sh a = lin sh b \<Longrightarrow> a = b"
proof (induction sh arbitrary: a b)
  case (Cons s ss)
  then obtain i "is" j js where a: "a = i # is" "i < s" "in_box ss is"
    and b: "b = j # js" "j < s" "in_box ss js" by (auto simp: in_box_Cons)
  from Cons.prems(3) a(1) b(1) have eq: "i + s * lin ss is = j + s * lin ss js" by simp
  have "i = (i + s * lin ss is) mod s" using a(2) by simp
  also have "\<dots> = j" using b(2) eq by simp
  finally have "i = j" .
  with eq a(2) have "lin ss is = lin ss js" by simp
  with Cons.IH a b \<open>i = j\<close> show ?case by blast
qed simp

section \<open>Enumeration in memory order\<close>

fun box :: "shape \<Rightarrow> nat list list" where
  "box [] = [[]]"
| "box (s # ss) = concat (map (\<lambda>is. map (\<lambda>i. i # is) [0..<s]) (box ss))"

lemma set_box: "set (box sh) = {idx. in_box sh idx}"
proof (induction sh)
  case (Cons s ss)
  then show ?case by (auto simp: in_box_Cons)
qed auto

lemma length_box [simp, list_lens]: "length (box sh) = prod_list sh"
  by (induction sh) (auto simp: length_concat comp_def sum_list_map_const)

lemma map_lin_box: "map (lin sh) (box sh) = [0..<prod_list sh]"
proof (induction sh)
  case (Cons s ss)
  have blocks: "concat (map (\<lambda>k. map (\<lambda>i. i + s * k) [0..<s]) [0..<n]) = [0..<s * n]" for n
  proof (induction n)
    case (Suc n)
    have "map (\<lambda>i. i + s * n) [0..<s] = [s * n..<s * n + s]"
      by (simp add: map_add_upt add.commute)
    moreover have "[0..<s * n + s] = [0..<s * n] @ [s * n..<s * n + s]"
      by (rule upt_add_eq_append) simp
    ultimately show ?case using Suc by (simp add: add.commute)
  qed simp
  have "map (lin (s # ss)) (box (s # ss)) =
      concat (map (\<lambda>is. map (\<lambda>i. i + s * lin ss is) [0..<s]) (box ss))"
    by (simp add: map_concat comp_def)
  also have "\<dots> = concat (map (\<lambda>k. map (\<lambda>i. i + s * k) [0..<s]) (map (lin ss) (box ss)))"
    by (simp add: comp_def)
  also have "\<dots> = [0..<s * prod_list ss]" by (simp only: Cons.IH blocks)
  finally show ?case by simp
qed simp

lemma lin_box_nth: "k < prod_list sh \<Longrightarrow> lin sh (box sh ! k) = k"
  using arg_cong [OF map_lin_box [of sh], of "\<lambda>xs. xs ! k"] by simp

lemma box_nth_in_box: "k < prod_list sh \<Longrightarrow> in_box sh (box sh ! k)"
  using set_box [of sh] by (metis length_box mem_Collect_eq nth_mem)

lemma box_nth_lin: "in_box sh idx \<Longrightarrow> box sh ! lin sh idx = idx"
  by (rule lin_inj [OF box_nth_in_box]) (auto simp: lin_less lin_box_nth)

lemma distinct_box: "distinct (box sh)"
  by (metis distinct_map distinct_upt map_lin_box)

section \<open>The last dimension\<close>

lemma lin_snoc: "length is = length ss \<Longrightarrow> lin (ss @ [s]) (is @ [i]) = lin ss is + prod_list ss * i"
proof (induction ss arbitrary: "is")
  case (Cons t ss)
  then obtain j js where "is = j # js" "length js = length ss" by (cases "is") auto
  with Cons.IH [of js] show ?case by (simp add: algebra_simps)
qed simp

lemma box_snoc: "box (ss @ [s]) = concat (map (\<lambda>i. map (\<lambda>is. is @ [i]) (box ss)) [0..<s])"
proof (induction ss)
  case Nil
  have "concat (map (\<lambda>i. [[i]]) [0..<s]) = map (\<lambda>i. [i]) [0..<s]" by (rule concat_map_singleton)
  then show ?case by simp
next
  case (Cons t ss)
  have "concat (concat xsss) = concat (map concat xsss)" for xsss :: "nat list list list list"
    by (induction xsss) auto
  with Cons show ?case by (simp add: map_concat comp_def)
qed

lemma in_box_snoc: "in_box (ss @ [s]) idx \<longleftrightarrow> (\<exists>is i. idx = is @ [i] \<and> in_box ss is \<and> i < s)"
proof (cases idx rule: rev_cases)
  case (snoc js j)
  have "in_box (ss @ [s]) (js @ [j]) \<longleftrightarrow> in_box ss js \<and> j < s"
  proof
    assume b: "in_box (ss @ [s]) (js @ [j])"
    then have len: "length js = length ss" by (auto dest: in_box_length)
    from b show "in_box ss js \<and> j < s" by (simp add: in_box_def list_all2_append len)
  next
    assume "in_box ss js \<and> j < s"
    then show "in_box (ss @ [s]) (js @ [j])" by (auto simp: in_box_def intro: list_all2_appendI)
  qed
  with snoc show ?thesis by auto
qed simp

end
