(* ===== verification/TypeTraits.thy ===== *)
theory TypeTraits
  imports Prelude
begin

text \<open>
  The type traits of \<open>cpp/arcae/type_traits.h\<close> and \<open>type_traits.cc\<close>: which CASA data types the
  code handles, their sizes in memory, the arrow type that stores them, and the dispatch on
  them. \<open>TpOther\<close> stands for every other enumerator of casacore's \<open>DataType\<close> (tables, arrays,
  records), which all reach the \<open>default\<close> of the switches. The size of \<open>casacore::String\<close>
  depends on the C++ library and is a parameter.
\<close>

datatype casa_dtype =
    TpBool | TpChar | TpUChar | TpShort | TpUShort | TpInt | TpUInt | TpInt64
  | TpFloat | TpDouble | TpComplex | TpDComplex | TpString | TpOther int

datatype arrow_dtype =
    uint8 | int8 | int16 | uint16 | int32 | uint32 | int64 | float32 | float64 | utf8

fun CasaDataTypeSize :: "nat \<Rightarrow> casa_dtype \<Rightarrow> nat result" where
  "CasaDataTypeSize string_size TpBool = Inr 1"
| "CasaDataTypeSize string_size TpChar = Inr 1"
| "CasaDataTypeSize string_size TpUChar = Inr 1"
| "CasaDataTypeSize string_size TpShort = Inr 2"
| "CasaDataTypeSize string_size TpUShort = Inr 2"
| "CasaDataTypeSize string_size TpInt = Inr 4"
| "CasaDataTypeSize string_size TpUInt = Inr 4"
| "CasaDataTypeSize string_size TpInt64 = Inr 8"
| "CasaDataTypeSize string_size TpFloat = Inr 4"
| "CasaDataTypeSize string_size TpDouble = Inr 8"
| "CasaDataTypeSize string_size TpComplex = Inr 8"
| "CasaDataTypeSize string_size TpDComplex = Inr 16"
| "CasaDataTypeSize string_size TpString = Inr string_size"
| "CasaDataTypeSize string_size (TpOther t) = Inl (NotImplemented [Str ''Data type '', Num t])"

fun ArrowDataType :: "casa_dtype \<Rightarrow> arrow_dtype result" where
  "ArrowDataType TpBool = Inr uint8"
| "ArrowDataType TpChar = Inr int8"
| "ArrowDataType TpUChar = Inr uint8"
| "ArrowDataType TpShort = Inr int16"
| "ArrowDataType TpUShort = Inr uint16"
| "ArrowDataType TpInt = Inr int32"
| "ArrowDataType TpUInt = Inr uint32"
| "ArrowDataType TpInt64 = Inr int64"
| "ArrowDataType TpFloat = Inr float32"
| "ArrowDataType TpDouble = Inr float64"
| "ArrowDataType TpComplex = Inr float32"
| "ArrowDataType TpDComplex = Inr float64"
| "ArrowDataType TpString = Inr utf8"
| "ArrowDataType (TpOther t) = Inl (TypeError [Str ''No arrow type for CASA type '', Num t])"

text \<open>\<open>CasaDataTypeTraits<CDT>::is_complex\<close>.\<close>

fun is_complex :: "casa_dtype \<Rightarrow> bool" where
  "is_complex TpComplex = True"
| "is_complex TpDComplex = True"
| "is_complex _ = False"

text \<open>
  \<open>DispatchCasaType\<close> instantiates a generic callable at the compile time constant of its data
  type; the callable of the model takes that data type as its argument.
\<close>

fun DispatchCasaType :: "casa_dtype \<Rightarrow> (casa_dtype \<Rightarrow> 'a result) \<Rightarrow> 'a result" where
  "DispatchCasaType (TpOther t) fn = Inl (NotImplemented [Str ''Data type '', Num t])"
| "DispatchCasaType dt fn = fn dt"

text \<open>Bytes of one value of a primitive arrow type (strings have no fixed width).\<close>

fun arrow_width :: "arrow_dtype \<Rightarrow> nat option" where
  "arrow_width uint8 = Some 1"
| "arrow_width int8 = Some 1"
| "arrow_width int16 = Some 2"
| "arrow_width uint16 = Some 2"
| "arrow_width int32 = Some 4"
| "arrow_width uint32 = Some 4"
| "arrow_width int64 = Some 8"
| "arrow_width float32 = Some 4"
| "arrow_width float64 = Some 8"
| "arrow_width utf8 = None"

end
