(* ===== verification/Selections.thy ===== *)
theory Selections
  imports Prelude
begin

text \<open>
  Selections of \<open>cpp/arcae/selection.h\<close>. A \<open>Selection\<close> holds one span of indices per dimension,
  in FORTRAN order with the row dimension last; an empty span means that the dimension is not
  selected. \<open>indices\<close> are the vectors the selection owns. A span is modelled by the indices it
  shows: the vectors a span points into are never modified after the span is made, and moving a
  vector keeps its elements in place, so the lifetime of spans is not part of the model.
\<close>

record selection =
  indices :: "index list list"
  spans :: "index list list"

definition empty_selection :: selection where
  "empty_selection = \<lparr>indices = [], spans = []\<rparr>"

definition Size :: "selection \<Rightarrow> nat" where
  "Size sel = length (spans sel)"

definition nIndices :: "selection \<Rightarrow> nat" where
  "nIndices sel = length (indices sel)"

definition IsValid :: "selection \<Rightarrow> nat \<Rightarrow> bool" where
  "IsValid sel dim \<longleftrightarrow> dim < Size sel \<and> spans sel ! dim \<noteq> []"

text \<open>\<open>operator bool\<close>: every dimension is selected, and there is at least one.\<close>

definition is_selected :: "selection \<Rightarrow> bool" where
  "is_selected sel \<longleftrightarrow> (if Size sel = 0 then False else list_all (\<lambda>s. s \<noteq> []) (spans sel))"

definition HasRowSpan :: "selection \<Rightarrow> bool" where
  "HasRowSpan sel \<longleftrightarrow> spans sel \<noteq> [] \<and> spans sel ! (Size sel - 1) \<noteq> []"

definition GetRowSpan :: "selection \<Rightarrow> index list" where
  "GetRowSpan sel = spans sel ! (Size sel - 1)"

text \<open>Dimensions are compared as \<open>std::ptrdiff_t\<close>, so the differences may be negative.\<close>

definition CSpan :: "selection \<Rightarrow> nat \<Rightarrow> index list result" where
  "CSpan sel cdim =
     (let size = int (Size sel); sdim = size - int cdim - 1
      in if 0 \<le> sdim \<and> sdim < size \<and> spans sel ! nat sdim \<noteq> []
         then Inr (spans sel ! nat sdim)
         else Inl (IndexError [Str ''Selection doesn't exist for dimension '', Num (int cdim)]))"

definition MaybeFSpan :: "selection \<Rightarrow> nat \<Rightarrow> nat \<Rightarrow> index list option" where
  "MaybeFSpan sel fdim ndim =
     (let size = int (Size sel); sdim = int fdim - int ndim + size
      in if 0 \<le> sdim \<and> sdim < size \<and> spans sel ! nat sdim \<noteq> []
         then Some (spans sel ! nat sdim)
         else None)"

definition FSpan :: "selection \<Rightarrow> nat \<Rightarrow> nat \<Rightarrow> index list result" where
  "FSpan sel fdim ndim =
     (case MaybeFSpan sel fdim ndim of
        Some span \<Rightarrow> Inr span
      | None \<Rightarrow> Inl (IndexError [Str ''Selection doesn't exist for dimension '', Num (int fdim)]))"

text \<open>The overload with the selection's own number of dimensions.\<close>

definition FSpan1 :: "selection \<Rightarrow> nat \<Rightarrow> index list result" where
  "FSpan1 sel fdim = FSpan sel fdim (Size sel)"

section \<open>The builder\<close>

datatype SelectionOrder = C_ORDER | F_ORDER

record builder =
  b_indices :: "index list list"
  b_spans :: "index list list"
  b_order :: SelectionOrder

definition new_builder :: builder where
  "new_builder = \<lparr>b_indices = [], b_spans = [], b_order = C_ORDER\<rparr>"

definition Build :: "builder \<Rightarrow> selection" where
  "Build b = \<lparr>indices = b_indices b,
              spans = (if b_order b = C_ORDER then rev (b_spans b) else b_spans b)\<rparr>"

definition Order :: "char \<Rightarrow> builder \<Rightarrow> builder" where
  "Order c b = b\<lparr>b_order := (if c = CHR ''F'' then F_ORDER else C_ORDER)\<rparr>"

definition AddEmpty :: "builder \<Rightarrow> builder" where
  "AddEmpty b = b\<lparr>b_spans := b_spans b @ [[]]\<rparr>"

definition AddSpan :: "index list \<Rightarrow> builder \<Rightarrow> builder" where
  "AddSpan ids b = b\<lparr>b_spans := b_spans b @ [ids]\<rparr>"

text \<open>
  The element type of a supplied vector: the index type itself, or another integral type, whose
  values are converted to it (an unsigned 64 bit value may wrap).
\<close>

datatype elem_type = IndexElem | IntegralElem

definition to_index :: "elem_type \<Rightarrow> int list \<Rightarrow> index list" where
  "to_index t ids = (case t of IndexElem \<Rightarrow> ids | IntegralElem \<Rightarrow> map wrap_int64 ids)"

text \<open>
  \<open>Add(const std::vector<T>&)\<close>: a vector of indices is only viewed, any other is copied into the
  selection. \<open>Add(std::vector<T>&&)\<close> and \<open>Add(std::initializer_list<T>)\<close> always store it.
\<close>

definition AddVector :: "elem_type \<Rightarrow> int list \<Rightarrow> builder \<Rightarrow> builder" where
  "AddVector t ids b =
     (case t of
        IndexElem \<Rightarrow> b\<lparr>b_spans := b_spans b @ [ids]\<rparr>
      | IntegralElem \<Rightarrow>
          b\<lparr>b_indices := b_indices b @ [to_index t ids], b_spans := b_spans b @ [to_index t ids]\<rparr>)"

definition AddMoved :: "elem_type \<Rightarrow> int list \<Rightarrow> builder \<Rightarrow> builder" where
  "AddMoved t ids b =
     b\<lparr>b_indices := b_indices b @ [to_index t ids], b_spans := b_spans b @ [to_index t ids]\<rparr>"

definition AddInit :: "elem_type \<Rightarrow> int list \<Rightarrow> builder \<Rightarrow> builder" where
  "AddInit t ids b = AddMoved IndexElem (to_index t ids) b"

text \<open>An argument of \<open>FromArgs\<close>: an lvalue or an rvalue vector.\<close>

datatype arg = LValue elem_type "int list" | RValue elem_type "int list"

fun Add :: "arg \<Rightarrow> builder \<Rightarrow> builder" where
  "Add (LValue t ids) b = AddVector t ids b"
| "Add (RValue t ids) b = AddMoved t ids b"

fun ProcessArgs :: "arg list \<Rightarrow> builder \<Rightarrow> builder" where
  "ProcessArgs [] b = b"
| "ProcessArgs (a # as) b = ProcessArgs as (Add a b)"

definition FromArgs :: "arg list \<Rightarrow> selection" where
  "FromArgs as = Build (Order (CHR ''F'') (ProcessArgs as new_builder))"

definition FromInit :: "elem_type \<Rightarrow> int list list \<Rightarrow> selection" where
  "FromInit t init = Build (fold (AddInit t) init new_builder)"

section \<open>Lemmas\<close>

lemma Size_Build [simp]: "Size (Build b) = length (b_spans b)"
  by (simp add: Size_def Build_def)

lemma MaybeFSpan_nat:
  "MaybeFSpan sel fdim ndim =
     (if ndim \<le> fdim + Size sel \<and> fdim < ndim \<and> spans sel ! (fdim + Size sel - ndim) \<noteq> []
      then Some (spans sel ! (fdim + Size sel - ndim)) else None)"
proof -
  have "nat (int fdim - int ndim + int (Size sel)) = fdim + Size sel - ndim" by linarith
  moreover have "0 \<le> int fdim - int ndim + int (Size sel) \<longleftrightarrow> ndim \<le> fdim + Size sel" by linarith
  ultimately show ?thesis by (simp add: MaybeFSpan_def Let_def)
qed

lemma CSpan_nat:
  "CSpan sel cdim =
     (if cdim < Size sel \<and> spans sel ! (Size sel - 1 - cdim) \<noteq> []
      then Inr (spans sel ! (Size sel - 1 - cdim))
      else Inl (IndexError [Str ''Selection doesn't exist for dimension '', Num (int cdim)]))"
proof -
  have "nat (int (Size sel) - int cdim - 1) = Size sel - 1 - cdim" by linarith
  moreover have "0 \<le> int (Size sel) - int cdim - 1 \<longleftrightarrow> cdim < Size sel" by linarith
  ultimately show ?thesis by (simp add: CSpan_def Let_def)
qed

lemma MaybeFSpan_Some_conv:
  "MaybeFSpan sel fdim ndim = Some s \<longleftrightarrow>
     ndim \<le> fdim + Size sel \<and> fdim < ndim \<and> s = spans sel ! (fdim + Size sel - ndim) \<and> s \<noteq> []"
  by (auto simp: MaybeFSpan_nat split: if_splits)

lemma MaybeFSpan_not_Nil: "MaybeFSpan sel fdim ndim = Some s \<Longrightarrow> s \<noteq> []"
  by (auto simp: MaybeFSpan_Some_conv)

lemma MaybeFSpan_row: "HasRowSpan sel \<Longrightarrow> 0 < ndim \<Longrightarrow>
    MaybeFSpan sel (ndim - 1) ndim = Some (GetRowSpan sel)"
  by (cases "spans sel") (auto simp: MaybeFSpan_Some_conv HasRowSpan_def GetRowSpan_def Size_def)

lemma MaybeFSpan_no_row: "\<not> HasRowSpan sel \<Longrightarrow> MaybeFSpan sel (ndim - 1) ndim = None"
proof (rule ccontr)
  assume "\<not> HasRowSpan sel" and "MaybeFSpan sel (ndim - 1) ndim \<noteq> None"
  then obtain s where s: "MaybeFSpan sel (ndim - 1) ndim = Some s" by auto
  then have "0 < ndim" and "0 < Size sel" by (auto simp: MaybeFSpan_Some_conv)
  with s \<open>\<not> HasRowSpan sel\<close> show False
    by (auto simp: MaybeFSpan_Some_conv HasRowSpan_def Size_def)
qed

lemma MaybeFSpan_empty [simp]: "MaybeFSpan empty_selection fdim ndim = None"
  by (simp add: MaybeFSpan_nat empty_selection_def Size_def)

lemma spans_ProcessArgs:
  "b_spans (ProcessArgs as b) =
     b_spans b @ map (\<lambda>a. case a of LValue t ids \<Rightarrow> to_index t ids | RValue t ids \<Rightarrow> to_index t ids) as"
proof (induction as arbitrary: b)
  case (Cons a as)
  then show ?case
    by (cases a) (auto simp: AddVector_def AddMoved_def to_index_def split: elem_type.splits)
qed simp

lemma spans_fold_AddInit: "b_spans (fold (AddInit t) init b) = b_spans b @ map (to_index t) init"
  by (induction init arbitrary: b) (auto simp: AddInit_def AddMoved_def to_index_def)

lemma order_fold_AddInit: "b_order (fold (AddInit t) init b) = b_order b"
  by (induction init arbitrary: b) (auto simp: AddInit_def AddMoved_def)

section \<open>Properties\<close>

text \<open>
  The two ways of naming a dimension agree: the span of C ordered dimension \<open>c\<close> is the span
  of FORTRAN ordered dimension \<open>n - 1 - c\<close>, for every one of the \<open>n\<close> dimensions of a selection,
  and both raise an IndexError exactly when that dimension is not selected.
\<close>

theorem CSpan_FSpan:
  assumes "c < Size sel"
  shows "(case CSpan sel c of Inr s \<Rightarrow> FSpan1 sel (Size sel - 1 - c) = Inr s \<and> IsValid sel (Size sel - 1 - c)
          | Inl e \<Rightarrow> (\<exists>e'. FSpan1 sel (Size sel - 1 - c) = Inl e') \<and> \<not> IsValid sel (Size sel - 1 - c))"
proof -
  have "Size sel \<le> Size sel + Size sel - Suc c" using assms by linarith
  with assms show ?thesis by (simp add: CSpan_nat FSpan1_def FSpan_def MaybeFSpan_nat IsValid_def)
qed

theorem CSpan_FSpan_witness:
  "CSpan (FromInit IndexElem [[7], [], [1, 2]]) 0 = Inr [7] \<and>
   FSpan1 (FromInit IndexElem [[7], [], [1, 2]]) 2 = Inr [7]"
proof -
  have c: "CSpan (FromInit IndexElem [[7], [], [1, 2]]) 0 = Inr [7]" by code_simp
  have n: "Size (FromInit IndexElem [[7], [], [1, 2]]) = 3" by code_simp
  show ?thesis using CSpan_FSpan [of 0 "FromInit IndexElem [[7], [], [1, 2]]"] c n by simp
qed

text \<open>
  The dimension order of the two constructors: \<open>FromInit\<close> takes its lists in C order, so the
  first list selects the rows, while \<open>FromArgs\<close> keeps its arguments in FORTRAN order, so that the
  last argument selects the rows: the spans of one are the reverse of the spans of the other.
\<close>

theorem FromArgs_FromInit_reverse:
  "spans (FromArgs (map (RValue t) ids)) = rev (spans (FromInit t ids)) \<and>
   (ids \<noteq> [] \<longrightarrow> GetRowSpan (FromArgs (map (RValue t) ids)) = to_index t (last ids) \<and>
                 GetRowSpan (FromInit t ids) = to_index t (hd ids))"
proof -
  have args: "spans (FromArgs (map (RValue t) ids)) = map (to_index t) ids"
    by (simp add: FromArgs_def Build_def Order_def spans_ProcessArgs new_builder_def comp_def)
  have init: "spans (FromInit t ids) = rev (map (to_index t) ids)"
    by (simp add: FromInit_def Build_def spans_fold_AddInit order_fold_AddInit new_builder_def)
  from args init show ?thesis
    by (auto simp: GetRowSpan_def Size_def last_conv_nth rev_nth hd_conv_nth)
qed

theorem FromArgs_FromInit_reverse_witness:
  "GetRowSpan (FromArgs [RValue IndexElem [4], RValue IndexElem [5, 6]]) = [5, 6] \<and>
   GetRowSpan (FromInit IndexElem [[4], [5, 6]]) = [4]"
  using FromArgs_FromInit_reverse [of IndexElem "[[4], [5, 6]]"] by (simp add: to_index_def)

end
