(* ===== verification/ResultShape.thy ===== *)
theory ResultShape
  imports Prelude NDIndex TypeTraits Selections
begin

text \<open>
  The shape of a result: \<open>cpp/arcae/result_shape.h\<close> and \<open>result_shape.cc\<close>. A result is either fixed,
  one FORTRAN ordered array whose last dimension is the rows, or it has one cell shape per row.
  An \<open>IPosition\<close> is a \<open>nat list\<close>; casacore's \<open>product()\<close> of the empty position is 0, which is what
  makes a missing row (whose shape is empty) hold no elements.

  \<open>table_column\<close> is what the code reads of a casacore \<open>TableColumn\<close> and its \<open>ColumnDesc\<close>.
\<close>

record table_column =
  tc_name :: string
  tc_dtype :: casa_dtype
  tc_fixed :: bool              \<comment> \<open>columnDesc().isFixedShape()\<close>
  tc_shape :: shape             \<comment> \<open>columnDesc().shape()\<close>
  tc_ndim :: int                \<comment> \<open>columnDesc().ndim()\<close>
  tc_nrow :: nat                \<comment> \<open>nrow()\<close>
  tc_defined :: "nat \<Rightarrow> bool"   \<comment> \<open>isDefined(row)\<close>
  tc_cell :: "nat \<Rightarrow> shape"     \<comment> \<open>shape(row)\<close>

definition shape_product :: "shape \<Rightarrow> nat" where
  "shape_product sh = (if sh = [] then 0 else prod_list sh)"

record ResultShapeData =
  rs_name :: string
  rs_shape :: "shape option"
  rs_ndim :: int
  rs_dtype :: casa_dtype
  rs_row_shapes :: "shape list option"
  rs_cell_extents :: "shape list option"

section \<open>Accessors\<close>

definition IsFixed :: "ResultShapeData \<Rightarrow> bool" where
  "IsFixed d \<longleftrightarrow> rs_shape d \<noteq> None"

definition ConsistentNDim :: "ResultShapeData \<Rightarrow> nat result" where
  "ConsistentNDim d =
     (if 0 \<le> rs_ndim d then Inr (nat (rs_ndim d))
      else Inl (Invalid [Str ''Result shape dimensions are not consistent'']))"

text \<open>The accessors assert what they need, so they are only used where it holds.\<close>

definition GetShape :: "ResultShapeData \<Rightarrow> shape" where
  "GetShape d = the (rs_shape d)"

definition nRows :: "ResultShapeData \<Rightarrow> nat" where
  "nRows d = (case rs_shape d of Some sh \<Rightarrow> last sh | None \<Rightarrow> length (the (rs_row_shapes d)))"

definition GetRowShape :: "ResultShapeData \<Rightarrow> nat \<Rightarrow> shape" where
  "GetRowShape d row = the (rs_row_shapes d) ! row"

definition HasCellExtents :: "ResultShapeData \<Rightarrow> bool" where
  "HasCellExtents d \<longleftrightarrow> rs_cell_extents d \<noteq> None"

definition GetCellExtent :: "ResultShapeData \<Rightarrow> nat \<Rightarrow> shape" where
  "GetCellExtent d row = the (rs_cell_extents d) ! row"

text \<open>What the assertions ask for.\<close>

definition shape_ok :: "ResultShapeData \<Rightarrow> bool" where
  "shape_ok d \<longleftrightarrow>
     (case rs_shape d of
        Some sh \<Rightarrow> sh \<noteq> [] \<and> rs_ndim d = int (length sh)
      | None \<Rightarrow> rs_row_shapes d \<noteq> None)"

section \<open>Sizes and offsets\<close>

text \<open>\<open>*std::max_element\<close>: the end iterator of an empty range must not be read.\<close>

definition max_element :: "nat list \<Rightarrow> nat result" where
  "max_element xs = (if xs = [] then Inl (Undefined ''max_element of an empty range'') else Inr (Max (set xs)))"

fun max_row_sizes :: "shape list \<Rightarrow> nat \<Rightarrow> nat result" where
  "max_row_sizes [] max_size = Inr max_size"
| "max_row_sizes (sh # shs) max_size =
     rbind (max_element sh) (\<lambda>shape_max. max_row_sizes shs (max max_size shape_max))"

definition MaxDimensionSize :: "ResultShapeData \<Rightarrow> nat result" where
  "MaxDimensionSize d =
     (case rs_shape d of
        Some sh \<Rightarrow> max_element sh
      | None \<Rightarrow> max_row_sizes (the (rs_row_shapes d)) (nRows d))"

fun row_offsets_loop :: "shape list \<Rightarrow> nat list \<Rightarrow> nat list" where
  "row_offsets_loop [] offsets = offsets"
| "row_offsets_loop (sh # shs) offsets = row_offsets_loop shs (offsets @ [last offsets + shape_product sh])"

definition RowOffsets :: "ResultShapeData \<Rightarrow> nat list" where
  "RowOffsets d = row_offsets_loop (the (rs_row_shapes d)) [0]"

text \<open>
  The loop of \<open>FlatOffset\<close> over the dimensions. \<open>product\<close> is an \<open>int\<close> of 32 bits in the code, while
  \<open>index[d] * product\<close> and \<open>product * shape[d]\<close> are 64 bit products; the first is added to an
  unsigned offset, the second is narrowed back.
\<close>

fun flat_loop :: "index list \<Rightarrow> shape \<Rightarrow> int \<Rightarrow> nat \<Rightarrow> nat result" where
  "flat_loop [] sh p offset = Inr offset"
| "flat_loop (i # is) [] p offset = Inl (Undefined ''out of range'')"
| "flat_loop (i # is) (s # ss) p offset =
     rbind (mul_int64 i p) (\<lambda>step.
     rbind (mul_int64 p (int s)) (\<lambda>next_prod.
     flat_loop is ss (wrap_int32 next_prod) (wrap_size (int offset + step))))"

definition FlatOffset :: "ResultShapeData \<Rightarrow> index list \<Rightarrow> nat list option \<Rightarrow> nat result" where
  "FlatOffset d idx row_offsets =
     rbind (ConsistentNDim d) (\<lambda>ndim.
     case rs_shape d of
       Some sh \<Rightarrow> flat_loop (take ndim idx) sh 1 0
     | None \<Rightarrow>
         (if ndim = 0 then Inl (Undefined ''out of range'')
          else rbind (at idx (ndim - 1)) (\<lambda>row.
               if row < 0 \<or> int (nRows d) \<le> row then Inl (Undefined ''out of range'')
               else let sh = GetRowShape d (nat row)
                    in rbind (flat_loop (take (min (length sh) (ndim - 1)) idx) sh 1 0) (\<lambda>offset.
                       case row_offsets of
                         Some offsets \<Rightarrow> rbind (at offsets (nat row)) (\<lambda>o'. Inr (offset + o'))
                       | None \<Rightarrow> Inr (fold (\<lambda>s i. i + shape_product s) (take (nat row) (the (rs_row_shapes d))) offset)))))"

definition nElements :: "ResultShapeData \<Rightarrow> nat" where
  "nElements d =
     (case rs_shape d of
        Some sh \<Rightarrow> shape_product sh
      | None \<Rightarrow> fold (\<lambda>s i. shape_product s + i) (the (rs_row_shapes d)) 0)"

section \<open>Cells and selections\<close>

definition IsDegenerateShape :: "shape \<Rightarrow> bool" where
  "IsDegenerateShape sh \<longleftrightarrow> length sh = 0"

definition ValidateDim :: "table_column \<Rightarrow> shape \<Rightarrow> shape \<Rightarrow> selection \<Rightarrow> nat \<Rightarrow> unit result" where
  "ValidateDim col cell res sel dim =
     (case MaybeFSpan sel dim (length cell + 1) of
        None \<Rightarrow> Inr ()
      | Some span \<Rightarrow>
          rbind (require (length span = res ! dim)
            (IndexError [Str ''Selection size '', Num (int (length span)),
                         Str '' does not match the result shape size '', Num (int (res ! dim)),
                         Str '' in dimension '', Num (int dim), Str '' of column '', Str (tc_name col)])) (\<lambda>_.
          rfor (\<lambda>i. require (i < int (cell ! dim))
            (IndexError [Str ''Selection index '', Num i, Str '' exceeds dimension '', Num (int dim),
                         Str '' of shape '', Shp cell, Str '' in column '', Str (tc_name col)])) span))"

definition ValidateCellShape :: "table_column \<Rightarrow> shape \<Rightarrow> shape \<Rightarrow> selection \<Rightarrow> unit result" where
  "ValidateCellShape col cell res sel =
     rbind (require (length res = length cell)
              (Invalid [Str ''Result rank '', Num (int (length res)), Str '' does not match column rank '',
                        Num (int (length cell)), Str '' in column '', Str (tc_name col)])) (\<lambda>_.
     rfor (ValidateDim col cell res sel) [0..<length cell])"

definition CellExtent :: "shape \<Rightarrow> shape \<Rightarrow> selection \<Rightarrow> shape" where
  "CellExtent cell res sel =
     map (\<lambda>dim. if MaybeFSpan sel dim (length res + 1) = None then min (cell ! dim) (res ! dim)
                else res ! dim) [0..<length res]"

text \<open>\<open>Index ids(n, -1)\<close> with \<open>std::iota\<close> over its first \<open>extent\<close> elements.\<close>

definition padded_ids :: "nat \<Rightarrow> nat \<Rightarrow> index list" where
  "padded_ids n extent = map int [0..<extent] @ replicate (n - extent) (-1)"

definition rebuild_dim :: "selection \<Rightarrow> shape \<Rightarrow> shape \<Rightarrow> nat \<Rightarrow> builder \<Rightarrow> builder" where
  "rebuild_dim sel res extent dim b =
     (case MaybeFSpan sel dim (length res + 1) of
        Some span \<Rightarrow> AddMoved IndexElem span b
      | None \<Rightarrow>
          if extent ! dim < res ! dim then AddMoved IndexElem (padded_ids (res ! dim) (extent ! dim)) b
          else AddEmpty b)"

definition RebuildSelection :: "selection \<Rightarrow> shape \<Rightarrow> shape \<Rightarrow> index list option \<Rightarrow> selection" where
  "RebuildSelection sel res extent rows =
     (let b = fold (rebuild_dim sel res extent) [0..<length res] (Order (CHR ''F'') new_builder)
      in Build (case rows of
                  Some ids \<Rightarrow> AddMoved IndexElem ids b
                | None \<Rightarrow> if HasRowSpan sel then AddMoved IndexElem (GetRowSpan sel) b else AddEmpty b))"

subsection \<open>Clipping cells, with a cache\<close>

text \<open>
  The members of \<open>CellShapeClipper\<close>: the rank the cache was filled for, initially the largest
  \<open>std::size_t\<close>, and size and largest index of every selected dimension.
\<close>

record clipper =
  cl_ndim :: int
  cl_dims :: "(nat \<times> index) option list"

definition new_clipper :: clipper where
  "new_clipper = \<lparr>cl_ndim = 2 ^ 64 - 1, cl_dims = []\<rparr>"

definition Cache :: "selection \<Rightarrow> nat \<Rightarrow> clipper" where
  "Cache sel ndim =
     \<lparr>cl_ndim = int ndim,
      cl_dims = map (\<lambda>dim. case MaybeFSpan sel dim (ndim + 1) of
                       None \<Rightarrow> None
                     | Some span \<Rightarrow> Some (length span, Max (set span))) [0..<ndim]\<rparr>"

text \<open>The loop of \<open>Clip\<close>; the shape in the message of a failure is the one clipped so far.\<close>

fun clip_dims :: "string \<Rightarrow> (nat \<times> index) option list \<Rightarrow> nat list \<Rightarrow> shape \<Rightarrow> shape result" where
  "clip_dims name dims [] cell = Inr cell"
| "clip_dims name dims (dim # ds) cell =
     rbind (at dims dim) (\<lambda>selected.
     case selected of
       None \<Rightarrow> clip_dims name dims ds cell
     | Some (sz, mx) \<Rightarrow>
         if int (cell ! dim) \<le> mx
         then Inl (IndexError [Str ''Selection index '', Num mx, Str '' exceeds dimension '', Num (int dim),
                               Str '' of shape '', Shp cell, Str '' in column '', Str name])
         else clip_dims name dims ds (cell[dim := sz]))"

definition Clip :: "table_column \<Rightarrow> selection \<Rightarrow> clipper \<Rightarrow> shape \<Rightarrow> (shape \<times> clipper) result" where
  "Clip col sel cl cell =
     (if Size sel \<le> 1 then Inr (cell, cl)
      else let cl' = (if int (length cell) \<noteq> cl_ndim cl then Cache sel (length cell) else cl)
           in rbind (clip_dims (tc_name col) (cl_dims cl') [0..<length cell] cell) (\<lambda>clipped. Inr (clipped, cl')))"

subsection \<open>The shapes of the selected rows\<close>

record row_shape_data =
  common_shape :: "shape option"
  shapes :: "shape list"
  missing_rows :: nat

text \<open>The lambda \<open>AddShape\<close> of \<open>MakeRowData\<close>.\<close>

definition AddShape :: "nat \<Rightarrow> shape \<Rightarrow> row_shape_data \<Rightarrow> row_shape_data" where
  "AddShape i sh rd =
     (let missing = IsDegenerateShape sh;
          rd = rd\<lparr>missing_rows := missing_rows rd + (if missing then 1 else 0)\<rparr>
      in if shapes rd = [] then
           (if \<not> missing \<and> common_shape rd = None then rd\<lparr>common_shape := Some sh\<rparr>
            else if \<not> missing \<and> common_shape rd = Some sh then rd
            else rd\<lparr>shapes := replicate i (case common_shape rd of Some s \<Rightarrow> s | None \<Rightarrow> []) @ [sh],
                    common_shape := None\<rparr>)
         else rd\<lparr>shapes := shapes rd @ [sh]\<rparr>)"

text \<open>
  The loop over the rows \<open>r\<close>, the \<open>i\<close>-th being at the head of the list; \<open>prev\<close> holds the shape of
  the most recent defined row before and after clipping.
\<close>

fun row_data_loop ::
  "table_column \<Rightarrow> selection \<Rightarrow> bool \<Rightarrow> nat \<Rightarrow> index list \<Rightarrow> row_shape_data \<Rightarrow> (shape \<times> shape) option \<Rightarrow>
   clipper \<Rightarrow> row_shape_data result" where
  "row_data_loop col sel allow i [] rd prev cl = Inr rd"
| "row_data_loop col sel allow i (r # rs) rd prev cl =
     (if wrap_int64 (int (tc_nrow col)) \<le> r then
        Inl (IndexError [Str ''Requested row '', Num r, Str '' in column '', Str (tc_name col),
                         Str '' >= column.nrow() '', Num (int (tc_nrow col))])
      else if r < 0 \<or> \<not> tc_defined col (nat r) then
        (if allow then row_data_loop col sel allow (i + 1) rs (AddShape i [] rd) prev cl
         else if 0 \<le> r then
           Inl (Invalid [Str ''Row '', Num r, Str '' is not defined for column '', Str (tc_name col),
                         Str '' and missing rows '', Str ''are not configured''])
         else Inl (IndexError [Str ''Unable to derive a row shape for negative row index '', Num r,
                               Str ''. MakeRowData has likely been misused'']))
      else let sh = tc_cell col (nat r) in
        case prev of
          Some (last_shape, last_clipped) \<Rightarrow>
            if sh = last_shape then
              row_data_loop col sel allow (i + 1) rs
                (if shapes rd \<noteq> [] then rd\<lparr>shapes := shapes rd @ [last_clipped]\<rparr> else rd) prev cl
            else rbind (Clip col sel cl sh) (\<lambda>(clipped, cl').
              row_data_loop col sel allow (i + 1) rs (AddShape i clipped rd) (Some (sh, clipped)) cl')
        | None \<Rightarrow> rbind (Clip col sel cl sh) (\<lambda>(clipped, cl').
              row_data_loop col sel allow (i + 1) rs (AddShape i clipped rd) (Some (sh, clipped)) cl'))"

definition selected_rows :: "table_column \<Rightarrow> selection \<Rightarrow> index list" where
  "selected_rows col sel = (if HasRowSpan sel then GetRowSpan sel else map int [0..<tc_nrow col])"

definition MakeRowData :: "table_column \<Rightarrow> selection \<Rightarrow> bool \<Rightarrow> row_shape_data result" where
  "MakeRowData col sel allow =
     row_data_loop col sel allow 0 (selected_rows col sel)
       \<lparr>common_shape = None, shapes = [], missing_rows = 0\<rparr> None new_clipper"

section \<open>Shapes of reads\<close>

definition CheckRowNumberLimit :: "string \<Rightarrow> nat \<Rightarrow> unit result" where
  "CheckRowNumberLimit column nrows =
     require (int nrows \<le> 2 ^ 63 - 1)
       (IndexError [Str ''Number of rows '', Num (int nrows), Str '' in column '', Str column,
                    Str '' is too large for arcae's IndexType''])"

text \<open>\<open>-1\<close> when the ranks of the rows differ, or when no row has a shape.\<close>

fun common_rank :: "shape list \<Rightarrow> int \<Rightarrow> int" where
  "common_rank [] ndim = ndim"
| "common_rank (sh # shs) ndim =
     (if IsDegenerateShape sh then common_rank shs ndim
      else if ndim = -1 then common_rank shs (int (length sh) + 1)
      else if ndim \<noteq> int (length sh) + 1 then -1
      else common_rank shs ndim)"

definition MakeRead :: "table_column \<Rightarrow> selection \<Rightarrow> bool \<Rightarrow> ResultShapeData result" where
  "MakeRead col sel allow =
     rbind (CheckRowNumberLimit (tc_name col) (tc_nrow col)) (\<lambda>_.
     let nselrow = (if HasRowSpan sel then length (GetRowSpan sel) else tc_nrow col);
         fixed = (\<lambda>cell. \<lparr>rs_name = tc_name col, rs_shape = Some (cell @ [nselrow]),
                         rs_ndim = int (length cell) + 1, rs_dtype = tc_dtype col,
                         rs_row_shapes = None, rs_cell_extents = None\<rparr>)
     in if tc_fixed col then rbind (Clip col sel new_clipper (tc_shape col)) (\<lambda>(cell, _). Inr (fixed cell))
        else rbind (MakeRowData col sel allow) (\<lambda>rd.
          if \<not> allow \<and> 0 < missing_rows rd then
            Inl (Invalid [Num (int (missing_rows rd)), Str '' missing rows in column '', Str (tc_name col),
                          Str '' for the given row selection''])
          else case common_shape rd of
            Some cell \<Rightarrow> Inr (fixed cell)
          | None \<Rightarrow>
              let ndim = common_rank (shapes rd) (-1);
                  ndim' = (if ndim = -1 then (if 0 \<le> tc_ndim col then tc_ndim col + 1 else tc_ndim col) else ndim)
              in Inr \<lparr>rs_name = tc_name col, rs_shape = None, rs_ndim = ndim', rs_dtype = tc_dtype col,
                      rs_row_shapes = Some (shapes rd), rs_cell_extents = None\<rparr>))"

subsection \<open>Reads into a given result\<close>

text \<open>
  The loop over the rows of \<open>NegateMissingSelectedRows\<close>: \<open>rows\<close> are those still to visit, \<open>acc\<close> the
  ones before row \<open>length acc\<close>, with the rows that are not defined replaced by \<open>-1\<close>.
\<close>

fun negate_loop ::
  "table_column \<Rightarrow> shape \<Rightarrow> selection \<Rightarrow> index list \<Rightarrow> index list \<Rightarrow> bool \<Rightarrow> shape option \<Rightarrow> shape list option \<Rightarrow>
   (index list \<times> bool \<times> shape option \<times> shape list option) result" where
  "negate_loop col res sel [] acc modified common extents = Inr (acc, modified, common, extents)"
| "negate_loop col res sel (r # rows) acc modified common extents =
     (if wrap_int64 (int (tc_nrow col)) \<le> r then
        Inl (IndexError [Str ''Row '', Num r, Str '' in selection is >= nrow '',
                         Num (wrap_int64 (int (tc_nrow col))), Str '' in column '', Str (tc_name col)])
      else if 0 \<le> r \<and> tc_defined col (nat r) then
        rbind (ValidateCellShape col (tc_cell col (nat r)) res sel) (\<lambda>_.
          let extent = CellExtent (tc_cell col (nat r)) res sel;
              (common', extents') =
                (case common of
                   None \<Rightarrow> (Some extent, extents)
                 | Some c \<Rightarrow> (common, if extents = None \<and> extent \<noteq> c then Some (replicate (length acc) c) else extents))
          in negate_loop col res sel rows (acc @ [r]) modified common' (map_option (\<lambda>es. es @ [extent]) extents'))
      else if 0 \<le> r then
        negate_loop col res sel rows (acc @ [-1]) True common (map_option (\<lambda>es. es @ [res]) extents)
      else negate_loop col res sel rows (acc @ [r]) modified common (map_option (\<lambda>es. es @ [res]) extents))"

definition negate_return ::
  "ResultShapeData \<Rightarrow> selection \<Rightarrow> shape \<Rightarrow> index list \<Rightarrow> bool \<Rightarrow> shape option \<Rightarrow> shape list option \<Rightarrow>
   selection \<times> ResultShapeData" where
  "negate_return d sel res rows modified common extents =
     (let d' = (case extents of Some es \<Rightarrow> d\<lparr>rs_cell_extents := Some es\<rparr> | None \<Rightarrow> d);
          common' = (case extents of Some es \<Rightarrow> res
                     | None \<Rightarrow> (case common of Some c \<Rightarrow> c | None \<Rightarrow> res))
      in if \<not> modified \<and> common' = res then (sel, d')
         else (RebuildSelection sel res common' (if modified then Some rows else None), d'))"

definition NegateMissingSelectedRows ::
  "ResultShapeData \<Rightarrow> table_column \<Rightarrow> selection \<Rightarrow> (selection \<times> ResultShapeData) result" where
  "NegateMissingSelectedRows d col sel =
     (if \<not> IsFixed d then
        Inl (NotImplemented [Str ''Checking selections against non fixed-shape result data''])
      else let res = butlast (GetShape d)
      in if tc_fixed col then
           rbind (ValidateCellShape col (tc_shape col) res sel) (\<lambda>_.
           let extent = CellExtent (tc_shape col) res sel
           in if extent = res then Inr (sel, d) else Inr (RebuildSelection sel res extent None, d))
         else
           rbind (require (length (selected_rows col sel) = nRows d)
             (IndexError [Str ''Number of rows in the result shape '', Num (int (nRows d)),
                Str '' does not match the number of rows '', Num (int (length (selected_rows col sel))),
                Str '' in the '', Str (if HasRowSpan sel then ''selection.'' else ''column.'')])) (\<lambda>_.
           rbind (negate_loop col res sel (selected_rows col sel) [] False None None)
             (\<lambda>(rows, modified, common, extents).
           Inr (negate_return d sel res rows modified common extents))))"

section \<open>The rows of a result\<close>

text \<open>The shapes of the cells of a result, row after row.\<close>

definition rows_of :: "ResultShapeData \<Rightarrow> shape list" where
  "rows_of d = (case rs_shape d of Some sh \<Rightarrow> replicate (last sh) (butlast sh) | None \<Rightarrow> the (rs_row_shapes d))"

lemma length_rows_of: "length (rows_of d) = nRows d"
  by (simp add: rows_of_def nRows_def split: option.split)

section \<open>Lemmas on offsets\<close>

lemma flat_loop_lin:
  assumes "in_box ss ix" and "p * prod_list (butlast ss) < 2 ^ 31" and "p * prod_list ss < 2 ^ 63"
    and "offset + p * lin ss ix < 2 ^ 64"
  shows "flat_loop (map int ix) ss (int p) offset = Inr (offset + p * lin ss ix)"
  using assms
proof (induction ss arbitrary: ix p offset)
  case Nil
  then show ?case by simp
next
  case (Cons s ss)
  then obtain i "is" where ix: "ix = i # is" "i < s" "in_box ss is" by (auto simp: in_box_Cons)
  have pos: "0 < prod_list ss" using lin_less [OF ix(3)] by (cases "prod_list ss") auto
  have ps: "p * s \<le> p * s * prod_list ss" using pos by simp
  have psb: "p * s < 2 ^ 63" using ps Cons.prems(3) by (metis le_less_trans mult.assoc prod_list.Cons)
  have "i * p \<le> s * p" using ix(2) by (intro mult_le_mono1) simp
  then have ip: "i * p < 2 ^ 63" using psb by (metis le_less_trans mult.commute)
  have step: "mul_int64 (int i) (int p) = Inr (int (i * p))"
    using ip by (simp add: mul_int64_def flip: of_nat_mult)
  have nxt: "mul_int64 (int p) (int s) = Inr (int (p * s))"
    using psb by (simp add: mul_int64_def flip: of_nat_mult)
  have lin: "p * lin (s # ss) ix = i * p + p * s * lin ss is" using ix(1) by (simp add: algebra_simps)
  have "offset + i * p < 2 ^ 64" using Cons.prems(4) lin by linarith
  then have off: "wrap_size (int offset + int (i * p)) = offset + i * p"
    by (metis of_nat_add wrap_size_id)
  have rest: "flat_loop (map int is) ss (wrap_int32 (int (p * s))) (offset + i * p) =
      Inr (offset + i * p + p * s * lin ss is)"
  proof (cases "ss = []")
    case True
    with ix(3) show ?thesis by simp
  next
    case False
    then have b: "p * s * prod_list (butlast ss) < 2 ^ 31" using Cons.prems(2) by (simp add: algebra_simps)
    have "0 \<notin> set (butlast ss)" using pos by (metis in_set_butlastD less_irrefl prod_list_zero_iff)
    then have "0 < prod_list (butlast ss)" by (rule prod_list_pos)
    then have "p * s \<le> p * s * prod_list (butlast ss)" by simp
    then have "p * s < 2 ^ 31" using b by linarith
    then have "wrap_int32 (int (p * s)) = int (p * s)"
      by (intro wrap_int32_id) (simp_all flip: of_nat_mult)
    moreover have "flat_loop (map int is) ss (int (p * s)) (offset + i * p) =
        Inr (offset + i * p + p * s * lin ss is)"
      using Cons.prems lin b ix(3) by (intro Cons.IH) (simp_all add: algebra_simps)
    ultimately show ?thesis by simp
  qed
  show ?case using lin by (simp only: ix(1) list.map flat_loop.simps step nxt rbind.simps off rest add.assoc)
qed

lemma length_row_offsets_loop: "length (row_offsets_loop shs offsets) = length offsets + length shs"
  by (induction shs offsets rule: row_offsets_loop.induct) auto

text \<open>Row offsets are running sums of the elements of the rows.\<close>

definition elements_before :: "shape list \<Rightarrow> nat \<Rightarrow> nat" where
  "elements_before shs r = sum_list (map shape_product (take r shs))"

lemma row_offsets_loop_nth:
  "offsets \<noteq> [] \<Longrightarrow> k < length offsets + length shs \<Longrightarrow>
   row_offsets_loop shs offsets ! k =
     (if k < length offsets then offsets ! k
      else last offsets + elements_before shs (Suc k - length offsets))"
proof (induction shs offsets rule: row_offsets_loop.induct)
  case (2 sh shs offsets)
  consider "k < length offsets" | "k = length offsets" | "length offsets < k" by linarith
  then show ?case
  proof cases
    case 3
    with 2 have "Suc k - length offsets = Suc (k - length offsets)" "0 < k - length offsets" by auto
    with 2 3 show ?thesis by (simp add: elements_before_def)
  qed (use 2 in \<open>auto simp: nth_append elements_before_def\<close>)
qed simp

lemma length_RowOffsets [simp]: "rs_shape d = None \<Longrightarrow> length (RowOffsets d) = nRows d + 1"
  by (simp add: RowOffsets_def length_row_offsets_loop nRows_def)

lemma RowOffsets_nth:
  "rs_shape d = None \<Longrightarrow> r \<le> nRows d \<Longrightarrow> RowOffsets d ! r = elements_before (the (rs_row_shapes d)) r"
  by (cases r) (auto simp: RowOffsets_def row_offsets_loop_nth nRows_def elements_before_def)

lemma fold_elements: "fold (\<lambda>s i. i + shape_product s) shs a = a + sum_list (map shape_product shs)"
  by (induction shs arbitrary: a) auto

lemma fold_elements': "fold (\<lambda>s. (+) (shape_product s)) shs a = a + sum_list (map shape_product shs)"
  by (induction shs arbitrary: a) auto

lemma nElements_row_offsets:
  "rs_shape d = None \<Longrightarrow> nElements d = RowOffsets d ! nRows d"
  by (simp add: nElements_def RowOffsets_nth elements_before_def nRows_def fold_elements')

section \<open>Properties of offsets\<close>

lemma FlatOffset_lin:
  assumes "rs_shape d = Some sh" and "rs_ndim d = int (length sh)" and "sh \<noteq> []" and "in_box sh ix"
    and "prod_list (butlast sh) < 2 ^ 31" and "prod_list sh < 2 ^ 63"
  shows "FlatOffset d (map int ix) row_offsets = Inr (lin sh ix)"
proof -
  have "lin sh ix < 2 ^ 64" using lin_less [OF assms(4)] assms(6) by simp
  then have "flat_loop (map int ix) sh (int 1) 0 = Inr (0 + 1 * lin sh ix)"
    using assms by (intro flat_loop_lin) simp_all
  then show ?thesis
    using assms by (simp add: FlatOffset_def ConsistentNDim_def in_box_length)
qed

text \<open>
  The offset of an element of a fixed result is its column major position, whether or not
  row offsets are supplied, when the product of all dimensions but the last fits the 32 bit \<open>int\<close> the
  code accumulates it in; in particular it is a position of the result.
\<close>

theorem FlatOffset_fixed:
  assumes "rs_shape d = Some sh" and "rs_ndim d = int (length sh)" and "sh \<noteq> []" and "in_box sh ix"
    and "prod_list (butlast sh) < 2 ^ 31" and "prod_list sh < 2 ^ 63"
  shows "FlatOffset d (map int ix) row_offsets = Inr (lin sh ix) \<and> lin sh ix < nElements d"
  using FlatOffset_lin [OF assms] lin_less [OF assms(4)] assms(1,3)
  by (simp add: nElements_def shape_product_def)

theorem FlatOffset_fixed_witness:
  "FlatOffset \<lparr>rs_name = ''DATA'', rs_shape = Some [4, 16, 10], rs_ndim = 3, rs_dtype = TpComplex,
      rs_row_shapes = None, rs_cell_extents = None\<rparr> (map int [1, 2, 3]) None = Inr 201"
  using FlatOffset_fixed [of "\<lparr>rs_name = ''DATA'', rs_shape = Some [4, 16, 10], rs_ndim = 3,
      rs_dtype = TpComplex, rs_row_shapes = None, rs_cell_extents = None\<rparr>" "[4, 16, 10]" "[1, 2, 3]" None]
  by simp

lemma FlatOffset_row_lin:
  assumes "rs_shape d = None" and "rs_row_shapes d = Some shs" and "row < length shs"
    and "in_box (shs ! row) ix" and "shs ! row \<noteq> []" and "rs_ndim d = int (length (shs ! row)) + 1"
    and "prod_list (butlast (shs ! row)) < 2 ^ 31" and "prod_list (shs ! row) < 2 ^ 63"
  shows "FlatOffset d (map int ix @ [int row]) None = Inr (elements_before shs row + lin (shs ! row) ix) \<and>
    FlatOffset d (map int ix @ [int row]) (Some (RowOffsets d)) = FlatOffset d (map int ix @ [int row]) None \<and>
    elements_before shs row + lin (shs ! row) ix < nElements d"
proof -
  let ?sh = "shs ! row"
  have len: "length ix = length ?sh" by (rule in_box_length [OF assms(4)])
  have "lin ?sh ix < 2 ^ 64" using lin_less [OF assms(4)] assms(8) by simp
  then have flat: "flat_loop (map int ix) ?sh 1 0 = Inr (lin ?sh ix)"
    using flat_loop_lin [of ?sh ix 1 0] assms by simp
  have nd: "ConsistentNDim d = Inr (Suc (length ?sh))"
    using assms(6) by (simp add: ConsistentNDim_def nat_add_distrib)
  have rows: "nRows d = length shs" "GetRowShape d row = ?sh"
    using assms(1,2) by (simp_all add: nRows_def GetRowShape_def)
  have offs: "at (RowOffsets d) row = Inr (elements_before shs row)"
    using assms(1-3) rows by (simp add: at_def RowOffsets_nth)
  have "elements_before shs (Suc row) = elements_before shs row + prod_list ?sh"
    using assms(3,5) by (simp add: elements_before_def take_Suc_conv_app_nth shape_product_def)
  moreover have "elements_before shs (Suc row) \<le> elements_before shs (length shs)"
  proof -
    have "shs = take (Suc row) shs @ drop (Suc row) shs" by simp
    then have "elements_before shs (length shs) =
        sum_list (map shape_product (take (Suc row) shs)) + sum_list (map shape_product (drop (Suc row) shs))"
      unfolding elements_before_def by (metis map_append sum_list_append take_all_iff order_refl)
    then show ?thesis by (simp add: elements_before_def)
  qed
  ultimately have "elements_before shs row + lin ?sh ix < elements_before shs (length shs)"
    using lin_less [OF assms(4)] by linarith
  moreover have "nElements d = elements_before shs (length shs)"
    using assms(1-3) rows by (simp add: nElements_row_offsets RowOffsets_nth)
  ultimately show ?thesis
    using assms rows offs flat len nd
    by (simp add: FlatOffset_def at_def nth_append fold_elements elements_before_def)
qed

text \<open>
  In a result with a shape per row, the offset of an element is the number of elements of
  the rows before it plus its column major position in its row; the offset computed from
  \<open>RowOffsets\<close> and the one that sums the preceding rows anew are the same, and it is a position of
  the result.
\<close>

theorem FlatOffset_rows:
  assumes "rs_shape d = None" and "rs_row_shapes d = Some shs" and "row < length shs"
    and "in_box (shs ! row) ix" and "shs ! row \<noteq> []" and "rs_ndim d = int (length (shs ! row)) + 1"
    and "prod_list (butlast (shs ! row)) < 2 ^ 31" and "prod_list (shs ! row) < 2 ^ 63"
  shows "FlatOffset d (map int ix @ [int row]) None = Inr (elements_before shs row + lin (shs ! row) ix) \<and>
    FlatOffset d (map int ix @ [int row]) (Some (RowOffsets d)) = FlatOffset d (map int ix @ [int row]) None \<and>
    elements_before shs row + lin (shs ! row) ix < nElements d"
  by (rule FlatOffset_row_lin [OF assms])

theorem FlatOffset_rows_witness:
  "FlatOffset \<lparr>rs_name = ''DATA'', rs_shape = None, rs_ndim = 3, rs_dtype = TpComplex,
      rs_row_shapes = Some [[3, 2], [2, 2], [4, 1]], rs_cell_extents = None\<rparr> (map int [1, 1] @ [int 1]) None = Inr 9"
  using FlatOffset_rows [of "\<lparr>rs_name = ''DATA'', rs_shape = None, rs_ndim = 3, rs_dtype = TpComplex,
      rs_row_shapes = Some [[3, 2], [2, 2], [4, 1]], rs_cell_extents = None\<rparr>" "[[3, 2], [2, 2], [4, 1]]" 1 "[1, 1]"]
  by (simp add: elements_before_def shape_product_def)

text \<open>
  Where the product of the leading dimensions reaches \<open>2 ^ 31\<close> the 32 bit accumulator of
  \<open>FlatOffset\<close> wraps: in a result of shape (65536, 32768, 2) the first element of the second row is not
  at the column major position \<open>2 ^ 31\<close> but at an offset far outside of the buffer.
\<close>

theorem FlatOffset_wraps:
  "FlatOffset \<lparr>rs_name = ''DATA'', rs_shape = Some [65536, 32768, 2], rs_ndim = 3, rs_dtype = TpUChar,
      rs_row_shapes = None, rs_cell_extents = None\<rparr> [0, 0, 1] None = Inr (2 ^ 64 - 2 ^ 31) \<and>
   lin [65536, 32768, 2] [0, 0, 1] = 2 ^ 31"
  by (simp add: FlatOffset_def ConsistentNDim_def mul_int64_def wrap_int32_def wrap_size_def)

section \<open>The rows of a variably shaped column\<close>

text \<open>The cache of the clipper only saves work: it never changes what a cell is clipped to.\<close>

definition clipped_cell :: "table_column \<Rightarrow> selection \<Rightarrow> shape \<Rightarrow> shape result" where
  "clipped_cell col sel cell =
     clip_dims (tc_name col) (cl_dims (Cache sel (length cell))) [0..<length cell] cell"

definition cache_ok :: "selection \<Rightarrow> clipper \<Rightarrow> bool" where
  "cache_ok sel cl \<longleftrightarrow> cl_ndim cl = 2 ^ 64 - 1 \<or> 0 \<le> cl_ndim cl \<and> cl = Cache sel (nat (cl_ndim cl))"

lemma clip_dims_unselected:
  "\<forall>dim \<in> set ds. dim < length dims \<and> dims ! dim = None \<Longrightarrow> clip_dims name dims ds cell = Inr cell"
  by (induction ds) auto

lemma MaybeFSpan_small: "Size sel \<le> 1 \<Longrightarrow> dim < ndim \<Longrightarrow> MaybeFSpan sel dim (ndim + 1) = None"
  by (simp add: MaybeFSpan_nat)

lemma new_clipper_ok [simp]: "cache_ok sel new_clipper"
  by (simp add: cache_ok_def new_clipper_def)

lemma Clip_cached:
  assumes "cache_ok sel cl" and "length cell < 2 ^ 64 - 1"
  shows "(case Clip col sel cl cell of
            Inr (cell', cl') \<Rightarrow> clipped_cell col sel cell = Inr cell' \<and> cache_ok sel cl'
          | Inl e \<Rightarrow> clipped_cell col sel cell = Inl e)"
proof (cases "Size sel \<le> 1")
  case True
  then have "clipped_cell col sel cell = Inr cell"
    unfolding clipped_cell_def
    by (intro clip_dims_unselected) (simp add: Cache_def MaybeFSpan_small [simplified])
  with True assms(1) show ?thesis by (simp add: Clip_def)
next
  case False
  let ?cl = "if int (length cell) \<noteq> cl_ndim cl then Cache sel (length cell) else cl"
  have "?cl = Cache sel (length cell)" using assms by (auto simp: cache_ok_def) (metis nat_int)
  moreover have "cache_ok sel (Cache sel (length cell))" by (simp add: cache_ok_def Cache_def)
  ultimately show ?thesis using False
    by (cases "clipped_cell col sel cell") (auto simp: Clip_def Let_def clipped_cell_def)
qed

text \<open>What one selected row contributes: its clipped shape, or the empty shape if it is missing.\<close>

definition row_shape_of :: "table_column \<Rightarrow> selection \<Rightarrow> bool \<Rightarrow> index \<Rightarrow> shape result" where
  "row_shape_of col sel allow r =
     (if wrap_int64 (int (tc_nrow col)) \<le> r then
        Inl (IndexError [Str ''Requested row '', Num r, Str '' in column '', Str (tc_name col),
                         Str '' >= column.nrow() '', Num (int (tc_nrow col))])
      else if r < 0 \<or> \<not> tc_defined col (nat r) then
        (if allow then Inr []
         else if 0 \<le> r then
           Inl (Invalid [Str ''Row '', Num r, Str '' is not defined for column '', Str (tc_name col),
                         Str '' and missing rows '', Str ''are not configured''])
         else Inl (IndexError [Str ''Unable to derive a row shape for negative row index '', Num r,
                               Str ''. MakeRowData has likely been misused'']))
      else clipped_cell col sel (tc_cell col (nat r)))"

text \<open>The shape all rows share if none is missing, or else every shape.\<close>

definition row_summary :: "shape list \<Rightarrow> shape option \<times> shape list" where
  "row_summary shs =
     (if shs \<noteq> [] \<and> hd shs \<noteq> [] \<and> (\<forall>s \<in> set shs. s = hd shs) then (Some (hd shs), []) else (None, shs))"

definition row_inv :: "shape list \<Rightarrow> row_shape_data \<Rightarrow> bool" where
  "row_inv shs rd \<longleftrightarrow>
     (common_shape rd, shapes rd) = row_summary shs \<and> (missing_rows rd = 0 \<longleftrightarrow> [] \<notin> set shs)"

lemma all_same_replicate: "(\<forall>s \<in> set xs. s = c) \<Longrightarrow> xs = replicate (length xs) c"
  by (simp add: replicate_length_same)

lemma AddShape_inv:
  assumes "row_inv shs rd"
  shows "row_inv (shs @ [sh]) (AddShape (length shs) sh rd)"
proof (cases "shs \<noteq> [] \<and> hd shs \<noteq> [] \<and> (\<forall>s \<in> set shs. s = hd shs)")
  case True
  then obtain n c where shs: "shs = replicate (Suc n) c" and c: "c \<noteq> []"
    using all_same_replicate [of shs "hd shs"] by (metis Suc_pred length_greater_0_conv)
  have rd: "common_shape rd = Some c" "shapes rd = []" "missing_rows rd = 0"
    using assms c by (auto simp: row_inv_def row_summary_def shs)
  show ?thesis
  proof (cases "sh = c")
    case same: True
    with rd c have "AddShape (length shs) sh rd = rd"
      by (simp add: AddShape_def IsDegenerateShape_def)
    moreover have "row_summary (shs @ [sh]) = (Some c, [])" using same c by (auto simp: row_summary_def shs)
    ultimately show ?thesis using rd c same by (auto simp: row_inv_def shs)
  next
    case differ: False
    then have "row_summary (shs @ [sh]) = (None, shs @ [sh])" by (auto simp: row_summary_def shs)
    with rd c differ show ?thesis
      by (auto simp: row_inv_def AddShape_def Let_def IsDegenerateShape_def shs)
  qed
next
  case False
  with assms have rd: "common_shape rd = None" "shapes rd = shs" by (auto simp: row_inv_def row_summary_def)
  show ?thesis
  proof (cases shs)
    case Nil
    with assms rd show ?thesis
      by (auto simp: row_inv_def row_summary_def AddShape_def Let_def IsDegenerateShape_def)
  next
    case (Cons a as)
    with False have "\<not> (hd (shs @ [sh]) \<noteq> [] \<and> (\<forall>s \<in> set (shs @ [sh]). s = hd (shs @ [sh])))" by auto
    then have "row_summary (shs @ [sh]) = (None, shs @ [sh])" by (auto simp: row_summary_def)
    with Cons assms rd show ?thesis
      by (auto simp: row_inv_def AddShape_def Let_def IsDegenerateShape_def)
  qed
qed

lemma row_inv_again:
  assumes "row_inv shs rd" and "shapes rd = [] \<longrightarrow> common_shape rd = Some sh" and "sh = [] \<longrightarrow> [] \<in> set shs"
  shows "row_inv (shs @ [sh]) (if shapes rd \<noteq> [] then rd\<lparr>shapes := shapes rd @ [sh]\<rparr> else rd)"
proof (cases "shapes rd = []")
  case True
  with assms have "shs \<noteq> [] \<and> hd shs = sh \<and> sh \<noteq> [] \<and> (\<forall>s \<in> set shs. s = sh)"
    by (auto simp: row_inv_def row_summary_def split: if_splits)
  with True assms show ?thesis by (auto simp: row_inv_def row_summary_def)
next
  case False
  with assms have "row_summary shs = (None, shs)" "shs \<noteq> []" "shapes rd = shs" "common_shape rd = None"
    by (auto simp: row_inv_def row_summary_def split: if_splits)
  then have "row_summary (shs @ [sh]) = (None, shs @ [sh])"
    by (cases shs) (auto simp: row_summary_def split: if_splits)
  with False assms \<open>shapes rd = shs\<close> \<open>common_shape rd = None\<close> show ?thesis by (auto simp: row_inv_def)
qed

text \<open>
  What holds of the last defined row: it was clipped to the recorded shape, and while no shapes are
  stored, that is the common shape.
\<close>

definition prev_ok :: "table_column \<Rightarrow> selection \<Rightarrow> shape list \<Rightarrow> row_shape_data \<Rightarrow> (shape \<times> shape) option \<Rightarrow> bool" where
  "prev_ok col sel shs rd prev \<longleftrightarrow>
     (case prev of None \<Rightarrow> True
      | Some (sh, clipped) \<Rightarrow>
          clipped_cell col sel sh = Inr clipped \<and> clipped \<in> set shs \<and>
          (shapes rd = [] \<longrightarrow> common_shape rd = Some clipped))"

definition ranks_ok :: "table_column \<Rightarrow> bool" where
  "ranks_ok col \<longleftrightarrow> (\<forall>r. length (tc_cell col r) < 2 ^ 64 - 1)"

lemma shapes_AddShape_missing: "shapes (AddShape i [] rd) \<noteq> []"
  by (simp add: AddShape_def Let_def IsDegenerateShape_def)

lemma AddShape_common:
  "row_inv shs rd \<Longrightarrow> shapes (AddShape (length shs) sh rd) = [] \<Longrightarrow>
   common_shape (AddShape (length shs) sh rd) = Some sh"
  by (auto simp: AddShape_def Let_def split: if_splits)

lemma row_data_loop_missing:
  assumes "\<not> wrap_int64 (int (tc_nrow col)) \<le> r" and "r < 0 \<or> \<not> tc_defined col (nat r)"
  shows "row_data_loop col sel allow i (r # rs) rd prev cl =
    rbind (row_shape_of col sel allow r) (\<lambda>_. row_data_loop col sel allow (Suc i) rs (AddShape i [] rd) prev cl)"
  using assms by (cases allow) (simp_all add: row_shape_of_def)

lemma row_data_loop_again:
  assumes "\<not> wrap_int64 (int (tc_nrow col)) \<le> r" and "\<not> (r < 0 \<or> \<not> tc_defined col (nat r))"
  shows "row_data_loop col sel allow i (r # rs) rd (Some (tc_cell col (nat r), clipped)) cl =
    row_data_loop col sel allow (Suc i) rs
      (if shapes rd \<noteq> [] then rd\<lparr>shapes := shapes rd @ [clipped]\<rparr> else rd) (Some (tc_cell col (nat r), clipped)) cl"
  using assms by (simp add: Let_def)

lemma row_data_loop_fresh:
  assumes "\<not> wrap_int64 (int (tc_nrow col)) \<le> r" and "\<not> (r < 0 \<or> \<not> tc_defined col (nat r))"
    and "\<forall>sh clipped. prev = Some (sh, clipped) \<longrightarrow> tc_cell col (nat r) \<noteq> sh"
  shows "row_data_loop col sel allow i (r # rs) rd prev cl =
    rbind (Clip col sel cl (tc_cell col (nat r))) (\<lambda>(clipped, cl').
      row_data_loop col sel allow (Suc i) rs (AddShape i clipped rd) (Some (tc_cell col (nat r), clipped)) cl')"
  using assms by (cases prev) (auto simp: Let_def)

lemma row_data_loop_big:
  "wrap_int64 (int (tc_nrow col)) \<le> r \<Longrightarrow> \<exists>e. row_shape_of col sel allow r = Inl e \<and>
     row_data_loop col sel allow i (r # rs) rd prev cl = Inl e"
  by (simp add: row_shape_of_def)

declare row_data_loop.simps(2) [simp del]

lemma row_data_loop_correct:
  assumes "row_inv shs rd" and "prev_ok col sel shs rd prev" and "cache_ok sel cl" and "ranks_ok col"
  shows "(case rmapM (row_shape_of col sel allow) rs of
            Inr new \<Rightarrow> (\<exists>rd'. row_data_loop col sel allow (length shs) rs rd prev cl = Inr rd' \<and> row_inv (shs @ new) rd')
          | Inl e \<Rightarrow> row_data_loop col sel allow (length shs) rs rd prev cl = Inl e)"
  using assms
proof (induction rs arbitrary: shs rd prev cl)
  case (Cons r rs)
  have more: "case rmapM (row_shape_of col sel allow) (r # rs) of
      Inr new \<Rightarrow> (\<exists>rd''. row_data_loop col sel allow (Suc (length shs)) rs rd' prev' cl' = Inr rd'' \<and> row_inv (shs @ new) rd'')
    | Inl e \<Rightarrow> row_data_loop col sel allow (Suc (length shs)) rs rd' prev' cl' = Inl e"
    if "row_shape_of col sel allow r = Inr sh" "row_inv (shs @ [sh]) rd'" "prev_ok col sel (shs @ [sh]) rd' prev'"
      "cache_ok sel cl'" for sh rd' prev' cl'
    using Cons.IH [OF that(2,3,4) Cons.prems(4)] that(1)
    by (cases "rmapM (row_shape_of col sel allow) rs") auto
  let ?n = "wrap_int64 (int (tc_nrow col))"
  consider (big) "?n \<le> r" | (missing) "\<not> ?n \<le> r" "r < 0 \<or> \<not> tc_defined col (nat r)"
    | (again) sh clipped where "\<not> ?n \<le> r" "\<not> (r < 0 \<or> \<not> tc_defined col (nat r))"
        "prev = Some (sh, clipped)" "tc_cell col (nat r) = sh"
    | (fresh) "\<not> ?n \<le> r" "\<not> (r < 0 \<or> \<not> tc_defined col (nat r))"
        "\<forall>sh clipped. prev = Some (sh, clipped) \<longrightarrow> tc_cell col (nat r) \<noteq> sh"
    by blast
  then show ?case
  proof cases
    case big
    from row_data_loop_big [OF this, of sel allow "length shs" rs rd prev cl] show ?thesis by auto
  next
    case missing
    show ?thesis
    proof (cases allow)
      case True
      with missing have sh: "row_shape_of col sel allow r = Inr []" by (simp add: row_shape_of_def)
      have "prev_ok col sel (shs @ [[]]) (AddShape (length shs) [] rd) prev"
        using Cons.prems(2) shapes_AddShape_missing [of "length shs" rd]
        by (auto simp: prev_ok_def split: option.splits)
      from more [OF sh AddShape_inv [OF Cons.prems(1)] this Cons.prems(3)]
      show ?thesis unfolding row_data_loop_missing [OF missing] sh rbind.simps .
    next
      case False
      with missing obtain e where "row_shape_of col sel allow r = Inl e"
        by (cases "0 \<le> r") (auto simp: row_shape_of_def)
      then show ?thesis by (simp add: row_data_loop_missing [OF missing])
    qed
  next
    case again
    let ?rd = "if shapes rd \<noteq> [] then rd\<lparr>shapes := shapes rd @ [clipped]\<rparr> else rd"
    have p: "clipped_cell col sel sh = Inr clipped" "clipped \<in> set shs"
      "shapes rd = [] \<longrightarrow> common_shape rd = Some clipped"
      using Cons.prems(2) again(3) by (auto simp: prev_ok_def)
    have sh: "row_shape_of col sel allow r = Inr clipped" using again p(1) by (simp add: row_shape_of_def)
    have inv: "row_inv (shs @ [clipped]) ?rd" using Cons.prems(1) p by (intro row_inv_again) auto
    have "prev_ok col sel (shs @ [clipped]) ?rd prev" using p again(3) by (auto simp: prev_ok_def)
    note rest = more [OF sh inv this Cons.prems(3)]
    have "row_data_loop col sel allow (length shs) (r # rs) rd prev cl =
        row_data_loop col sel allow (Suc (length shs)) rs ?rd prev cl"
      using row_data_loop_again [OF again(1,2), of sel allow "length shs" rs rd clipped cl]
      by (simp only: again(3,4))
    with rest show ?thesis by (simp only:)
  next
    case fresh
    let ?cell = "tc_cell col (nat r)"
    note loop = row_data_loop_fresh [OF fresh]
    have "length ?cell < 2 ^ 64 - 1" using Cons.prems(4) by (simp add: ranks_ok_def)
    note clip = Clip_cached [OF Cons.prems(3) this, of col]
    have ref: "row_shape_of col sel allow r = clipped_cell col sel ?cell"
      using fresh by (simp add: row_shape_of_def)
    show ?thesis
    proof (cases "Clip col sel cl ?cell")
      case (Inl e)
      with clip have "row_shape_of col sel allow r = Inl e" by (simp add: ref)
      then show ?thesis unfolding loop Inl by simp
    next
      case (Inr p)
      obtain clipped cl' where p: "p = (clipped, cl')" by (cases p)
      from clip Inr p have c: "clipped_cell col sel ?cell = Inr clipped" "cache_ok sel cl'" by auto
      have sh: "row_shape_of col sel allow r = Inr clipped" using c(1) by (simp add: ref)
      have "prev_ok col sel (shs @ [clipped]) (AddShape (length shs) clipped rd) (Some (?cell, clipped))"
        using c(1) AddShape_common [OF Cons.prems(1)] by (auto simp: prev_ok_def)
      from more [OF sh AddShape_inv [OF Cons.prems(1)] this c(2)] show ?thesis
        unfolding loop Inr p rbind.simps prod.case .
    qed
  qed
qed simp

lemma MakeRowData_row_by_row_lemma:
  assumes "ranks_ok col"
  shows "(case rmapM (row_shape_of col sel allow) (selected_rows col sel) of
            Inr shs \<Rightarrow> (\<exists>rd. MakeRowData col sel allow = Inr rd \<and> row_inv shs rd)
          | Inl e \<Rightarrow> MakeRowData col sel allow = Inl e)"
proof -
  have "row_inv [] \<lparr>common_shape = None, shapes = [], missing_rows = 0\<rparr>"
    by (simp add: row_inv_def row_summary_def)
  from row_data_loop_correct [OF this _ new_clipper_ok assms, of sel None allow "selected_rows col sel"]
  show ?thesis by (simp add: MakeRowData_def prev_ok_def split: sum.splits)
qed

text \<open>
  C26. The optimised scan of the selected rows of a variably shaped column, which caches the
  selected dimensions, skips rows shaped like the one before, and stores shapes only once they
  vary, computes the same as clipping every row on its own: it fails with the failure of the first
  row that fails, and otherwise returns the shape all rows share, if there is one and no row is
  missing, or else the shape of every row; and it counts a missing row exactly when there is one.
\<close>

theorem MakeRowData_row_by_row:
  assumes "ranks_ok col"
  shows "(case rmapM (row_shape_of col sel allow) (selected_rows col sel) of
            Inr shs \<Rightarrow> (\<exists>rd. MakeRowData col sel allow = Inr rd \<and>
               (common_shape rd, shapes rd) = row_summary shs \<and> (missing_rows rd = 0 \<longleftrightarrow> [] \<notin> set shs))
          | Inl e \<Rightarrow> MakeRowData col sel allow = Inl e)"
  using MakeRowData_row_by_row_lemma [OF assms] by (simp only: row_inv_def)

definition example_column :: table_column where
  "example_column = \<lparr>tc_name = ''VAR_DATA'', tc_dtype = TpComplex, tc_fixed = False, tc_shape = [],
     tc_ndim = 2, tc_nrow = 4, tc_defined = (\<lambda>r. r \<noteq> 1), tc_cell = (\<lambda>r. if r < 3 then [3, 2] else [4, 1])\<rparr>"

theorem MakeRowData_row_by_row_witness:
  "\<exists>rd. MakeRowData example_column (FromInit IndexElem [[0, 1, 2], [0, 0], []]) True = Inr rd \<and>
     shapes rd = [[3, 2], [], [3, 2]] \<and> missing_rows rd \<noteq> 0"
proof -
  have ranks: "ranks_ok example_column" by (simp add: ranks_ok_def example_column_def)
  have "rmapM (row_shape_of example_column (FromInit IndexElem [[0, 1, 2], [0, 0], []]) True)
      (selected_rows example_column (FromInit IndexElem [[0, 1, 2], [0, 0], []])) = Inr [[3, 2], [], [3, 2]]"
    by code_simp
  with MakeRowData_row_by_row [OF ranks, of "FromInit IndexElem [[0, 1, 2], [0, 0], []]" True]
  show ?thesis by (auto simp: row_summary_def)
qed

end
