(* ===== verification/DataPartition.thy ===== *)
theory DataPartition
  imports RowSplit ResultShape
begin

text \<open>
  The partition of a result into chunks: \<open>cpp/arcae/data_partition.h\<close> and \<open>data_partition.cc\<close>. Each
  dimension is decomposed into spans, a chunk takes one span of every dimension, and the
  chunks of a partition share their geometry in flat arrays of \<open>nDim()\<close> values per chunk.

  The vectors of \<open>id_cache_\<close> only keep alive the indices that spans show, so they are no part of
  the model, as in \<open>Selections\<close>.
\<close>

section \<open>Products of spans\<close>

text \<open>
  The loop over the dimensions extends every combination so far by every span of the next
  dimension, so the last dimension, the rows, varies fastest.
\<close>

fun cartesian_loop :: "span_pairs list \<Rightarrow> span_pairs list \<Rightarrow> span_pairs list" where
  "cartesian_loop [] prods = prods"
| "cartesian_loop (sps # rest) prods =
     cartesian_loop rest (concat (map (\<lambda>result. map (\<lambda>sp. result @ [sp]) sps) prods))"

text \<open>The flags of the chunks \<open>rs * stride .. (rs + 1) * stride\<close> that take the row span \<open>rs\<close>.\<close>

fun row_flags :: "nat \<Rightarrow> nat \<Rightarrow> span_pairs \<Rightarrow> bool list \<Rightarrow> bool list" where
  "row_flags stride rs [] contiguous = contiguous"
| "row_flags stride rs (sp # sps) contiguous =
     row_flags stride (rs + 1) sps
       (map (\<lambda>i. if rs * stride \<le> i \<and> i < (rs + 1) * stride then contiguous ! i \<and> IsMemoryContiguous sp
                 else contiguous ! i) [0..<length contiguous])"

definition CartesianProduct :: "span_pairs list \<Rightarrow> span_pairs list \<times> bool list" where
  "CartesianProduct dim_spans =
     (let nproducts = prod_list (map length dim_spans);
          prods = cartesian_loop dim_spans [[]];
          secondary_contig = SecondaryDimensionsContiguous dim_spans;
          contiguous = replicate nproducts secondary_contig
      in if \<not> secondary_contig then (prods, contiguous)
         else (prods, row_flags (prod_list (map length (butlast dim_spans))) 0 (last dim_spans) contiguous))"

section \<open>Chunks\<close>

record SharedChunkData =
  nchunks :: nat
  sc_ndim :: nat
  casa_dtype_of :: casa_dtype
  dim_spans :: "span_pairs list"
  min_mem_index :: "nat list"
  flat_offsets :: "nat list"
  buffer_strides :: "nat list"
  chunk_strides :: "nat list"
  scratch_position :: "nat list"
  contiguous_flags :: "bool list"

record DataChunk =
  chunk_id :: nat
  shared :: SharedChunkData

definition nDim :: "DataChunk \<Rightarrow> nat" where
  "nDim ch = sc_ndim (shared ch)"

definition CasaDataType :: "DataChunk \<Rightarrow> casa_dtype" where
  "CasaDataType ch = casa_dtype_of (shared ch)"

definition DimensionSpans :: "DataChunk \<Rightarrow> span_pairs" where
  "DimensionSpans ch = dim_spans (shared ch) ! chunk_id ch"

definition MinMemIndex :: "DataChunk \<Rightarrow> nat list" where
  "MinMemIndex ch = subspan (chunk_id ch * nDim ch) (nDim ch) (min_mem_index (shared ch))"

definition ChunkStrides :: "DataChunk \<Rightarrow> nat list" where
  "ChunkStrides ch = subspan (chunk_id ch * nDim ch) (nDim ch) (chunk_strides (shared ch))"

definition BufferStrides :: "DataChunk \<Rightarrow> nat list" where
  "BufferStrides ch = subspan (chunk_id ch * nDim ch) (nDim ch) (buffer_strides (shared ch))"

definition ScratchPositions :: "DataChunk \<Rightarrow> nat list" where
  "ScratchPositions ch = subspan (chunk_id ch * nDim ch) (nDim ch) (scratch_position (shared ch))"

definition ChunkOffset :: "DataChunk \<Rightarrow> nat" where
  "ChunkOffset ch = flat_offsets (shared ch) ! chunk_id ch"

definition IsContiguous :: "DataChunk \<Rightarrow> bool" where
  "IsContiguous ch = contiguous_flags (shared ch) ! chunk_id ch"

definition ChunkElements :: "DataChunk \<Rightarrow> nat" where
  "ChunkElements ch = fold (\<lambda>v i. i * length (disk v)) (DimensionSpans ch) 1"

definition ChunkBytes :: "nat \<Rightarrow> DataChunk \<Rightarrow> nat result" where
  "ChunkBytes string_size ch =
     rbind (CasaDataTypeSize string_size (CasaDataType ch)) (\<lambda>nbytes. Inr (nbytes * ChunkElements ch))"

definition ChunkShape :: "DataChunk \<Rightarrow> shape" where
  "ChunkShape ch = map (\<lambda>sp. length (disk sp)) (DimensionSpans ch)"

definition IsEmpty :: "DataChunk \<Rightarrow> bool" where
  "IsEmpty ch = (list_ex (\<lambda>sp. list_ex (\<lambda>i. i < 0) (disk sp)) (DimensionSpans ch) \<or> ChunkElements ch = 0)"

text \<open>What the slicers and row references made for casacore hold.\<close>

datatype ref_rows = RowRange int int | RowVector "int list"

record slicer =
  slice_start :: "int list"
  slice_end :: "int list"     \<comment> \<open>\<open>Slicer::endIsLast\<close>: the last index is part of the slice\<close>

definition RowSlicer :: "DataChunk \<Rightarrow> slicer" where
  "RowSlicer ch =
     (let s = disk (DimensionSpans ch ! (nDim ch - 1))
      in \<lparr>slice_start = [s ! 0], slice_end = [s ! (length s - 1)]\<rparr>)"

definition ReferenceRows :: "DataChunk \<Rightarrow> ref_rows" where
  "ReferenceRows ch =
     (let s = disk (DimensionSpans ch ! (nDim ch - 1))
      in if 0 < length s \<and> 0 \<le> hd s \<and> int (length s) = last s - hd s + 1
         then RowRange (hd s) (last s) else RowVector s)"

definition SectionSlicer :: "DataChunk \<Rightarrow> slicer" where
  "SectionSlicer ch =
     (let dims = take (nDim ch - 1) (DimensionSpans ch)
      in \<lparr>slice_start = map (\<lambda>sp. disk sp ! 0) dims,
          slice_end = map (\<lambda>sp. disk sp ! (length (disk sp) - 1)) dims\<rparr>)"

section \<open>Making the chunks\<close>

text \<open>The products a stride loop multiplies into the strides of the dimensions after the first.\<close>

fun stride_loop :: "nat list \<Rightarrow> nat \<Rightarrow> nat \<Rightarrow> nat list result" where
  "stride_loop lens 0 p = Inr []"
| "stride_loop [] (Suc n) p = Inl (Undefined ''out of range'')"
| "stride_loop (s # ss) (Suc n) p = rbind (stride_loop ss n (p * s)) (\<lambda>rest. Inr (p * s # rest))"

definition make_strides :: "nat list \<Rightarrow> nat \<Rightarrow> nat list result" where
  "make_strides lens ndim =
     (if ndim = 0 then Inr [] else rbind (stride_loop lens (ndim - 1) 1) (\<lambda>rest. Inr (1 # rest)))"

definition min_mem :: "span_pair \<Rightarrow> nat" where
  "min_mem sp = (if mem sp = [] then 0 else Min (set (mem sp)))"

record chunk_geometry =
  g_buffer :: "nat list"
  g_chunk :: "nat list"
  g_min :: "nat list"
  g_offset :: nat

definition make_geometry :: "ResultShapeData \<Rightarrow> nat list option \<Rightarrow> span_pairs \<Rightarrow> chunk_geometry result" where
  "make_geometry d row_offsets dim_span =
     (let ndim = length dim_span; mins = map min_mem dim_span
      in rbind (case rs_shape d of
                  Some sh \<Rightarrow> make_strides sh ndim
                | None \<Rightarrow>
                    rbind (at dim_span (ndim - 1)) (\<lambda>row_span.
                    rbind (require (length (mem row_span) = 1)
                             (Invalid [Str ''Expected a single row dimension''])) (\<lambda>_.
                    rbind (at (the (rs_row_shapes d)) (mem row_span ! 0)) (\<lambda>sh. make_strides sh ndim))))
           (\<lambda>buffer.
         rbind (make_strides (map (\<lambda>sp. length (mem sp)) dim_span) ndim) (\<lambda>chunk.
         rbind (FlatOffset d (map int mins) row_offsets) (\<lambda>offset.
         Inr \<lparr>g_buffer = buffer, g_chunk = chunk, g_min = mins, g_offset = offset\<rparr>))))"

definition MakeDataChunks :: "span_pairs list \<Rightarrow> bool list \<Rightarrow> ResultShapeData \<Rightarrow> DataChunk list result" where
  "MakeDataChunks tuples contiguous d =
     (if tuples = [] then Inr []
      else let n = length tuples; ndim = length (tuples ! 0)
           in rbind (rmapM (make_geometry d (if IsFixed d then None else Some (RowOffsets d))) tuples) (\<lambda>gs.
              let sh = \<lparr>nchunks = n, sc_ndim = ndim, casa_dtype_of = rs_dtype d, dim_spans = tuples,
                        min_mem_index = concat (map g_min gs), flat_offsets = map g_offset gs,
                        buffer_strides = concat (map g_buffer gs), chunk_strides = concat (map g_chunk gs),
                        scratch_position = replicate (n * ndim) 0, contiguous_flags = contiguous\<rparr>
              in Inr (map (\<lambda>c. \<lparr>chunk_id = c, shared = sh\<rparr>) [0..<n])))"

section \<open>The partition\<close>

record RowSplitOptions =
  max_splits :: nat
  min_bytes :: nat
  unit_start :: "(nat \<Rightarrow> nat) option"

definition no_split :: RowSplitOptions where
  "no_split = \<lparr>max_splits = 1, min_bytes = 0, unit_start = None\<rparr>"

record DataPartition =
  data_chunks :: "DataChunk list"
  dp_dtype :: casa_dtype

definition nChunks :: "DataPartition \<Rightarrow> nat" where
  "nChunks p = length (data_chunks p)"

definition PartitionElements :: "DataPartition \<Rightarrow> nat" where
  "PartitionElements p = fold (\<lambda>v i. i + ChunkElements v) (data_chunks p) 0"

text \<open>The lambda \<open>GetSpanPair\<close> of \<open>Make\<close>; \<open>ids\<close> are the \<open>monotonic_ids\<close>.\<close>

definition GetSpanPair :: "selection \<Rightarrow> nat \<Rightarrow> nat list \<Rightarrow> nat \<Rightarrow> nat \<Rightarrow> span_pair" where
  "GetSpanPair sel result_ndim ids dim dim_size =
     (case MaybeFSpan sel dim result_ndim of
        Some dim_span \<Rightarrow> MakeSortedIndices dim_span
      | None \<Rightarrow> \<lparr>disk = map int (subspan 0 dim_size ids), mem = subspan 0 dim_size ids\<rparr>)"

text \<open>\<open>GetPaddedSpanPair\<close> with its cache, which is keyed by dimension and extent.\<close>

type_synonym padded_cache = "(nat \<times> nat) \<rightharpoonup> span_pair"

definition GetPaddedSpanPair :: "nat \<Rightarrow> nat \<Rightarrow> nat \<Rightarrow> padded_cache \<Rightarrow> span_pair \<times> padded_cache" where
  "GetPaddedSpanPair dim dim_size extent cache =
     (case cache (dim, extent) of
        Some sp \<Rightarrow> (sp, cache)
      | None \<Rightarrow> let sp = MakeSortedIndices (padded_ids dim_size extent)
                in (sp, cache((dim, extent) \<mapsto> sp)))"

text \<open>The fixed case: one decomposition per dimension, then the split of the rows.\<close>

definition fixed_dim_spans :: "selection \<Rightarrow> shape \<Rightarrow> nat \<Rightarrow> nat list \<Rightarrow> span_pairs list result" where
  "fixed_dim_spans sel sh result_ndim ids =
     rmapM (\<lambda>d. rbind (at sh d) (\<lambda>size_d.
              let sp = GetSpanPair sel result_ndim ids d size_d
              in MakeSubSpans (disk sp) (mem sp) (d = result_ndim - 1))) [0..<result_ndim]"

definition count_rows :: "span_pairs \<Rightarrow> nat" where
  "count_rows sps = fold (\<lambda>sp n. if is_read sp then n + length (disk sp) else n) sps 0"

definition row_bytes_of :: "nat \<Rightarrow> span_pairs list \<Rightarrow> nat" where
  "row_bytes_of dtype_size secondary =
     fold (\<lambda>sps b. b * fold (\<lambda>sp n. n + length (disk sp)) sps 0) secondary dtype_size"

definition split_rows :: "nat \<Rightarrow> casa_dtype \<Rightarrow> RowSplitOptions \<Rightarrow> span_pairs list \<Rightarrow> span_pairs list result" where
  "split_rows string_size dtype opts dim_subspans =
     (if max_splits opts \<le> 1 then Inr dim_subspans
      else rbind (CasaDataTypeSize string_size dtype) (\<lambda>dtype_size.
        let row_bytes = row_bytes_of dtype_size (butlast dim_subspans);
            nrows = count_rows (last dim_subspans);
            nsplits = (if 0 < min_bytes opts
                       then min (max_splits opts) (nrows * row_bytes div min_bytes opts)
                       else max_splits opts);
            nsplits = min nsplits nrows
        in if 1 < nsplits
           then rbind (SplitRowSpans (last dim_subspans) nrows nsplits (unit_start opts)) (\<lambda>rows.
                Inr (butlast dim_subspans @ [rows]))
           else Inr dim_subspans))"

text \<open>
  The case of rows that vary. The spans of the secondary dimensions of one row, with the cache of
  padded spans passed along; \<open>extents\<close> are the cell extents of the row, if the result has any.
\<close>

fun row_dim_spans ::
  "selection \<Rightarrow> nat \<Rightarrow> nat list \<Rightarrow> shape \<Rightarrow> shape option \<Rightarrow> nat list \<Rightarrow> padded_cache \<Rightarrow>
   (span_pairs list \<times> padded_cache) result" where
  "row_dim_spans sel result_ndim ids row_shape extents [] cache = Inr ([], cache)"
| "row_dim_spans sel result_ndim ids row_shape extents (dim # dims) cache =
     rbind (at row_shape dim) (\<lambda>dim_size.
     rbind (case extents of
              Some es \<Rightarrow> rbind (at es dim) (\<lambda>extent.
                Inr (if extent < dim_size then GetPaddedSpanPair dim dim_size extent cache
                     else (GetSpanPair sel result_ndim ids dim dim_size, cache)))
            | None \<Rightarrow> Inr (GetSpanPair sel result_ndim ids dim dim_size, cache)) (\<lambda>(sp, cache').
     rbind (MakeSubSpans (disk sp) (mem sp) False) (\<lambda>spans.
     rbind (row_dim_spans sel result_ndim ids row_shape extents dims cache') (\<lambda>(rest, cache'').
     Inr (spans # rest, cache'')))))"

fun varying_rows ::
  "ResultShapeData \<Rightarrow> selection \<Rightarrow> nat \<Rightarrow> nat list \<Rightarrow> span_pair \<Rightarrow> nat list \<Rightarrow> padded_cache \<Rightarrow>
   (span_pairs list \<times> bool list) result" where
  "varying_rows d sel result_ndim ids rows [] cache = Inr ([], [])"
| "varying_rows d sel result_ndim ids rows (r # rs) cache =
     rbind (at (mem rows) r) (\<lambda>row.
     rbind (case rs_shape d of
              Some sh \<Rightarrow> Inr (take (result_ndim - 1) sh)
            | None \<Rightarrow> at (the (rs_row_shapes d)) row) (\<lambda>row_shape.
     rbind (case rs_cell_extents d of
              Some es \<Rightarrow> rbind (at es row) (\<lambda>e. Inr (Some e))
            | None \<Rightarrow> Inr None) (\<lambda>extents.
     rbind (row_dim_spans sel result_ndim ids row_shape extents [0..<result_ndim - 1] cache) (\<lambda>(secondary, cache').
     let (prods, contiguous) =
           CartesianProduct (secondary @ [[\<lparr>disk = subspan r 1 (disk rows), mem = subspan r 1 (mem rows)\<rparr>]])
     in rbind (varying_rows d sel result_ndim ids rows rs cache') (\<lambda>(prods', contiguous').
        Inr (prods @ prods', contiguous @ contiguous'))))))"

definition Make :: "nat \<Rightarrow> selection \<Rightarrow> ResultShapeData \<Rightarrow> RowSplitOptions \<Rightarrow> DataPartition result" where
  "Make string_size sel d opts =
     rbind (MaxDimensionSize d) (\<lambda>max_size.
     let ids = [0..<max_size]
     in rbind (ConsistentNDim d) (\<lambda>result_ndim.
        if IsFixed d \<and> \<not> HasCellExtents d then
          rbind (fixed_dim_spans sel (GetShape d) result_ndim ids) (\<lambda>dim_subspans.
          rbind (split_rows string_size (rs_dtype d) opts dim_subspans) (\<lambda>dim_subspans'.
          let (prods, contiguous) = CartesianProduct dim_subspans'
          in rbind (MakeDataChunks prods contiguous d) (\<lambda>chunks.
             Inr \<lparr>data_chunks = chunks, dp_dtype = rs_dtype d\<rparr>)))
        else
          let rows = GetSpanPair sel result_ndim ids (result_ndim - 1) (nRows d)
          in rbind (varying_rows d sel result_ndim ids rows [0..<nRows d] Map.empty) (\<lambda>(spans, contiguous).
             if spans = [] then Inl (Invalid [Str ''Data partition produced no chunks!''])
             else rbind (MakeDataChunks spans contiguous d) (\<lambda>chunks.
                  Inr \<lparr>data_chunks = chunks, dp_dtype = rs_dtype d\<rparr>))))"

end
