(* ===== verification/ChunkCopy.thy ===== *)
theory ChunkCopy
  imports DataPartition
begin

text \<open>
  Moving a chunk between a casacore array and a buffer: \<open>CopyChunkArray\<close> of \<open>cpp/arcae/read_impl.cc\<close>
  and \<open>GatherChunkArray\<close> of \<open>cpp/arcae/write_impl.cc\<close>. Both walk the positions of a chunk with an
  odometer, and relate the storage of the chunk to the places of its elements in the buffer.

  Buffers and arrays are lists. The loops are functions into \<open>option\<close>: \<open>None\<close> stands for an access
  out of range and for a loop that does not end.
\<close>

section \<open>The loops\<close>

text \<open>
  The increment of \<open>pos\<close> at the end of an iteration, and the flag \<open>done\<close> it leaves: dimensions are
  reset to zero up to the first one that does not reach its end.
\<close>

fun advance :: "nat list \<Rightarrow> nat list \<Rightarrow> nat list \<times> bool" where
  "advance (n # ns) (p # ps) =
     (if p + 1 < n then ((p + 1) # ps, False)
      else if ns = [] then (0 # ps, True)
      else case advance ns ps of (ps', done) \<Rightarrow> (0 # ps', done))"
| "advance ns ps = (ps, False)"

text \<open>\<open>(spans[d].mem[pos[d]] - min_mem[d]) * buffer_strides[d]\<close>, summed over the dimensions.\<close>

definition buffer_index :: "span_pairs \<Rightarrow> nat list \<Rightarrow> nat list \<Rightarrow> nat list \<Rightarrow> nat" where
  "buffer_index sps mins strides pos = dot (map2 (-) (map2 (\<lambda>sp p. mem sp ! p) sps pos) mins) strides"

definition pos_ok :: "span_pairs \<Rightarrow> nat list \<Rightarrow> nat list \<Rightarrow> bool" where
  "pos_ok sps mins pos \<longleftrightarrow>
     list_all2 (\<lambda>sp p. p < length (mem sp)) sps pos \<and>
     list_all2 (\<le>) mins (map2 (\<lambda>sp p. mem sp ! p) sps pos)"

partial_function (option) copy_loop ::
  "span_pairs \<Rightarrow> nat list \<Rightarrow> nat list \<Rightarrow> nat list \<Rightarrow> nat \<Rightarrow> 'a list \<Rightarrow> nat list \<Rightarrow> 'a list \<Rightarrow> 'a list option" where
  "copy_loop sps mins cs bs offset data pos out =
     (if pos_ok sps mins pos \<and> dot pos cs < length data \<and> offset + buffer_index sps mins bs pos < length out
      then let out' = out[offset + buffer_index sps mins bs pos := data ! dot pos cs];
               step = advance (map (\<lambda>sp. length (mem sp)) sps) pos
           in if snd step then Some out' else copy_loop sps mins cs bs offset data (fst step) out'
      else None)"

definition CopyChunkArray :: "DataChunk \<Rightarrow> 'a list \<Rightarrow> 'a list \<Rightarrow> 'a list option" where
  "CopyChunkArray ch data buffer =
     copy_loop (DimensionSpans ch) (MinMemIndex ch) (ChunkStrides ch) (BufferStrides ch) (ChunkOffset ch)
       data (replicate (nDim ch) 0) buffer"

partial_function (option) gather_loop ::
  "span_pairs \<Rightarrow> nat list \<Rightarrow> nat list \<Rightarrow> nat list \<Rightarrow> nat \<Rightarrow> 'a list \<Rightarrow> nat list \<Rightarrow> 'a list \<Rightarrow> 'a list option" where
  "gather_loop sps mins cs bs offset buffer pos out =
     (if pos_ok sps mins pos \<and> offset + buffer_index sps mins bs pos < length buffer \<and> dot pos cs < length out
      then let out' = out[dot pos cs := buffer ! (offset + buffer_index sps mins bs pos)];
               step = advance (map (\<lambda>sp. length (mem sp)) sps) pos
           in if snd step then Some out' else gather_loop sps mins cs bs offset buffer (fst step) out'
      else None)"

text \<open>\<open>fresh\<close> stands for the initial values of the array the elements are gathered into.\<close>

definition GatherChunkArray :: "'a \<Rightarrow> DataChunk \<Rightarrow> 'a list \<Rightarrow> 'a list option" where
  "GatherChunkArray fresh ch buffer =
     gather_loop (DimensionSpans ch) (MinMemIndex ch) (ChunkStrides ch) (BufferStrides ch) (ChunkOffset ch)
       buffer (replicate (nDim ch) 0) (replicate (prod_list (ChunkShape ch)) fresh)"

section \<open>The odometer\<close>

lemma advance_next:
  assumes "in_box ns pos" and "ns \<noteq> []"
  shows "(if Suc (lin ns pos) = prod_list ns then snd (advance ns pos)
          else \<not> snd (advance ns pos) \<and> in_box ns (fst (advance ns pos)) \<and>
               lin ns (fst (advance ns pos)) = Suc (lin ns pos))"
  using assms
proof (induction ns arbitrary: pos)
  case (Cons n ns)
  then obtain p ps where pos: "pos = p # ps" "p < n" "in_box ns ps" by (auto simp: in_box_Cons)
  have l: "lin (n # ns) pos = p + n * lin ns ps" by (simp add: pos(1))
  have less: "lin ns ps < prod_list ns" by (rule lin_less [OF pos(3)])
  show ?case
  proof (cases "p + 1 < n")
    case True
    have "n * Suc (lin ns ps) \<le> n * prod_list ns" using less by (intro mult_le_mono2) simp
    then have "Suc (lin (n # ns) pos) \<noteq> prod_list (n # ns)" using True l by simp
    with True pos show ?thesis by simp
  next
    case False
    with pos(2) have n: "n = Suc p" by simp
    show ?thesis
    proof (cases "ns = []")
      case True
      with pos n show ?thesis by simp
    next
      case ne: False
      have s: "Suc (lin (n # ns) pos) = n * Suc (lin ns ps)" using l n by simp
      have "0 < n" using n by simp
      then have "Suc (lin (n # ns) pos) = prod_list (n # ns) \<longleftrightarrow> Suc (lin ns ps) = prod_list ns"
        by (simp only: s prod_list.Cons mult_cancel1) simp
      with Cons.IH [OF pos(3) ne] ne False pos s \<open>0 < n\<close> show ?thesis
        by (auto simp: case_prod_beta split: if_splits)
    qed
  qed
qed simp

section \<open>What the loops compute\<close>

definition store_all :: "(nat \<Rightarrow> 'a) \<Rightarrow> (nat list \<Rightarrow> nat) \<Rightarrow> (nat list \<Rightarrow> nat) \<Rightarrow> nat list list \<Rightarrow> 'a list \<Rightarrow> 'a list" where
  "store_all src target source ps out = fold (\<lambda>p out. out[target p := src (source p)]) ps out"

lemma length_store_all [simp, list_lens]: "length (store_all src t s ps out) = length out"
  unfolding store_all_def by (induction ps arbitrary: out) auto

text \<open>Every position of the chunk can be visited.\<close>

definition loop_ok :: "span_pairs \<Rightarrow> nat list \<Rightarrow> (nat list \<Rightarrow> nat) \<Rightarrow> nat \<Rightarrow> (nat list \<Rightarrow> nat) \<Rightarrow> nat \<Rightarrow> bool" where
  "loop_ok sps mins source n target m \<longleftrightarrow>
     (\<forall>p. in_box (map (\<lambda>sp. length (mem sp)) sps) p \<longrightarrow> pos_ok sps mins p \<and> source p < n \<and> target p < m)"

lemma copy_loop_from:
  assumes "sps \<noteq> []" and "in_box (map (\<lambda>sp. length (mem sp)) sps) pos"
    and "loop_ok sps mins (\<lambda>p. dot p cs) (length data) (\<lambda>p. offset + buffer_index sps mins bs p) (length out)"
  shows "copy_loop sps mins cs bs offset data pos out =
    Some (store_all ((!) data) (\<lambda>p. offset + buffer_index sps mins bs p) (\<lambda>p. dot p cs)
      (drop (lin (map (\<lambda>sp. length (mem sp)) sps) pos) (box (map (\<lambda>sp. length (mem sp)) sps))) out)"
  using assms(2,3)
proof (induction "prod_list (map (\<lambda>sp. length (mem sp)) sps) - lin (map (\<lambda>sp. length (mem sp)) sps) pos"
    arbitrary: pos out rule: less_induct)
  case less
  let ?ns = "map (\<lambda>sp. length (mem sp)) sps"
  let ?a = "offset + buffer_index sps mins bs pos"
  let ?out = "out[?a := data ! dot pos cs]"
  have ok: "pos_ok sps mins pos" "dot pos cs < length data" "?a < length out"
    using less.prems by (auto simp: loop_ok_def)
  have k: "lin ?ns pos < prod_list ?ns" by (rule lin_less [OF less.prems(1)])
  have "box ?ns ! lin ?ns pos = pos" by (rule box_nth_lin [OF less.prems(1)])
  then have drop: "drop (lin ?ns pos) (box ?ns) = pos # drop (Suc (lin ?ns pos)) (box ?ns)"
    using k by (metis Cons_nth_drop_Suc length_box)
  have step: "copy_loop sps mins cs bs offset data pos out =
      (if snd (advance ?ns pos) then Some ?out
       else copy_loop sps mins cs bs offset data (fst (advance ?ns pos)) ?out)"
    using ok by (subst copy_loop.simps) (simp add: Let_def)
  have ne: "?ns \<noteq> []" using assms(1) by simp
  note adv = advance_next [OF less.prems(1) ne]
  show ?case
  proof (cases "Suc (lin ?ns pos) = prod_list ?ns")
    case True
    then have "drop (Suc (lin ?ns pos)) (box ?ns) = []" by simp
    with True adv show ?thesis by (simp add: step drop store_all_def)
  next
    case False
    let ?pos = "fst (advance ?ns pos)"
    from False adv have a: "\<not> snd (advance ?ns pos)" "in_box ?ns ?pos" "lin ?ns ?pos = Suc (lin ?ns pos)" by auto
    have "copy_loop sps mins cs bs offset data ?pos ?out =
      Some (store_all ((!) data) (\<lambda>p. offset + buffer_index sps mins bs p) (\<lambda>p. dot p cs)
        (drop (lin ?ns ?pos) (box ?ns)) ?out)"
      by (rule less.hyps) (use a k less.prems(2) in \<open>auto simp: loop_ok_def\<close>)
    with a show ?thesis by (simp add: step drop store_all_def)
  qed
qed

lemma gather_loop_from:
  assumes "sps \<noteq> []" and "in_box (map (\<lambda>sp. length (mem sp)) sps) pos"
    and "loop_ok sps mins (\<lambda>p. offset + buffer_index sps mins bs p) (length buffer) (\<lambda>p. dot p cs) (length out)"
  shows "gather_loop sps mins cs bs offset buffer pos out =
    Some (store_all ((!) buffer) (\<lambda>p. dot p cs) (\<lambda>p. offset + buffer_index sps mins bs p)
      (drop (lin (map (\<lambda>sp. length (mem sp)) sps) pos) (box (map (\<lambda>sp. length (mem sp)) sps))) out)"
  using assms(2,3)
proof (induction "prod_list (map (\<lambda>sp. length (mem sp)) sps) - lin (map (\<lambda>sp. length (mem sp)) sps) pos"
    arbitrary: pos out rule: less_induct)
  case less
  let ?ns = "map (\<lambda>sp. length (mem sp)) sps"
  let ?a = "offset + buffer_index sps mins bs pos"
  let ?out = "out[dot pos cs := buffer ! ?a]"
  have ok: "pos_ok sps mins pos" "?a < length buffer" "dot pos cs < length out"
    using less.prems by (auto simp: loop_ok_def)
  have k: "lin ?ns pos < prod_list ?ns" by (rule lin_less [OF less.prems(1)])
  have "box ?ns ! lin ?ns pos = pos" by (rule box_nth_lin [OF less.prems(1)])
  then have drop: "drop (lin ?ns pos) (box ?ns) = pos # drop (Suc (lin ?ns pos)) (box ?ns)"
    using k by (metis Cons_nth_drop_Suc length_box)
  have step: "gather_loop sps mins cs bs offset buffer pos out =
      (if snd (advance ?ns pos) then Some ?out
       else gather_loop sps mins cs bs offset buffer (fst (advance ?ns pos)) ?out)"
    using ok by (subst gather_loop.simps) (simp add: Let_def)
  have ne: "?ns \<noteq> []" using assms(1) by simp
  note adv = advance_next [OF less.prems(1) ne]
  show ?case
  proof (cases "Suc (lin ?ns pos) = prod_list ?ns")
    case True
    then have "drop (Suc (lin ?ns pos)) (box ?ns) = []" by simp
    with True adv show ?thesis by (simp add: step drop store_all_def)
  next
    case False
    let ?pos = "fst (advance ?ns pos)"
    from False adv have a: "\<not> snd (advance ?ns pos)" "in_box ?ns ?pos" "lin ?ns ?pos = Suc (lin ?ns pos)" by auto
    have "gather_loop sps mins cs bs offset buffer ?pos ?out =
      Some (store_all ((!) buffer) (\<lambda>p. dot p cs) (\<lambda>p. offset + buffer_index sps mins bs p)
        (drop (lin ?ns ?pos) (box ?ns)) ?out)"
      by (rule less.hyps) (use a k less.prems(2) in \<open>auto simp: loop_ok_def\<close>)
    with a show ?thesis by (simp add: step drop store_all_def)
  qed
qed

section \<open>The places of a chunk\<close>

text \<open>The index in memory of a position, and the place of its element in a buffer of shape \<open>sh\<close>.\<close>

definition mem_index :: "span_pairs \<Rightarrow> nat list \<Rightarrow> nat list" where
  "mem_index sps pos = map2 (\<lambda>sp p. mem sp ! p) sps pos"

lemma dot_le_split:
  "list_all2 (\<le>) mins xs \<Longrightarrow> length xs = length ss \<Longrightarrow> dot (map2 (-) xs mins) ss + dot mins ss = dot xs ss"
proof (induction mins xs arbitrary: ss rule: list_all2_induct)
  case (Cons m ms x xs)
  then obtain s ss' where ss: "ss = s # ss'" "length xs = length ss'" by (cases ss) auto
  have "(x - m) * s + m * s = x * s" using Cons(1) by (metis add_mult_distrib le_add_diff_inverse2)
  with Cons.IH [OF ss(2)] ss(1) show ?case by (simp only: list.map zip_Cons_Cons prod.case dot_simps)
qed simp

text \<open>Taking the least memory indices off every index and adding their place is the place itself.\<close>

lemma buffer_index_lin:
  assumes "pos_ok sps mins pos" and "length sps = length sh"
  shows "lin sh mins + buffer_index sps mins (strides_from 1 sh) pos = lin sh (mem_index sps pos)"
proof -
  have "length pos = length sps" using assms(1) by (auto simp: pos_ok_def dest: list_all2_lengthD)
  then have "dot (map2 (-) (mem_index sps pos) mins) (strides_from 1 sh) + dot mins (strides_from 1 sh) =
      dot (mem_index sps pos) (strides_from 1 sh)"
    using assms by (intro dot_le_split) (simp_all add: pos_ok_def mem_index_def)
  then show ?thesis by (simp add: buffer_index_def lin_def mem_index_def)
qed

lemma nth_store_all_in:
  assumes "\<forall>p \<in> set ps. target p = a \<longrightarrow> src (source p) = v" and "\<exists>p \<in> set ps. target p = a" and "a < length out"
  shows "store_all src target source ps out ! a = v"
  using assms
proof (induction ps arbitrary: out)
  case (Cons p ps)
  let ?out = "out[target p := src (source p)]"
  have rest: "store_all src target source (p # ps) out = store_all src target source ps ?out"
    by (simp add: store_all_def)
  show ?case
  proof (cases "\<exists>q \<in> set ps. target q = a")
    case True
    with Cons.IH [of ?out] Cons.prems(1,3) show ?thesis unfolding rest by simp
  next
    case False
    then have "target p = a" using Cons.prems(2) by auto
    have "store_all src target source ps out' ! a = out' ! a" for out'
      using False unfolding store_all_def by (induction ps arbitrary: out') auto
    then show ?thesis using \<open>target p = a\<close> Cons.prems(1,3) unfolding rest by simp
  qed
qed simp

lemma nth_store_all_out:
  "\<forall>p \<in> set ps. target p \<noteq> a \<Longrightarrow> store_all src target source ps out ! a = out ! a"
  unfolding store_all_def by (induction ps arbitrary: out) auto

end
