(* ===== verification/FixedPartition.thy ===== *)
theory FixedPartition
  imports DataPartition
begin

text \<open>
  The partition of a fixed shape result: \<open>CartesianProduct\<close> enumerates every combination of spans,
  \<open>MakeDataChunks\<close> gives each chunk the geometry of its spans, and the chunks of \<open>Make\<close> hold every
  element of the result exactly once, paired with the disk indices the selection asks for.
\<close>

section \<open>Combinations in memory order\<close>

fun cart :: "'a list list \<Rightarrow> 'a list list" where
  "cart [] = [[]]"
| "cart (xs # xss) = concat (map (\<lambda>is. map (\<lambda>i. i # is) xs) (cart xss))"

lemma box_cart: "box sh = cart (map (\<lambda>s. [0..<s]) sh)"
  by (induction sh) auto

lemma cart_map: "cart (map (map f) xss) = map (map f) (cart xss)"
  by (induction xss) (auto simp: map_concat comp_def)

lemma length_cart_elem: "is \<in> set (cart xss) \<Longrightarrow> length is = length xss"
  by (induction xss arbitrary: "is") auto

lemma cart_box: "cart xss = map (\<lambda>idx. map2 (!) xss idx) (box (map length xss))"
proof (induction xss)
  case (Cons xs xss)
  have "map (\<lambda>k. xs ! k # is) [0..<length xs] = map (\<lambda>i. i # is) xs" for "is"
    by (rule nth_equalityI) simp_all
  then have "cart (xs # xss) = concat (map (\<lambda>is. map (\<lambda>k. xs ! k # is) [0..<length xs])
      (map (\<lambda>idx. map2 (!) xss idx) (box (map length xss))))"
    unfolding cart.simps Cons.IH by (simp only:)
  then show ?case by (simp add: map_concat comp_def)
qed simp

lemma length_cart [simp, list_lens]: "length (cart xss) = prod_list (map length xss)"
  by (simp add: cart_box)

text \<open>Extending every element of \<open>M\<close> by every element of a list, as multisets.\<close>

definition cart_step :: "'a list \<Rightarrow> 'a list multiset \<Rightarrow> 'a list multiset" where
  "cart_step xs M = sum_mset (image_mset (\<lambda>is. mset (map (\<lambda>i. i # is) xs)) M)"

lemma mset_concat_map: "mset (concat (map f xs)) = sum_list (map (\<lambda>x. mset (f x)) xs)"
  by (induction xs) auto

lemma sum_mset_mset_map: "sum_mset (image_mset f (mset xs)) = sum_list (map f xs)"
  by (induction xs) auto

lemma mset_cart_Cons: "mset (cart (xs # xss)) = cart_step xs (mset (cart xss))"
  by (simp add: cart_step_def mset_concat_map sum_mset_mset_map)

lemma cart_step_append: "cart_step (xs @ ys) M = cart_step xs M + cart_step ys M"
  by (induction M) (auto simp: cart_step_def)

lemma cart_step_Nil: "cart_step [] M = {#}"
  by (induction M) (auto simp: cart_step_def)

lemma cart_step_concat: "cart_step (concat xss) M = sum_list (map (\<lambda>xs. cart_step xs M) xss)"
  by (induction xss) (auto simp: cart_step_append cart_step_Nil)

lemma cart_step_plus: "cart_step xs (M + N) = cart_step xs M + cart_step xs N"
  by (simp add: cart_step_def)

lemma cart_step_sum: "cart_step xs (sum_list (map g ts)) = sum_list (map (\<lambda>t. cart_step xs (g t)) ts)"
  by (induction ts) (auto simp: cart_step_plus, simp add: cart_step_def)

lemma sum_list_map_concat: "sum_list (map g (concat (map h xs))) = sum_list (map (\<lambda>x. sum_list (map g (h x))) xs)"
  by (induction xs) auto

lemma mset_cart_product_lists:
  "mset (concat (map (\<lambda>t. cart (map f t)) (product_lists L))) = mset (cart (map (\<lambda>sps. concat (map f sps)) L))"
proof (induction L)
  case (Cons sps L)
  have "mset (concat (map (\<lambda>t. cart (map f t)) (product_lists (sps # L)))) =
      sum_list (map (\<lambda>x. sum_list (map (\<lambda>t. mset (cart (f x # map f t))) (product_lists L))) sps)"
    by (simp only: mset_concat_map product_lists.simps sum_list_map_concat map_map comp_def list.map)
  also have "\<dots> = sum_list (map (\<lambda>x. cart_step (f x) (mset (cart (map (\<lambda>sps. concat (map f sps)) L)))) sps)"
    by (simp only: mset_cart_Cons cart_step_sum [symmetric] mset_concat_map [symmetric] Cons.IH)
  also have "\<dots> = mset (cart (map (\<lambda>sps. concat (map f sps)) (sps # L)))"
    by (simp only: list.map mset_cart_Cons cart_step_concat map_map comp_def)
  finally show ?case .
qed simp

section \<open>The product of the spans\<close>

lemma append_snoc_fun: "(@) (p @ [x]) = (\<lambda>t. p @ x # t)"
  by (simp add: fun_eq_iff)

lemma cartesian_loop_eq:
  "cartesian_loop L prods = concat (map (\<lambda>p. map (\<lambda>t. p @ t) (product_lists L)) prods)"
proof (induction L arbitrary: prods)
  case (Cons sps L)
  have "concat (map (\<lambda>p. map ((@) p) (product_lists L)) (concat (map (\<lambda>r. map (\<lambda>sp. r @ [sp]) sps) prods))) =
      concat (map (\<lambda>p. map ((@) p) (concat (map (\<lambda>x. map ((#) x) (product_lists L)) sps))) prods)"
    by (induction prods) (simp_all add: map_concat comp_def append_snoc_fun)
  then show ?case by (simp only: cartesian_loop.simps Cons product_lists.simps)
qed (simp add: concat_map_singleton [of "\<lambda>x. x", simplified])

lemma fst_CartesianProduct: "fst (CartesianProduct L) = product_lists L"
proof -
  have "map ((@) []) ts = ts" for ts :: "span_pairs list" by (simp add: map_idI)
  then have "cartesian_loop L [[]] = product_lists L" by (simp add: cartesian_loop_eq)
  then show ?thesis by (simp add: CartesianProduct_def Let_def)
qed

lemma prod_list_ones: "\<forall>x \<in> set xs. x = 1 \<Longrightarrow> prod_list xs = (1 :: nat)"
  by (induction xs) auto

lemma length_product_lists [list_lens]: "length (product_lists L) = prod_list (map length L)"
  by (induction L) (auto simp: length_concat comp_def sum_list_map_const)

lemma length_row_flags [simp, list_lens]: "length (row_flags stride rs sps flags) = length flags"
  by (induction stride rs sps flags rule: row_flags.induct) auto

lemma row_flags_unit:
  "i < length flags \<Longrightarrow> row_flags (Suc 0) rs sps flags ! i \<longleftrightarrow>
     flags ! i \<and> (rs \<le> i \<and> i - rs < length sps \<longrightarrow> IsMemoryContiguous (sps ! (i - rs)))"
proof (induction sps arbitrary: rs flags)
  case (Cons sp sps)
  let ?flags = "map (\<lambda>i. if rs * Suc 0 \<le> i \<and> i < (rs + 1) * Suc 0 then flags ! i \<and> IsMemoryContiguous sp
      else flags ! i) [0..<length flags]"
  have "row_flags (Suc 0) rs (sp # sps) flags = row_flags (Suc 0) (rs + 1) sps ?flags"
    by (simp only: row_flags.simps)
  moreover have "?flags ! i \<longleftrightarrow> flags ! i \<and> (i = rs \<longrightarrow> IsMemoryContiguous sp)"
    using Cons.prems by auto
  ultimately show ?case using Cons.prems Cons.IH [of ?flags "rs + 1"]
    by (cases "i = rs") (auto simp: nth_Cons')
qed simp

lemma product_lists_single:
  "\<forall>sps \<in> set L. length sps = 1 \<Longrightarrow> product_lists (L @ [rows]) = map (\<lambda>r. map hd L @ [r]) rows"
proof (induction L)
  case (Cons sps L)
  then obtain x where "sps = [x]" by (auto simp: length_Suc_conv)
  with Cons show ?case by simp
qed (simp add: concat_map_singleton)

lemma flags_CartesianProduct:
  assumes "L \<noteq> []" and "\<forall>sps \<in> set L. sps \<noteq> []"
  shows "length (snd (CartesianProduct L)) = length (product_lists L)"
    and "k < length (product_lists L) \<Longrightarrow> snd (CartesianProduct L) ! k \<longleftrightarrow>
      SecondaryDimensionsContiguous L \<and> IsMemoryContiguous (last (product_lists L ! k))"
proof -
  show "length (snd (CartesianProduct L)) = length (product_lists L)"
    by (simp add: CartesianProduct_def Let_def length_product_lists)
  assume k: "k < length (product_lists L)"
  show "snd (CartesianProduct L) ! k \<longleftrightarrow>
      SecondaryDimensionsContiguous L \<and> IsMemoryContiguous (last (product_lists L ! k))"
  proof (cases "SecondaryDimensionsContiguous L")
    case False
    with k show ?thesis by (simp add: CartesianProduct_def Let_def length_product_lists)
  next
    case True
    have one: "\<forall>sps \<in> set (butlast L). length sps = 1"
      using True assms(2) in_set_butlastD [of _ L]
      by (fastforce simp: SecondaryDimensionsContiguous_def list_all_iff le_Suc_eq not_less)
    have L: "L = butlast L @ [last L]" using assms(1) by simp
    have stride: "prod_list (map length (butlast L)) = Suc 0"
      using prod_list_ones [of "map length (butlast L)"] one by simp
    have prods: "product_lists L = map (\<lambda>r. map hd (butlast L) @ [r]) (last L)"
      using product_lists_single [OF one, of "last L"] L by simp
    then have "prod_list (map length L) = length (last L)" by (metis length_map length_product_lists)
    with k True stride prods show ?thesis
      by (simp add: CartesianProduct_def Let_def row_flags_unit)
  qed
qed

section \<open>The geometry of the chunks\<close>

lemma stride_loop_eq:
  "\<exists>r. stride_loop (ss @ junk) (length ss) p = Inr r \<and> p # r = strides_from p (ss @ [x])"
proof (induction ss arbitrary: p)
  case (Cons s ss)
  from Cons.IH [of "p * s"] show ?case by auto
qed simp

lemma make_strides_eq: "make_strides (ss @ junk) (Suc (length ss)) = Inr (strides_from 1 (ss @ [x]))"
  using stride_loop_eq [of ss junk 1 x] by (auto simp: make_strides_def)

lemma make_strides_full: "sh \<noteq> [] \<Longrightarrow> make_strides sh (length sh) = Inr (strides_from 1 sh)"
  using make_strides_eq [of "butlast sh" "[last sh]" "last sh"] by simp

lemma length_stride_loop: "stride_loop lens n p = Inr r \<Longrightarrow> length r = n"
  by (induction lens n p arbitrary: r rule: stride_loop.induct) (auto simp: rbind_Inr_conv)

lemma length_make_strides: "make_strides lens n = Inr r \<Longrightarrow> length r = n"
  by (auto simp: make_strides_def rbind_Inr_conv split: if_splits dest!: length_stride_loop)

lemma length_make_geometry:
  assumes "make_geometry d ro tuple = Inr g"
  shows "length (g_min g) = length tuple \<and> length (g_buffer g) = length tuple \<and> length (g_chunk g) = length tuple"
  using assms
  by (auto simp: make_geometry_def Let_def rbind_Inr_conv split: option.splits dest!: length_make_strides)

definition chunk_is :: "DataChunk \<Rightarrow> span_pairs \<Rightarrow> chunk_geometry \<Rightarrow> bool \<Rightarrow> bool" where
  "chunk_is ch tuple g flag \<longleftrightarrow>
     DimensionSpans ch = tuple \<and> nDim ch = length tuple \<and> MinMemIndex ch = g_min g \<and>
     ChunkStrides ch = g_chunk g \<and> BufferStrides ch = g_buffer g \<and> ChunkOffset ch = g_offset g \<and>
     IsContiguous ch = flag"

lemma MakeDataChunks_Inr:
  assumes "rmapM (make_geometry d (if IsFixed d then None else Some (RowOffsets d))) tuples = Inr gs"
    and "tuples \<noteq> []" and "\<forall>t \<in> set tuples. length t = n"
  shows "\<exists>chunks. MakeDataChunks tuples flags d = Inr chunks \<and> length chunks = length tuples \<and>
    (\<forall>c < length tuples. chunk_is (chunks ! c) (tuples ! c) (gs ! c) (flags ! c))"
proof -
  let ?sh = "\<lparr>nchunks = length tuples, sc_ndim = n, casa_dtype_of = rs_dtype d, dim_spans = tuples,
     min_mem_index = concat (map g_min gs), flat_offsets = map g_offset gs,
     buffer_strides = concat (map g_buffer gs), chunk_strides = concat (map g_chunk gs),
     scratch_position = replicate (length tuples * n) 0, contiguous_flags = flags\<rparr>"
  let ?chunks = "map (\<lambda>c. \<lparr>chunk_id = c, shared = ?sh\<rparr>) [0..<length tuples]"
  from assms(1) have gs: "list_all2 (\<lambda>t g. make_geometry d (if IsFixed d then None else Some (RowOffsets d)) t = Inr g) tuples gs"
    by (simp add: rmapM_Inr_conv)
  then have len: "length gs = length tuples" by (simp add: list_all2_lengthD)
  have blocks: "\<forall>g \<in> set gs. length (g_min g) = n \<and> length (g_buffer g) = n \<and> length (g_chunk g) = n"
  proof
    fix g assume "g \<in> set gs"
    then obtain k where "k < length gs" "g = gs ! k" by (auto simp: in_set_conv_nth)
    with gs len have "make_geometry d (if IsFixed d then None else Some (RowOffsets d)) (tuples ! k) = Inr g"
      by (simp add: list_all2_conv_all_nth)
    moreover have "length (tuples ! k) = n" using assms(3) \<open>k < length gs\<close> len by simp
    ultimately show "length (g_min g) = n \<and> length (g_buffer g) = n \<and> length (g_chunk g) = n"
      using length_make_geometry by blast
  qed
  have "length (tuples ! 0) = n" using assms(2,3) by simp
  then have "MakeDataChunks tuples flags d = Inr ?chunks"
    using assms(1,2) by (simp add: MakeDataChunks_def Let_def)
  moreover have "chunk_is (?chunks ! c) (tuples ! c) (gs ! c) (flags ! c)" if "c < length tuples" for c
    using that len blocks assms(3)
    by (simp add: chunk_is_def DimensionSpans_def nDim_def MinMemIndex_def ChunkStrides_def BufferStrides_def
        ChunkOffset_def IsContiguous_def subspan_concat_block)
  ultimately show ?thesis by auto
qed

section \<open>The spans of a fixed result\<close>

text \<open>A fixed result with elements whose offsets fit the arithmetic of \<open>FlatOffset\<close>.\<close>

definition fixed_result :: "ResultShapeData \<Rightarrow> shape \<Rightarrow> bool" where
  "fixed_result d sh \<longleftrightarrow> rs_shape d = Some sh \<and> rs_ndim d = int (length sh) \<and> rs_cell_extents d = None \<and>
     sh \<noteq> [] \<and> 0 \<notin> set sh \<and> prod_list (butlast sh) < 2 ^ 31 \<and> prod_list sh < 2 ^ 63"

text \<open>A selection whose spans have the sizes of the result, as the shape of a read guarantees.\<close>

definition sel_fits :: "selection \<Rightarrow> shape \<Rightarrow> bool" where
  "sel_fits sel sh \<longleftrightarrow>
     (\<forall>dim < length sh. case MaybeFSpan sel dim (length sh) of Some span \<Rightarrow> length span = sh ! dim | None \<Rightarrow> True)"

text \<open>The disk index of each position of a dimension.\<close>

definition disk_ids :: "selection \<Rightarrow> shape \<Rightarrow> nat \<Rightarrow> index list" where
  "disk_ids sel sh dim =
     (case MaybeFSpan sel dim (length sh) of Some span \<Rightarrow> span | None \<Rightarrow> map int [0..<sh ! dim])"

lemma length_disk_ids: "sel_fits sel sh \<Longrightarrow> dim < length sh \<Longrightarrow> length (disk_ids sel sh dim) = sh ! dim"
  by (auto simp: sel_fits_def disk_ids_def split: option.splits)

lemma sorted_map_int: "sorted (map int [0..<n])"
  by (simp add: sorted_iff_nth_mono)

lemma GetSpanPair_eq:
  "sh ! dim \<le> m \<Longrightarrow> GetSpanPair sel (length sh) [0..<m] dim (sh ! dim) = MakeSortedIndices (disk_ids sel sh dim)"
  by (auto simp: GetSpanPair_def disk_ids_def MakeSortedIndices_sorted sorted_map_int subspan_def min_def
      split: option.splits)

text \<open>No index that is read is selected twice in a dimension.\<close>

definition no_duplicates :: "selection \<Rightarrow> shape \<Rightarrow> bool" where
  "no_duplicates sel sh \<longleftrightarrow> (\<forall>dim < length sh. distinct (filter (\<lambda>x. 0 \<le> x) (disk_ids sel sh dim)))"

text \<open>The decompositions of all dimensions.\<close>

definition decomposition :: "selection \<Rightarrow> shape \<Rightarrow> span_pairs list \<Rightarrow> bool" where
  "decomposition sel sh L \<longleftrightarrow> length L = length sh \<and>
     (\<forall>dim < length sh. decomposes (dim = length sh - 1) (disk_ids sel sh dim) (L ! dim))"

lemma MakeSubSpans_ids_Inr:
  "distinct (filter (\<lambda>x. 0 \<le> x) ids) \<longleftrightarrow>
   (\<exists>sps. MakeSubSpans (disk (MakeSortedIndices ids)) (mem (MakeSortedIndices ids)) er = Inr sps)"
  using MakeSubSpans_decomposes [of ids er] by (auto split: sum.splits)

lemma MakeSubSpans_ids_decomposes:
  "MakeSubSpans (disk (MakeSortedIndices ids)) (mem (MakeSortedIndices ids)) er = Inr sps \<Longrightarrow> decomposes er ids sps"
  using MakeSubSpans_decomposes [of ids er] by simp

lemma rmapM_Inr_iff: "(\<exists>ys. rmapM f xs = Inr ys) \<longleftrightarrow> (\<forall>x \<in> set xs. \<exists>y. f x = Inr y)"
  by (induction xs) (auto simp: rbind_Inr_conv)

lemma fixed_dim_spans_Inr:
  assumes "\<forall>dim < length sh. sh ! dim \<le> m"
  shows "(\<exists>L. fixed_dim_spans sel sh (length sh) [0..<m] = Inr L) \<longleftrightarrow> no_duplicates sel sh"
    and "fixed_dim_spans sel sh (length sh) [0..<m] = Inr L \<Longrightarrow> decomposition sel sh L"
proof -
  let ?f = "\<lambda>d. rbind (at sh d) (\<lambda>size_d. let sp = GetSpanPair sel (length sh) [0..<m] d size_d
              in MakeSubSpans (disk sp) (mem sp) (d = length sh - 1))"
  have f: "?f d = MakeSubSpans (disk (MakeSortedIndices (disk_ids sel sh d)))
      (mem (MakeSortedIndices (disk_ids sel sh d))) (d = length sh - 1)" if "d < length sh" for d
    using that assms by (simp add: GetSpanPair_eq Let_def)
  then show "(\<exists>L. fixed_dim_spans sel sh (length sh) [0..<m] = Inr L) \<longleftrightarrow> no_duplicates sel sh"
  proof -
    have "(\<exists>sps. ?f d = Inr sps) \<longleftrightarrow> distinct (filter (\<lambda>x. 0 \<le> x) (disk_ids sel sh d))" if "d < length sh" for d
      unfolding f [OF that] by (rule MakeSubSpans_ids_Inr [symmetric])
    then show ?thesis unfolding fixed_dim_spans_def rmapM_Inr_iff no_duplicates_def by (simp only: set_upt atLeastLessThan_iff Ball_def) blast
  qed
  assume "fixed_dim_spans sel sh (length sh) [0..<m] = Inr L"
  then have "list_all2 (\<lambda>d sps. ?f d = Inr sps) [0..<length sh] L"
    by (simp add: fixed_dim_spans_def rmapM_Inr_conv)
  then have len: "length L = length sh" and each: "d < length sh \<Longrightarrow> ?f d = Inr (L ! d)" for d
    by (auto simp: list_all2_conv_all_nth)
  have "decomposes (d = length sh - 1) (disk_ids sel sh d) (L ! d)" if "d < length sh" for d
    by (rule MakeSubSpans_ids_decomposes) (use f [OF that] each [OF that] in \<open>simp only:\<close>)
  with len show "decomposition sel sh L" by (simp add: decomposition_def)
qed

subsection \<open>Splitting keeps the decomposition\<close>

lemma successively_subspan: "successively P xs \<Longrightarrow> successively P (subspan a n xs)"
  unfolding subspan_def by (metis append_take_drop_id successively_append_iff)

lemma range_ok_subspan: "range_ok er xs \<Longrightarrow> range_ok er (subspan a n xs)"
  using set_subspan_subset [of a n xs] unfolding range_ok_def
  by (meson subsetD successively_subspan)

lemma concat_zip:
  "\<forall>s \<in> set sps. length (mem s) = length (disk s) \<Longrightarrow>
   concat (map (\<lambda>s. zip (disk s) (mem s)) sps) = zip (concat (map disk sps)) (concat (map mem sps))"
  by (induction sps) auto

lemma count_rows_eq: "count_rows sps = length (read_rows sps)"
proof -
  have "fold (\<lambda>sp n. if is_read sp then n + length (disk sp) else n) sps a = a + length (read_rows sps)" for a
    by (induction sps arbitrary: a) (auto simp: read_rows_def)
  then show ?thesis by (simp add: count_rows_def)
qed

lemma range_ok_span_ok: "length (mem s) = length (disk s) \<Longrightarrow> range_ok er (disk s) \<Longrightarrow> span_ok s"
  by (cases "disk s") (fastforce simp: span_ok_def is_read_def range_ok_def)+

lemma split_decomposes:
  assumes "decomposes er ids sps" and "ids \<noteq> []" and "0 < count_rows sps"
  obtains res where "SplitRowSpans sps (count_rows sps) n us = Inr res" and "decomposes er ids res"
proof -
  have ok: "\<forall>sp \<in> set sps. span_ok sp" using assms(1) range_ok_span_ok by (auto simp: decomposes_def)
  obtain res where res: "SplitRowSpans sps (count_rows sps) n us = Inr res"
    "concat (map disk res) = concat (map disk sps)" "concat (map mem res) = concat (map mem sps)"
    "\<forall>s \<in> set res. span_ok s"
    "\<forall>s \<in> set res. is_read s \<longrightarrow> (\<exists>sp \<in> set sps. is_read sp \<and> pieces_of sp [s])"
    "filter (\<lambda>s. \<not> is_read s) res = filter (\<lambda>s. \<not> is_read s) sps"
    using SplitRowSpans_run [OF ok count_rows_eq assms(3), of n us] by metis
  have each: "range_ok er (disk s) \<and> disk s \<noteq> []" if "s \<in> set res" for s
  proof (cases "is_read s")
    case True
    with res(5) that obtain sp where sp: "sp \<in> set sps" "pieces_of sp [s]" by blast
    then obtain a k where "disk s = subspan a k (disk sp)" by (auto simp: pieces_of_def)
    with True sp assms(1) show ?thesis by (auto simp: decomposes_def is_read_def range_ok_subspan)
  next
    case False
    with that have "s \<in> set (filter (\<lambda>s. \<not> is_read s) res)" by simp
    then have "s \<in> set sps" unfolding res(6) by simp
    with assms(1,2) show ?thesis by (auto simp: decomposes_def)
  qed
  have "concat (map (\<lambda>s. zip (disk s) (mem s)) res) = concat (map (\<lambda>s. zip (disk s) (mem s)) sps)"
    using res(2-4) ok by (simp add: concat_zip span_ok_def)
  moreover have "res \<noteq> []"
  proof
    assume "res = []"
    with res(2) have "concat (map disk sps) = []" by simp
    with assms show False by (auto simp: decomposes_def)
  qed
  ultimately have "decomposes er ids res"
    using assms(1) each res(4) by (simp add: decomposes_def span_ok_def)
  with res(1) that show thesis by blast
qed

lemma split_rows_Inr:
  assumes "decomposition sel sh L" and "sel_fits sel sh" and "sh \<noteq> []" and "0 \<notin> set sh"
  shows "(case split_rows string_size dtype opts L of
            Inr L' \<Rightarrow> decomposition sel sh L' \<and> butlast L' = butlast L
          | Inl e \<Rightarrow> 1 < max_splits opts \<and> CasaDataTypeSize string_size dtype = Inl e)"
proof -
  have ne: "L \<noteq> []" and len: "length L = length sh" using assms(1,3) by (auto simp: decomposition_def)
  have row: "length sh - 1 < length sh" using assms(3) by simp
  have last: "last L = L ! (length sh - 1)" using ne len by (simp add: last_conv_nth)
  have dec: "decomposes True (disk_ids sel sh (length sh - 1)) (last L)"
    using assms(1) row last by (auto simp: decomposition_def)
  have "length (disk_ids sel sh (length sh - 1)) \<noteq> 0"
    using length_disk_ids [OF assms(2) row] assms(4) row by (metis nth_mem)
  then have ids: "disk_ids sel sh (length sh - 1) \<noteq> []" by simp
  have keep: "decomposition sel sh (butlast L @ [rows])"
    if "decomposes True (disk_ids sel sh (length sh - 1)) rows" for rows
    unfolding decomposition_def
  proof (intro conjI allI impI)
    show "length (butlast L @ [rows]) = length sh" using len assms(3) by (cases sh) auto
    fix dim assume dim: "dim < length sh"
    then have old: "decomposes (dim = length sh - 1) (disk_ids sel sh dim) (L ! dim)"
      using assms(1) by (simp add: decomposition_def)
    from dim consider "dim < length sh - 1" | "dim = length sh - 1" by linarith
    then show "decomposes (dim = length sh - 1) (disk_ids sel sh dim) ((butlast L @ [rows]) ! dim)"
      by cases (use old that len in \<open>simp_all add: nth_append nth_butlast\<close>)
  qed
  show ?thesis
  proof (cases "max_splits opts \<le> 1")
    case True
    with assms(1) show ?thesis by (simp add: split_rows_def)
  next
    case False
    show ?thesis
    proof (cases "CasaDataTypeSize string_size dtype")
      case (Inl e)
      with False show ?thesis by (simp add: split_rows_def)
    next
      case (Inr dtype_size)
      define k where "k = (if 0 < min_bytes opts
         then min (max_splits opts) (count_rows (last L) * row_bytes_of dtype_size (butlast L) div min_bytes opts)
         else max_splits opts)"
      define n where "n = min k (count_rows (last L))"
      have split: "split_rows string_size dtype opts L =
          (if 1 < n then rbind (SplitRowSpans (last L) (count_rows (last L)) n (unit_start opts)) (\<lambda>rows. Inr (butlast L @ [rows]))
           else Inr L)"
        using False Inr by (simp add: split_rows_def Let_def k_def n_def)
      show ?thesis
      proof (cases "1 < n")
        case True
        then have "0 < count_rows (last L)" by (simp add: n_def)
        from split_decomposes [OF dec ids this, of n "unit_start opts"] obtain rows where
          "SplitRowSpans (last L) (count_rows (last L)) n (unit_start opts) = Inr rows"
          "decomposes True (disk_ids sel sh (length sh - 1)) rows" .
        with True keep show ?thesis by (simp add: split)
      next
        case False
        with assms(1) show ?thesis by (simp add: split)
      qed
    qed
  qed
qed

section \<open>The chunks of a fixed result\<close>

lemma decomposes_pair:
  assumes "decomposes er ids sps" and "s \<in> set sps" and "k < length (disk s)"
  shows "mem s ! k < length ids \<and> disk s ! k = ids ! (mem s ! k)"
proof -
  have len: "length (mem s) = length (disk s)" using assms(1,2) by (simp add: decomposes_def)
  have "(disk s ! k, mem s ! k) \<in> set (zip (disk s) (mem s))" using assms(3) len
    by (simp add: set_zip exI [of _ k])
  then have "(disk s ! k, mem s ! k) \<in> set (concat (map (\<lambda>s. zip (disk s) (mem s)) sps))" using assms(2) by auto
  moreover have "set (concat (map (\<lambda>s. zip (disk s) (mem s)) sps)) = set (zip ids [0..<length ids])"
    by (rule mset_eq_setD) (use assms(1) in \<open>simp add: decomposes_def\<close>)
  ultimately have "(disk s ! k, mem s ! k) \<in> set (zip ids [0..<length ids])" by (simp only:)
  then obtain i where "(disk s ! k, mem s ! k) = (ids ! i, [0..<length ids] ! i)" and "i < length ids"
    by (auto simp: in_set_zip)
  then show ?thesis by simp
qed

lemma concat_map_snd_zip:
  "\<forall>s \<in> set sps. length (mem s) = length (disk s) \<Longrightarrow>
   map snd (concat (map (\<lambda>s. zip (disk s) (mem s)) sps)) = concat (map mem sps)"
  by (induction sps) auto

lemma decomposes_mem:
  assumes "decomposes er ids sps"
  shows "mset (concat (map mem sps)) = mset [0..<length ids]"
proof -
  have "mset (concat (map (\<lambda>s. zip (disk s) (mem s)) sps)) = mset (zip ids [0..<length ids])"
    using assms by (simp only: decomposes_def)
  then have "mset (map snd (concat (map (\<lambda>s. zip (disk s) (mem s)) sps))) = mset (map snd (zip ids [0..<length ids]))"
    by (simp only: mset_map)
  moreover have "map snd (concat (map (\<lambda>s. zip (disk s) (mem s)) sps)) = concat (map mem sps)"
    using assms by (intro concat_map_snd_zip) (simp add: decomposes_def)
  moreover have "map snd (zip ids [0..<length ids]) = [0..<length ids]" by simp
  ultimately show ?thesis by (simp only:)
qed

lemma decomposes_distinct:
  assumes "decomposes er ids sps" and "s \<in> set sps"
  shows "distinct (mem s)"
proof -
  have "distinct (concat (map mem sps))"
    using mset_eq_imp_distinct_iff [OF decomposes_mem [OF assms(1)]] by simp
  then show ?thesis using assms(2) by (auto simp: distinct_concat_iff)
qed

definition fixed_geometry :: "shape \<Rightarrow> span_pairs \<Rightarrow> chunk_geometry" where
  "fixed_geometry sh t =
     \<lparr>g_buffer = strides_from 1 sh, g_chunk = strides_from 1 (map (\<lambda>sp. length (mem sp)) t),
      g_min = map min_mem t, g_offset = lin sh (map min_mem t)\<rparr>"

text \<open>What a combination of spans, one of each dimension, offers.\<close>

definition tuple_ok :: "selection \<Rightarrow> shape \<Rightarrow> span_pairs \<Rightarrow> bool" where
  "tuple_ok sel sh t \<longleftrightarrow> length t = length sh \<and>
     (\<forall>dim < length sh.
        length (mem (t ! dim)) = length (disk (t ! dim)) \<and> disk (t ! dim) \<noteq> [] \<and> distinct (mem (t ! dim)) \<and>
        range_ok (dim = length sh - 1) (disk (t ! dim)) \<and>
        (\<forall>k < length (disk (t ! dim)). mem (t ! dim) ! k < sh ! dim \<and>
            disk (t ! dim) ! k = disk_ids sel sh dim ! (mem (t ! dim) ! k)))"

lemma tuple_okD:
  assumes "tuple_ok sel sh t" and "d < length sh"
  shows "length (mem (t ! d)) = length (disk (t ! d))" and "disk (t ! d) \<noteq> []" and "mem (t ! d) \<noteq> []"
    and "distinct (mem (t ! d))" and "range_ok (d = length sh - 1) (disk (t ! d))"
    and "k < length (disk (t ! d)) \<Longrightarrow> mem (t ! d) ! k < sh ! d"
    and "k < length (disk (t ! d)) \<Longrightarrow> disk (t ! d) ! k = disk_ids sel sh d ! (mem (t ! d) ! k)"
proof -
  show len: "length (mem (t ! d)) = length (disk (t ! d))" and ne: "disk (t ! d) \<noteq> []"
    and "distinct (mem (t ! d))" and "range_ok (d = length sh - 1) (disk (t ! d))"
    and "k < length (disk (t ! d)) \<Longrightarrow> mem (t ! d) ! k < sh ! d"
    and "k < length (disk (t ! d)) \<Longrightarrow> disk (t ! d) ! k = disk_ids sel sh d ! (mem (t ! d) ! k)"
    using assms unfolding tuple_ok_def by blast+
  show "mem (t ! d) \<noteq> []" using len ne by auto
qed

lemma tuple_ok_length: "tuple_ok sel sh t \<Longrightarrow> length t = length sh"
  by (simp add: tuple_ok_def)

lemma in_product_lists: "t \<in> set (product_lists L) \<longleftrightarrow> list_all2 (\<lambda>x ys. x \<in> set ys) t L"
  by (simp add: product_lists_set)

lemma tuple_ok_product:
  assumes "decomposition sel sh L" and "sel_fits sel sh" and "0 \<notin> set sh" and "t \<in> set (product_lists L)"
  shows "tuple_ok sel sh t"
proof -
  have t: "length t = length L" "\<And>d. d < length L \<Longrightarrow> t ! d \<in> set (L ! d)"
    using assms(4) by (auto simp: in_product_lists list_all2_conv_all_nth)
  have len: "length L = length sh" using assms(1) by (simp add: decomposition_def)
  show ?thesis
    unfolding tuple_ok_def
  proof (intro conjI allI impI)
    show "length t = length sh" using t(1) len by simp
  next
    fix dim assume dim: "dim < length sh"
    have dec: "decomposes (dim = length sh - 1) (disk_ids sel sh dim) (L ! dim)"
      using assms(1) dim by (simp add: decomposition_def)
    have s: "t ! dim \<in> set (L ! dim)" using t(2) dim len by simp
    have n: "length (disk_ids sel sh dim) = sh ! dim" by (rule length_disk_ids [OF assms(2) dim])
    then have ne: "disk_ids sel sh dim \<noteq> []" using assms(3) dim by (metis length_0_conv nth_mem)
    show "length (mem (t ! dim)) = length (disk (t ! dim))" using dec s by (simp add: decomposes_def)
    show "distinct (mem (t ! dim))" by (rule decomposes_distinct [OF dec s])
    show "disk (t ! dim) \<noteq> []" using dec s ne by (simp add: decomposes_def)
    show "range_ok (dim = length sh - 1) (disk (t ! dim))" using dec s by (simp add: decomposes_def)
    fix k assume "k < length (disk (t ! dim))"
    from decomposes_pair [OF dec s this] n
    show "mem (t ! dim) ! k < sh ! dim" and "disk (t ! dim) ! k = disk_ids sel sh dim ! (mem (t ! dim) ! k)"
      by simp_all
  qed
qed

lemma min_mem_in: "mem s \<noteq> [] \<Longrightarrow> min_mem s \<in> set (mem s)"
  by (simp add: min_mem_def)

lemma min_mem_le: "k < length (mem s) \<Longrightarrow> min_mem s \<le> mem s ! k"
  by (cases "mem s = []") (auto simp: min_mem_def)

lemma min_mem_in_box: "tuple_ok sel sh t \<Longrightarrow> in_box sh (map min_mem t)"
  unfolding in_box_conv
proof (intro conjI allI impI)
  assume ok: "tuple_ok sel sh t"
  then show "length (map min_mem t) = length sh" by (simp add: tuple_ok_def)
  fix d assume d: "d < length sh"
  with ok have "mem (t ! d) \<noteq> []" by (metis length_0_conv tuple_ok_def)
  then have "min_mem (t ! d) \<in> set (mem (t ! d))" by (rule min_mem_in)
  then obtain k where "k < length (mem (t ! d))" "min_mem (t ! d) = mem (t ! d) ! k"
    by (auto simp: in_set_conv_nth)
  with ok d show "map min_mem t ! d < sh ! d" by (auto simp: tuple_ok_def)
qed

lemma make_geometry_fixed:
  assumes "fixed_result d sh" and "tuple_ok sel sh t"
  shows "make_geometry d ro t = Inr (fixed_geometry sh t)"
proof -
  have t: "length t = length sh" using assms(2) by (simp add: tuple_ok_def)
  have "make_strides sh (length t) = Inr (strides_from 1 sh)"
    using assms(1) t make_strides_full [of sh] by (simp add: fixed_result_def)
  moreover have "make_strides (map (\<lambda>sp. length (mem sp)) t) (length t) = Inr (strides_from 1 (map (\<lambda>sp. length (mem sp)) t))"
  proof -
    have "t \<noteq> []" using assms(1) t by (auto simp: fixed_result_def)
    then show ?thesis using make_strides_full [of "map (\<lambda>sp. length (mem sp)) t"] by simp
  qed
  moreover have "FlatOffset d (map int (map min_mem t)) ro = Inr (lin sh (map min_mem t))"
    using assms(1) min_mem_in_box [OF assms(2)] by (intro FlatOffset_lin) (simp_all add: fixed_result_def)
  ultimately show ?thesis
    using assms(1) by (simp add: make_geometry_def Let_def fixed_geometry_def fixed_result_def)
qed

text \<open>The chunks of a partition of a fixed result are the combinations of a decomposition.\<close>

definition chunks_of :: "selection \<Rightarrow> shape \<Rightarrow> span_pairs list \<Rightarrow> DataChunk list \<Rightarrow> bool" where
  "chunks_of sel sh L chunks \<longleftrightarrow> decomposition sel sh L \<and> length chunks = length (product_lists L) \<and>
     (\<forall>c < length chunks. tuple_ok sel sh (product_lists L ! c) \<and>
        chunk_is (chunks ! c) (product_lists L ! c) (fixed_geometry sh (product_lists L ! c))
          (SecondaryDimensionsContiguous L \<and> IsMemoryContiguous (last (product_lists L ! c))))"

lemma product_lists_ne: "\<forall>sps \<in> set L. sps \<noteq> [] \<Longrightarrow> product_lists L \<noteq> []"
  by (induction L) auto

lemma MakeDataChunks_fixed:
  assumes "fixed_result d sh" and "sel_fits sel sh" and "decomposition sel sh L"
  shows "\<exists>chunks. MakeDataChunks (fst (CartesianProduct L)) (snd (CartesianProduct L)) d = Inr chunks \<and>
    chunks_of sel sh L chunks"
proof -
  have sh: "rs_shape d = Some sh" "sh \<noteq> []" "0 \<notin> set sh" using assms(1) by (auto simp: fixed_result_def)
  have len: "length L = length sh" using assms(3) by (simp add: decomposition_def)
  have nonempty: "\<forall>sps \<in> set L. sps \<noteq> []"
    using assms(3) len by (auto simp: decomposition_def decomposes_def in_set_conv_nth)
  have ok: "tuple_ok sel sh t" if "t \<in> set (product_lists L)" for t
    by (rule tuple_ok_product [OF assms(3,2) sh(3) that])
  have "rmapM (make_geometry d None) (product_lists L) = Inr (map (fixed_geometry sh) (product_lists L))"
    using make_geometry_fixed [OF assms(1) ok] by (intro rmapM_map)
  moreover have "\<forall>t \<in> set (product_lists L). length t = length sh" using ok by (simp add: tuple_ok_def)
  ultimately obtain chunks where chunks: "MakeDataChunks (product_lists L) (snd (CartesianProduct L)) d = Inr chunks"
    "length chunks = length (product_lists L)"
    "\<forall>c < length (product_lists L). chunk_is (chunks ! c) (product_lists L ! c)
       (map (fixed_geometry sh) (product_lists L) ! c) (snd (CartesianProduct L) ! c)"
    using MakeDataChunks_Inr [of d "product_lists L" _ "length sh" "snd (CartesianProduct L)"]
      product_lists_ne [OF nonempty] sh(1) by (auto simp: IsFixed_def)
  have L: "L \<noteq> []" using len sh(2) by auto
  have "chunks_of sel sh L chunks"
    using chunks assms(3) ok flags_CartesianProduct(2) [OF L nonempty] by (simp add: chunks_of_def)
  with chunks(1) show ?thesis by (simp add: fst_CartesianProduct)
qed

lemma Make_fixed:
  assumes "fixed_result d sh" and "sel_fits sel sh"
  shows "(case Make string_size sel d opts of
            Inr p \<Rightarrow> no_duplicates sel sh \<and> dp_dtype p = rs_dtype d \<and> (\<exists>L. chunks_of sel sh L (data_chunks p))
          | Inl e \<Rightarrow> \<not> no_duplicates sel sh \<or>
                     1 < max_splits opts \<and> CasaDataTypeSize string_size (rs_dtype d) = Inl e)"
proof -
  have sh: "rs_shape d = Some sh" "sh \<noteq> []" "0 \<notin> set sh" "rs_ndim d = int (length sh)" "rs_cell_extents d = None"
    using assms(1) by (auto simp: fixed_result_def)
  have max: "MaxDimensionSize d = Inr (Max (set sh))"
    using sh by (simp add: MaxDimensionSize_def max_element_def)
  have le: "\<forall>dim < length sh. sh ! dim \<le> Max (set sh)" by simp
  let ?spans = "fixed_dim_spans sel sh (length sh) [0..<Max (set sh)]"
  have make: "Make string_size sel d opts =
      rbind ?spans (\<lambda>L. rbind (split_rows string_size (rs_dtype d) opts L) (\<lambda>L'.
        rbind (MakeDataChunks (fst (CartesianProduct L')) (snd (CartesianProduct L')) d) (\<lambda>chunks.
          Inr \<lparr>data_chunks = chunks, dp_dtype = rs_dtype d\<rparr>)))"
    using sh by (simp add: Make_def max ConsistentNDim_def IsFixed_def HasCellExtents_def GetShape_def
        case_prod_beta Let_def)
  show ?thesis
  proof (cases ?spans)
    case (Inl e)
    then have "\<not> no_duplicates sel sh" using fixed_dim_spans_Inr(1) [OF le, of sel] by auto
    with Inl show ?thesis by (simp add: make)
  next
    case (Inr L)
    then have nd: "no_duplicates sel sh" and L: "decomposition sel sh L"
      using fixed_dim_spans_Inr [OF le, of sel] by auto
    note split = split_rows_Inr [OF L assms(2) sh(2,3), where opts = opts and string_size = string_size and dtype = "rs_dtype d"]
    show ?thesis
    proof (cases "split_rows string_size (rs_dtype d) opts L")
      case (Inl e)
      with split \<open>?spans = Inr L\<close> show ?thesis by (simp add: make)
    next
      case (Inr L')
      with split have "decomposition sel sh L'" by simp
      from MakeDataChunks_fixed [OF assms this] obtain chunks where
        "MakeDataChunks (fst (CartesianProduct L')) (snd (CartesianProduct L')) d = Inr chunks"
        "chunks_of sel sh L' chunks" by blast
      with Inr \<open>?spans = Inr L\<close> nd show ?thesis by (auto simp: make)
    qed
  qed
qed

section \<open>Every element exactly once\<close>

lemma cart_step_cong: "mset xs = mset ys \<Longrightarrow> cart_step xs M = cart_step ys M"
  by (simp add: cart_step_def)

lemma mset_cart_cong: "list_all2 (\<lambda>a b. mset a = mset b) A B \<Longrightarrow> mset (cart A) = mset (cart B)"
proof (induction A B rule: list_all2_induct)
  case (Cons a A b B)
  then show ?case by (simp only: mset_cart_Cons cart_step_cong [OF Cons(1)])
qed simp

text \<open>
  The elements of a chunk, in the order of its storage: the index in memory of each element and
  the index on disk it is paired with.
\<close>

definition chunk_elements :: "DataChunk \<Rightarrow> (nat list \<times> index list) list" where
  "chunk_elements ch =
     map (\<lambda>ps. (map snd ps, map fst ps)) (cart (map (\<lambda>sp. zip (disk sp) (mem sp)) (DimensionSpans ch)))"

text \<open>The index on disk that the selection holds for an index of the result.\<close>

definition disk_index :: "selection \<Rightarrow> shape \<Rightarrow> nat list \<Rightarrow> index list" where
  "disk_index sel sh idx = map (\<lambda>dim. disk_ids sel sh dim ! (idx ! dim)) [0..<length sh]"

lemma cart_disk_ids:
  assumes "sel_fits sel sh"
  shows "map (\<lambda>ps. (map snd ps, map fst ps))
      (cart (map (\<lambda>dim. zip (disk_ids sel sh dim) [0..<length (disk_ids sel sh dim)]) [0..<length sh])) =
    map (\<lambda>idx. (idx, disk_index sel sh idx)) (box sh)"
proof -
  let ?xss = "map (\<lambda>dim. zip (disk_ids sel sh dim) [0..<length (disk_ids sel sh dim)]) [0..<length sh]"
  have "map length ?xss = map (\<lambda>dim. sh ! dim) [0..<length sh]"
    using length_disk_ids [OF assms] by simp
  then have len: "map length ?xss = sh" by (simp only: map_nth)
  have "map snd (map2 (!) ?xss idx) = idx \<and> map fst (map2 (!) ?xss idx) = disk_index sel sh idx"
    if "idx \<in> set (box sh)" for idx
  proof -
    have idx: "length idx = length sh" "\<forall>d < length sh. idx ! d < sh ! d"
      using that by (auto simp: set_box in_box_conv)
    have n: "length (disk_ids sel sh d) = sh ! d" if "d < length sh" for d
      by (rule length_disk_ids [OF assms that])
    have "map snd (map2 (!) ?xss idx) = idx" by (rule nth_equalityI) (use idx n in simp_all)
    moreover have "map fst (map2 (!) ?xss idx) = disk_index sel sh idx"
      by (rule nth_equalityI) (use idx n in \<open>simp_all add: disk_index_def\<close>)
    ultimately show ?thesis by simp
  qed
  then show ?thesis unfolding cart_box len by simp
qed

lemma chunks_of_elements:
  assumes "chunks_of sel sh L chunks" and "sel_fits sel sh"
  shows "mset (concat (map chunk_elements chunks)) = mset (map (\<lambda>idx. (idx, disk_index sel sh idx)) (box sh))"
proof -
  let ?f = "\<lambda>sp. zip (disk sp) (mem sp)" and ?g = "\<lambda>ps. (map snd ps, map fst ps)"
  have "chunk_elements (chunks ! c) = map ?g (cart (map ?f (product_lists L ! c)))" if "c < length chunks" for c
    using assms(1) that by (simp add: chunks_of_def chunk_is_def chunk_elements_def)
  then have "map chunk_elements chunks = map (\<lambda>t. map ?g (cart (map ?f t))) (product_lists L)"
    using assms(1) by (simp add: list_eq_iff_nth_eq chunks_of_def)
  then have "mset (concat (map chunk_elements chunks)) =
      image_mset ?g (mset (concat (map (\<lambda>t. cart (map ?f t)) (product_lists L))))"
    by (simp add: map_concat comp_def flip: mset_map)
  also have "\<dots> = image_mset ?g (mset (cart (map (\<lambda>sps. concat (map ?f sps)) L)))"
    by (simp only: mset_cart_product_lists)
  also have "mset (cart (map (\<lambda>sps. concat (map ?f sps)) L)) =
      mset (cart (map (\<lambda>dim. zip (disk_ids sel sh dim) [0..<length (disk_ids sel sh dim)]) [0..<length sh]))"
    using assms(1)
    by (intro mset_cart_cong) (simp add: list_all2_conv_all_nth chunks_of_def decomposition_def decomposes_def)
  also have "image_mset ?g \<dots> = mset (map (\<lambda>idx. (idx, disk_index sel sh idx)) (box sh))"
    by (simp only: cart_disk_ids [OF assms(2)] flip: mset_map)
  finally show ?thesis .
qed

lemma length_chunk_elements:
  "\<forall>sp \<in> set (DimensionSpans ch). length (mem sp) = length (disk sp) \<Longrightarrow>
   length (chunk_elements ch) = ChunkElements ch"
proof -
  assume len: "\<forall>sp \<in> set (DimensionSpans ch). length (mem sp) = length (disk sp)"
  have "fold (\<lambda>v i. i * length (disk v)) sps a = a * prod_list (map (\<lambda>sp. length (disk sp)) sps)"
    for sps :: span_pairs and a
    by (induction sps arbitrary: a) auto
  moreover have "map length (map (\<lambda>sp. zip (disk sp) (mem sp)) (DimensionSpans ch)) =
      map (\<lambda>sp. length (disk sp)) (DimensionSpans ch)" using len by simp
  ultimately show ?thesis
    by (simp add: chunk_elements_def ChunkElements_def del: map_map)
qed

lemma PartitionElements_eq: "PartitionElements p = sum_list (map ChunkElements (data_chunks p))"
proof -
  have "fold (\<lambda>v i. i + ChunkElements v) chs a = a + sum_list (map ChunkElements chs)" for chs a
    by (induction chs arbitrary: a) auto
  then show ?thesis by (simp add: PartitionElements_def)
qed

lemma chunks_of_lens:
  assumes "chunks_of sel sh L chunks" and "ch \<in> set chunks"
  shows "tuple_ok sel sh (DimensionSpans ch)"
proof -
  obtain c where "c < length chunks" "ch = chunks ! c" using assms(2) by (auto simp: in_set_conv_nth)
  with assms(1) show ?thesis by (auto simp: chunks_of_def chunk_is_def)
qed

lemma partition_elements:
  assumes "chunks_of sel sh L (data_chunks p)" and "sel_fits sel sh"
  shows "PartitionElements p = prod_list sh"
proof -
  have "length (chunk_elements ch) = ChunkElements ch" if "ch \<in> set (data_chunks p)" for ch
    using chunks_of_lens [OF assms(1) that] by (intro length_chunk_elements) (auto simp: tuple_ok_def in_set_conv_nth)
  then have "PartitionElements p = length (concat (map chunk_elements (data_chunks p)))"
    by (simp add: PartitionElements_eq length_concat comp_def cong: map_cong)
  also have "\<dots> = prod_list sh" using arg_cong [OF chunks_of_elements [OF assms], of size] by simp
  finally show ?thesis .
qed

text \<open>
  C15. The partition of a fixed result. Making it succeeds for every fixed result and every
  selection that fits it, unless an index that is read is selected twice in some dimension (or
  the rows are to be split and the data type has no size). The chunks then hold every element of
  the result exactly once, paired with the index on disk that the selection asks for, however
  the rows were split; so the partition has as many elements as the result.
\<close>

theorem Make_partitions:
  assumes "fixed_result d sh" and "sel_fits sel sh"
  shows "(case Make string_size sel d opts of
            Inr p \<Rightarrow> no_duplicates sel sh \<and> dp_dtype p = rs_dtype d \<and>
              mset (concat (map chunk_elements (data_chunks p))) =
                mset (map (\<lambda>idx. (idx, disk_index sel sh idx)) (box sh)) \<and>
              PartitionElements p = nElements d
          | Inl e \<Rightarrow> \<not> no_duplicates sel sh \<or>
              1 < max_splits opts \<and> CasaDataTypeSize string_size (rs_dtype d) = Inl e)"
proof (cases "Make string_size sel d opts")
  case (Inl e)
  with Make_fixed [OF assms, where string_size = string_size and opts = opts] show ?thesis by simp
next
  case (Inr p)
  with Make_fixed [OF assms, where string_size = string_size and opts = opts] obtain L where
    p: "no_duplicates sel sh" "dp_dtype p = rs_dtype d" and L: "chunks_of sel sh L (data_chunks p)" by auto
  note elements = chunks_of_elements [OF L assms(2)]
  have "PartitionElements p = prod_list sh" by (rule partition_elements [OF L assms(2)])
  also have "\<dots> = nElements d" using assms(1) by (simp add: nElements_def fixed_result_def shape_product_def)
  finally show ?thesis using Inr p elements by simp
qed

definition small_result :: ResultShapeData where
  "small_result = \<lparr>rs_name = ''DATA'', rs_shape = Some [2, 3], rs_ndim = 2, rs_dtype = TpFloat,
     rs_row_shapes = None, rs_cell_extents = None\<rparr>"

definition small_sel :: selection where
  "small_sel = FromInit IndexElem [[7, -1, 4], [1, 0]]"

lemma small_facts:
  "fixed_result small_result [2, 3]" "sel_fits small_sel [2, 3]" "no_duplicates small_sel [2, 3]"
proof -
  show "fixed_result small_result [2, 3]" by (simp add: fixed_result_def small_result_def)
  have s: "MaybeFSpan small_sel 0 2 = Some [1, 0]" "MaybeFSpan small_sel 1 2 = Some [7, -1, 4]" by code_simp+
  show "sel_fits small_sel [2, 3]" using s by (simp add: sel_fits_def All_less_Suc2 numeral_2_eq_2)
  show "no_duplicates small_sel [2, 3]"
    using s by (simp add: no_duplicates_def disk_ids_def All_less_Suc2 numeral_2_eq_2)
qed

theorem Make_partitions_witness:
  "\<exists>p. Make 32 small_sel small_result no_split = Inr p \<and> PartitionElements p = 6"
proof -
  have "nElements small_result = 6" "\<not> 1 < max_splits no_split"
    by (simp_all add: small_result_def nElements_def shape_product_def no_split_def)
  with Make_partitions [OF small_facts(1,2), where string_size = 32 and opts = no_split] small_facts(3)
  show ?thesis by (cases "Make 32 small_sel small_result no_split") auto
qed

end
