(* ===== verification/ColumnRead.thy ===== *)
theory ColumnRead
  imports ChunkCopy FixedPartition
begin

text \<open>
  Reading the chunks of a partition: \<open>ReadContiguousChunk\<close>, \<open>ReadChunkArray\<close>, \<open>ReadChunks\<close> and
  \<open>GroupChunks\<close> of \<open>cpp/arcae/read_impl.cc\<close>. The casacore columns are a parameter, \<open>column_reader\<close>,
  of which \<open>reads_cells\<close> states the documented behaviour: the cells of the rows asked for, or the
  slice of them, in FORTRAN order.
\<close>

section \<open>The column, as casacore offers it\<close>

record 'a column_reader =
  scalar_cells :: "ref_rows \<Rightarrow> 'a list"             \<comment> \<open>ScalarColumn::getColumnCells(rows)\<close>
  array_cells :: "ref_rows \<Rightarrow> slicer \<Rightarrow> 'a list"    \<comment> \<open>ArrayColumn::getColumnCells(rows, section)\<close>
  array_slice :: "int \<Rightarrow> slicer \<Rightarrow> 'a list"         \<comment> \<open>ArrayColumn::getSlice(row, section)\<close>

fun ref_rows_list :: "ref_rows \<Rightarrow> int list" where
  "ref_rows_list (RowRange r r') = [r..r']"
| "ref_rows_list (RowVector rows) = rows"

definition ref_nrows :: "ref_rows \<Rightarrow> nat" where
  "ref_nrows rr = length (ref_rows_list rr)"

definition ref_firstRow :: "ref_rows \<Rightarrow> int" where
  "ref_firstRow rr = hd (ref_rows_list rr)"

definition slicer_length :: "slicer \<Rightarrow> shape" where
  "slicer_length sl = map2 (\<lambda>s e. nat (e - s + 1)) (slice_start sl) (slice_end sl)"

definition slicer_indices :: "slicer \<Rightarrow> int list list" where
  "slicer_indices sl = map (map2 (\<lambda>s k. s + int k) (slice_start sl)) (box (slicer_length sl))"

definition reads_cells :: "'a column_reader \<Rightarrow> (int \<Rightarrow> int list \<Rightarrow> 'a) \<Rightarrow> bool" where
  "reads_cells rd cell \<longleftrightarrow>
     (\<forall>rr. scalar_cells rd rr = map (\<lambda>r. cell r []) (ref_rows_list rr)) \<and>
     (\<forall>rr sl. array_cells rd rr sl = concat (map (\<lambda>r. map (cell r) (slicer_indices sl)) (ref_rows_list rr))) \<and>
     (\<forall>r sl. array_slice rd r sl = map (cell r) (slicer_indices sl))"

text \<open>A column with the given cells, which shows that the behaviour asked of casacore is possible.\<close>

definition cells_reader :: "(int \<Rightarrow> int list \<Rightarrow> 'a) \<Rightarrow> 'a column_reader" where
  "cells_reader cell =
     \<lparr>scalar_cells = \<lambda>rr. map (\<lambda>r. cell r []) (ref_rows_list rr),
      array_cells = \<lambda>rr sl. concat (map (\<lambda>r. map (cell r) (slicer_indices sl)) (ref_rows_list rr)),
      array_slice = \<lambda>r sl. map (cell r) (slicer_indices sl)\<rparr>"

lemma reads_cells_reader [simp]: "reads_cells (cells_reader cell) cell"
  by (simp add: reads_cells_def cells_reader_def)

section \<open>Reading a chunk\<close>

text \<open>A casacore array that shares the storage of the buffer from \<open>offset\<close> is filled with \<open>n\<close> values.\<close>

definition blit :: "nat \<Rightarrow> nat \<Rightarrow> 'a list \<Rightarrow> 'a list \<Rightarrow> 'a list option" where
  "blit offset n vals buffer =
     (if length vals = n \<and> offset + n \<le> length buffer
      then Some (take offset buffer @ vals @ drop (offset + n) buffer) else None)"

definition ReadContiguousChunk :: "'a column_reader \<Rightarrow> DataChunk \<Rightarrow> 'a list \<Rightarrow> 'a list option" where
  "ReadContiguousChunk rd ch buffer =
     (let sh = ChunkShape ch
      in if length sh = 1 then blit (ChunkOffset ch) (prod_list sh) (scalar_cells rd (ReferenceRows ch)) buffer
         else let ref_rows = ReferenceRows ch
              in if ref_nrows ref_rows = 1
                 then blit (ChunkOffset ch) (prod_list (slicer_length (SectionSlicer ch)))
                        (array_slice rd (ref_firstRow ref_rows) (SectionSlicer ch)) buffer
                 else blit (ChunkOffset ch) (prod_list sh) (array_cells rd ref_rows (SectionSlicer ch)) buffer)"

definition ReadChunkArray :: "'a column_reader \<Rightarrow> DataChunk \<Rightarrow> 'a list" where
  "ReadChunkArray rd ch =
     (if nDim ch = 1 then scalar_cells rd (ReferenceRows ch)
      else let ref_rows = ReferenceRows ch
           in if ref_nrows ref_rows = 1 then array_slice rd (ref_firstRow ref_rows) (SectionSlicer ch)
              else array_cells rd ref_rows (SectionSlicer ch))"

text \<open>The state of \<open>ReadChunks\<close>: the buffer, and the bytes reported to \<open>RecordIoBytes\<close>.\<close>

type_synonym 'a read_state = "'a list \<times> nat"

definition read_chunk :: "nat \<Rightarrow> 'a column_reader \<Rightarrow> DataChunk \<Rightarrow> 'a read_state \<Rightarrow> 'a read_state result" where
  "read_chunk ct_size rd ch st =
     (if IsEmpty ch then Inr st
      else case (if IsContiguous ch then ReadContiguousChunk rd ch (fst st)
                 else CopyChunkArray ch (ReadChunkArray rd ch) (fst st)) of
             None \<Rightarrow> Inl (Undefined ''ReadChunks'')
           | Some buffer \<Rightarrow> Inr (buffer, snd st + ChunkElements ch * ct_size))"

text \<open>
  The loops over the chunks. A chunk is a handle: \<open>None\<close> is the one without shared data, for which
  \<open>operator bool\<close> is false.
\<close>

fun chunk_loop :: "(DataChunk \<Rightarrow> 's \<Rightarrow> 's result) \<Rightarrow> DataChunk option list \<Rightarrow> 's \<Rightarrow> 's result" where
  "chunk_loop step [] st = Inr st"
| "chunk_loop step (None # chs) st = Inl (Invalid [Str ''Invalid chunk''])"
| "chunk_loop step (Some ch # chs) st = rbind (step ch st) (chunk_loop step chs)"

definition ReadChunks ::
  "nat \<Rightarrow> 'a column_reader \<Rightarrow> casa_dtype \<Rightarrow> DataChunk option list \<Rightarrow> 'a read_state \<Rightarrow> 'a read_state result" where
  "ReadChunks string_size rd dtype chunks st =
     DispatchCasaType dtype (\<lambda>cdt. rbind (CasaDataTypeSize string_size cdt) (\<lambda>ct_size.
       chunk_loop (read_chunk ct_size rd) chunks st))"

section \<open>The chunks of a fixed result\<close>

abbreviation mem_sizes :: "span_pairs \<Rightarrow> shape" where
  "mem_sizes t \<equiv> map (\<lambda>sp. length (mem sp)) t"

definition disk_at :: "span_pairs \<Rightarrow> nat list \<Rightarrow> index list" where
  "disk_at t p = map2 (\<lambda>sp k. disk sp ! k) t p"

text \<open>A chunk whose memory is one range of a buffer of shape \<open>sh\<close>.\<close>

definition contig_ok :: "shape \<Rightarrow> span_pairs \<Rightarrow> bool" where
  "contig_ok sh t \<longleftrightarrow>
     (\<forall>d < length sh - 1. mem (t ! d) = [0..<sh ! d]) \<and>
     mem (last t) = [min_mem (last t)..<min_mem (last t) + length (mem (last t))]"

definition fixed_chunk :: "selection \<Rightarrow> shape \<Rightarrow> DataChunk \<Rightarrow> bool" where
  "fixed_chunk sel sh ch \<longleftrightarrow> tuple_ok sel sh (DimensionSpans ch) \<and>
     chunk_is ch (DimensionSpans ch) (fixed_geometry sh (DimensionSpans ch)) (IsContiguous ch) \<and>
     (IsContiguous ch \<longrightarrow> contig_ok sh (DimensionSpans ch))"

lemma memory_contiguous_upt:
  assumes "IsMemoryContiguous sp" and "mem sp \<noteq> []"
  shows "mem sp = [min_mem sp..<min_mem sp + length (mem sp)]"
proof -
  have step: "mem sp ! Suc i = Suc (mem sp ! i)" if "Suc i < length (mem sp)" for i
  proof -
    have "\<forall>i \<in> set [1..<length (mem sp)]. int (mem sp ! i) - int (mem sp ! (i - 1)) = 1"
      using assms(1) by (simp add: IsMemoryContiguous_def list_all_iff)
    from bspec [OF this, of "Suc i"] that show ?thesis by simp
  qed
  have nth: "mem sp ! i = mem sp ! 0 + i" if "i < length (mem sp)" for i
    using that by (induction i) (auto simp: step)
  have "\<forall>x \<in> set (mem sp). mem sp ! 0 \<le> x" using nth by (auto simp: in_set_conv_nth)
  moreover have "mem sp ! 0 \<in> set (mem sp)" using assms(2) by simp
  ultimately have "min_mem sp = mem sp ! 0" using assms(2) by (auto simp: min_mem_def intro: Min_eqI)
  with nth show ?thesis by (intro nth_equalityI) auto
qed

lemma secondary_contiguous_mem:
  assumes "decomposition sel sh L" and "sel_fits sel sh" and "SecondaryDimensionsContiguous L"
    and "t \<in> set (product_lists L)" and "d < length sh - 1"
  shows "mem (t ! d) = [0..<sh ! d]"
proof -
  have len: "length L = length sh" using assms(1) by (simp add: decomposition_def)
  have d: "d < length sh" using assms(5) by linarith
  then have dec: "decomposes (d = length sh - 1) (disk_ids sel sh d) (L ! d)"
    using assms(1) by (simp only: decomposition_def)
  have "butlast L ! d \<in> set (butlast L)" using assms(5) len by simp
  then have "L ! d \<in> set (butlast L)" using assms(5) len by (simp add: nth_butlast)
  with assms(3) have c: "\<not> 1 < length (L ! d)"
    "\<forall>i < length (mem (L ! d ! 0)). mem (L ! d ! 0) ! i = i"
    by (auto simp: SecondaryDimensionsContiguous_def list_all_iff)
  have "L ! d \<noteq> []" using dec by (simp add: decomposes_def)
  with c(1) obtain s where s: "L ! d = [s]" by (cases "L ! d") auto
  have "t ! d \<in> set (L ! d)" using assms(4,5) len by (auto simp: in_product_lists list_all2_conv_all_nth)
  with s have ts: "t ! d = s" by simp
  have "mset (mem s) = mset [0..<length (disk_ids sel sh d)]" using decomposes_mem [OF dec] s by simp
  then have "length (mem s) = sh ! d"
    using length_disk_ids [OF assms(2) d] by (metis diff_zero length_upt mset_eq_length)
  with c(2) s ts show ?thesis by (intro nth_equalityI) auto
qed

lemma fixed_chunks:
  assumes "chunks_of sel sh L chunks" and "sel_fits sel sh" and "sh \<noteq> []" and "ch \<in> set chunks"
  shows "fixed_chunk sel sh ch"
proof -
  obtain c where c: "c < length chunks" "ch = chunks ! c" using assms(4) by (auto simp: in_set_conv_nth)
  let ?t = "product_lists L ! c"
  have t: "tuple_ok sel sh ?t" "chunk_is ch ?t (fixed_geometry sh ?t)
      (SecondaryDimensionsContiguous L \<and> IsMemoryContiguous (last ?t))"
    using assms(1) c by (auto simp: chunks_of_def)
  have "contig_ok sh ?t" if "IsContiguous ch"
  proof -
    have flags: "SecondaryDimensionsContiguous L" "IsMemoryContiguous (last ?t)"
      using that t(2) by (auto simp: chunk_is_def)
    have mem: "?t \<in> set (product_lists L)" using c assms(1) by (simp add: chunks_of_def)
    have "?t \<noteq> []" using t(1) assms(3) by (auto simp: tuple_ok_def)
    then have "last ?t = ?t ! (length sh - 1)" using t(1) by (simp add: last_conv_nth tuple_ok_def)
    moreover have "mem (?t ! (length sh - 1)) \<noteq> []"
      by (rule tuple_okD [OF t(1)]) (use assms(3) in simp)
    ultimately have "mem (last ?t) \<noteq> []" by simp
    then show ?thesis
      using secondary_contiguous_mem [OF _ assms(2) flags(1) mem] memory_contiguous_upt [OF flags(2)] assms(1)
      by (auto simp: contig_ok_def chunks_of_def)
  qed
  with t show ?thesis by (simp add: fixed_chunk_def chunk_is_def)
qed

section \<open>The values casacore delivers\<close>

text \<open>The cell element an index on disk stands for: the last dimension is the row.\<close>

definition cell_at :: "(int \<Rightarrow> int list \<Rightarrow> 'a) \<Rightarrow> index list \<Rightarrow> 'a" where
  "cell_at cell d = cell (last d) (butlast d)"

definition chunk_values :: "(int \<Rightarrow> int list \<Rightarrow> 'a) \<Rightarrow> span_pairs \<Rightarrow> 'a list" where
  "chunk_values cell t = map (\<lambda>p. cell_at cell (disk_at t p)) (box (map (\<lambda>sp. length (disk sp)) t))"

text \<open>A chunk that is read: every disk index is there, and the secondary ones are consecutive.\<close>

definition readable :: "span_pairs \<Rightarrow> bool" where
  "readable t \<longleftrightarrow> t \<noteq> [] \<and>
     (\<forall>sp \<in> set t. disk sp \<noteq> [] \<and> (\<forall>x \<in> set (disk sp). 0 \<le> x)) \<and>
     (\<forall>sp \<in> set (butlast t). successively (\<lambda>x y. y = x + 1) (disk sp)) \<and>
     successively (<) (disk (last t))"

lemma consecutive_nth: "successively (\<lambda>x y. y = x + 1) xs \<Longrightarrow> k < length xs \<Longrightarrow> xs ! k = xs ! 0 + int k"
proof (induction xs arbitrary: k)
  case (Cons x xs)
  show ?case
  proof (cases k)
    case (Suc j)
    with Cons.prems obtain y ys where xs: "xs = y # ys" by (cases xs) auto
    have "successively (\<lambda>x y. y = x + 1) xs" and "j < length xs" and y: "y = x + 1"
      using Cons.prems Suc xs by auto
    from Cons.IH [OF this(1,2)] show ?thesis unfolding Suc xs y by simp
  qed simp
qed simp

lemma slicer_consecutive:
  assumes "\<forall>sp \<in> set sps. disk sp \<noteq> [] \<and> successively (\<lambda>x y. y = x + 1) (disk sp)"
  shows "slicer_length \<lparr>slice_start = map (\<lambda>sp. disk sp ! 0) sps,
      slice_end = map (\<lambda>sp. disk sp ! (length (disk sp) - 1)) sps\<rparr> = map (\<lambda>sp. length (disk sp)) sps"
    and "slicer_indices \<lparr>slice_start = map (\<lambda>sp. disk sp ! 0) sps,
      slice_end = map (\<lambda>sp. disk sp ! (length (disk sp) - 1)) sps\<rparr> =
      map (disk_at sps) (box (map (\<lambda>sp. length (disk sp)) sps))"
proof -
  have "nat (disk sp ! (length (disk sp) - 1) - disk sp ! 0 + 1) = length (disk sp)" if "sp \<in> set sps" for sp
  proof -
    from assms that have "disk sp \<noteq> []" "successively (\<lambda>x y. y = x + 1) (disk sp)" by auto
    then show ?thesis using consecutive_nth [of "disk sp" "length (disk sp) - 1"] by (cases "disk sp") auto
  qed
  then show len: "slicer_length \<lparr>slice_start = map (\<lambda>sp. disk sp ! 0) sps,
      slice_end = map (\<lambda>sp. disk sp ! (length (disk sp) - 1)) sps\<rparr> = map (\<lambda>sp. length (disk sp)) sps"
    by (simp add: slicer_length_def map2_map_map)
  have "map2 (\<lambda>s k. s + int k) (map (\<lambda>sp. disk sp ! 0) sps) p = disk_at sps p"
    if "p \<in> set (box (map (\<lambda>sp. length (disk sp)) sps))" for p
  proof (rule nth_equalityI)
    have p: "length p = length sps" "\<forall>d < length sps. p ! d < length (disk (sps ! d))"
      using that by (auto simp: set_box in_box_conv)
    then show "length (map2 (\<lambda>s k. s + int k) (map (\<lambda>sp. disk sp ! 0) sps) p) = length (disk_at sps p)"
      by (simp add: disk_at_def)
    fix d assume "d < length (map2 (\<lambda>s k. s + int k) (map (\<lambda>sp. disk sp ! 0) sps) p)"
    then have d: "d < length sps" by simp
    then have "sps ! d \<in> set sps" by simp
    with assms have "successively (\<lambda>x y. y = x + 1) (disk (sps ! d))" by blast
    from consecutive_nth [OF this, of "p ! d"] p d
    show "map2 (\<lambda>s k. s + int k) (map (\<lambda>sp. disk sp ! 0) sps) p ! d = disk_at sps p ! d"
      by (simp add: disk_at_def)
  qed
  then show "slicer_indices \<lparr>slice_start = map (\<lambda>sp. disk sp ! 0) sps,
      slice_end = map (\<lambda>sp. disk sp ! (length (disk sp) - 1)) sps\<rparr> =
      map (disk_at sps) (box (map (\<lambda>sp. length (disk sp)) sps))"
    unfolding slicer_indices_def len by (simp cong: map_cong)
qed

lemma ascending_full:
  assumes "successively (<) (xs :: int list)" and "xs \<noteq> []" and "int (length xs) = last xs - hd xs + 1"
  shows "xs = [hd xs..last xs]"
proof -
  have "sorted_wrt (<) xs" using assms(1) by (simp add: successively_conv_sorted_wrt)
  then have s: "sorted xs" "distinct xs" by (simp_all add: strict_sorted_iff)
  have "set xs \<subseteq> {hd xs..last xs}"
  proof
    fix x assume "x \<in> set xs"
    then obtain i where "i < length xs" "x = xs ! i" by (auto simp: in_set_conv_nth)
    then show "x \<in> {hd xs..last xs}"
      using assms(2) sorted_nth_mono [OF s(1), of 0 i] sorted_nth_mono [OF s(1), of i "length xs - 1"]
      by (simp add: hd_conv_nth last_conv_nth)
  qed
  moreover have "card {hd xs..last xs} = length xs" using assms(3) by simp
  ultimately have "set xs = {hd xs..last xs}" using s(2) by (metis card_subset_eq distinct_card finite_atLeastAtMost_int)
  then show ?thesis using s by (metis set_upto sorted_distinct_set_unique sorted_upto distinct_upto)
qed

lemma ref_rows_ReferenceRows:
  assumes "readable (DimensionSpans ch)" and "nDim ch = length (DimensionSpans ch)"
  shows "ref_rows_list (ReferenceRows ch) = disk (last (DimensionSpans ch))"
proof -
  let ?s = "disk (last (DimensionSpans ch))"
  have ne: "DimensionSpans ch \<noteq> []" using assms(1) by (simp add: readable_def)
  then have last: "DimensionSpans ch ! (nDim ch - 1) = last (DimensionSpans ch)"
    using assms(2) by (simp add: last_conv_nth)
  have "last (DimensionSpans ch) \<in> set (DimensionSpans ch)" using ne by simp
  then have "?s \<noteq> []" "successively (<) ?s" using assms(1) by (auto simp: readable_def)
  then have "int (length ?s) = List.last ?s - hd ?s + 1 \<Longrightarrow> [hd ?s..List.last ?s] = ?s"
    using ascending_full [of ?s] by simp
  then show ?thesis unfolding ReferenceRows_def Let_def last by simp
qed

text \<open>The values of a chunk, row after row.\<close>

lemma chunk_values_rows:
  assumes "t \<noteq> []"
  shows "chunk_values cell t = concat (map (\<lambda>r. map (cell r)
    (map (disk_at (butlast t)) (box (map (\<lambda>sp. length (disk sp)) (butlast t))))) (disk (last t)))"
proof -
  let ?b = "butlast t" and ?s = "last t" and ?ns = "map (\<lambda>sp. length (disk sp)) (butlast t)"
  have t: "t = ?b @ [?s]" using assms by simp
  have cell: "cell_at cell (disk_at t (is @ [i])) = cell (disk ?s ! i) (disk_at ?b is)"
    if "is \<in> set (box ?ns)" for "is" i
  proof -
    have "length is = length ?b" using that by (auto simp: set_box dest: in_box_length)
    then have "disk_at (?b @ [?s]) (is @ [i]) = disk_at ?b is @ [disk ?s ! i]" by (simp add: disk_at_def)
    then show ?thesis unfolding t [symmetric] by (simp add: cell_at_def)
  qed
  have "map (\<lambda>sp. length (disk sp)) t = ?ns @ [length (disk ?s)]"
    by (subst t) simp
  then have "chunk_values cell t =
      concat (map (\<lambda>i. map (\<lambda>is. cell_at cell (disk_at t (is @ [i]))) (box ?ns)) [0..<length (disk ?s)])"
    by (simp only: chunk_values_def box_snoc map_concat map_map comp_def)
  also have "\<dots> = concat (map (\<lambda>i. map (\<lambda>is. cell (disk ?s ! i) (disk_at ?b is)) (box ?ns)) [0..<length (disk ?s)])"
    using cell by (simp cong: map_cong)
  also have "map (\<lambda>i. map (\<lambda>is. cell (disk ?s ! i) (disk_at ?b is)) (box ?ns)) [0..<length (disk ?s)] =
      map (\<lambda>r. map (cell r) (map (disk_at ?b) (box ?ns))) (disk ?s)"
    by (rule nth_equalityI) simp_all
  finally show ?thesis .
qed

lemma read_values:
  assumes "reads_cells rd cell" and "readable (DimensionSpans ch)" and "nDim ch = length (DimensionSpans ch)"
  shows "nDim ch = 1 \<Longrightarrow> scalar_cells rd (ReferenceRows ch) = chunk_values cell (DimensionSpans ch)"
    and "array_cells rd (ReferenceRows ch) (SectionSlicer ch) = chunk_values cell (DimensionSpans ch)"
    and "ref_nrows (ReferenceRows ch) = 1 \<Longrightarrow>
      array_slice rd (ref_firstRow (ReferenceRows ch)) (SectionSlicer ch) = chunk_values cell (DimensionSpans ch)"
    and "slicer_length (SectionSlicer ch) = map (\<lambda>sp. length (disk sp)) (butlast (DimensionSpans ch))"
proof -
  let ?t = "DimensionSpans ch"
  have ne: "?t \<noteq> []" using assms(2) by (simp add: readable_def)
  have rows: "ref_rows_list (ReferenceRows ch) = disk (last ?t)"
    by (rule ref_rows_ReferenceRows [OF assms(2,3)])
  have sec: "SectionSlicer ch = \<lparr>slice_start = map (\<lambda>sp. disk sp ! 0) (butlast ?t),
      slice_end = map (\<lambda>sp. disk sp ! (length (disk sp) - 1)) (butlast ?t)\<rparr>"
    by (simp add: SectionSlicer_def Let_def assms(3) butlast_conv_take)
  have "\<forall>sp \<in> set (butlast ?t). disk sp \<noteq> [] \<and> successively (\<lambda>x y. y = x + 1) (disk sp)"
    using assms(2) by (auto simp: readable_def dest: in_set_butlastD)
  note slicer = slicer_consecutive [OF this, folded sec]
  note vals = chunk_values_rows [OF ne, of cell, folded slicer(2)]
  show "slicer_length (SectionSlicer ch) = map (\<lambda>sp. length (disk sp)) (butlast ?t)" by (rule slicer(1))
  show "array_cells rd (ReferenceRows ch) (SectionSlicer ch) = chunk_values cell ?t"
    using assms(1) vals rows by (simp add: reads_cells_def)
  show "array_slice rd (ref_firstRow (ReferenceRows ch)) (SectionSlicer ch) = chunk_values cell ?t"
    if one: "ref_nrows (ReferenceRows ch) = 1"
  proof -
    obtain r where r: "disk (last ?t) = [r]"
      using one rows by (auto simp: ref_nrows_def length_Suc_conv)
    then show ?thesis using assms(1) vals rows by (simp add: reads_cells_def ref_firstRow_def)
  qed
  show "scalar_cells rd (ReferenceRows ch) = chunk_values cell ?t" if "nDim ch = 1"
  proof -
    have "butlast ?t = []" using that assms(3) by (cases ?t) auto
    moreover have "concat (map (\<lambda>r. [cell r []]) (disk (last ?t))) = map (\<lambda>r. cell r []) (disk (last ?t))"
      by (rule concat_map_singleton)
    ultimately show ?thesis
      using assms(1) chunk_values_rows [OF ne, of cell] rows by (simp add: reads_cells_def disk_at_def)
  qed
qed

lemma ReadChunkArray_values:
  assumes "reads_cells rd cell" and "readable (DimensionSpans ch)" and "nDim ch = length (DimensionSpans ch)"
  shows "ReadChunkArray rd ch = chunk_values cell (DimensionSpans ch)"
  using read_values [OF assms] by (simp add: ReadChunkArray_def Let_def)

lemma length_chunk_values: "length (chunk_values cell t) = prod_list (map (\<lambda>sp. length (disk sp)) t)"
  by (simp add: chunk_values_def)

lemma ReadContiguousChunk_values:
  assumes "reads_cells rd cell" and "readable (DimensionSpans ch)" and "nDim ch = length (DimensionSpans ch)"
  shows "ReadContiguousChunk rd ch buffer =
    blit (ChunkOffset ch) (prod_list (ChunkShape ch)) (chunk_values cell (DimensionSpans ch)) buffer"
proof -
  let ?t = "DimensionSpans ch"
  note v = read_values [OF assms]
  have nd: "length (ChunkShape ch) = nDim ch" by (simp add: ChunkShape_def assms(3))
  have one: "prod_list (slicer_length (SectionSlicer ch)) = prod_list (ChunkShape ch)"
    if "ref_nrows (ReferenceRows ch) = 1"
  proof -
    have "?t \<noteq> []" using assms(2) by (simp add: readable_def)
    then have "ChunkShape ch = map (\<lambda>sp. length (disk sp)) (butlast ?t) @ [length (disk (last ?t))]"
      by (metis (no_types, lifting) ChunkShape_def append_butlast_last_id list.simps(8) list.simps(9) map_append)
    moreover have "length (disk (last ?t)) = 1"
      using that ref_rows_ReferenceRows [OF assms(2,3)] by (simp add: ref_nrows_def)
    ultimately show ?thesis by (simp add: v(4))
  qed
  show ?thesis using v one by (simp add: ReadContiguousChunk_def Let_def nd)
qed

lemma readable_chunk:
  assumes "fixed_chunk sel sh ch" and "\<not> IsEmpty ch" and "sh \<noteq> []"
  shows "readable (DimensionSpans ch)"
proof -
  let ?t = "DimensionSpans ch"
  have t: "tuple_ok sel sh ?t" using assms(1) by (simp add: fixed_chunk_def)
  note len = tuple_ok_length [OF t]
  have pos: "\<forall>sp \<in> set ?t. \<forall>x \<in> set (disk sp). 0 \<le> x"
    using assms(2) by (auto simp: IsEmpty_def list_ex_iff not_less)
  have rng: "successively (\<lambda>x y. if d = length sh - 1 then x < y else y = x + 1) (disk (?t ! d))"
    if "d < length sh" for d
  proof -
    have "?t ! d \<in> set ?t" using that len by simp
    then have "\<not> (\<forall>x \<in> set (disk (?t ! d)). x < 0)"
      using pos tuple_okD(2) [OF t that] by (meson list.set_sel(1) not_less)
    with tuple_okD(5) [OF t that] show ?thesis unfolding range_ok_def by blast
  qed
  have ne: "?t \<noteq> []" using len assms(3) by auto
  have "disk sp \<noteq> []" if "sp \<in> set ?t" for sp
    using that tuple_okD(2) [OF t] len by (auto simp: in_set_conv_nth)
  moreover have "successively (\<lambda>x y. y = x + 1) (disk sp)" if sp: "sp \<in> set (butlast ?t)" for sp
  proof -
    obtain d where d: "d < length sh - 1" "sp = ?t ! d"
      using sp len by (auto simp: in_set_conv_nth nth_butlast)
    with rng [of d] show ?thesis by simp
  qed
  moreover have "successively (<) (disk (last ?t))"
    using rng [of "length sh - 1"] assms(3) ne len by (simp add: last_conv_nth)
  ultimately show ?thesis using pos ne by (simp add: readable_def)
qed

section \<open>Where the values go\<close>

text \<open>The indices in memory of the elements of a chunk.\<close>

definition chunk_mems :: "span_pairs \<Rightarrow> nat list set" where
  "chunk_mems t = mem_index t ` {p. in_box (mem_sizes t) p}"

lemma tuple_sizes:
  assumes "tuple_ok sel sh t"
  shows "mem_sizes t = map (\<lambda>sp. length (disk sp)) t"
proof (rule nth_equalityI)
  fix d assume "d < length (mem_sizes t)"
  then have "d < length sh" using tuple_ok_length [OF assms] by simp
  from tuple_okD(1) [OF assms this] \<open>d < length (mem_sizes t)\<close>
  show "mem_sizes t ! d = map (\<lambda>sp. length (disk sp)) t ! d" by simp
qed simp

lemma tuple_positions:
  assumes "tuple_ok sel sh t" and "in_box (mem_sizes t) p"
  shows "in_box sh (mem_index t p)" and "disk_at t p = disk_index sel sh (mem_index t p)"
    and "pos_ok t (map min_mem t) p"
proof -
  note len = tuple_ok_length [OF assms(1)]
  have p: "length p = length sh" "\<And>d. d < length sh \<Longrightarrow> p ! d < length (mem (t ! d))"
    using assms(2) len by (auto simp: in_box_conv)
  have pd: "p ! d < length (disk (t ! d))" if "d < length sh" for d
    using p(2) [OF that] tuple_okD(1) [OF assms(1) that] by simp
  show "in_box sh (mem_index t p)"
    using p(1) len tuple_okD(6) [OF assms(1) _ pd] by (simp add: in_box_conv mem_index_def)
  show "disk_at t p = disk_index sel sh (mem_index t p)"
  proof (rule nth_equalityI)
    show "length (disk_at t p) = length (disk_index sel sh (mem_index t p))"
      using p(1) len by (simp add: disk_at_def disk_index_def)
    fix d assume "d < length (disk_at t p)"
    then have d: "d < length sh" using p(1) len by (simp add: disk_at_def)
    from tuple_okD(7) [OF assms(1) d pd [OF d]] d p(1) len
    show "disk_at t p ! d = disk_index sel sh (mem_index t p) ! d"
      by (simp add: disk_at_def disk_index_def mem_index_def)
  qed
  show "pos_ok t (map min_mem t) p"
    using p len by (simp add: pos_ok_def list_all2_conv_all_nth min_mem_le)
qed

lemma mem_index_inj:
  assumes "tuple_ok sel sh t" and "in_box (mem_sizes t) p" and "in_box (mem_sizes t) q"
    and "mem_index t p = mem_index t q"
  shows "p = q"
proof (rule nth_equalityI)
  note len = tuple_ok_length [OF assms(1)]
  have lp: "length p = length sh" "length q = length sh" using assms(2,3) len by (auto simp: in_box_conv)
  then show "length p = length q" by simp
  fix d assume "d < length p"
  then have d: "d < length sh" using lp by simp
  have "mem (t ! d) ! (p ! d) = mem (t ! d) ! (q ! d)"
    using arg_cong [OF assms(4), of "\<lambda>xs. xs ! d"] d lp len by (simp add: mem_index_def)
  moreover have "p ! d < length (mem (t ! d))" "q ! d < length (mem (t ! d))"
    using assms(2,3) d len by (auto simp: in_box_conv)
  ultimately show "p ! d = q ! d" using tuple_okD(4) [OF assms(1) d] by (simp add: nth_eq_iff_index_eq)
qed

lemma store_all_cong:
  "\<forall>p \<in> set ps. t p = t' p \<and> s p = s' p \<Longrightarrow> store_all src t s ps out = store_all src t' s' ps out"
  unfolding store_all_def by (induction ps arbitrary: out) auto

text \<open>The loops in terms of the shape of the buffer: places are column major positions in it.\<close>

lemma chunk_loop_ok:
  assumes "fixed_chunk sel sh ch" and "in_box (mem_sizes (DimensionSpans ch)) p"
  shows "pos_ok (DimensionSpans ch) (MinMemIndex ch) p"
    and "dot p (ChunkStrides ch) = lin (mem_sizes (DimensionSpans ch)) p"
    and "ChunkOffset ch + buffer_index (DimensionSpans ch) (MinMemIndex ch) (BufferStrides ch) p =
      lin sh (mem_index (DimensionSpans ch) p)"
    and "lin (mem_sizes (DimensionSpans ch)) p < prod_list (ChunkShape ch)"
    and "lin sh (mem_index (DimensionSpans ch) p) < prod_list sh"
proof -
  let ?t = "DimensionSpans ch"
  have t: "tuple_ok sel sh ?t" and geo: "MinMemIndex ch = map min_mem ?t"
    "ChunkStrides ch = strides_from 1 (mem_sizes ?t)" "BufferStrides ch = strides_from 1 sh"
    "ChunkOffset ch = lin sh (map min_mem ?t)"
    using assms(1) by (auto simp: fixed_chunk_def chunk_is_def fixed_geometry_def)
  note pos = tuple_positions [OF t assms(2)]
  show "pos_ok ?t (MinMemIndex ch) p" using pos(3) geo(1) by simp
  show "dot p (ChunkStrides ch) = lin (mem_sizes ?t) p" by (simp add: geo(2) lin_def)
  show "ChunkOffset ch + buffer_index ?t (MinMemIndex ch) (BufferStrides ch) p = lin sh (mem_index ?t p)"
    using buffer_index_lin [OF pos(3) tuple_ok_length [OF t]] by (simp add: geo(1,3,4))
  show "lin (mem_sizes ?t) p < prod_list (ChunkShape ch)"
    using lin_less [OF assms(2)] unfolding ChunkShape_def tuple_sizes [OF t, symmetric] .
  show "lin sh (mem_index ?t p) < prod_list sh" by (rule lin_less [OF pos(1)])
qed

lemma zero_in_box: "tuple_ok sel sh t \<Longrightarrow> in_box (mem_sizes t) (replicate (length t) 0)"
  using tuple_okD(3) [of sel sh t] tuple_ok_length [of sel sh t] by (simp add: in_box_conv)

lemma lin_zero: "lin sh (replicate n 0) = 0"
proof -
  have "dot (replicate n 0) ss = 0" for ss by (induction n arbitrary: ss) (auto, case_tac ss, auto)
  then show ?thesis by (simp add: lin_def)
qed

lemma CopyChunkArray_eq:
  assumes "fixed_chunk sel sh ch" and "sh \<noteq> []" and "length data = prod_list (ChunkShape ch)"
    and "length buffer = prod_list sh"
  shows "CopyChunkArray ch data buffer = Some (store_all ((!) data)
    (\<lambda>p. lin sh (mem_index (DimensionSpans ch) p)) (lin (mem_sizes (DimensionSpans ch)))
    (box (mem_sizes (DimensionSpans ch))) buffer)"
proof -
  let ?t = "DimensionSpans ch"
  have t: "tuple_ok sel sh ?t" and nd: "nDim ch = length ?t"
    using assms(1) by (auto simp: fixed_chunk_def chunk_is_def)
  have ne: "?t \<noteq> []" using tuple_ok_length [OF t] assms(2) by auto
  have "loop_ok ?t (MinMemIndex ch) (\<lambda>p. dot p (ChunkStrides ch)) (length data)
      (\<lambda>p. ChunkOffset ch + buffer_index ?t (MinMemIndex ch) (BufferStrides ch) p) (length buffer)"
    using chunk_loop_ok [OF assms(1)] assms(3,4) by (simp add: loop_ok_def)
  from copy_loop_from [OF ne zero_in_box [OF t] this]
  have "CopyChunkArray ch data buffer = Some (store_all ((!) data)
      (\<lambda>p. ChunkOffset ch + buffer_index ?t (MinMemIndex ch) (BufferStrides ch) p)
      (\<lambda>p. dot p (ChunkStrides ch)) (box (mem_sizes ?t)) buffer)"
    by (simp add: CopyChunkArray_def nd lin_zero)
  also have "\<dots> = Some (store_all ((!) data) (\<lambda>p. lin sh (mem_index ?t p)) (lin (mem_sizes ?t))
      (box (mem_sizes ?t)) buffer)"
    using chunk_loop_ok [OF assms(1)] by (auto simp: set_box intro!: store_all_cong)
  finally show ?thesis .
qed

lemma GatherChunkArray_eq:
  assumes "fixed_chunk sel sh ch" and "sh \<noteq> []" and "length buffer = prod_list sh"
  shows "GatherChunkArray fresh ch buffer = Some (store_all ((!) buffer)
    (lin (mem_sizes (DimensionSpans ch))) (\<lambda>p. lin sh (mem_index (DimensionSpans ch) p))
    (box (mem_sizes (DimensionSpans ch))) (replicate (prod_list (ChunkShape ch)) fresh))"
proof -
  let ?t = "DimensionSpans ch" and ?out = "replicate (prod_list (ChunkShape ch)) fresh"
  have t: "tuple_ok sel sh ?t" and nd: "nDim ch = length ?t"
    using assms(1) by (auto simp: fixed_chunk_def chunk_is_def)
  have ne: "?t \<noteq> []" using tuple_ok_length [OF t] assms(2) by auto
  have "loop_ok ?t (MinMemIndex ch)
      (\<lambda>p. ChunkOffset ch + buffer_index ?t (MinMemIndex ch) (BufferStrides ch) p) (length buffer)
      (\<lambda>p. dot p (ChunkStrides ch)) (length ?out)"
    using chunk_loop_ok [OF assms(1)] assms(3) by (simp add: loop_ok_def)
  from gather_loop_from [OF ne zero_in_box [OF t] this]
  have "GatherChunkArray fresh ch buffer = Some (store_all ((!) buffer) (\<lambda>p. dot p (ChunkStrides ch))
      (\<lambda>p. ChunkOffset ch + buffer_index ?t (MinMemIndex ch) (BufferStrides ch) p) (box (mem_sizes ?t)) ?out)"
    by (simp add: GatherChunkArray_def nd lin_zero)
  also have "\<dots> = Some (store_all ((!) buffer) (lin (mem_sizes ?t)) (\<lambda>p. lin sh (mem_index ?t p))
      (box (mem_sizes ?t)) ?out)"
    using chunk_loop_ok [OF assms(1)] by (auto simp: set_box intro!: store_all_cong)
  finally show ?thesis .
qed

section \<open>Placing the values of a chunk\<close>

definition placed :: "shape \<Rightarrow> span_pairs \<Rightarrow> 'a list \<Rightarrow> 'a list \<Rightarrow> 'a list \<Rightarrow> bool" where
  "placed sh t vals buffer buffer' \<longleftrightarrow> length buffer' = length buffer \<and>
     (\<forall>p. in_box (mem_sizes t) p \<longrightarrow> buffer' ! lin sh (mem_index t p) = vals ! lin (mem_sizes t) p) \<and>
     (\<forall>a < length buffer. box sh ! a \<notin> chunk_mems t \<longrightarrow> buffer' ! a = buffer ! a)"

lemma placed_unique:
  assumes "placed sh t vals buffer b" and "placed sh t vals buffer b'" and "length buffer = prod_list sh"
    and "tuple_ok sel sh t"
  shows "b = b'"
proof (rule nth_equalityI)
  show "length b = length b'" using assms(1,2) by (simp add: placed_def)
  fix a assume "a < length b"
  then have a: "a < length buffer" using assms(1) by (simp add: placed_def)
  show "b ! a = b' ! a"
  proof (cases "box sh ! a \<in> chunk_mems t")
    case True
    then obtain p where p: "in_box (mem_sizes t) p" "box sh ! a = mem_index t p" by (auto simp: chunk_mems_def)
    then have "a = lin sh (mem_index t p)" using lin_box_nth [of a sh] a assms(3) by simp
    with p(1) assms(1,2) show ?thesis by (simp add: placed_def)
  next
    case False
    with a assms(1,2) show ?thesis by (simp add: placed_def)
  qed
qed

lemma CopyChunkArray_placed:
  assumes "fixed_chunk sel sh ch" and "sh \<noteq> []" and "length data = prod_list (ChunkShape ch)"
    and "length buffer = prod_list sh"
  shows "\<exists>buffer'. CopyChunkArray ch data buffer = Some buffer' \<and> placed sh (DimensionSpans ch) data buffer buffer'"
proof -
  let ?t = "DimensionSpans ch"
  let ?buffer' = "store_all ((!) data) (\<lambda>p. lin sh (mem_index ?t p)) (lin (mem_sizes ?t)) (box (mem_sizes ?t)) buffer"
  have t: "tuple_ok sel sh ?t" using assms(1) by (simp add: fixed_chunk_def)
  have "?buffer' ! lin sh (mem_index ?t p) = data ! lin (mem_sizes ?t) p" if p: "in_box (mem_sizes ?t) p" for p
  proof (rule nth_store_all_in)
    show "\<forall>q \<in> set (box (mem_sizes ?t)). lin sh (mem_index ?t q) = lin sh (mem_index ?t p) \<longrightarrow>
        data ! lin (mem_sizes ?t) q = data ! lin (mem_sizes ?t) p"
    proof (intro ballI impI)
      fix q assume "q \<in> set (box (mem_sizes ?t))" and eq: "lin sh (mem_index ?t q) = lin sh (mem_index ?t p)"
      then have q: "in_box (mem_sizes ?t) q" by (simp add: set_box)
      have "mem_index ?t q = mem_index ?t p"
        by (rule lin_inj [OF tuple_positions(1) [OF t q] tuple_positions(1) [OF t p] eq])
      then have "q = p" by (rule mem_index_inj [OF t q p])
      then show "data ! lin (mem_sizes ?t) q = data ! lin (mem_sizes ?t) p" by simp
    qed
    show "\<exists>q \<in> set (box (mem_sizes ?t)). lin sh (mem_index ?t q) = lin sh (mem_index ?t p)"
      using p by (auto simp: set_box)
    show "lin sh (mem_index ?t p) < length buffer" using chunk_loop_ok(5) [OF assms(1) p] assms(4) by simp
  qed
  moreover have "?buffer' ! a = buffer ! a" if "a < length buffer" "box sh ! a \<notin> chunk_mems ?t" for a
  proof (rule nth_store_all_out, rule ballI)
    fix p assume "p \<in> set (box (mem_sizes ?t))"
    then have p: "in_box (mem_sizes ?t) p" by (simp add: set_box)
    show "lin sh (mem_index ?t p) \<noteq> a"
    proof
      assume "lin sh (mem_index ?t p) = a"
      then have "box sh ! a = mem_index ?t p" using box_nth_lin [OF tuple_positions(1) [OF t p]] by simp
      with that(2) p show False by (auto simp: chunk_mems_def)
    qed
  qed
  ultimately have "placed sh ?t data buffer ?buffer'" by (simp add: placed_def)
  with CopyChunkArray_eq [OF assms] show ?thesis by blast
qed

subsection \<open>The shortcut for contiguous memory\<close>

lemma contiguous_place:
  assumes "fixed_chunk sel sh ch" and "IsContiguous ch" and "in_box (mem_sizes (DimensionSpans ch)) p" and "sh \<noteq> []"
  shows "lin sh (mem_index (DimensionSpans ch) p) = ChunkOffset ch + lin (mem_sizes (DimensionSpans ch)) p"
proof -
  let ?t = "DimensionSpans ch"
  have t: "tuple_ok sel sh ?t" and contig: "contig_ok sh ?t" and off: "ChunkOffset ch = lin sh (map min_mem ?t)"
    using assms(1,2) by (auto simp: fixed_chunk_def chunk_is_def fixed_geometry_def)
  note len = tuple_ok_length [OF t]
  have ne: "?t \<noteq> []" using len assms(4) by auto
  define hs where "hs = butlast sh"
  define b where "b = butlast ?t"
  have sh: "sh = hs @ [last sh]" using assms(4) by (simp add: hs_def)
  have ts: "?t = b @ [last ?t]" using ne by (simp add: b_def)
  have lb: "length b = length hs" using len by (simp add: b_def hs_def)
  have mem: "mem (b ! d) = [0..<hs ! d]" if "d < length hs" for d
    using contig that len by (simp add: contig_ok_def b_def hs_def nth_butlast)
  have sizes_b: "mem_sizes b = hs" by (rule nth_equalityI) (simp_all add: lb mem)
  have ns: "mem_sizes ?t = hs @ [length (mem (last ?t))]" by (subst ts) (simp add: sizes_b)
  obtain ps q where p: "p = ps @ [q]" "in_box hs ps" "q < length (mem (last ?t))"
    using assms(3) unfolding ns in_box_snoc by blast
  have lps: "length ps = length hs" using p(2) by (rule in_box_length)
  have "map2 (\<lambda>sp p. mem sp ! p) b ps = ps"
    using p(2) by (intro nth_equalityI) (simp_all add: lb lps mem in_box_conv)
  moreover have "mem (last ?t) ! q = min_mem (last ?t) + q"
  proof -
    have "mem (last ?t) = [min_mem (last ?t)..<min_mem (last ?t) + length (mem (last ?t))]"
      using contig by (simp add: contig_ok_def)
    then have "mem (last ?t) ! q = [min_mem (last ?t)..<min_mem (last ?t) + length (mem (last ?t))] ! q" by simp
    also have "\<dots> = min_mem (last ?t) + q" using p(3) by simp
    finally show ?thesis .
  qed
  ultimately have mi: "mem_index ?t p = ps @ [min_mem (last ?t) + q]"
    unfolding mem_index_def by (subst ts) (simp add: p(1) lb lps)
  have mins: "map min_mem ?t = replicate (length hs) 0 @ [min_mem (last ?t)]"
  proof -
    have "min_mem (b ! d) = 0" if "d < length hs" for d
    proof -
      have "0 < hs ! d" using p(2) that by (auto simp: in_box_conv)
      then show ?thesis using mem [OF that] by (auto simp: min_mem_def intro: Min_eqI)
    qed
    then have "map min_mem b = replicate (length hs) 0" by (intro nth_equalityI) (simp_all add: lb)
    then show ?thesis by (subst ts) simp
  qed
  have "lin sh (mem_index ?t p) = lin hs ps + prod_list hs * (min_mem (last ?t) + q)"
    by (subst sh) (simp add: mi lin_snoc lps)
  moreover have "ChunkOffset ch = prod_list hs * min_mem (last ?t)"
    unfolding off mins by (subst sh) (simp add: lin_snoc lin_zero)
  moreover have "lin (mem_sizes ?t) p = lin hs ps + prod_list hs * q"
    by (simp add: ns p(1) lin_snoc lps)
  ultimately show ?thesis by (simp add: algebra_simps)
qed

lemma blit_placed:
  assumes "fixed_chunk sel sh ch" and "IsContiguous ch" and "sh \<noteq> []"
    and "length vals = prod_list (ChunkShape ch)" and "length buffer = prod_list sh"
  shows "\<exists>buffer'. blit (ChunkOffset ch) (prod_list (ChunkShape ch)) vals buffer = Some buffer' \<and>
    placed sh (DimensionSpans ch) vals buffer buffer'"
proof -
  let ?t = "DimensionSpans ch" and ?off = "ChunkOffset ch" and ?n = "prod_list (ChunkShape ch)"
  have t: "tuple_ok sel sh ?t" using assms(1) by (simp add: fixed_chunk_def)
  have ns: "prod_list (mem_sizes ?t) = ?n" unfolding ChunkShape_def tuple_sizes [OF t, symmetric] ..
  have place: "\<exists>p. in_box (mem_sizes ?t) p \<and> lin sh (mem_index ?t p) = ?off + k \<and> lin (mem_sizes ?t) p = k"
    if "k < ?n" for k
    using contiguous_place [OF assms(1,2) box_nth_in_box assms(3)] box_nth_in_box [of k "mem_sizes ?t"]
      lin_box_nth [of k "mem_sizes ?t"] that ns by metis
  have "0 < ?n"
    using lin_less [OF zero_in_box [OF t]] ns by simp
  then obtain p where "in_box (mem_sizes ?t) p" "lin sh (mem_index ?t p) = ?off + (?n - 1)"
    using place [of "?n - 1"] by auto
  then have fit: "?off + ?n \<le> length buffer"
    using lin_less [OF tuple_positions(1) [OF t]] \<open>0 < ?n\<close> assms(5) by fastforce
  let ?b = "take ?off buffer @ vals @ drop (?off + ?n) buffer"
  have nth: "?b ! a = (if a < ?off then buffer ! a else if a < ?off + ?n then vals ! (a - ?off) else buffer ! a)"
    if "a < length buffer" for a
    using that fit assms(4) by (auto simp: nth_append min_def)
  have "placed sh ?t vals buffer ?b"
    unfolding placed_def
  proof (intro conjI allI impI)
    show "length ?b = length buffer" using fit assms(4) by simp
  next
    fix p assume p: "in_box (mem_sizes ?t) p"
    note cp = contiguous_place [OF assms(1,2) p assms(3)]
    have "lin (mem_sizes ?t) p < ?n" using lin_less [OF p] ns by simp
    with fit show "?b ! lin sh (mem_index ?t p) = vals ! lin (mem_sizes ?t) p"
      unfolding cp by (subst nth) simp_all
  next
    fix a assume a: "a < length buffer" "box sh ! a \<notin> chunk_mems ?t"
    have "\<not> (?off \<le> a \<and> a < ?off + ?n)"
    proof
      assume range: "?off \<le> a \<and> a < ?off + ?n"
      then have "a - ?off < ?n" by linarith
      from place [OF this] range obtain p where p: "in_box (mem_sizes ?t) p" "lin sh (mem_index ?t p) = a" by auto
      then have "box sh ! a = mem_index ?t p" using box_nth_lin [OF tuple_positions(1) [OF t p(1)]] by simp
      with p(1) a(2) show False by (auto simp: chunk_mems_def)
    qed
    then show "?b ! a = buffer ! a" using nth [OF a(1)] by auto
  qed
  then show ?thesis using fit assms(4) by (auto simp: blit_def)
qed

section \<open>Reading all chunks\<close>

lemma read_chunk_placed:
  assumes "fixed_chunk sel sh ch" and "reads_cells rd cell" and "sh \<noteq> []" and "length buffer = prod_list sh"
    and "\<not> IsEmpty ch"
  shows "\<exists>buffer'. read_chunk sz rd ch (buffer, n) = Inr (buffer', n + ChunkElements ch * sz) \<and>
    placed sh (DimensionSpans ch) (chunk_values cell (DimensionSpans ch)) buffer buffer'"
proof -
  let ?t = "DimensionSpans ch"
  have nd: "nDim ch = length ?t" using assms(1) by (simp add: fixed_chunk_def chunk_is_def)
  note readable = readable_chunk [OF assms(1,5,3)]
  have len: "length (chunk_values cell ?t) = prod_list (ChunkShape ch)"
    by (simp add: length_chunk_values ChunkShape_def)
  show ?thesis
  proof (cases "IsContiguous ch")
    case True
    from blit_placed [OF assms(1) True assms(3) len assms(4)] obtain b where
      "ReadContiguousChunk rd ch buffer = Some b" "placed sh ?t (chunk_values cell ?t) buffer b"
      unfolding ReadContiguousChunk_values [OF assms(2) readable nd] by blast
    with True assms(5) show ?thesis by (simp add: read_chunk_def)
  next
    case False
    from CopyChunkArray_placed [OF assms(1,3) len assms(4)] obtain b where
      "CopyChunkArray ch (ReadChunkArray rd ch) buffer = Some b" "placed sh ?t (chunk_values cell ?t) buffer b"
      unfolding ReadChunkArray_values [OF assms(2) readable nd] by blast
    with False assms(5) show ?thesis by (simp add: read_chunk_def)
  qed
qed

lemma chunk_values_nth:
  assumes "tuple_ok sel sh t" and "in_box (mem_sizes t) p"
  shows "chunk_values cell t ! lin (mem_sizes t) p = cell_at cell (disk_index sel sh (mem_index t p))"
proof -
  have "lin (mem_sizes t) p < length (box (mem_sizes t))" using lin_less [OF assms(2)] by simp
  then show ?thesis
    unfolding chunk_values_def tuple_sizes [OF assms(1), symmetric]
    by (simp add: box_nth_lin [OF assms(2)] tuple_positions(2) [OF assms])
qed

text \<open>
  A chunk that sets the places in \<open>P\<close> of every buffer of \<open>N\<close> elements to the values \<open>f\<close> of the places,
  and nothing else. Chunks that agree on the values can be read in any order.
\<close>

definition chunk_reads ::
  "nat \<Rightarrow> nat \<Rightarrow> 'a column_reader \<Rightarrow> (nat \<Rightarrow> 'a) \<Rightarrow> nat set \<Rightarrow> DataChunk \<Rightarrow> bool" where
  "chunk_reads N sz rd f P ch \<longleftrightarrow>
     (\<forall>buffer n. length buffer = N \<longrightarrow> (\<exists>buffer'.
        read_chunk sz rd ch (buffer, n) = Inr (buffer', n + (if IsEmpty ch then 0 else ChunkElements ch * sz)) \<and>
        length buffer' = N \<and> (\<forall>a < N. buffer' ! a = (if a \<in> P then f a else buffer ! a))))"

definition patched :: "(nat \<Rightarrow> 'a) \<Rightarrow> nat set \<Rightarrow> 'a list \<Rightarrow> 'a list" where
  "patched f P buffer = map (\<lambda>a. if a \<in> P then f a else buffer ! a) [0..<length buffer]"

lemma length_patched [simp, list_lens]: "length (patched f P buffer) = length buffer"
  by (simp add: patched_def)

lemma nth_patched: "a < length buffer \<Longrightarrow> patched f P buffer ! a = (if a \<in> P then f a else buffer ! a)"
  by (simp add: patched_def)

lemma patched_patched: "patched f Q (patched f P buffer) = patched f (P \<union> Q) buffer"
  by (rule nth_equalityI) (simp_all add: nth_patched)

lemma patched_none: "patched f {} buffer = buffer"
  by (rule nth_equalityI) (simp_all add: nth_patched)

lemma patched_cong:
  assumes "\<forall>a < length buffer. a \<in> P \<longleftrightarrow> a \<in> Q"
  shows "patched f P buffer = patched f Q buffer"
  by (rule nth_equalityI) (use assms in \<open>simp_all add: nth_patched\<close>)

lemma chunk_readsD:
  assumes "chunk_reads N sz rd f P ch" and "length buffer = N"
  shows "read_chunk sz rd ch (buffer, n) = Inr (patched f P buffer, n + (if IsEmpty ch then 0 else ChunkElements ch * sz))"
proof -
  from assms obtain b where b: "read_chunk sz rd ch (buffer, n) = Inr (b, n + (if IsEmpty ch then 0 else ChunkElements ch * sz))"
    "length b = N" "\<forall>a < N. b ! a = (if a \<in> P then f a else buffer ! a)" unfolding chunk_reads_def by blast
  have "b = patched f P buffer" by (rule nth_equalityI) (use b assms(2) in \<open>simp_all add: nth_patched\<close>)
  with b(1) show ?thesis by simp
qed

lemma chunk_loop_reads:
  assumes "\<forall>ch \<in> set chs. chunk_reads N sz rd f (P ch) ch" and "length buffer = N"
  shows "chunk_loop (read_chunk sz rd) (map Some chs) (buffer, n) =
    Inr (patched f (\<Union>ch \<in> set chs. P ch) buffer,
         n + sz * sum_list (map ChunkElements (filter (\<lambda>ch. \<not> IsEmpty ch) chs)))"
  using assms
proof (induction chs arbitrary: buffer n)
  case (Cons ch chs)
  have "\<forall>ch \<in> set chs. chunk_reads N sz rd f (P ch) ch" "length (patched f (P ch) buffer) = N" using Cons.prems by auto
  note ih = Cons.IH [OF this, of "n + (if IsEmpty ch then 0 else ChunkElements ch * sz)"]
  have "read_chunk sz rd ch (buffer, n) = Inr (patched f (P ch) buffer, n + (if IsEmpty ch then 0 else ChunkElements ch * sz))"
    using Cons.prems by (intro chunk_readsD) auto
  then show ?case using ih by (simp add: patched_patched algebra_simps)
qed (simp add: patched_none)

text \<open>The elements a chunk of a fixed result reads, and their values.\<close>

definition mems_read :: "DataChunk list \<Rightarrow> nat list set" where
  "mems_read chs = (\<Union>ch \<in> {ch \<in> set chs. \<not> IsEmpty ch}. chunk_mems (DimensionSpans ch))"

lemma fixed_chunk_reads:
  assumes "fixed_chunk sel sh ch" and "reads_cells rd cell" and "sh \<noteq> []"
  shows "chunk_reads (prod_list sh) sz rd (\<lambda>a. cell_at cell (disk_index sel sh (box sh ! a)))
    {a. a < prod_list sh \<and> box sh ! a \<in> mems_read [ch]} ch"
  unfolding chunk_reads_def
proof (intro allI impI)
  fix buffer :: "'a list" and n assume len: "length buffer = prod_list sh"
  let ?t = "DimensionSpans ch" and ?P = "{a. a < prod_list sh \<and> box sh ! a \<in> mems_read [ch]}"
  show "\<exists>buffer'. read_chunk sz rd ch (buffer, n) = Inr (buffer', n + (if IsEmpty ch then 0 else ChunkElements ch * sz)) \<and>
      length buffer' = prod_list sh \<and>
      (\<forall>a < prod_list sh. buffer' ! a = (if a \<in> ?P then cell_at cell (disk_index sel sh (box sh ! a)) else buffer ! a))"
  proof (cases "IsEmpty ch")
    case True
    with len show ?thesis by (simp add: read_chunk_def mems_read_def)
  next
    case False
    have t: "tuple_ok sel sh ?t" using assms(1) by (simp add: fixed_chunk_def)
    obtain b where b: "read_chunk sz rd ch (buffer, n) = Inr (b, n + ChunkElements ch * sz)"
      and pl: "placed sh ?t (chunk_values cell ?t) buffer b"
      using read_chunk_placed [OF assms len False] by blast
    have mems: "mems_read [ch] = chunk_mems ?t" using False by (auto simp: mems_read_def)
    have "b ! a = (if a \<in> ?P then cell_at cell (disk_index sel sh (box sh ! a)) else buffer ! a)" if a: "a < prod_list sh" for a
    proof (cases "box sh ! a \<in> chunk_mems ?t")
      case True
      then obtain p where p: "in_box (mem_sizes ?t) p" "box sh ! a = mem_index ?t p" by (auto simp: chunk_mems_def)
      then have "a = lin sh (mem_index ?t p)" using lin_box_nth [OF a] by simp
      with p pl True a show ?thesis by (simp add: placed_def mems chunk_values_nth [OF t p(1)])
    next
      case False
      with a pl len show ?thesis by (simp add: placed_def mems)
    qed
    with b pl len False show ?thesis by (auto simp: placed_def)
  qed
qed

subsection \<open>The partition reads what the selection asks for\<close>

lemma chunk_elements_box:
  assumes "tuple_ok sel sh (DimensionSpans ch)"
  shows "chunk_elements ch = map (\<lambda>p. (mem_index (DimensionSpans ch) p, disk_at (DimensionSpans ch) p))
    (box (mem_sizes (DimensionSpans ch)))"
proof -
  let ?t = "DimensionSpans ch"
  let ?z = "map (\<lambda>sp. zip (disk sp) (mem sp)) ?t"
  note len = tuple_ok_length [OF assms]
  have l: "length (mem (?t ! d)) = length (disk (?t ! d))" if "d < length ?t" for d
    using tuple_okD(1) [OF assms, of d] that len by simp
  have zl: "map length ?z = mem_sizes ?t" by (rule nth_equalityI) (simp_all add: l)
  have "(map snd (map2 (!) ?z p), map fst (map2 (!) ?z p)) = (mem_index ?t p, disk_at ?t p)"
    if "p \<in> set (box (mem_sizes ?t))" for p
  proof -
    have p: "length p = length ?t" "\<And>d. d < length ?t \<Longrightarrow> p ! d < length (mem (?t ! d))"
      using that by (auto simp: set_box in_box_conv)
    have "map snd (map2 (!) ?z p) = mem_index ?t p"
      by (rule nth_equalityI) (use p l in \<open>simp_all add: mem_index_def\<close>)
    moreover have "map fst (map2 (!) ?z p) = disk_at ?t p"
      by (rule nth_equalityI) (use p l in \<open>simp_all add: disk_at_def\<close>)
    ultimately show ?thesis by simp
  qed
  then show ?thesis unfolding chunk_elements_def cart_box zl by simp
qed

text \<open>An element is read exactly if no disk index of it is negative.\<close>

lemma element_read:
  assumes "fixed_chunk sel sh ch" and "sh \<noteq> []" and "in_box (mem_sizes (DimensionSpans ch)) p"
  shows "(\<forall>i \<in> set (disk_at (DimensionSpans ch) p). 0 \<le> i) \<longleftrightarrow> \<not> IsEmpty ch"
proof -
  let ?t = "DimensionSpans ch"
  have t: "tuple_ok sel sh ?t" using assms(1) by (simp add: fixed_chunk_def)
  note len = tuple_ok_length [OF t]
  have lp: "length p = length ?t" using assms(3) by (simp add: in_box_conv)
  have pd: "p ! d < length (disk (?t ! d))" if "d < length ?t" for d
  proof -
    have "p ! d < length (mem (?t ! d))" using assms(3) that by (simp add: in_box_conv)
    then show ?thesis using tuple_okD(1) [OF t, of d] that len by simp
  qed
  have at: "disk (?t ! d) ! (p ! d) \<in> set (disk_at ?t p)" if "d < length ?t" for d
  proof -
    have "d < length (disk_at ?t p)" "disk_at ?t p ! d = disk (?t ! d) ! (p ! d)"
      using that lp by (simp_all add: disk_at_def)
    then show ?thesis by (metis nth_mem)
  qed
  show ?thesis
  proof
    assume pos: "\<forall>i \<in> set (disk_at ?t p). 0 \<le> i"
    show "\<not> IsEmpty ch"
    proof
      assume "IsEmpty ch"
      then have "(\<exists>sp \<in> set ?t. \<exists>i \<in> set (disk sp). i < 0) \<or> ChunkElements ch = 0"
        by (simp add: IsEmpty_def list_ex_iff)
      then consider (neg) d i where "d < length ?t" "i \<in> set (disk (?t ! d))" "i < 0" | (none) "ChunkElements ch = 0"
        by (metis in_set_conv_nth)
      then show False
      proof cases
        case neg
        then have "d < length sh" using len by simp
        from tuple_okD(5) [OF t this] neg(2,3) have "\<forall>x \<in> set (disk (?t ! d)). x < 0"
          unfolding range_ok_def by (metis not_less)
        then have "disk (?t ! d) ! (p ! d) < 0" using pd [OF neg(1)] by simp
        with at [OF neg(1)] pos show False by force
      next
        case none
        have "length (chunk_elements ch) = ChunkElements ch"
          using t by (intro length_chunk_elements) (auto simp: tuple_ok_def in_set_conv_nth)
        then have "prod_list (mem_sizes ?t) = 0" using none by (simp add: chunk_elements_box [OF t])
        with lin_less [OF assms(3)] show False by simp
      qed
    qed
  next
    assume "\<not> IsEmpty ch"
    show "\<forall>i \<in> set (disk_at ?t p). 0 \<le> i"
    proof
      fix i assume "i \<in> set (disk_at ?t p)"
      then obtain d where d: "d < length ?t" "i = disk (?t ! d) ! (p ! d)"
        by (auto simp: disk_at_def in_set_conv_nth)
      then have "i \<in> set (disk (?t ! d))" using pd by simp
      moreover have "?t ! d \<in> set ?t" using d(1) by simp
      ultimately show "0 \<le> i"
        using readable_chunk [OF assms(1) \<open>\<not> IsEmpty ch\<close> assms(2)] by (auto simp: readable_def)
    qed
  qed
qed

lemma mems_read_chunks_of:
  assumes "chunks_of sel sh L chunks" and "sel_fits sel sh" and "sh \<noteq> []" and "in_box sh idx"
  shows "idx \<in> mems_read chunks \<longleftrightarrow> (\<forall>i \<in> set (disk_index sel sh idx). 0 \<le> i)"
proof
  assume "idx \<in> mems_read chunks"
  then obtain ch p where ch: "ch \<in> set chunks" "\<not> IsEmpty ch"
    and p: "in_box (mem_sizes (DimensionSpans ch)) p" "idx = mem_index (DimensionSpans ch) p"
    by (auto simp: mems_read_def chunk_mems_def)
  note fc = fixed_chunks [OF assms(1-3) ch(1)]
  then have t: "tuple_ok sel sh (DimensionSpans ch)" by (simp add: fixed_chunk_def)
  show "\<forall>i \<in> set (disk_index sel sh idx). 0 \<le> i"
    using element_read [OF fc assms(3) p(1)] ch(2) tuple_positions(2) [OF t p(1)] p(2) by simp
next
  assume pos: "\<forall>i \<in> set (disk_index sel sh idx). 0 \<le> i"
  have "set (concat (map chunk_elements chunks)) = set (map (\<lambda>idx. (idx, disk_index sel sh idx)) (box sh))"
    by (rule mset_eq_setD [OF chunks_of_elements [OF assms(1,2)]])
  moreover have "(idx, disk_index sel sh idx) \<in> set (map (\<lambda>idx. (idx, disk_index sel sh idx)) (box sh))"
    using assms(4) by (auto simp: set_box)
  ultimately have "(idx, disk_index sel sh idx) \<in> set (concat (map chunk_elements chunks))" by (simp only:)
  then obtain ch where ch: "ch \<in> set chunks" "(idx, disk_index sel sh idx) \<in> set (chunk_elements ch)"
    by (auto simp: image_iff)
  note fc = fixed_chunks [OF assms(1-3) ch(1)]
  then have t: "tuple_ok sel sh (DimensionSpans ch)" by (simp add: fixed_chunk_def)
  from ch(2) obtain p where p: "in_box (mem_sizes (DimensionSpans ch)) p" "idx = mem_index (DimensionSpans ch) p"
    "disk_index sel sh idx = disk_at (DimensionSpans ch) p"
    unfolding chunk_elements_box [OF t] by (auto simp: set_box)
  have "\<not> IsEmpty ch" using element_read [OF fc assms(3) p(1)] pos p(3) by simp
  with ch(1) p(1,2) show "idx \<in> mems_read chunks" by (auto simp: mems_read_def chunk_mems_def)
qed

text \<open>The number of elements read.\<close>

lemma elements_read_count:
  assumes "chunks_of sel sh L chunks" and "sel_fits sel sh" and "sh \<noteq> []"
  shows "sum_list (map ChunkElements (filter (\<lambda>ch. \<not> IsEmpty ch) chunks)) =
    length (filter (\<lambda>idx. \<forall>i \<in> set (disk_index sel sh idx). 0 \<le> i) (box sh))"
proof -
  let ?P = "\<lambda>(m, d). \<forall>i \<in> set d. 0 \<le> (i :: int)"
  have each: "filter ?P (chunk_elements ch) = (if IsEmpty ch then [] else chunk_elements ch)
      \<and> length (chunk_elements ch) = ChunkElements ch" if "ch \<in> set chunks" for ch
  proof -
    note fc = fixed_chunks [OF assms that]
    then have t: "tuple_ok sel sh (DimensionSpans ch)" by (simp add: fixed_chunk_def)
    have "?P e \<longleftrightarrow> \<not> IsEmpty ch" if "e \<in> set (chunk_elements ch)" for e
      using that element_read [OF fc assms(3)] by (auto simp: chunk_elements_box [OF t] set_box)
    then have "filter ?P (chunk_elements ch) = (if IsEmpty ch then [] else chunk_elements ch)"
      by (auto simp: filter_empty_conv filter_id_conv)
    moreover have "length (chunk_elements ch) = ChunkElements ch"
      using t by (intro length_chunk_elements) (auto simp: tuple_ok_def in_set_conv_nth)
    ultimately show ?thesis by simp
  qed
  have "sum_list (map ChunkElements (filter (\<lambda>ch. \<not> IsEmpty ch) chunks)) =
      length (filter ?P (concat (map chunk_elements chunks)))"
    using each by (induction chunks) auto
  also have "mset (filter ?P (concat (map chunk_elements chunks))) =
      mset (filter ?P (map (\<lambda>idx. (idx, disk_index sel sh idx)) (box sh)))"
    unfolding mset_filter chunks_of_elements [OF assms(1,2)] ..
  then have "length (filter ?P (concat (map chunk_elements chunks))) =
      length (filter ?P (map (\<lambda>idx. (idx, disk_index sel sh idx)) (box sh)))"
    by (rule mset_eq_length)
  finally show ?thesis by (simp add: filter_map comp_def)
qed

text \<open>
  What it is for a list of chunks to read a partition: each sets some places of the buffer, and
  together they set those in \<open>P\<close> to the values \<open>f\<close> made of the cells.
\<close>

definition partition_reads ::
  "nat \<Rightarrow> (int \<Rightarrow> int list \<Rightarrow> 'a) \<Rightarrow> (nat \<Rightarrow> 'a) \<Rightarrow> nat set \<Rightarrow> DataChunk list \<Rightarrow> bool" where
  "partition_reads N cell f P chunks \<longleftrightarrow>
     (\<exists>places. (\<forall>rd sz. reads_cells rd cell \<longrightarrow> (\<forall>ch \<in> set chunks. chunk_reads N sz rd f (places ch) ch)) \<and>
        (\<forall>a < N. a \<in> (\<Union>ch \<in> set chunks. places ch) \<longleftrightarrow> a \<in> P))"

text \<open>The sum of the elements that the chunks read.\<close>

definition elements_in :: "DataChunk list \<Rightarrow> nat" where
  "elements_in chunks = sum_list (map ChunkElements (filter (\<lambda>ch. \<not> IsEmpty ch) chunks))"

lemma elements_in_mset: "mset chs = mset chunks \<Longrightarrow> elements_in chs = elements_in chunks"
proof -
  assume "mset chs = mset chunks"
  then have "mset (map ChunkElements (filter (\<lambda>ch. \<not> IsEmpty ch) chs)) =
      mset (map ChunkElements (filter (\<lambda>ch. \<not> IsEmpty ch) chunks))" by simp
  then show ?thesis unfolding elements_in_def by (metis sum_mset_sum_list)
qed

lemma partition_reads_loop:
  assumes "partition_reads N cell f P chunks" and "reads_cells rd cell" and "set chs = set chunks" and "length buffer = N"
  shows "chunk_loop (read_chunk sz rd) (map Some chs) (buffer, n) = Inr (patched f P buffer, n + sz * elements_in chs)"
proof -
  from assms(1,2) obtain places where "\<forall>ch \<in> set chunks. chunk_reads N sz rd f (places ch) ch"
    and P: "\<forall>a < N. a \<in> (\<Union>ch \<in> set chunks. places ch) \<longleftrightarrow> a \<in> P" unfolding partition_reads_def by blast
  then have "\<forall>ch \<in> set chs. chunk_reads N sz rd f (places ch) ch" using assms(3) by simp
  from chunk_loop_reads [OF this assms(4)] show ?thesis
    using patched_cong [of buffer "\<Union>ch \<in> set chunks. places ch" P f] P assms(3,4) by (simp add: elements_in_def)
qed

lemma chunks_of_reads:
  assumes "chunks_of sel sh L chunks" and "sel_fits sel sh" and "sh \<noteq> []"
  shows "partition_reads (prod_list sh) cell (\<lambda>a. cell_at cell (disk_index sel sh (box sh ! a)))
    {a. \<forall>i \<in> set (disk_index sel sh (box sh ! a)). 0 \<le> i} chunks"
  unfolding partition_reads_def
proof (intro exI [of _ "\<lambda>ch. {a. a < prod_list sh \<and> box sh ! a \<in> mems_read [ch]}"] conjI allI impI ballI)
  show "chunk_reads (prod_list sh) sz rd (\<lambda>a. cell_at cell (disk_index sel sh (box sh ! a)))
      {a. a < prod_list sh \<and> box sh ! a \<in> mems_read [ch]} ch" if "reads_cells rd cell" "ch \<in> set chunks" for rd sz ch
    by (rule fixed_chunk_reads [OF fixed_chunks [OF assms that(2)] that(1) assms(3)])
  fix a assume a: "a < prod_list sh"
  have "a \<in> (\<Union>ch \<in> set chunks. {a. a < prod_list sh \<and> box sh ! a \<in> mems_read [ch]}) \<longleftrightarrow> box sh ! a \<in> mems_read chunks"
    using a by (auto simp: mems_read_def)
  then show "a \<in> (\<Union>ch \<in> set chunks. {a. a < prod_list sh \<and> box sh ! a \<in> mems_read [ch]}) \<longleftrightarrow>
      a \<in> {a. \<forall>i \<in> set (disk_index sel sh (box sh ! a)). 0 \<le> i}"
    using mems_read_chunks_of [OF assms box_nth_in_box [OF a]] by simp
qed

end
