(* ===== verification/ReadShapes.thy ===== *)
theory ReadShapes
  imports ResultShape
begin

text \<open>
  What the shapes of reads promise: \<open>ResultShapeData::MakeRead\<close> derives the shape of a new result
  from the selected cells, and \<open>NegateMissingSelectedRows\<close> fits a selection to the shape of a result
  the caller supplies. The operations are defined in \<open>ResultShape\<close>.
\<close>

section \<open>Clipping a cell\<close>

text \<open>
  The cell of a selection: a selected dimension has the size of its span, whose indices lie
  within the cell, and any other dimension is taken whole.
\<close>

definition cell_fits :: "selection \<Rightarrow> shape \<Rightarrow> shape \<Rightarrow> bool" where
  "cell_fits sel cell out \<longleftrightarrow> length out = length cell \<and>
     (\<forall>dim < length cell.
        case MaybeFSpan sel dim (length cell + 1) of
          Some span \<Rightarrow> out ! dim = length span \<and> (\<forall>i \<in> set span. i < int (cell ! dim))
        | None \<Rightarrow> out ! dim = cell ! dim)"

lemma MaybeFSpan_Max: "MaybeFSpan sel dim n = Some span \<Longrightarrow> Max (set span) < b \<longleftrightarrow> (\<forall>i \<in> set span. i < b)"
  using MaybeFSpan_not_Nil by (subst Max_less_iff) auto

lemma cl_dims_Cache:
  "dim < n \<Longrightarrow> at (cl_dims (Cache sel n)) dim =
     Inr (map_option (\<lambda>span. (length span, Max (set span))) (MaybeFSpan sel dim (n + 1)))"
  by (simp add: Cache_def at_def map_option_case)

definition fits_from :: "selection \<Rightarrow> nat \<Rightarrow> shape \<Rightarrow> shape \<Rightarrow> bool" where
  "fits_from sel k cell out \<longleftrightarrow> length out = length cell \<and>
     (\<forall>dim < length cell.
        case MaybeFSpan sel dim (length cell + 1) of
          Some span \<Rightarrow> (if k \<le> dim then out ! dim = length span \<and> (\<forall>i \<in> set span. i < int (cell ! dim))
                        else out ! dim = cell ! dim)
        | None \<Rightarrow> out ! dim = cell ! dim)"

lemma fits_from_skip:
  "MaybeFSpan sel k (length cell + 1) = None \<Longrightarrow> fits_from sel (Suc k) cell out \<longleftrightarrow> fits_from sel k cell out"
proof -
  assume none: "MaybeFSpan sel k (length cell + 1) = None"
  have "(case MaybeFSpan sel dim (length cell + 1) of
          Some s \<Rightarrow> (if Suc k \<le> dim then out ! dim = length s \<and> (\<forall>i \<in> set s. i < int (cell ! dim))
                     else out ! dim = cell ! dim) | None \<Rightarrow> out ! dim = cell ! dim) \<longleftrightarrow>
        (case MaybeFSpan sel dim (length cell + 1) of
          Some s \<Rightarrow> (if k \<le> dim then out ! dim = length s \<and> (\<forall>i \<in> set s. i < int (cell ! dim))
                     else out ! dim = cell ! dim) | None \<Rightarrow> out ! dim = cell ! dim)" for dim
    using none by (cases "dim = k") (auto split: option.splits)
  then show ?thesis unfolding fits_from_def by (simp only:)
qed

lemma fits_from_clip:
  assumes "MaybeFSpan sel k (length cell + 1) = Some span" and "k < length cell"
    and "\<forall>i \<in> set span. i < int (cell ! k)"
  shows "fits_from sel (Suc k) (cell[k := length span]) out \<longleftrightarrow> fits_from sel k cell out"
proof -
  have "(case MaybeFSpan sel dim (length cell + 1) of
          Some s \<Rightarrow> (if Suc k \<le> dim then out ! dim = length s \<and> (\<forall>i \<in> set s. i < int (cell[k := length span] ! dim))
                        else out ! dim = cell[k := length span] ! dim)
        | None \<Rightarrow> out ! dim = cell[k := length span] ! dim) \<longleftrightarrow>
      (case MaybeFSpan sel dim (length cell + 1) of
          Some s \<Rightarrow> (if k \<le> dim then out ! dim = length s \<and> (\<forall>i \<in> set s. i < int (cell ! dim))
                        else out ! dim = cell ! dim)
        | None \<Rightarrow> out ! dim = cell ! dim)" for dim
    using assms by (cases "dim = k") (auto split: option.splits)
  then show ?thesis by (simp add: fits_from_def)
qed

lemma clip_dims_Inr:
  "k \<le> length cell \<Longrightarrow>
   clip_dims name (cl_dims (Cache sel (length cell))) [k..<length cell] cell = Inr out \<longleftrightarrow>
   fits_from sel k cell out"
proof (induction "length cell - k" arbitrary: k cell)
  case 0
  then have "fits_from sel k cell out \<longleftrightarrow> out = cell"
    by (auto simp: fits_from_def list_eq_iff_nth_eq split: option.splits)
  with 0 show ?case by auto
next
  case (Suc m)
  then have k: "k < length cell" by simp
  show ?case
  proof (cases "MaybeFSpan sel k (length cell + 1)")
    case None
    have "m = length cell - Suc k" using Suc.hyps(2) by simp
    with None k Suc.hyps(1) [of cell "Suc k"] show ?thesis
      by (simp add: upt_conv_Cons cl_dims_Cache fits_from_skip)
  next
    case (Some span)
    have m: "m = length (cell[k := length span]) - Suc k" using Suc.hyps(2) by simp
    show ?thesis
    proof (cases "\<forall>i \<in> set span. i < int (cell ! k)")
      case True
      then have "\<not> int (cell ! k) \<le> Max (set span)" using MaybeFSpan_Max [OF Some] by (simp add: not_le)
      with True Some k Suc.hyps(1) [OF m] show ?thesis
        by (simp add: upt_conv_Cons cl_dims_Cache fits_from_clip)
    next
      case False
      then have "int (cell ! k) \<le> Max (set span)"
        using MaybeFSpan_Max [OF Some, of "int (cell ! k)"] by linarith
      moreover have "\<not> fits_from sel k cell out"
      proof
        assume "fits_from sel k cell out"
        with k Some False show False by (auto simp: fits_from_def dest: spec [of _ k])
      qed
      ultimately show ?thesis using Some k by (simp add: upt_conv_Cons cl_dims_Cache)
    qed
  qed
qed

lemma fits_from_0: "fits_from sel 0 cell out \<longleftrightarrow> cell_fits sel cell out"
  by (simp add: fits_from_def cell_fits_def cong: option.case_cong)

lemma clipped_cell_Inr: "clipped_cell col sel cell = Inr out \<longleftrightarrow> cell_fits sel cell out"
  using clip_dims_Inr [of 0 cell "tc_name col" sel out] by (simp add: clipped_cell_def fits_from_0)

lemma Clip_new:
  assumes "length cell < 2 ^ 64 - 1" and "Clip col sel new_clipper cell = Inr (out, cl)"
  shows "cell_fits sel cell out"
  using Clip_cached [OF new_clipper_ok [of sel] assms(1), of col] assms(2) by (simp add: clipped_cell_Inr)

section \<open>New results\<close>

lemma common_rank_agrees:
  assumes "common_rank shs n = m" and "m \<noteq> -1"
  shows "(n \<noteq> -1 \<longrightarrow> n = m) \<and> (\<forall>sh \<in> set shs. sh \<noteq> [] \<longrightarrow> int (length sh) + 1 = m)"
  using assms
proof (induction shs arbitrary: n)
  case (Cons sh shs)
  show ?case
  proof (cases "sh = []")
    case True
    with Cons.IH [of n] Cons.prems show ?thesis by (simp add: IsDegenerateShape_def)
  next
    case False
    with Cons.prems have "n = -1 \<or> n = int (length sh) + 1" and "common_rank shs (int (length sh) + 1) = m"
      by (auto simp: IsDegenerateShape_def split: if_splits)
    with Cons.IH [of "int (length sh) + 1"] Cons.prems(2) show ?thesis by auto
  qed
qed simp

text \<open>What the shape \<open>sh\<close> of the result row holding table row \<open>r\<close> says of the table.\<close>

definition reads_row :: "table_column \<Rightarrow> selection \<Rightarrow> bool \<Rightarrow> index \<Rightarrow> shape \<Rightarrow> bool" where
  "reads_row col sel allow r sh \<longleftrightarrow> r < int (tc_nrow col) \<and>
     (if 0 \<le> r \<and> tc_defined col (nat r) then cell_fits sel (tc_cell col (nat r)) sh
      else allow \<and> sh = [])"

lemma row_shape_of_Inr:
  "int (tc_nrow col) \<le> 2 ^ 63 - 1 \<Longrightarrow> row_shape_of col sel allow r = Inr sh \<longleftrightarrow> reads_row col sel allow r sh"
  by (auto simp: row_shape_of_def reads_row_def clipped_cell_Inr wrap_int64_id)

lemma row_summary_Some: "row_summary shs = (Some s, x) \<Longrightarrow> s \<noteq> [] \<and> shs \<noteq> [] \<and> (\<forall>t \<in> set shs. t = s)"
  by (auto simp: row_summary_def split: if_splits)

lemma row_summary_None: "row_summary shs = (None, x) \<Longrightarrow> x = shs"
  by (auto simp: row_summary_def split: if_splits)

lemma MakeRead_cells:
  assumes "MakeRead col sel allow = Inr d" and "ranks_ok col" and "length (tc_shape col) < 2 ^ 64 - 1"
  shows "tc_nrow col < 2 ^ 63 \<and> rs_dtype d = tc_dtype col \<and> rs_cell_extents d = None \<and>
    (case rs_shape d of
       Some sh \<Rightarrow> sh \<noteq> [] \<and> rs_ndim d = int (length sh) \<and> last sh = length (selected_rows col sel) \<and>
         (if tc_fixed col then cell_fits sel (tc_shape col) (butlast sh)
          else \<forall>r \<in> set (selected_rows col sel).
                 0 \<le> r \<and> tc_defined col (nat r) \<and> reads_row col sel allow r (butlast sh))
     | None \<Rightarrow> \<not> tc_fixed col \<and> (\<exists>shs. rs_row_shapes d = Some shs \<and>
         list_all2 (reads_row col sel allow) (selected_rows col sel) shs \<and>
         ((\<forall>sh \<in> set shs. sh \<noteq> [] \<longrightarrow> rs_ndim d = int (length sh) + 1) \<or>
          rs_ndim d = (if 0 \<le> tc_ndim col then tc_ndim col + 1 else tc_ndim col))))"
proof -
  have n: "int (tc_nrow col) \<le> 2 ^ 63 - 1"
    using assms(1) by (auto simp: MakeRead_def rbind_Inr_conv CheckRowNumberLimit_def require_Inr_conv)
  have sel: "(if HasRowSpan sel then length (GetRowSpan sel) else tc_nrow col) = length (selected_rows col sel)"
    by (simp add: selected_rows_def)
  note make = assms(1) [unfolded MakeRead_def sel Let_def CheckRowNumberLimit_def, simplified n require_True rbind.simps]
  show ?thesis
  proof (cases "tc_fixed col")
    case True
    with make obtain cell cl where "Clip col sel new_clipper (tc_shape col) = Inr (cell, cl)"
      and d: "d = \<lparr>rs_name = tc_name col, rs_shape = Some (cell @ [length (selected_rows col sel)]),
         rs_ndim = int (length cell) + 1, rs_dtype = tc_dtype col, rs_row_shapes = None, rs_cell_extents = None\<rparr>"
      by (auto simp: rbind_Inr_conv)
    then show ?thesis using True n Clip_new [OF assms(3)] by simp
  next
    case False
    with make obtain rd where rd: "MakeRowData col sel allow = Inr rd" and ok: "\<not> (\<not> allow \<and> 0 < missing_rows rd)"
      by (auto simp: rbind_Inr_conv split: if_splits)
    from MakeRowData_row_by_row_lemma [OF assms(2), of sel allow] rd
    obtain shs where shs: "rmapM (row_shape_of col sel allow) (selected_rows col sel) = Inr shs"
      and sum: "(common_shape rd, shapes rd) = row_summary shs"
      unfolding row_inv_def by (cases "rmapM (row_shape_of col sel allow) (selected_rows col sel)") auto
    have rows: "list_all2 (reads_row col sel allow) (selected_rows col sel) shs"
      using shs unfolding rmapM_Inr_conv row_shape_of_Inr [OF n] .
    show ?thesis
    proof (cases "common_shape rd")
      case None
      then have "shapes rd = shs" using sum row_summary_None [of shs] by simp
      with make False rd ok None have
        d: "d = \<lparr>rs_name = tc_name col, rs_shape = None,
              rs_ndim = (if common_rank shs (-1) = -1 then (if 0 \<le> tc_ndim col then tc_ndim col + 1 else tc_ndim col)
                         else common_rank shs (-1)),
              rs_dtype = tc_dtype col, rs_row_shapes = Some shs, rs_cell_extents = None\<rparr>"
        by (auto split: if_splits)
      show ?thesis
        using False n rows common_rank_agrees [of shs "-1" "common_rank shs (-1)"] by (cases "common_rank shs (-1) = -1") (simp_all add: d)
    next
      case (Some s)
      then have s: "s \<noteq> []" "\<forall>t \<in> set shs. t = s" using sum row_summary_Some [of shs s "shapes rd"] by auto
      have "0 \<le> r \<and> tc_defined col (nat r) \<and> reads_row col sel allow r s"
        if "r \<in> set (selected_rows col sel)" for r
      proof -
        from rows that obtain t where "t \<in> set shs" and t: "reads_row col sel allow r t"
          by (metis in_set_conv_nth list_all2_conv_all_nth)
        then have "t = s" using s by blast
        with t s(1) show ?thesis by (auto simp: reads_row_def split: if_splits)
      qed
      with make False rd ok Some n show ?thesis by auto
    qed
  qed
qed

text \<open>
  The selection takes indices within the cell only. Whether a read can be given a shape, from the
  number of rows, the cells of the selected rows and the selection alone; a cell without dimensions
  counts as a missing row. The rows of a fixed column are not looked at.
\<close>

definition within_cell :: "selection \<Rightarrow> shape \<Rightarrow> bool" where
  "within_cell sel cell \<longleftrightarrow>
     (\<forall>dim < length cell. \<forall>span. MaybeFSpan sel dim (length cell + 1) = Some span \<longrightarrow> (\<forall>i \<in> set span. i < int (cell ! dim)))"

lemma within_cell_fits: "(\<exists>out. cell_fits sel cell out) \<longleftrightarrow> within_cell sel cell"
proof
  assume "\<exists>out. cell_fits sel cell out"
  then show "within_cell sel cell" by (fastforce simp: cell_fits_def within_cell_def)
next
  assume "within_cell sel cell"
  then have "cell_fits sel cell (map (\<lambda>dim. case MaybeFSpan sel dim (length cell + 1) of
      Some span \<Rightarrow> length span | None \<Rightarrow> cell ! dim) [0..<length cell])"
    by (auto simp: cell_fits_def within_cell_def split: option.split)
  then show "\<exists>out. cell_fits sel cell out" ..
qed

lemma Clip_fails: "length cell < 2 ^ 64 - 1 \<Longrightarrow> (\<exists>x. Clip col sel new_clipper cell = Inr x) \<longleftrightarrow> within_cell sel cell"
  using Clip_cached [OF new_clipper_ok [of sel], of cell col]
  unfolding within_cell_fits [symmetric] clipped_cell_Inr [where col = col, symmetric]
  by (cases "Clip col sel new_clipper cell") (auto split: prod.splits)

text \<open>The rows of a column that varies have shapes, none of them empty unless rows may be missing.\<close>

definition row_readable :: "table_column \<Rightarrow> selection \<Rightarrow> bool \<Rightarrow> index \<Rightarrow> bool" where
  "row_readable col sel allow r \<longleftrightarrow> r < int (tc_nrow col) \<and>
     (if 0 \<le> r \<and> tc_defined col (nat r)
      then within_cell sel (tc_cell col (nat r)) \<and> (allow \<or> tc_cell col (nat r) \<noteq> [])
      else allow)"

lemma row_readable_reads: "row_readable col sel allow r \<longleftrightarrow> (\<exists>sh. reads_row col sel allow r sh \<and> (allow \<or> sh \<noteq> []))"
proof -
  have "cell_fits sel cell sh \<Longrightarrow> sh = [] \<longleftrightarrow> cell = []" for cell sh by (auto simp: cell_fits_def)
  then show ?thesis
    unfolding row_readable_def reads_row_def within_cell_fits [symmetric] by (auto split: if_splits)
qed

lemma rows_readable:
  assumes "int (tc_nrow col) \<le> 2 ^ 63 - 1"
  shows "(\<exists>shs. rmapM (row_shape_of col sel allow) rows = Inr shs \<and> (allow \<or> [] \<notin> set shs)) \<longleftrightarrow>
    (\<forall>r \<in> set rows. row_readable col sel allow r)"
proof -
  have "(\<exists>shs. list_all2 (reads_row col sel allow) rows shs \<and> (allow \<or> [] \<notin> set shs)) \<longleftrightarrow>
      (\<forall>r \<in> set rows. row_readable col sel allow r)"
  proof (induction rows)
    case (Cons r rows)
    have "(\<exists>shs. list_all2 (reads_row col sel allow) (r # rows) shs \<and> (allow \<or> [] \<notin> set shs)) \<longleftrightarrow>
        (\<exists>sh. reads_row col sel allow r sh \<and> (allow \<or> sh \<noteq> [])) \<and>
        (\<exists>shs. list_all2 (reads_row col sel allow) rows shs \<and> (allow \<or> [] \<notin> set shs))"
      by (auto simp: list_all2_Cons1) (metis list.set_intros list_all2_Cons set_ConsD)+
    with Cons show ?case by (simp add: row_readable_reads)
  qed simp
  then show ?thesis by (simp add: rmapM_Inr_conv row_shape_of_Inr [OF assms])
qed

lemma MakeRead_succeeds:
  assumes "ranks_ok col" and "length (tc_shape col) < 2 ^ 64 - 1"
  shows "(\<exists>d. MakeRead col sel allow = Inr d) \<longleftrightarrow> int (tc_nrow col) < 2 ^ 63 \<and>
    (if tc_fixed col then within_cell sel (tc_shape col)
     else \<forall>r \<in> set (selected_rows col sel). row_readable col sel allow r)"
proof (cases "int (tc_nrow col) \<le> 2 ^ 63 - 1")
  case False
  then show ?thesis by (simp add: MakeRead_def CheckRowNumberLimit_def require_def)
next
  case n: True
  note make = MakeRead_def [of col sel allow] CheckRowNumberLimit_def Let_def
  show ?thesis
  proof (cases "tc_fixed col")
    case True
    then show ?thesis
      using n Clip_fails [OF assms(2), of col sel] by (auto simp: make rbind_Inr_conv split: prod.splits)
  next
    case False
    then have "(\<exists>d. MakeRead col sel allow = Inr d) \<longleftrightarrow>
        (\<exists>rd. MakeRowData col sel allow = Inr rd \<and> (allow \<or> missing_rows rd = 0))"
      using n by (cases "MakeRowData col sel allow") (auto simp: make split: option.splits)
    also have "\<dots> \<longleftrightarrow> (\<exists>shs. rmapM (row_shape_of col sel allow) (selected_rows col sel) = Inr shs \<and> (allow \<or> [] \<notin> set shs))"
      using MakeRowData_row_by_row_lemma [OF assms(1), of sel allow]
      by (auto simp: row_inv_def split: sum.splits)
    finally show ?thesis using False n rows_readable [OF n] by simp
  qed
qed

text \<open>
  C27. A new result has a shape exactly if the table has one for it, and the shape agrees with the
  table. \<open>MakeRead\<close> succeeds if and only if the row numbers fit 63 bits and, for a column of fixed
  shape, the selected indices lie within its cells; for any other column, every selected row exists,
  its cell holds the selected indices and has a dimension, or missing rows are allowed. (For a
  column of fixed shape the rows are not looked at.) A fixed result then has as many rows as are
  selected, and each of its cells is the cell of the selection: the size of the span in a selected
  dimension, whose indices lie within the cell of that very row, and the whole cell in the others. A
  result that varies has such a shape for each row, empty for missing rows, and its rank is that of
  its rows, or the one the column declares.
\<close>

theorem MakeRead_shape:
  assumes "ranks_ok col" and "length (tc_shape col) < 2 ^ 64 - 1"
  shows "((\<exists>d. MakeRead col sel allow = Inr d) \<longleftrightarrow> int (tc_nrow col) < 2 ^ 63 \<and>
      (if tc_fixed col then within_cell sel (tc_shape col)
       else \<forall>r \<in> set (selected_rows col sel). r < int (tc_nrow col) \<and>
         (if 0 \<le> r \<and> tc_defined col (nat r)
          then within_cell sel (tc_cell col (nat r)) \<and> (allow \<or> tc_cell col (nat r) \<noteq> []) else allow))) \<and>
    (\<forall>d. MakeRead col sel allow = Inr d \<longrightarrow> rs_dtype d = tc_dtype col \<and> rs_cell_extents d = None \<and>
      (case rs_shape d of
         Some sh \<Rightarrow> sh \<noteq> [] \<and> rs_ndim d = int (length sh) \<and> last sh = length (selected_rows col sel) \<and>
           (if tc_fixed col then cell_fits sel (tc_shape col) (butlast sh)
            else \<forall>r \<in> set (selected_rows col sel).
                   0 \<le> r \<and> tc_defined col (nat r) \<and> reads_row col sel allow r (butlast sh))
       | None \<Rightarrow> \<not> tc_fixed col \<and> (\<exists>shs. rs_row_shapes d = Some shs \<and>
           list_all2 (reads_row col sel allow) (selected_rows col sel) shs \<and>
           ((\<forall>sh \<in> set shs. sh \<noteq> [] \<longrightarrow> rs_ndim d = int (length sh) + 1) \<or>
            rs_ndim d = (if 0 \<le> tc_ndim col then tc_ndim col + 1 else tc_ndim col)))))"
  using MakeRead_succeeds [OF assms, of sel allow] MakeRead_cells [OF _ assms, of sel allow]
  by (simp only: row_readable_def) blast

definition example_sel :: selection where
  "example_sel = FromInit IndexElem [[2, 0], [1], [0, 2, 0]]"

theorem MakeRead_shape_witness:
  "\<exists>d. MakeRead example_column example_sel False = Inr d \<and> rs_shape d = Some [3, 1, 2] \<and>
     (\<forall>r \<in> set (selected_rows example_column example_sel). reads_row example_column example_sel False r [3, 1]) \<and>
     \<not> (\<exists>d. MakeRead example_column (FromInit IndexElem [[0], [2]]) False = Inr d)"
proof -
  let ?d = "\<lparr>rs_name = ''VAR_DATA'', rs_shape = Some [3, 1, 2], rs_ndim = 3, rs_dtype = TpComplex,
     rs_row_shapes = None, rs_cell_extents = None\<rparr>"
  have make: "MakeRead example_column example_sel False = Inr ?d" by code_simp
  have "ranks_ok example_column" "length (tc_shape example_column) < 2 ^ 64 - 1"
    by (simp_all add: ranks_ok_def example_column_def)
  note shape = MakeRead_shape [OF this]
  have "MaybeFSpan (FromInit IndexElem [[0], [2]]) 1 3 = Some [2]" "selected_rows example_column (FromInit IndexElem [[0], [2]]) = [0]"
    by code_simp+
  then have "\<not> (\<exists>d. MakeRead example_column (FromInit IndexElem [[0], [2]]) False = Inr d)"
    using conjunct1 [OF shape [of "FromInit IndexElem [[0], [2]]" False]]
    by (auto simp: example_column_def within_cell_def numeral_3_eq_3 dest!: spec [of _ 1])
  with conjunct2 [OF shape [of example_sel False]] make show ?thesis by (simp add: example_column_def)
qed

section \<open>Supplied results\<close>

lemma ValidateDim_Inr:
  "ValidateDim col cell res sel dim = Inr () \<longleftrightarrow>
     (\<forall>span. MaybeFSpan sel dim (length cell + 1) = Some span \<longrightarrow>
        length span = res ! dim \<and> (\<forall>i \<in> set span. i < int (cell ! dim)))"
  by (cases "MaybeFSpan sel dim (length cell + 1)")
    (simp_all add: ValidateDim_def rbind_Inr_conv require_Inr_conv rfor_Inr_conv)

lemma ValidateCellShape_Inr:
  "ValidateCellShape col cell res sel = Inr u \<longleftrightarrow> length res = length cell \<and>
     (\<forall>dim < length cell. \<forall>span. MaybeFSpan sel dim (length cell + 1) = Some span \<longrightarrow>
        length span = res ! dim \<and> (\<forall>i \<in> set span. i < int (cell ! dim)))"
  by (auto simp: ValidateCellShape_def rbind_Inr_conv require_Inr_conv rfor_Inr_conv ValidateDim_Inr)

lemma length_CellExtent [simp]: "length (CellExtent cell res sel) = length res"
  by (simp add: CellExtent_def)

lemma CellExtent_nth:
  "dim < length res \<Longrightarrow> CellExtent cell res sel ! dim =
     (if MaybeFSpan sel dim (length res + 1) = None then min (cell ! dim) (res ! dim) else res ! dim)"
  by (simp add: CellExtent_def)

lemma length_padded_ids [simp]: "extent \<le> n \<Longrightarrow> length (padded_ids n extent) = n"
  by (simp add: padded_ids_def)

lemma padded_ids_full [simp]: "padded_ids n n = map int [0..<n]"
  by (simp add: padded_ids_def)

lemma padded_ids_less: "i \<in> set (padded_ids n extent) \<Longrightarrow> i < int extent \<or> i = -1"
  by (auto simp: padded_ids_def)

subsection \<open>The rebuilt selection\<close>

definition rebuilt_span :: "selection \<Rightarrow> shape \<Rightarrow> shape \<Rightarrow> nat \<Rightarrow> index list" where
  "rebuilt_span sel res extent dim =
     (case MaybeFSpan sel dim (length res + 1) of
        Some span \<Rightarrow> span
      | None \<Rightarrow> if extent ! dim < res ! dim then padded_ids (res ! dim) (extent ! dim) else [])"

lemma rebuild_dims:
  "b_spans (fold (rebuild_dim sel res extent) dims b) = b_spans b @ map (rebuilt_span sel res extent) dims \<and>
   b_order (fold (rebuild_dim sel res extent) dims b) = b_order b"
  by (induction dims arbitrary: b)
    (auto simp: rebuild_dim_def AddMoved_def AddEmpty_def to_index_def rebuilt_span_def split: option.splits)

lemma spans_RebuildSelection:
  "spans (RebuildSelection sel res extent rows) =
     map (rebuilt_span sel res extent) [0..<length res] @
     [case rows of Some ids \<Rightarrow> ids | None \<Rightarrow> if HasRowSpan sel then GetRowSpan sel else []]"
  using rebuild_dims [of sel res extent "[0..<length res]" "Order (CHR ''F'') new_builder"]
  by (auto simp: RebuildSelection_def Let_def Build_def AddMoved_def AddEmpty_def to_index_def Order_def
      new_builder_def split: option.splits)

lemma MaybeFSpan_Rebuild:
  assumes "dim < length res" and "length extent = length res" and "extent ! dim \<le> res ! dim"
  shows "MaybeFSpan (RebuildSelection sel res extent rows) dim (length res + 1) =
    (case MaybeFSpan sel dim (length res + 1) of
       Some span \<Rightarrow> Some span
     | None \<Rightarrow> if extent ! dim < res ! dim then Some (padded_ids (res ! dim) (extent ! dim)) else None)"
proof -
  have "padded_ids (res ! dim) (extent ! dim) \<noteq> []" if "extent ! dim < res ! dim"
    using that by (auto simp: padded_ids_def)
  with assms show ?thesis
    by (auto simp: MaybeFSpan_nat [of "RebuildSelection sel res extent rows"] Size_def spans_RebuildSelection
        nth_append rebuilt_span_def split: option.splits dest: MaybeFSpan_not_Nil)
qed

lemma selected_rows_Rebuild:
  "rows \<noteq> Some [] \<Longrightarrow> selected_rows col (RebuildSelection sel res extent rows) =
     (case rows of Some ids \<Rightarrow> ids | None \<Rightarrow> selected_rows col sel)"
  by (auto simp: selected_rows_def HasRowSpan_def GetRowSpan_def Size_def spans_RebuildSelection nth_append
      split: option.splits)

subsection \<open>The loop over the rows\<close>

definition row_is_read :: "table_column \<Rightarrow> index \<Rightarrow> bool" where
  "row_is_read col r \<longleftrightarrow> 0 \<le> r \<and> tc_defined col (nat r)"

definition negated :: "table_column \<Rightarrow> index \<Rightarrow> index" where
  "negated col r = (if 0 \<le> r \<and> \<not> tc_defined col (nat r) then -1 else r)"

definition row_extent :: "table_column \<Rightarrow> shape \<Rightarrow> selection \<Rightarrow> index \<Rightarrow> shape" where
  "row_extent col res sel r = CellExtent (tc_cell col (nat r)) res sel"

definition negate_inv ::
  "table_column \<Rightarrow> shape \<Rightarrow> selection \<Rightarrow> index list \<Rightarrow> index list \<Rightarrow> bool \<Rightarrow> shape option \<Rightarrow> shape list option \<Rightarrow> bool" where
  "negate_inv col res sel done acc modified common extents \<longleftrightarrow>
     acc = map (negated col) done \<and> (modified \<longleftrightarrow> acc \<noteq> done) \<and>
     (\<forall>r \<in> set done. r < wrap_int64 (int (tc_nrow col)) \<and>
        (row_is_read col r \<longrightarrow> ValidateCellShape col (tc_cell col (nat r)) res sel = Inr ())) \<and>
     (case extents of
        None \<Rightarrow> \<forall>r \<in> set done. row_is_read col r \<longrightarrow> common = Some (row_extent col res sel r)
      | Some es \<Rightarrow> length es = length done \<and> common \<noteq> None \<and>
          (\<forall>k < length done. row_is_read col (done ! k) \<longrightarrow> es ! k = row_extent col res sel (done ! k)))"

lemma negate_loop_inv:
  assumes "negate_inv col res sel pre acc modified common extents"
    and "negate_loop col res sel rows acc modified common extents = Inr (acc', modified', common', extents')"
  shows "negate_inv col res sel (pre @ rows) acc' modified' common' extents'"
  using assms
proof (induction rows arbitrary: pre acc modified common extents)
  case (Cons r rows)
  have below: "r < wrap_int64 (int (tc_nrow col))"
    using Cons.prems(2) by (auto split: if_splits)
  have len: "length acc = length pre" using Cons.prems(1) by (simp add: negate_inv_def)
  consider (read) "row_is_read col r" | (undefined) "0 \<le> r" "\<not> tc_defined col (nat r)" | (negative) "r < 0"
    using row_is_read_def not_less by blast
  then show ?case
  proof cases
    case read
    let ?e = "row_extent col res sel r"
    let ?common = "case common of None \<Rightarrow> Some ?e | Some c \<Rightarrow> common"
    let ?extents = "case common of None \<Rightarrow> extents
      | Some c \<Rightarrow> if extents = None \<and> ?e \<noteq> c then Some (replicate (length acc) c) else extents"
    let ?new = "map_option (\<lambda>es. es @ [?e]) ?extents"
    have valid: "ValidateCellShape col (tc_cell col (nat r)) res sel = Inr ()"
      and rest: "negate_loop col res sel rows (acc @ [r]) modified ?common ?new = Inr (acc', modified', common', extents')"
      using Cons.prems(2) read below
      by (auto simp: row_is_read_def row_extent_def rbind_Inr_conv Let_def split: option.splits)
    have neg: "negated col r = r" using read by (simp add: negated_def row_is_read_def)
    have "negate_inv col res sel (pre @ [r]) (acc @ [r]) modified ?common ?new"
    proof (cases common)
      case None
      with Cons.prems(1) neg valid below show ?thesis
        by (auto simp: negate_inv_def split: option.splits)
    next
      case (Some c)
      show ?thesis
      proof (cases extents)
        case None
        have "\<forall>k < length pre. row_is_read col (pre ! k) \<longrightarrow> c = row_extent col res sel (pre ! k)"
          using Cons.prems(1) Some None by (auto simp: negate_inv_def)
        with Cons.prems(1) neg valid below Some None len show ?thesis
          by (auto simp: negate_inv_def nth_append less_Suc_eq)
      next
        case (Some es)
        with Cons.prems(1) neg valid below \<open>common = Some c\<close> len show ?thesis
          by (auto simp: negate_inv_def nth_append less_Suc_eq)
      qed
    qed
    from Cons.IH [OF this rest] show ?thesis by simp
  next
    case undefined
    let ?new = "map_option (\<lambda>es. es @ [res]) extents"
    have rest: "negate_loop col res sel rows (acc @ [-1]) True common ?new = Inr (acc', modified', common', extents')"
      using Cons.prems(2) undefined below by (simp split: if_splits)
    have "negate_inv col res sel (pre @ [r]) (acc @ [-1]) True common ?new"
      using Cons.prems(1) undefined below
      by (auto simp: negate_inv_def negated_def row_is_read_def nth_append less_Suc_eq split: option.splits)
    from Cons.IH [OF this rest] show ?thesis by simp
  next
    case negative
    let ?new = "map_option (\<lambda>es. es @ [res]) extents"
    have rest: "negate_loop col res sel rows (acc @ [r]) modified common ?new = Inr (acc', modified', common', extents')"
      using Cons.prems(2) negative below by (simp split: if_splits)
    have "negate_inv col res sel (pre @ [r]) (acc @ [r]) modified common ?new"
      using Cons.prems(1) negative below
      by (auto simp: negate_inv_def negated_def row_is_read_def nth_append less_Suc_eq split: option.splits)
    from Cons.IH [OF this rest] show ?thesis by simp
  qed
qed simp

subsection \<open>What is read into the result\<close>

text \<open>
  The indices read into dimension \<open>dim\<close> of row \<open>i\<close> of a result whose cells have shape \<open>res\<close>, given
  the selection and the cell extents: \<open>-1\<close> stands for elements that are left untouched.
\<close>

definition row_dim_ids :: "selection \<Rightarrow> ResultShapeData \<Rightarrow> shape \<Rightarrow> nat \<Rightarrow> nat \<Rightarrow> index list" where
  "row_dim_ids sel d res i dim =
     (case MaybeFSpan sel dim (length res + 1) of
        Some span \<Rightarrow> span
      | None \<Rightarrow> (case rs_cell_extents d of
                   Some es \<Rightarrow> padded_ids (res ! dim) (es ! i ! dim)
                 | None \<Rightarrow> map int [0..<res ! dim]))"

text \<open>The indices that should be read from a cell of shape \<open>cell\<close>: what both have in common.\<close>

definition wanted_ids :: "selection \<Rightarrow> shape \<Rightarrow> shape \<Rightarrow> nat \<Rightarrow> index list" where
  "wanted_ids sel res cell dim =
     (case MaybeFSpan sel dim (length res + 1) of
        Some span \<Rightarrow> span
      | None \<Rightarrow> padded_ids (res ! dim) (min (cell ! dim) (res ! dim)))"

definition reads_wanted :: "selection \<Rightarrow> selection \<Rightarrow> ResultShapeData \<Rightarrow> shape \<Rightarrow> shape \<Rightarrow> nat \<Rightarrow> bool" where
  "reads_wanted sel sel' d' res cell i \<longleftrightarrow> length cell = length res \<and>
     (\<forall>dim < length res.
        row_dim_ids sel' d' res i dim = wanted_ids sel res cell dim \<and>
        length (row_dim_ids sel' d' res i dim) = res ! dim \<and>
        (\<forall>x \<in> set (row_dim_ids sel' d' res i dim). x < int (cell ! dim)))"

text \<open>How the spans of the new selection come about, whether it was rebuilt or returned as it is.\<close>

definition pads :: "selection \<Rightarrow> shape \<Rightarrow> shape \<Rightarrow> selection \<Rightarrow> bool" where
  "pads sel res extent sel' \<longleftrightarrow>
     (\<forall>dim < length res. MaybeFSpan sel' dim (length res + 1) =
        (case MaybeFSpan sel dim (length res + 1) of
           Some span \<Rightarrow> Some span
         | None \<Rightarrow> if extent ! dim < res ! dim then Some (padded_ids (res ! dim) (extent ! dim)) else None))"

lemma pads_same: "pads sel res res sel"
  by (simp add: pads_def split: option.splits)

lemma CellExtent_le: "dim < length res \<Longrightarrow> CellExtent cell res sel ! dim \<le> res ! dim"
  by (simp add: CellExtent_nth)

lemma pads_Rebuild:
  "length extent = length res \<Longrightarrow> \<forall>dim < length res. extent ! dim \<le> res ! dim \<Longrightarrow>
   pads sel res extent (RebuildSelection sel res extent rows)"
  unfolding pads_def using MaybeFSpan_Rebuild by blast

lemma wanted_ids_ok:
  assumes "ValidateCellShape col cell res sel = Inr ()" and "dim < length res"
  shows "length (wanted_ids sel res cell dim) = res ! dim"
    and "\<forall>x \<in> set (wanted_ids sel res cell dim). x < int (cell ! dim)"
  using assms
  by (auto simp: wanted_ids_def ValidateCellShape_Inr padded_ids_def split: option.splits)

lemma reads_wanted_common:
  assumes "ValidateCellShape col cell res sel = Inr ()" and "pads sel res (CellExtent cell res sel) sel'"
    and "rs_cell_extents d' = None"
  shows "reads_wanted sel sel' d' res cell i"
proof -
  have "row_dim_ids sel' d' res i dim = wanted_ids sel res cell dim" if "dim < length res" for dim
    using assms(2,3) that
    by (auto simp: row_dim_ids_def wanted_ids_def pads_def CellExtent_nth min_def split: option.splits)
  with wanted_ids_ok [OF assms(1)] assms(1) show ?thesis
    by (simp add: reads_wanted_def ValidateCellShape_Inr)
qed

lemma reads_wanted_extents:
  assumes "ValidateCellShape col cell res sel = Inr ()" and "pads sel res res sel'"
    and "rs_cell_extents d' = Some es" and "es ! i = CellExtent cell res sel"
  shows "reads_wanted sel sel' d' res cell i"
proof -
  have "row_dim_ids sel' d' res i dim = wanted_ids sel res cell dim" if "dim < length res" for dim
    using assms(2-4) that
    by (auto simp: row_dim_ids_def wanted_ids_def pads_def CellExtent_nth split: option.splits)
  with wanted_ids_ok [OF assms(1)] assms(1) show ?thesis
    by (simp add: reads_wanted_def ValidateCellShape_Inr)
qed

lemma NegateMissing_fixed:
  assumes "tc_fixed col" and "rs_shape d = Some sh"
    and "NegateMissingSelectedRows d col sel = Inr (sel', d')"
  shows "d' = d \<and> selected_rows col sel' = selected_rows col sel \<and>
    (rs_cell_extents d = None \<longrightarrow> reads_wanted sel sel' d' (butlast sh) (tc_shape col) i)"
proof -
  let ?res = "butlast sh"
  let ?e = "CellExtent (tc_shape col) ?res sel"
  have valid: "ValidateCellShape col (tc_shape col) ?res sel = Inr ()" and
    ret: "(if ?e = ?res then (sel, d) else (RebuildSelection sel ?res ?e None, d)) = (sel', d')"
    using assms by (auto simp: NegateMissingSelectedRows_def IsFixed_def GetShape_def rbind_Inr_conv
        Let_def split: if_splits)
  have "pads sel ?res ?e sel' \<and> selected_rows col sel' = selected_rows col sel"
  proof (cases "?e = ?res")
    case True
    with ret pads_same [of sel ?res] show ?thesis by simp
  next
    case False
    with ret show ?thesis using pads_Rebuild [of ?e ?res sel None] CellExtent_le
      by (auto simp: selected_rows_Rebuild)
  qed
  moreover have "d' = d" using ret by (auto split: if_splits)
  ultimately show ?thesis using reads_wanted_common [OF valid] by simp
qed

lemma NegateMissing_varying:
  assumes "\<not> tc_fixed col" and "rs_shape d = Some sh" and "rs_cell_extents d = None"
    and "NegateMissingSelectedRows d col sel = Inr (sel', d')"
  shows "rs_shape d' = rs_shape d" and "length (selected_rows col sel) = nRows d"
    and "selected_rows col sel' = map (negated col) (selected_rows col sel)"
    and "\<forall>r \<in> set (selected_rows col sel). r < wrap_int64 (int (tc_nrow col))"
    and "\<forall>i < length (selected_rows col sel). row_is_read col (selected_rows col sel ! i) \<longrightarrow>
      reads_wanted sel sel' d' (butlast sh) (tc_cell col (nat (selected_rows col sel ! i))) i"
proof -
  let ?res = "butlast sh" and ?rows = "selected_rows col sel"
  obtain rows modified common extents where
    loop: "negate_loop col ?res sel ?rows [] False None None = Inr (rows, modified, common, extents)"
    and n: "length ?rows = nRows d"
    and ret: "negate_return d sel ?res rows modified common extents = (sel', d')"
  proof -
    have "rbind (require (length ?rows = nRows d) e) (\<lambda>_.
        rbind (negate_loop col ?res sel ?rows [] False None None)
          (\<lambda>(rows, modified, common, extents). Inr (negate_return d sel ?res rows modified common extents))) =
        Inr (sel', d') \<Longrightarrow> thesis" for e
      using that by (auto simp: rbind_Inr_conv require_Inr_conv)
    then show thesis
      using assms(1,2,4) by (simp add: NegateMissingSelectedRows_def IsFixed_def GetShape_def Let_def)
  qed
  have "negate_inv col ?res sel [] [] False None None" by (simp add: negate_inv_def)
  from negate_loop_inv [OF this loop]
  have inv: "negate_inv col ?res sel ?rows rows modified common extents" by simp
  let ?common = "case extents of Some es \<Rightarrow> ?res | None \<Rightarrow> (case common of Some c \<Rightarrow> c | None \<Rightarrow> ?res)"
  let ?d = "case extents of Some es \<Rightarrow> d\<lparr>rs_cell_extents := Some es\<rparr> | None \<Rightarrow> d"
  show "length (selected_rows col sel) = nRows d" by (rule n)
  show "\<forall>r \<in> set ?rows. r < wrap_int64 (int (tc_nrow col))" using inv by (simp add: negate_inv_def)
  have d': "d' = ?d" using ret by (auto simp: negate_return_def Let_def split: if_splits)
  then show "rs_shape d' = rs_shape d" by (auto split: option.splits)
  have modified: "modified \<longleftrightarrow> map (negated col) ?rows \<noteq> ?rows" and rows: "rows = map (negated col) ?rows"
    using inv by (auto simp: negate_inv_def)
  show "selected_rows col sel' = map (negated col) ?rows"
  proof (cases modified)
    case True
    then have "rows \<noteq> []" using modified rows by auto
    with ret True show ?thesis using rows by (auto simp: negate_return_def Let_def selected_rows_Rebuild)
  next
    case False
    then have "map (negated col) ?rows = ?rows" using modified by simp
    with ret False show ?thesis by (auto simp: negate_return_def Let_def selected_rows_Rebuild split: if_splits)
  qed
  have pads: "pads sel ?res ?common sel'" if "length ?common = length ?res" "\<forall>dim < length ?res. ?common ! dim \<le> ?res ! dim"
  proof (cases "\<not> modified \<and> ?common = ?res")
    case True
    with ret have "sel' = sel" by (simp add: negate_return_def Let_def)
    with True pads_same show ?thesis by metis
  next
    case False
    with ret have "sel' = RebuildSelection sel ?res ?common (if modified then Some rows else None)"
      by (auto simp: negate_return_def Let_def split: if_splits)
    with pads_Rebuild [OF that] show ?thesis by simp
  qed
  show "\<forall>i < length ?rows. row_is_read col (?rows ! i) \<longrightarrow>
      reads_wanted sel sel' d' ?res (tc_cell col (nat (?rows ! i))) i"
  proof (intro allI impI)
    fix i assume i: "i < length ?rows" and r: "row_is_read col (?rows ! i)"
    let ?cell = "tc_cell col (nat (?rows ! i))"
    have valid: "ValidateCellShape col ?cell ?res sel = Inr ()" using inv i r by (simp add: negate_inv_def)
    show "reads_wanted sel sel' d' ?res ?cell i"
    proof (cases extents)
      case None
      then have "common = Some (CellExtent ?cell ?res sel)"
        using inv i r by (simp add: negate_inv_def row_extent_def)
      with None pads d' assms(3) show ?thesis
        by (intro reads_wanted_common [OF valid]) (simp_all add: CellExtent_le)
    next
      case (Some es)
      then have "es ! i = CellExtent ?cell ?res sel" using inv i r by (simp add: negate_inv_def row_extent_def)
      with Some pads d' show ?thesis
        by (intro reads_wanted_extents [OF valid]) simp_all
    qed
  qed
qed

text \<open>
  C28. Reads into a supplied result of shape \<open>sh\<close>. Whenever the selection is accepted, the selection
  and the cell extents that come back make every row that is read take exactly what cell and
  result have in common: the selected indices in a selected dimension, and otherwise the leading
  indices up to the smaller of both sizes, padded with \<open>-1\<close> to the size of the result; all of
  them lie within the cell of that very row. Rows that are not defined become \<open>-1\<close>, no other row
  changes, and neither does the shape of the result.
\<close>

theorem NegateMissing_reads:
  assumes "rs_shape d = Some sh" and "rs_cell_extents d = None" and "tc_nrow col < 2 ^ 63"
    and "NegateMissingSelectedRows d col sel = Inr (sel', d')"
  shows "rs_shape d' = Some sh \<and>
    selected_rows col sel' =
      (if tc_fixed col then selected_rows col sel else map (negated col) (selected_rows col sel)) \<and>
    (\<not> tc_fixed col \<longrightarrow> length (selected_rows col sel) = nRows d \<and>
       (\<forall>r \<in> set (selected_rows col sel). r < int (tc_nrow col))) \<and>
    (\<forall>i < length (selected_rows col sel'). 0 \<le> selected_rows col sel' ! i \<longrightarrow>
       reads_wanted sel sel' d' (butlast sh)
         (if tc_fixed col then tc_shape col else tc_cell col (nat (selected_rows col sel' ! i))) i)"
proof (cases "tc_fixed col")
  case True
  with NegateMissing_fixed [OF True assms(1,4)] assms(1,2) show ?thesis by auto
next
  case False
  note v = NegateMissing_varying [OF False assms(1,2,4)]
  have "wrap_int64 (int (tc_nrow col)) = int (tc_nrow col)" using assms(3) by (intro wrap_int64_id) simp_all
  moreover have "reads_wanted sel sel' d' (butlast sh) (tc_cell col (nat (selected_rows col sel' ! i))) i"
    if "i < length (selected_rows col sel')" "0 \<le> selected_rows col sel' ! i" for i
  proof -
    have i: "i < length (selected_rows col sel)" using that(1) v(3) by simp
    with that v(3) have "0 \<le> negated col (selected_rows col sel ! i)" by simp
    then have "row_is_read col (selected_rows col sel ! i)"
      and "selected_rows col sel' ! i = selected_rows col sel ! i"
      using i v(3) by (auto simp: negated_def row_is_read_def split: if_splits)
    with v(5) i show ?thesis by auto
  qed
  ultimately show ?thesis using False v(1-4) assms(1) by simp
qed

definition example_result :: ResultShapeData where
  "example_result = \<lparr>rs_name = ''VAR_DATA'', rs_shape = Some [4, 2, 3], rs_ndim = 3, rs_dtype = TpComplex,
     rs_row_shapes = None, rs_cell_extents = None\<rparr>"

theorem NegateMissing_reads_witness:
  "\<exists>sel' d'. NegateMissingSelectedRows example_result example_column (FromInit IndexElem [[0, 1, 3]]) = Inr (sel', d') \<and>
     selected_rows example_column sel' = [0, -1, 3] \<and>
     reads_wanted (FromInit IndexElem [[0, 1, 3]]) sel' d' [4, 2] [3, 2] 0"
proof -
  let ?sel = "FromInit IndexElem [[0, 1, 3]]"
  have "\<not> isl (NegateMissingSelectedRows example_result example_column ?sel)" by code_simp
  then obtain sel' d' where p: "NegateMissingSelectedRows example_result example_column ?sel = Inr (sel', d')"
    by (cases "NegateMissingSelectedRows example_result example_column ?sel") auto
  have rows: "map (negated example_column) (selected_rows example_column ?sel) = [0, -1, 3]" by code_simp
  have d: "rs_shape example_result = Some [4, 2, 3]" "rs_cell_extents example_result = None"
    "tc_nrow example_column < 2 ^ 63" and nf: "\<not> tc_fixed example_column"
    by (simp_all add: example_result_def example_column_def)
  note reads = NegateMissing_reads [OF d p]
  have sel': "selected_rows example_column sel' = [0, -1, 3]"
    using reads [THEN conjunct2, THEN conjunct1] nf rows by simp
  have "reads_wanted ?sel sel' d' (butlast [4, 2, 3]) (tc_cell example_column (nat 0)) 0"
    using reads [THEN conjunct2, THEN conjunct2, THEN conjunct2, THEN spec, of 0] nf sel' by simp
  with p sel' show ?thesis by (simp add: example_column_def)
qed

end
