(* ===== verification/ReadImpl.thy ===== *)
theory ReadImpl
  imports ColumnRead ReadShapes
begin

text \<open>
  Reads of a column from end to end: what \<open>ReadChunks\<close> leaves in the buffer of a partition, how
  \<open>GroupChunks\<close> of \<open>cpp/arcae/read_impl.cc\<close> spreads the chunks over tasks, and that it does not
  matter in which order the tasks run.
\<close>

section \<open>Grouping the chunks\<close>

fun group_loop :: "nat \<Rightarrow> nat \<Rightarrow> nat \<Rightarrow> nat \<Rightarrow> nat list \<Rightarrow> nat \<Rightarrow> nat list \<Rightarrow> nat list" where
  "group_loop nelements ngroups nch c [] cumulative ends = ends"
| "group_loop nelements ngroups nch c (e # es) cumulative ends =
     (let cumulative' = cumulative + e;
          target = nelements * (length ends + 1) div ngroups;
          remaining_groups = ngroups - length ends - 1
      in if length ends + 1 < ngroups \<and> (target \<le> cumulative' \<or> nch - c - 1 = remaining_groups)
         then group_loop nelements ngroups nch (c + 1) es cumulative' (ends @ [c + 1])
         else group_loop nelements ngroups nch (c + 1) es cumulative' ends)"

definition GroupChunks :: "DataChunk list \<Rightarrow> nat \<Rightarrow> nat list" where
  "GroupChunks chunks ngroups =
     (let elements = map ChunkElements chunks;
          ngroups = max 1 (min ngroups (length chunks))
      in group_loop (sum_list elements) ngroups (length chunks) 0 elements 0 [] @ [length chunks])"

text \<open>The chunks of group \<open>g\<close>: \<open>begin\<close> is the end of the group before it.\<close>

fun groups_from :: "DataChunk list \<Rightarrow> nat \<Rightarrow> nat list \<Rightarrow> DataChunk list list" where
  "groups_from chunks start [] = []"
| "groups_from chunks start (e # ends) = subspan start (e - start) chunks # groups_from chunks e ends"

definition chunk_groups :: "DataChunk list \<Rightarrow> nat \<Rightarrow> DataChunk list list" where
  "chunk_groups chunks ngroups = groups_from chunks 0 (GroupChunks chunks ngroups)"

text \<open>While chunks remain, at least one remains for every group that is still open.\<close>

definition group_inv :: "nat \<Rightarrow> nat \<Rightarrow> nat \<Rightarrow> nat list \<Rightarrow> nat list \<Rightarrow> bool" where
  "group_inv nch ngroups c es ends \<longleftrightarrow> c + length es = nch \<and> length ends < ngroups \<and>
     (if es = [] then ngroups = length ends + 1 else ngroups - length ends \<le> length es) \<and>
     sorted_wrt (<) ends \<and> (\<forall>e \<in> set ends. 0 < e \<and> e \<le> c \<and> e < nch)"

lemma group_inv_close:
  assumes "group_inv nch ngroups c (e # es) ends" and "length ends + 1 < ngroups"
  shows "group_inv nch ngroups (c + 1) es (ends @ [c + 1])"
proof -
  have "ngroups - length ends \<le> Suc (length es)" using assms(1) by (simp add: group_inv_def)
  with assms(2) have es: "es \<noteq> []" "ngroups - length (ends @ [c + 1]) \<le> length es" by auto
  have "sorted_wrt (<) (ends @ [c + 1])" using assms(1) by (auto simp: group_inv_def sorted_wrt_append)
  moreover have "c + 1 < nch" using assms(1) es(1) by (auto simp: group_inv_def)
  ultimately show ?thesis using assms es by (auto simp: group_inv_def)
qed

lemma group_inv_keep:
  assumes "group_inv nch ngroups c (e # es) ends"
    and "length ends + 1 < ngroups \<longrightarrow> nch - c - 1 \<noteq> ngroups - length ends - 1"
  shows "group_inv nch ngroups (c + 1) es ends"
proof -
  have i: "c + Suc (length es) = nch" "length ends < ngroups" "ngroups - length ends \<le> Suc (length es)"
    using assms(1) by (auto simp: group_inv_def)
  have "if es = [] then ngroups = length ends + 1 else ngroups - length ends \<le> length es"
  proof (cases "length ends + 1 < ngroups")
    case True
    with assms(2) i(1) have "length es \<noteq> ngroups - length ends - 1" by auto
    with True i(3) show ?thesis by auto
  next
    case False
    with i(2) show ?thesis by (cases es) auto
  qed
  with assms(1) show ?thesis by (auto simp: group_inv_def)
qed

lemma group_loop_inv:
  assumes "group_inv nch ngroups c es ends"
  shows "group_inv nch ngroups nch [] (group_loop nelements ngroups nch c es cumulative ends)"
  using assms
proof (induction es arbitrary: c cumulative ends)
  case Nil
  then show ?case by (auto simp: group_inv_def less_imp_le)
next
  case (Cons e es)
  let ?close = "length ends + 1 < ngroups \<and>
    (nelements * (length ends + 1) div ngroups \<le> cumulative + e \<or> nch - c - 1 = ngroups - length ends - 1)"
  show ?case
  proof (cases ?close)
    case True
    with Cons.IH [OF group_inv_close [OF Cons.prems], of "cumulative + e"] show ?thesis by (simp add: Let_def)
  next
    case False
    then have "length ends + 1 < ngroups \<longrightarrow> nch - c - 1 \<noteq> ngroups - length ends - 1" by blast
    from Cons.IH [OF group_inv_keep [OF Cons.prems this], of "cumulative + e"] False
    show ?thesis by (auto simp: Let_def)
  qed
qed

lemma GroupChunks_ends:
  fixes chunks :: "DataChunk list"
  shows "length (GroupChunks chunks n) = max 1 (min n (length chunks))"
    and "GroupChunks chunks n \<noteq> []" and "last (GroupChunks chunks n) = length chunks"
    and "chunks \<noteq> [] \<Longrightarrow> sorted_wrt (<) (0 # GroupChunks chunks n)"
proof -
  define k where "k = max 1 (min n (length chunks))"
  let ?es = "map ChunkElements chunks"
  let ?loop = "group_loop (sum_list ?es) k (length chunks) 0 ?es 0 []"
  have eq: "GroupChunks chunks n = ?loop @ [length chunks]" by (simp add: GroupChunks_def Let_def k_def)
  have "group_inv (length chunks) k 0 ?es []" by (cases chunks) (auto simp: group_inv_def k_def)
  from group_loop_inv [OF this, of "sum_list ?es" 0]
  have loop: "length ?loop + 1 = k \<and> sorted_wrt (<) ?loop \<and> (\<forall>e \<in> set ?loop. 0 < e \<and> e < length chunks)"
    by (simp add: group_inv_def)
  show "length (GroupChunks chunks n) = max 1 (min n (length chunks))"
    unfolding k_def [symmetric] using loop by (simp add: eq)
  show "GroupChunks chunks n \<noteq> []" "last (GroupChunks chunks n) = length chunks" by (simp_all add: eq)
  show "sorted_wrt (<) (0 # GroupChunks chunks n)" if "chunks \<noteq> []"
    using loop that by (auto simp: eq sorted_wrt_append)
qed

lemma groups_from_concat:
  assumes "sorted_wrt (<) (start # ends)" and "ends \<noteq> []" and "last ends \<le> length chunks"
  shows "concat (groups_from chunks start ends) = take (last ends - start) (drop start chunks) \<and>
    (\<forall>g \<in> set (groups_from chunks start ends). g \<noteq> [])"
  using assms
proof (induction ends arbitrary: start)
  case (Cons e ends)
  have le: "start < e" "e \<le> last (e # ends)" using Cons.prems by (auto simp: less_imp_le)
  then have g: "subspan start (e - start) chunks \<noteq> []"
    using Cons.prems(3) by (simp add: subspan_def)
  show ?case
  proof (cases "ends = []")
    case True
    with g show ?thesis by (simp add: subspan_def)
  next
    case False
    have "e < last ends" using Cons.prems(1) False by simp
    then have "last ends - start = (e - start) + (last ends - e)" using le by simp
    then have "take (last ends - start) (drop start chunks) =
        take (e - start) (drop start chunks) @ take (last ends - e) (drop (e - start) (drop start chunks))"
      by (simp only: take_add)
    moreover have "drop (e - start) (drop start chunks) = drop e chunks" using le by simp
    ultimately show ?thesis using Cons.IH [of e] Cons.prems False g by (simp add: subspan_def)
  qed
qed simp

lemma chunk_groups_concat:
  "chunks \<noteq> [] \<Longrightarrow> concat (chunk_groups chunks n) = chunks \<and> (\<forall>g \<in> set (chunk_groups chunks n). g \<noteq> [])"
  using groups_from_concat [of 0 "GroupChunks chunks n" chunks] GroupChunks_ends [of chunks n]
  by (simp add: chunk_groups_def)

lemma length_groups_from: "length (groups_from chunks start ends) = length ends"
  by (induction ends arbitrary: start) auto

section \<open>Reading a partition\<close>

text \<open>
  The buffer a read should leave: the element at an index of the result is the one the selection
  names on disk, unless one of its disk indices is negative; then the buffer keeps what it held.
\<close>

definition read_buffer :: "selection \<Rightarrow> shape \<Rightarrow> (int \<Rightarrow> int list \<Rightarrow> 'a) \<Rightarrow> 'a list \<Rightarrow> 'a list" where
  "read_buffer sel sh cell buffer =
     map (\<lambda>idx. if \<forall>i \<in> set (disk_index sel sh idx). 0 \<le> i then cell_at cell (disk_index sel sh idx)
                else buffer ! lin sh idx) (box sh)"

definition elements_read :: "selection \<Rightarrow> shape \<Rightarrow> nat" where
  "elements_read sel sh = length (filter (\<lambda>idx. \<forall>i \<in> set (disk_index sel sh idx). 0 \<le> i) (box sh))"

lemma read_buffer_patched:
  assumes "length buffer = prod_list sh"
  shows "read_buffer sel sh cell buffer = patched (\<lambda>a. cell_at cell (disk_index sel sh (box sh ! a)))
    {a. \<forall>i \<in> set (disk_index sel sh (box sh ! a)). 0 \<le> i} buffer"
  by (rule nth_equalityI) (use assms in \<open>simp_all add: read_buffer_def nth_patched lin_box_nth\<close>)

lemma read_chunks_of:
  assumes "chunks_of sel sh L chunks" and "sel_fits sel sh" and "sh \<noteq> []" and "reads_cells rd cell"
    and "length buffer = prod_list sh" and "mset chs = mset chunks"
  shows "chunk_loop (read_chunk sz rd) (map Some chs) (buffer, n) = Inr (read_buffer sel sh cell buffer, n + sz * elements_read sel sh)"
  using partition_reads_loop [OF chunks_of_reads [OF assms(1-3)] assms(4) mset_eq_setD [OF assms(6)] assms(5)]
    elements_in_mset [OF assms(6)] elements_read_count [OF assms(1-3)]
  by (simp add: read_buffer_patched [OF assms(5)] elements_in_def elements_read_def)

lemma DispatchCasaType_size:
  "CasaDataTypeSize ss dt = Inr sz \<Longrightarrow> DispatchCasaType dt fn = fn dt"
  by (cases dt) auto

lemma ReadChunks_partition:
  assumes "fixed_result d sh" and "sel_fits sel sh" and "Make string_size sel d opts = Inr p"
    and "reads_cells rd cell" and "length buffer = prod_list sh"
    and "CasaDataTypeSize string_size (rs_dtype d) = Inr sz" and "mset chs = mset (data_chunks p)"
  shows "ReadChunks string_size rd (dp_dtype p) (map Some chs) (buffer, n) =
    Inr (read_buffer sel sh cell buffer, n + sz * elements_read sel sh)"
proof -
  from Make_fixed [OF assms(1,2), where string_size = string_size and opts = opts] assms(3) obtain L where
    dt: "dp_dtype p = rs_dtype d" and L: "chunks_of sel sh L (data_chunks p)" by auto
  have "sh \<noteq> []" using assms(1) by (simp add: fixed_result_def)
  from read_chunks_of [OF L assms(2) this assms(4,5,7)] show ?thesis
    using assms(6) by (simp add: ReadChunks_def dt DispatchCasaType_size [OF assms(6)])
qed

section \<open>An example\<close>

lemma chunks_of_ne:
  assumes "chunks_of sel sh L chunks"
  shows "chunks \<noteq> []"
proof -
  have "\<forall>sps \<in> set L. sps \<noteq> []"
    using assms by (auto simp: chunks_of_def decomposition_def decomposes_def in_set_conv_nth)
  from product_lists_ne [OF this] assms show ?thesis by (auto simp: chunks_of_def)
qed

definition sample_cell :: "int \<Rightarrow> int list \<Rightarrow> int" where
  "sample_cell row idx = 10 * row + hd idx"

lemma small_partition:
  "\<exists>p L. Make 32 small_sel small_result no_split = Inr p \<and> dp_dtype p = TpFloat \<and>
     chunks_of small_sel [2, 3] L (data_chunks p)"
proof -
  have "\<not> 1 < max_splits no_split" "rs_dtype small_result = TpFloat"
    by (simp_all add: small_result_def no_split_def)
  with Make_fixed [OF small_facts(1,2), where string_size = 32 and opts = no_split] small_facts(3)
  show ?thesis by (cases "Make 32 small_sel small_result no_split") auto
qed

section \<open>Properties\<close>

text \<open>
  C12. Reads of a fixed shape are correct from the selection to the buffer. Whenever a partition is
  made, reading its chunks returns: no access is out of range and every copy loop ends. Each
  element of the buffer is then the element that the selection names on disk, whatever order,
  repetition of missing indices or split of the rows the selection and the options lead to; the
  elements of negative indices keep what the buffer held; and the bytes reported are the size of
  the elements that were read.
\<close>

theorem ReadChunks_reads_selection:
  assumes "fixed_result d sh" and "sel_fits sel sh" and "Make string_size sel d opts = Inr p"
    and "reads_cells rd cell" and "length buffer = prod_list sh"
    and "CasaDataTypeSize string_size (rs_dtype d) = Inr sz"
  shows "ReadChunks string_size rd (dp_dtype p) (map Some (data_chunks p)) (buffer, n) =
      Inr (read_buffer sel sh cell buffer, n + sz * elements_read sel sh) \<and>
    (\<forall>idx. in_box sh idx \<longrightarrow> read_buffer sel sh cell buffer ! lin sh idx =
       (if \<forall>i \<in> set (disk_index sel sh idx). 0 \<le> i
        then cell (last (disk_index sel sh idx)) (butlast (disk_index sel sh idx))
        else buffer ! lin sh idx))"
  using ReadChunks_partition [OF assms refl] lin_less [of sh] box_nth_lin [of sh]
  by (simp add: read_buffer_def cell_at_def)

theorem ReadChunks_reads_selection_witness:
  "\<exists>p. Make 32 small_sel small_result no_split = Inr p \<and>
     ReadChunks 32 (cells_reader sample_cell) (dp_dtype p) (map Some (data_chunks p)) ([0, 0, 0, 0, 0, 0], 0) =
       Inr ([71, 70, 0, 0, 41, 40], 16)"
proof -
  obtain p where p: "Make 32 small_sel small_result no_split = Inr p" using small_partition by blast
  have len: "length [0, 0, 0, 0, 0, 0 :: int] = prod_list [2, 3]" by simp
  have sz: "CasaDataTypeSize 32 (rs_dtype small_result) = Inr 4" by (simp add: small_result_def)
  have "read_buffer small_sel [2, 3] sample_cell [0, 0, 0, 0, 0, 0] = [71, 70, 0, 0, 41, 40]"
    "elements_read small_sel [2, 3] = 4" by code_simp+
  with ReadChunks_reads_selection [OF small_facts(1,2) p reads_cells_reader [of sample_cell] len sz, of 0] p
  show ?thesis by simp
qed

text \<open>
  The tasks that read the groups of a partition may run in any order: any arrangement of the
  groups leaves the buffer, and reports the bytes, that reading all chunks in one task does.
\<close>

theorem ReadChunks_any_order:
  assumes "fixed_result d sh" and "sel_fits sel sh" and "Make string_size sel d opts = Inr p"
    and "reads_cells rd cell" and "length buffer = prod_list sh"
    and "CasaDataTypeSize string_size (rs_dtype d) = Inr sz"
    and "data_chunks p \<noteq> []" and "mset groups = mset (chunk_groups (data_chunks p) ninstances)"
  shows "ReadChunks string_size rd (dp_dtype p) (map Some (concat groups)) (buffer, n) =
    ReadChunks string_size rd (dp_dtype p) (map Some (data_chunks p)) (buffer, n)"
proof -
  have "mset (concat groups) = mset (concat (chunk_groups (data_chunks p) ninstances))"
    using assms(8) by (metis mset_concat mset_map sum_mset_sum_list)
  then have "mset (concat groups) = mset (data_chunks p)"
    using chunk_groups_concat [OF assms(7), of ninstances] by simp
  then show ?thesis using ReadChunks_partition [OF assms(1-6)] by simp
qed

theorem ReadChunks_any_order_witness:
  "\<exists>p. Make 32 small_sel small_result no_split = Inr p \<and>
     ReadChunks 32 (cells_reader sample_cell) (dp_dtype p)
       (map Some (concat (rev (chunk_groups (data_chunks p) 2)))) ([0, 0, 0, 0, 0, 0], 0) =
     ReadChunks 32 (cells_reader sample_cell) (dp_dtype p) (map Some (data_chunks p)) ([0, 0, 0, 0, 0, 0], 0)"
proof -
  obtain p L where p: "Make 32 small_sel small_result no_split = Inr p"
    and L: "chunks_of small_sel [2, 3] L (data_chunks p)" using small_partition by blast
  have len: "length [0, 0, 0, 0, 0, 0 :: int] = prod_list [2, 3]" by simp
  have sz: "CasaDataTypeSize 32 (rs_dtype small_result) = Inr 4" by (simp add: small_result_def)
  have "data_chunks p \<noteq> []" using chunks_of_ne [OF L] by simp
  with ReadChunks_any_order [OF small_facts(1,2) p reads_cells_reader [of sample_cell] len sz, where ninstances = 2] p
  show ?thesis by simp
qed

text \<open>
  C20. The shortcut for contiguous chunks is no more than that: reading such a chunk directly into
  its range of the buffer leaves the same buffer as reading it into an array and transposing
  that array element by element.
\<close>

theorem ReadContiguousChunk_transposes:
  assumes "fixed_result d sh" and "sel_fits sel sh" and "Make string_size sel d opts = Inr p"
    and "reads_cells rd cell" and "length buffer = prod_list sh"
    and "ch \<in> set (data_chunks p)" and "IsContiguous ch" and "\<not> IsEmpty ch"
  shows "\<exists>buffer'. ReadContiguousChunk rd ch buffer = Some buffer' \<and>
    CopyChunkArray ch (ReadChunkArray rd ch) buffer = Some buffer'"
proof -
  from Make_fixed [OF assms(1,2), where string_size = string_size and opts = opts] assms(3) obtain L where
    L: "chunks_of sel sh L (data_chunks p)" by auto
  have sh: "sh \<noteq> []" using assms(1) by (simp add: fixed_result_def)
  note fc = fixed_chunks [OF L assms(2) sh assms(6)]
  then have t: "tuple_ok sel sh (DimensionSpans ch)" and nd: "nDim ch = length (DimensionSpans ch)"
    by (simp_all add: fixed_chunk_def chunk_is_def)
  note readable = readable_chunk [OF fc assms(8) sh]
  let ?vals = "chunk_values cell (DimensionSpans ch)"
  have len: "length ?vals = prod_list (ChunkShape ch)" by (simp add: length_chunk_values ChunkShape_def)
  from blit_placed [OF fc assms(7) sh len assms(5)] CopyChunkArray_placed [OF fc sh len assms(5)]
  show ?thesis
    unfolding ReadContiguousChunk_values [OF assms(4) readable nd] ReadChunkArray_values [OF assms(4) readable nd]
    using placed_unique [OF _ _ assms(5) t] by metis
qed

theorem ReadContiguousChunk_transposes_witness:
  "\<exists>p. Make 32 empty_selection small_result no_split = Inr p \<and>
     (\<exists>buffer'. ReadContiguousChunk (cells_reader sample_cell) (hd (data_chunks p)) [0, 0, 0, 0, 0, 0] = Some buffer' \<and>
        CopyChunkArray (hd (data_chunks p)) (ReadChunkArray (cells_reader sample_cell) (hd (data_chunks p)))
          [0, 0, 0, 0, 0, 0] = Some buffer')"
proof -
  have check: "case Make 32 empty_selection small_result no_split of
      Inr p \<Rightarrow> data_chunks p \<noteq> [] \<and> IsContiguous (hd (data_chunks p)) \<and> \<not> IsEmpty (hd (data_chunks p))
    | Inl e \<Rightarrow> False" by code_simp
  then obtain p where p: "Make 32 empty_selection small_result no_split = Inr p"
    and ch: "hd (data_chunks p) \<in> set (data_chunks p)" "IsContiguous (hd (data_chunks p))" "\<not> IsEmpty (hd (data_chunks p))"
    by (auto split: sum.splits)
  have "MaybeFSpan empty_selection 0 2 = None" "MaybeFSpan empty_selection 1 2 = None" by code_simp+
  then have fits: "sel_fits empty_selection [2, 3]"
    by (simp add: sel_fits_def All_less_Suc2 numeral_2_eq_2)
  have len: "length [0, 0, 0, 0, 0, 0 :: int] = prod_list [2, 3]" by simp
  from ReadContiguousChunk_transposes [OF small_facts(1) fits p reads_cells_reader [of sample_cell] len ch] p
  show ?thesis by blast
qed

text \<open>
  The groups of chunks handed to the table instances: there are as many as asked for, but not
  more than chunks and at least one; none is empty; and one after the other they are the chunks,
  so that every chunk is read by exactly one task.
\<close>

theorem GroupChunks_groups:
  assumes "chunks \<noteq> []"
  shows "length (chunk_groups chunks n) = max 1 (min n (length chunks)) \<and>
    concat (chunk_groups chunks n) = chunks \<and> [] \<notin> set (chunk_groups chunks n)"
  using chunk_groups_concat [OF assms, of n] GroupChunks_ends(1) [of chunks n]
  by (auto simp: chunk_groups_def length_groups_from)

theorem GroupChunks_groups_witness:
  "\<exists>ch. length (chunk_groups [ch, ch, ch] 2) = 2 \<and> concat (chunk_groups [ch, ch, ch] 2) = [ch, ch, ch]"
  using GroupChunks_groups [of "[ch, ch, ch]" 2 for ch] by auto

end
