(* ===== verification/ColumnWrite.thy ===== *)
theory ColumnWrite
  imports ReadImpl
begin

text \<open>
  Writing the chunks of a partition: \<open>WriteContiguousChunk\<close>, \<open>WriteChunkArray\<close> and \<open>WriteChunks\<close>
  of \<open>cpp/arcae/write_impl.cc\<close>. The casacore columns are a parameter, \<open>column_writer\<close>, which
  changes a table state; \<open>writes_cells\<close> states the documented behaviour: the cells that are named
  get the values, in order, and no other cell changes.
\<close>

section \<open>The column, as casacore offers it for writing\<close>

record ('s, 'a) column_writer =
  put_scalar_cells :: "ref_rows \<Rightarrow> 'a list \<Rightarrow> 's \<Rightarrow> 's"            \<comment> \<open>ScalarColumn::putColumnCells\<close>
  put_array_cells :: "ref_rows \<Rightarrow> slicer \<Rightarrow> 'a list \<Rightarrow> 's \<Rightarrow> 's"   \<comment> \<open>ArrayColumn::putColumnCells\<close>
  put_slice :: "int \<Rightarrow> slicer \<Rightarrow> 'a list \<Rightarrow> 's \<Rightarrow> 's"              \<comment> \<open>ArrayColumn::putSlice\<close>

text \<open>The places in the column, row and index in the cell, that a call names.\<close>

type_synonym place = "int \<times> int list"

definition places :: "place column_reader" where
  "places = cells_reader Pair"

definition assign :: "place list \<Rightarrow> 'a list \<Rightarrow> (int \<Rightarrow> int list \<Rightarrow> 'a) \<Rightarrow> int \<Rightarrow> int list \<Rightarrow> 'a" where
  "assign ps vals cell = (\<lambda>r i. case map_of (zip ps vals) (r, i) of Some v \<Rightarrow> v | None \<Rightarrow> cell r i)"

text \<open>Nothing is said of a call that names a place twice, or that has too few or too many values.\<close>

definition fits :: "place list \<Rightarrow> 'a list \<Rightarrow> bool" where
  "fits ps vals \<longleftrightarrow> distinct ps \<and> length vals = length ps"

definition writes_cells :: "('s, 'a) column_writer \<Rightarrow> ('s \<Rightarrow> int \<Rightarrow> int list \<Rightarrow> 'a) \<Rightarrow> bool" where
  "writes_cells wr cells \<longleftrightarrow>
     (\<forall>rr vals s. fits (scalar_cells places rr) vals \<longrightarrow>
        cells (put_scalar_cells wr rr vals s) = assign (scalar_cells places rr) vals (cells s)) \<and>
     (\<forall>rr sl vals s. fits (array_cells places rr sl) vals \<longrightarrow>
        cells (put_array_cells wr rr sl vals s) = assign (array_cells places rr sl) vals (cells s)) \<and>
     (\<forall>r sl vals s. fits (array_slice places r sl) vals \<longrightarrow>
        cells (put_slice wr r sl vals s) = assign (array_slice places r sl) vals (cells s))"

text \<open>A table that is no more than its cells: the behaviour asked of casacore is possible.\<close>

definition cells_writer :: "(int \<Rightarrow> int list \<Rightarrow> 'a, 'a) column_writer" where
  "cells_writer =
     \<lparr>put_scalar_cells = \<lambda>rr. assign (scalar_cells places rr),
      put_array_cells = \<lambda>rr sl. assign (array_cells places rr sl),
      put_slice = \<lambda>r sl. assign (array_slice places r sl)\<rparr>"

lemma writes_cells_writer [simp]: "writes_cells cells_writer (\<lambda>cell. cell)"
  by (simp add: writes_cells_def cells_writer_def)

section \<open>Writing a chunk\<close>

text \<open>A casacore array that shares the storage of the input buffer from \<open>offset\<close>, with \<open>n\<close> elements.\<close>

definition shared_storage :: "nat \<Rightarrow> nat \<Rightarrow> 'a list \<Rightarrow> 'a list option" where
  "shared_storage offset n buffer =
     (if offset + n \<le> length buffer then Some (subspan offset n buffer) else None)"

definition WriteContiguousChunk :: "('s, 'a) column_writer \<Rightarrow> DataChunk \<Rightarrow> 'a list \<Rightarrow> 's \<Rightarrow> 's option" where
  "WriteContiguousChunk wr ch buffer s =
     (let sh = ChunkShape ch
      in if length sh = 1
         then map_option (\<lambda>data. put_scalar_cells wr (ReferenceRows ch) data s)
                (shared_storage (ChunkOffset ch) (prod_list sh) buffer)
         else let ref_rows = ReferenceRows ch
              in if ref_nrows ref_rows = 1
                 then map_option (\<lambda>data. put_slice wr (ref_firstRow ref_rows) (SectionSlicer ch) data s)
                        (shared_storage (ChunkOffset ch) (prod_list (slicer_length (SectionSlicer ch))) buffer)
                 else map_option (\<lambda>data. put_array_cells wr ref_rows (SectionSlicer ch) data s)
                        (shared_storage (ChunkOffset ch) (prod_list sh) buffer))"

text \<open>\<open>Array::reform\<close> keeps the storage and refuses a shape with another number of elements.\<close>

definition WriteChunkArray :: "('s, 'a) column_writer \<Rightarrow> DataChunk \<Rightarrow> 'a list \<Rightarrow> 's \<Rightarrow> 's option" where
  "WriteChunkArray wr ch data s =
     (if nDim ch = 1 then Some (put_scalar_cells wr (ReferenceRows ch) data s)
      else let ref_rows = ReferenceRows ch
           in if ref_nrows ref_rows = 1
              then if prod_list (slicer_length (SectionSlicer ch)) = length data
                   then Some (put_slice wr (ref_firstRow ref_rows) (SectionSlicer ch) data s) else None
              else Some (put_array_cells wr ref_rows (SectionSlicer ch) data s))"

text \<open>The state of \<open>WriteChunks\<close>: the table, and the bytes reported to \<open>RecordIoBytes\<close>.\<close>

definition write_chunk ::
  "nat \<Rightarrow> ('s, 'a) column_writer \<Rightarrow> 'a \<Rightarrow> 'a list \<Rightarrow> DataChunk \<Rightarrow> 's \<times> nat \<Rightarrow> ('s \<times> nat) result" where
  "write_chunk ct_size wr fresh buffer ch st =
     (if IsEmpty ch then Inr st
      else case (if IsContiguous ch then WriteContiguousChunk wr ch buffer (fst st)
                 else Option.bind (GatherChunkArray fresh ch buffer) (\<lambda>data. WriteChunkArray wr ch data (fst st))) of
             None \<Rightarrow> Inl (Undefined ''WriteChunks'')
           | Some s \<Rightarrow> Inr (s, snd st + ChunkElements ch * ct_size))"

definition WriteChunks ::
  "nat \<Rightarrow> ('s, 'a) column_writer \<Rightarrow> 'a \<Rightarrow> casa_dtype \<Rightarrow> DataChunk option list \<Rightarrow> 'a list \<Rightarrow> 's \<times> nat \<Rightarrow>
   ('s \<times> nat) result" where
  "WriteChunks string_size wr fresh dtype chunks buffer st =
     DispatchCasaType dtype (\<lambda>cdt. rbind (CasaDataTypeSize string_size cdt) (\<lambda>ct_size.
       chunk_loop (write_chunk ct_size wr fresh buffer) chunks st))"

section \<open>The values handed to casacore\<close>

definition buffer_values :: "shape \<Rightarrow> 'a list \<Rightarrow> span_pairs \<Rightarrow> 'a list" where
  "buffer_values sh buffer t = map (\<lambda>p. buffer ! lin sh (mem_index t p)) (box (mem_sizes t))"

lemma GatherChunkArray_values:
  assumes "fixed_chunk sel sh ch" and "sh \<noteq> []" and "length buffer = prod_list sh"
  shows "GatherChunkArray fresh ch buffer = Some (buffer_values sh buffer (DimensionSpans ch))"
proof -
  let ?t = "DimensionSpans ch"
  let ?out = "store_all ((!) buffer) (lin (mem_sizes ?t)) (\<lambda>p. lin sh (mem_index ?t p))
    (box (mem_sizes ?t)) (replicate (prod_list (ChunkShape ch)) fresh)"
  have t: "tuple_ok sel sh ?t" using assms(1) by (simp add: fixed_chunk_def)
  have n: "prod_list (ChunkShape ch) = prod_list (mem_sizes ?t)"
    unfolding ChunkShape_def tuple_sizes [OF t, symmetric] ..
  have "?out = buffer_values sh buffer ?t"
  proof (rule nth_equalityI)
    show "length ?out = length (buffer_values sh buffer ?t)" by (simp add: n buffer_values_def)
    fix a assume "a < length ?out"
    then have a: "a < prod_list (mem_sizes ?t)" by (simp add: n)
    have "?out ! a = buffer ! lin sh (mem_index ?t (box (mem_sizes ?t) ! a))"
    proof (rule nth_store_all_in)
      show "\<forall>p \<in> set (box (mem_sizes ?t)). lin (mem_sizes ?t) p = a \<longrightarrow>
          buffer ! lin sh (mem_index ?t p) = buffer ! lin sh (mem_index ?t (box (mem_sizes ?t) ! a))"
        by (auto simp: set_box box_nth_lin)
      show "\<exists>p \<in> set (box (mem_sizes ?t)). lin (mem_sizes ?t) p = a"
        using box_nth_in_box [OF a] lin_box_nth [OF a] by (auto simp: set_box)
    qed (use a in \<open>simp add: n\<close>)
    then show "?out ! a = buffer_values sh buffer ?t ! a" using a by (simp add: buffer_values_def)
  qed
  with GatherChunkArray_eq [OF assms] show ?thesis by simp
qed

lemma shared_storage_values:
  assumes "fixed_chunk sel sh ch" and "IsContiguous ch" and "sh \<noteq> []" and "length buffer = prod_list sh"
  shows "shared_storage (ChunkOffset ch) (prod_list (ChunkShape ch)) buffer =
    Some (buffer_values sh buffer (DimensionSpans ch))"
proof -
  let ?t = "DimensionSpans ch" and ?off = "ChunkOffset ch" and ?n = "prod_list (ChunkShape ch)"
  have t: "tuple_ok sel sh ?t" using assms(1) by (simp add: fixed_chunk_def)
  have n: "prod_list (mem_sizes ?t) = ?n" unfolding ChunkShape_def tuple_sizes [OF t, symmetric] ..
  have "length (replicate ?n (hd buffer)) = ?n" by simp
  from blit_placed [OF assms(1-3) this assms(4)] have fit: "?off + ?n \<le> length buffer"
    by (auto simp: blit_def split: if_splits)
  have "subspan ?off ?n buffer = buffer_values sh buffer ?t"
  proof (rule nth_equalityI)
    show "length (subspan ?off ?n buffer) = length (buffer_values sh buffer ?t)"
      using fit by (simp add: subspan_def buffer_values_def n)
    fix a assume "a < length (subspan ?off ?n buffer)"
    then have a: "a < ?n" "a < prod_list (mem_sizes ?t)" using fit by (simp_all add: subspan_def n)
    have "lin sh (mem_index ?t (box (mem_sizes ?t) ! a)) = ?off + a"
      using contiguous_place [OF assms(1,2) box_nth_in_box [OF a(2)] assms(3)] lin_box_nth [OF a(2)] by simp
    then show "subspan ?off ?n buffer ! a = buffer_values sh buffer ?t ! a"
      using a fit by (simp add: subspan_def buffer_values_def)
  qed
  with fit show ?thesis by (simp add: shared_storage_def)
qed


section \<open>The places a chunk writes\<close>

text \<open>Every index that is read stands once in its dimension, so elements have places of their own.\<close>

lemma disk_index_inj:
  assumes "no_duplicates sel sh" and "sel_fits sel sh" and "in_box sh p" and "in_box sh q"
    and "disk_index sel sh p = disk_index sel sh q" and "\<forall>i \<in> set (disk_index sel sh p). 0 \<le> i"
  shows "p = q"
proof (rule nth_equalityI)
  show "length p = length q" using assms(3,4) by (simp add: in_box_conv)
  fix d assume "d < length p"
  then have d: "d < length sh" "p ! d < sh ! d" "q ! d < sh ! d" using assms(3,4) by (auto simp: in_box_conv)
  let ?ids = "disk_ids sel sh d"
  have eq: "?ids ! (p ! d) = ?ids ! (q ! d)"
    using arg_cong [OF assms(5), of "\<lambda>xs. xs ! d"] d(1) by (simp add: disk_index_def)
  have nonneg: "0 \<le> ?ids ! (p ! d)" using assms(6) d(1) by (auto simp: disk_index_def)
  have n: "length ?ids = sh ! d" by (rule length_disk_ids [OF assms(2) d(1)])
  have "distinct (filter (\<lambda>x. 0 \<le> x) ?ids)" using assms(1) d(1) by (simp add: no_duplicates_def)
  then show "p ! d = q ! d" by (rule distinct_filter_nth) (use d n eq nonneg in simp_all)
qed

lemma fits_buffer_values:
  assumes "fixed_chunk sel sh ch" and "\<not> IsEmpty ch" and "sh \<noteq> []"
    and "no_duplicates sel sh" and "sel_fits sel sh"
  shows "fits (chunk_values Pair (DimensionSpans ch)) (buffer_values sh buffer (DimensionSpans ch))"
proof -
  let ?t = "DimensionSpans ch"
  have t: "tuple_ok sel sh ?t" using assms(1) by (simp add: fixed_chunk_def)
  have ne: "?t \<noteq> []" using tuple_ok_length [OF t] assms(3) by auto
  have "p = q" if p: "in_box (mem_sizes ?t) p" and q: "in_box (mem_sizes ?t) q"
    and eq: "cell_at Pair (disk_at ?t p) = cell_at Pair (disk_at ?t q)" for p q
  proof -
    have "disk_at ?t p \<noteq> []" "disk_at ?t q \<noteq> []" using ne p q by (cases p; cases q; cases ?t; auto simp: disk_at_def)+
    with eq have "disk_at ?t p = disk_at ?t q" by (metis Pair_inject append_butlast_last_id cell_at_def)
    then have "disk_index sel sh (mem_index ?t p) = disk_index sel sh (mem_index ?t q)"
      by (simp add: tuple_positions(2) [OF t p] tuple_positions(2) [OF t q])
    moreover have "\<forall>i \<in> set (disk_index sel sh (mem_index ?t p)). 0 \<le> i"
      using element_read [OF assms(1,3) p] assms(2) tuple_positions(2) [OF t p] by simp
    ultimately have "mem_index ?t p = mem_index ?t q"
      by (intro disk_index_inj [OF assms(4,5) tuple_positions(1) [OF t p] tuple_positions(1) [OF t q]])
    then show "p = q" by (rule mem_index_inj [OF t p q])
  qed
  then have "inj_on (\<lambda>p. cell_at Pair (disk_at ?t p)) (set (box (mem_sizes ?t)))"
    by (auto simp: inj_on_def set_box)
  then show ?thesis
    by (simp add: fits_def chunk_values_def buffer_values_def distinct_map distinct_box tuple_sizes [OF t, symmetric])
qed

lemma write_values:
  assumes "writes_cells wr cells" and "readable (DimensionSpans ch)" and "nDim ch = length (DimensionSpans ch)"
    and "fits (chunk_values Pair (DimensionSpans ch)) vals"
  shows "nDim ch = 1 \<Longrightarrow> cells (put_scalar_cells wr (ReferenceRows ch) vals s) =
      assign (chunk_values Pair (DimensionSpans ch)) vals (cells s)"
    and "cells (put_array_cells wr (ReferenceRows ch) (SectionSlicer ch) vals s) =
      assign (chunk_values Pair (DimensionSpans ch)) vals (cells s)"
    and "ref_nrows (ReferenceRows ch) = 1 \<Longrightarrow>
      cells (put_slice wr (ref_firstRow (ReferenceRows ch)) (SectionSlicer ch) vals s) =
      assign (chunk_values Pair (DimensionSpans ch)) vals (cells s)"
proof -
  have rd: "reads_cells places Pair" by (simp add: places_def)
  note v = read_values [OF rd assms(2,3)]
  show "cells (put_scalar_cells wr (ReferenceRows ch) vals s) =
      assign (chunk_values Pair (DimensionSpans ch)) vals (cells s)" if "nDim ch = 1"
    using assms(1,4) v(1) [OF that] unfolding writes_cells_def by metis
  show "cells (put_array_cells wr (ReferenceRows ch) (SectionSlicer ch) vals s) =
      assign (chunk_values Pair (DimensionSpans ch)) vals (cells s)"
    using assms(1,4) v(2) unfolding writes_cells_def by metis
  show "cells (put_slice wr (ref_firstRow (ReferenceRows ch)) (SectionSlicer ch) vals s) =
      assign (chunk_values Pair (DimensionSpans ch)) vals (cells s)" if "ref_nrows (ReferenceRows ch) = 1"
    using assms(1,4) v(3) [OF that] unfolding writes_cells_def by metis
qed

text \<open>A chunk of one row has as many elements as a slice of a cell of it.\<close>

lemma one_row_elements:
  assumes "readable (DimensionSpans ch)" and "nDim ch = length (DimensionSpans ch)"
    and "ref_nrows (ReferenceRows ch) = 1"
  shows "prod_list (slicer_length (SectionSlicer ch)) = prod_list (ChunkShape ch)"
proof -
  let ?t = "DimensionSpans ch"
  have rd: "reads_cells places Pair" by (simp add: places_def)
  have "?t \<noteq> []" using assms(1) by (simp add: readable_def)
  then have "ChunkShape ch = map (\<lambda>sp. length (disk sp)) (butlast ?t) @ [length (disk (last ?t))]"
    by (metis (no_types, lifting) ChunkShape_def append_butlast_last_id list.simps(8) list.simps(9) map_append)
  moreover have "length (disk (last ?t)) = 1"
    using assms(3) ref_rows_ReferenceRows [OF assms(1,2)] by (simp add: ref_nrows_def)
  ultimately show ?thesis by (simp add: read_values(4) [OF rd assms(1,2)])
qed

lemma write_chunk_assigns:
  assumes "fixed_chunk sel sh ch" and "\<not> IsEmpty ch" and "sh \<noteq> []" and "no_duplicates sel sh"
    and "sel_fits sel sh" and "writes_cells wr cells" and "length buffer = prod_list sh"
  shows "\<exists>s'. write_chunk sz wr fresh buffer ch (s, n) = Inr (s', n + ChunkElements ch * sz) \<and>
    cells s' = assign (chunk_values Pair (DimensionSpans ch)) (buffer_values sh buffer (DimensionSpans ch)) (cells s)"
proof -
  let ?t = "DimensionSpans ch"
  let ?vals = "buffer_values sh buffer ?t"
  have t: "tuple_ok sel sh ?t" and nd: "nDim ch = length ?t"
    using assms(1) by (simp_all add: fixed_chunk_def chunk_is_def)
  note readable = readable_chunk [OF assms(1-3)]
  note w = write_values [OF assms(6) readable nd fits_buffer_values [OF assms(1-5)], of buffer s]
  note one = one_row_elements [OF readable nd]
  have len: "length ?vals = prod_list (ChunkShape ch)" "length (ChunkShape ch) = nDim ch"
    by (simp_all add: buffer_values_def ChunkShape_def tuple_sizes [OF t, symmetric] nd)
  show ?thesis
  proof (cases "IsContiguous ch")
    case True
    with assms(2) w one shared_storage_values [OF assms(1) True assms(3,7)] show ?thesis
      by (auto simp: write_chunk_def WriteContiguousChunk_def Let_def len(2))
  next
    case False
    with assms(2) w one GatherChunkArray_values [OF assms(1,3,7), of fresh] show ?thesis
      by (auto simp: write_chunk_def WriteChunkArray_def Let_def len(1))
  qed
qed

end
