(* ===== verification/WriteImpl.thy ===== *)
theory WriteImpl
  imports ColumnWrite
begin

text \<open>
  Writes of a column from end to end: which cells of the column change, to which values, and that a
  read of the same selection gives the values back. The model of \<open>WriteChunks\<close> is in
  \<open>ColumnWrite\<close>.
\<close>

section \<open>Writing all chunks\<close>

text \<open>
  The state of the column after the elements \<open>A\<close> of the buffer were written: their cells hold their
  values and every other cell is as before.
\<close>

definition written ::
  "selection \<Rightarrow> shape \<Rightarrow> 'a list \<Rightarrow> nat list set \<Rightarrow> (int \<Rightarrow> int list \<Rightarrow> 'a) \<Rightarrow> (int \<Rightarrow> int list \<Rightarrow> 'a) \<Rightarrow> bool" where
  "written sel sh buffer A before after \<longleftrightarrow>
     (\<forall>idx \<in> A. cell_at after (disk_index sel sh idx) = buffer ! lin sh idx) \<and>
     (\<forall>r c. (\<forall>idx \<in> A. disk_index sel sh idx \<noteq> c @ [r]) \<longrightarrow> after r c = before r c)"

lemma written_union:
  assumes "written sel sh buffer A s0 s1" and "written sel sh buffer B s1 s2"
    and "\<forall>p \<in> A. \<forall>q \<in> B. disk_index sel sh p = disk_index sel sh q \<longrightarrow> p = q" and "sh \<noteq> []"
  shows "written sel sh buffer (A \<union> B) s0 s2"
  unfolding written_def
proof (intro conjI ballI allI impI)
  fix idx assume idx: "idx \<in> A \<union> B"
  let ?d = "disk_index sel sh idx"
  show "cell_at s2 ?d = buffer ! lin sh idx"
  proof (cases "idx \<in> B")
    case True
    with assms(2) show ?thesis by (simp add: written_def)
  next
    case False
    with idx have A: "idx \<in> A" by simp
    have "?d \<noteq> []" using assms(4) by (simp add: disk_index_def)
    then have "butlast ?d @ [last ?d] = ?d" by simp
    moreover have "disk_index sel sh q \<noteq> ?d" if "q \<in> B" for q using assms(3) A that False by metis
    ultimately have "s2 (last ?d) (butlast ?d) = s1 (last ?d) (butlast ?d)"
      using assms(2) unfolding written_def by metis
    then show ?thesis using assms(1) A by (simp add: written_def cell_at_def)
  qed
next
  fix r c assume "\<forall>idx \<in> A \<union> B. disk_index sel sh idx \<noteq> c @ [r]"
  with assms(1,2) show "s2 r c = s0 r c" by (simp add: written_def)
qed

lemma written_assign:
  assumes "fixed_chunk sel sh ch" and "\<not> IsEmpty ch" and "sh \<noteq> []" and "no_duplicates sel sh" and "sel_fits sel sh"
    and "after = assign (chunk_values Pair (DimensionSpans ch)) (buffer_values sh buffer (DimensionSpans ch)) before"
  shows "written sel sh buffer (chunk_mems (DimensionSpans ch)) before after"
proof -
  let ?t = "DimensionSpans ch"
  let ?ps = "chunk_values Pair ?t" and ?vals = "buffer_values sh buffer ?t"
  have t: "tuple_ok sel sh ?t" using assms(1) by (simp add: fixed_chunk_def)
  have dist: "distinct ?ps" using fits_buffer_values [OF assms(1-5), of buffer] by (simp add: fits_def)
  have zip: "zip ?ps ?vals = map (\<lambda>p. (cell_at Pair (disk_index sel sh (mem_index ?t p)), buffer ! lin sh (mem_index ?t p)))
      (box (mem_sizes ?t))"
    by (rule nth_equalityI)
      (simp_all add: chunk_values_def buffer_values_def tuple_sizes [OF t, symmetric]
        tuple_positions(2) [OF t box_nth_in_box])
  show ?thesis
    unfolding written_def
  proof (intro conjI ballI allI impI)
    fix idx assume "idx \<in> chunk_mems ?t"
    then obtain p where p: "in_box (mem_sizes ?t) p" "idx = mem_index ?t p" by (auto simp: chunk_mems_def)
    then have "(cell_at Pair (disk_index sel sh idx), buffer ! lin sh idx) \<in> set (zip ?ps ?vals)"
      unfolding zip by (auto simp: set_box)
    then have "map_of (zip ?ps ?vals) (cell_at Pair (disk_index sel sh idx)) = Some (buffer ! lin sh idx)"
      using dist by (intro map_of_is_SomeI) (simp_all add: chunk_values_def buffer_values_def tuple_sizes [OF t, symmetric])
    then show "cell_at after (disk_index sel sh idx) = buffer ! lin sh idx"
      by (simp add: assms(6) assign_def cell_at_def)
  next
    fix r c assume none: "\<forall>idx \<in> chunk_mems ?t. disk_index sel sh idx \<noteq> c @ [r]"
    have "(r, c) \<notin> fst ` set (zip ?ps ?vals)"
    proof
      assume "(r, c) \<in> fst ` set (zip ?ps ?vals)"
      then obtain p where p: "in_box (mem_sizes ?t) p" "cell_at Pair (disk_index sel sh (mem_index ?t p)) = (r, c)"
        unfolding zip by (auto simp: set_box)
      have "disk_index sel sh (mem_index ?t p) \<noteq> []" using assms(3) by (simp add: disk_index_def)
      then have "disk_index sel sh (mem_index ?t p) = c @ [r]"
        using p(2) by (metis Pair_inject append_butlast_last_id cell_at_def)
      with none p(1) show False by (auto simp: chunk_mems_def)
    qed
    then have "map_of (zip ?ps ?vals) (r, c) = None" by (simp add: map_of_eq_None_iff)
    then show "after r c = before r c" by (simp add: assms(6) assign_def)
  qed
qed

lemma mems_read_index:
  assumes "\<forall>ch \<in> set chs. fixed_chunk sel sh ch" and "sh \<noteq> []" and "idx \<in> mems_read chs"
  shows "in_box sh idx \<and> (\<forall>i \<in> set (disk_index sel sh idx). 0 \<le> i)"
proof -
  from assms(3) obtain ch p where ch: "ch \<in> set chs" "\<not> IsEmpty ch"
    and p: "in_box (mem_sizes (DimensionSpans ch)) p" "idx = mem_index (DimensionSpans ch) p"
    by (auto simp: mems_read_def chunk_mems_def)
  have fc: "fixed_chunk sel sh ch" using assms(1) ch(1) by blast
  then have t: "tuple_ok sel sh (DimensionSpans ch)" by (simp add: fixed_chunk_def)
  show ?thesis
    using element_read [OF fc assms(2) p(1)] ch(2) tuple_positions(1,2) [OF t p(1)] p(2) by simp
qed

lemma write_chunk_list_written:
  assumes "\<forall>ch \<in> set chs. fixed_chunk sel sh ch" and "sh \<noteq> []" and "no_duplicates sel sh"
    and "sel_fits sel sh" and "writes_cells wr cells" and "length buffer = prod_list sh"
  shows "\<exists>s'. chunk_loop (write_chunk sz wr fresh buffer) (map Some chs) (s, n) =
      Inr (s', n + sz * sum_list (map ChunkElements (filter (\<lambda>ch. \<not> IsEmpty ch) chs))) \<and>
    written sel sh buffer (mems_read chs) (cells s) (cells s')"
  using assms(1)
proof (induction chs arbitrary: s n)
  case Nil
  then show ?case by (simp add: mems_read_def written_def)
next
  case (Cons ch chs)
  have ch: "fixed_chunk sel sh ch" and chs: "\<forall>ch \<in> set chs. fixed_chunk sel sh ch" using Cons.prems by auto
  show ?case
  proof (cases "IsEmpty ch")
    case True
    then have "mems_read (ch # chs) = mems_read chs" by (auto simp: mems_read_def)
    with Cons.IH [OF chs, of s n] True show ?thesis by (simp add: write_chunk_def)
  next
    case False
    let ?t = "DimensionSpans ch"
    from write_chunk_assigns [OF ch False assms(2-6), of sz fresh s n] obtain s1 where
      s1: "write_chunk sz wr fresh buffer ch (s, n) = Inr (s1, n + ChunkElements ch * sz)"
      and a: "cells s1 = assign (chunk_values Pair ?t) (buffer_values sh buffer ?t) (cells s)" by blast
    have w1: "written sel sh buffer (chunk_mems ?t) (cells s) (cells s1)"
      by (rule written_assign [OF ch False assms(2-4) a])
    from Cons.IH [OF chs, of s1 "n + ChunkElements ch * sz"] obtain s2 where
      s2: "chunk_loop (write_chunk sz wr fresh buffer) (map Some chs) (s1, n + ChunkElements ch * sz) =
        Inr (s2, n + ChunkElements ch * sz + sz * sum_list (map ChunkElements (filter (\<lambda>ch. \<not> IsEmpty ch) chs)))"
      and w2: "written sel sh buffer (mems_read chs) (cells s1) (cells s2)" by blast
    have mems: "mems_read (ch # chs) = chunk_mems ?t \<union> mems_read chs" using False by (auto simp: mems_read_def)
    have inj: "p = q" if "p \<in> chunk_mems ?t" "q \<in> mems_read chs" "disk_index sel sh p = disk_index sel sh q" for p q
    proof -
      have "p \<in> mems_read (ch # chs)" "q \<in> mems_read (ch # chs)" using that mems by auto
      from mems_read_index [OF Cons.prems assms(2) this(1)] mems_read_index [OF Cons.prems assms(2) this(2)] that(3)
      show ?thesis by (intro disk_index_inj [OF assms(3,4)]) auto
    qed
    then have "written sel sh buffer (mems_read (ch # chs)) (cells s) (cells s2)"
      unfolding mems by (intro written_union [OF w1 w2 _ assms(2)]) blast
    with s1 s2 False show ?thesis by (simp add: algebra_simps)
  qed
qed

text \<open>The elements of the result whose indices on disk are all there.\<close>

definition present :: "selection \<Rightarrow> shape \<Rightarrow> nat list set" where
  "present sel sh = {idx. in_box sh idx \<and> (\<forall>i \<in> set (disk_index sel sh idx). 0 \<le> i)}"

lemma WriteChunks_partition:
  assumes "fixed_result d sh" and "sel_fits sel sh" and "Make string_size sel d opts = Inr p"
    and "writes_cells wr cells" and "length buffer = prod_list sh"
    and "CasaDataTypeSize string_size (rs_dtype d) = Inr sz"
  shows "\<exists>s'. WriteChunks string_size wr fresh (dp_dtype p) (map Some (data_chunks p)) buffer (s, n) =
      Inr (s', n + sz * elements_read sel sh) \<and>
    written sel sh buffer (present sel sh) (cells s) (cells s')"
proof -
  from Make_fixed [OF assms(1,2), where string_size = string_size and opts = opts] assms(3) obtain L where
    nd: "no_duplicates sel sh" and dt: "dp_dtype p = rs_dtype d" and L: "chunks_of sel sh L (data_chunks p)" by auto
  have sh: "sh \<noteq> []" using assms(1) by (simp add: fixed_result_def)
  have fc: "\<forall>ch \<in> set (data_chunks p). fixed_chunk sel sh ch" using fixed_chunks [OF L assms(2) sh] by blast
  have "mems_read (data_chunks p) = present sel sh"
    using mems_read_index [OF fc sh] mems_read_chunks_of [OF L assms(2) sh] by (auto simp: present_def)
  with write_chunk_list_written [OF fc sh nd assms(2,4,5), of sz fresh s n]
    elements_read_count [OF L assms(2) sh] assms(6)
  show ?thesis by (simp add: WriteChunks_def dt DispatchCasaType_size [OF assms(6)] elements_read_def)
qed

section \<open>Properties\<close>

text \<open>
  C13. Writes of a fixed shape change the cells that the selection names and no others. Whenever a
  partition is made, writing its chunks returns. Each element of the input buffer whose indices on
  disk are all there is then the value of its cell element; elements with a negative index are
  written nowhere; every cell element that the selection does not name keeps its value; and the
  bytes reported are the size of the elements that were written.
\<close>

theorem WriteChunks_writes_selection:
  assumes "fixed_result d sh" and "sel_fits sel sh" and "Make string_size sel d opts = Inr p"
    and "writes_cells wr cells" and "length buffer = prod_list sh"
    and "CasaDataTypeSize string_size (rs_dtype d) = Inr sz"
  shows "\<exists>s'. WriteChunks string_size wr fresh (dp_dtype p) (map Some (data_chunks p)) buffer (s, n) =
      Inr (s', n + sz * elements_read sel sh) \<and>
    (\<forall>idx \<in> present sel sh. cells s' (last (disk_index sel sh idx)) (butlast (disk_index sel sh idx)) =
       buffer ! lin sh idx) \<and>
    (\<forall>r c. (\<forall>idx \<in> present sel sh. disk_index sel sh idx \<noteq> c @ [r]) \<longrightarrow> cells s' r c = cells s r c)"
  using WriteChunks_partition [OF assms, of fresh s n] by (simp add: written_def cell_at_def)

theorem WriteChunks_writes_selection_witness:
  "\<exists>p s'. Make 32 small_sel small_result no_split = Inr p \<and>
     WriteChunks 32 cells_writer 0 (dp_dtype p) (map Some (data_chunks p)) [1, 2, 3, 4, 5, 6] (\<lambda>r c. 0 :: int, 0) =
       Inr (s', 16) \<and> s' 4 [0] = 6 \<and> s' 5 [0] = 0"
proof -
  obtain p where p: "Make 32 small_sel small_result no_split = Inr p" using small_partition by blast
  have len: "length [1, 2, 3, 4, 5, 6 :: int] = prod_list [2, 3]" by simp
  have sz: "CasaDataTypeSize 32 (rs_dtype small_result) = Inr 4" by (simp add: small_result_def)
  have disk: "disk_index small_sel [2, 3] [1, 2] = [0, 4]" "lin [2, 3] [1, 2] = 5"
    "list_all (\<lambda>idx. disk_index small_sel [2, 3] idx \<noteq> [0, 5]) (box [2, 3])"
    "elements_read small_sel [2, 3] = 4" by code_simp+
  then have in4: "[1, 2] \<in> present small_sel [2, 3]"
    and no5: "\<forall>idx \<in> present small_sel [2, 3]. disk_index small_sel [2, 3] idx \<noteq> [0] @ [5]"
    by (auto simp: present_def list_all_iff set_box in_box_Cons)
  from WriteChunks_writes_selection [OF small_facts(1,2) p writes_cells_writer len sz, of 0 "\<lambda>r c. 0" 0]
  obtain s' where s': "WriteChunks 32 cells_writer 0 (dp_dtype p) (map Some (data_chunks p)) [1, 2, 3, 4, 5, 6] (\<lambda>r c. 0 :: int, 0) =
      Inr (s', 16)" "\<forall>idx \<in> present small_sel [2, 3].
        s' (last (disk_index small_sel [2, 3] idx)) (butlast (disk_index small_sel [2, 3] idx)) =
        [1, 2, 3, 4, 5, 6] ! lin [2, 3] idx"
    "\<forall>r c. (\<forall>idx \<in> present small_sel [2, 3]. disk_index small_sel [2, 3] idx \<noteq> c @ [r]) \<longrightarrow> s' r c = 0"
    using disk(4) by auto
  from bspec [OF s'(2) in4] disk(1,2) have "s' 4 [0] = 6" by simp
  moreover have "s' 5 [0] = 0" using s'(3) no5 by blast
  ultimately show ?thesis using p s'(1) by blast
qed

text \<open>
  C14. A write is read back: after the chunks of a partition were written, reading the chunks of the
  partition of the same selection, however either was split, gives a buffer with the values that
  were written; only elements with a negative index keep what the buffer held. If no index is
  negative, the buffer read is the buffer written.
\<close>

theorem WriteChunks_ReadChunks:
  assumes "fixed_result d sh" and "sel_fits sel sh"
    and "Make string_size sel d opts = Inr p" and "Make string_size sel d opts' = Inr p'"
    and "writes_cells wr cells" and "\<forall>s. reads_cells (rd s) (cells s)"
    and "length data = prod_list sh" and "length buffer = prod_list sh"
    and "CasaDataTypeSize string_size (rs_dtype d) = Inr sz"
  shows "\<exists>s' buffer'.
    WriteChunks string_size wr fresh (dp_dtype p) (map Some (data_chunks p)) data (s, n) = Inr (s', n + sz * elements_read sel sh) \<and>
    ReadChunks string_size (rd s') (dp_dtype p') (map Some (data_chunks p')) (buffer, m) =
      Inr (buffer', m + sz * elements_read sel sh) \<and>
    length buffer' = prod_list sh \<and>
    (\<forall>idx. in_box sh idx \<longrightarrow> buffer' ! lin sh idx =
       (if idx \<in> present sel sh then data ! lin sh idx else buffer ! lin sh idx)) \<and>
    (present sel sh = {idx. in_box sh idx} \<longrightarrow> buffer' = data)"
proof -
  from WriteChunks_partition [OF assms(1-3,5,7,9), of fresh s n] obtain s' where
    w: "WriteChunks string_size wr fresh (dp_dtype p) (map Some (data_chunks p)) data (s, n) = Inr (s', n + sz * elements_read sel sh)"
    and s': "written sel sh data (present sel sh) (cells s) (cells s')" by blast
  let ?b = "read_buffer sel sh (cells s') buffer"
  have "reads_cells (rd s') (cells s')" using assms(6) by simp
  note r = ReadChunks_partition [OF assms(1,2,4) this assms(8,9) refl, of m]
  have vals: "?b ! lin sh idx = (if idx \<in> present sel sh then data ! lin sh idx else buffer ! lin sh idx)"
    if "in_box sh idx" for idx
    using that s' lin_less [OF that] box_nth_lin [OF that]
    by (auto simp: read_buffer_def written_def present_def)
  moreover have "?b = data" if "present sel sh = {idx. in_box sh idx}"
  proof (rule nth_equalityI)
    show "length ?b = length data" using assms(7) by (simp add: read_buffer_def)
    fix a assume "a < length ?b"
    then have a: "a < prod_list sh" by (simp add: read_buffer_def)
    from vals [OF box_nth_in_box [OF a]] box_nth_in_box [OF a] that lin_box_nth [OF a]
    show "?b ! a = data ! a" by simp
  qed
  moreover have "length ?b = prod_list sh" by (simp add: read_buffer_def)
  ultimately show ?thesis using w r by blast
qed


theorem WriteChunks_ReadChunks_witness:
  "\<exists>p s'. Make 32 empty_selection small_result no_split = Inr p \<and>
     WriteChunks 32 cells_writer 0 (dp_dtype p) (map Some (data_chunks p)) [1, 2, 3, 4, 5, 6] (\<lambda>r c. 0 :: int, 0) =
       Inr (s', 24) \<and>
     ReadChunks 32 (cells_reader s') (dp_dtype p) (map Some (data_chunks p)) ([0, 0, 0, 0, 0, 0], 0) =
       Inr ([1, 2, 3, 4, 5, 6], 24)"
proof -
  have "case Make 32 empty_selection small_result no_split of Inr p \<Rightarrow> True | Inl e \<Rightarrow> False" by code_simp
  then obtain p where p: "Make 32 empty_selection small_result no_split = Inr p" by (auto split: sum.splits)
  have "MaybeFSpan empty_selection 0 2 = None" "MaybeFSpan empty_selection 1 2 = None" by code_simp+
  then have fits: "sel_fits empty_selection [2, 3]"
    by (simp add: sel_fits_def All_less_Suc2 numeral_2_eq_2)
  have len: "length [1, 2, 3, 4, 5, 6 :: int] = prod_list [2, 3]" "length [0, 0, 0, 0, 0, 0 :: int] = prod_list [2, 3]"
    by simp_all
  have sz: "CasaDataTypeSize 32 (rs_dtype small_result) = Inr 4" by (simp add: small_result_def)
  have facts: "elements_read empty_selection [2, 3] = 6"
    "list_all (\<lambda>idx. list_all (\<lambda>i. 0 \<le> i) (disk_index empty_selection [2, 3] idx)) (box [2, 3])" by code_simp+
  then have all: "present empty_selection [2, 3] = {idx. in_box [2, 3] idx}"
    unfolding present_def list_all_iff set_box by blast
  from WriteChunks_ReadChunks [where rd = cells_reader, OF small_facts(1) fits p p writes_cells_writer _ len sz, of 0 "\<lambda>r c. 0" 0 0]
    all facts(1) p
  show ?thesis by auto
qed

end
