(* ===== verification/MergeSort.thy ===== *)
theory MergeSort
  imports Prelude "HOL-Library.Word" "HOL-Library.List_Lexorder" "HOL-Library.Product_Lexorder"
begin

text \<open>
  \<open>PartitionMerge\<close> of \<open>src/arcae/lib/merge_sort.cc\<close>: the k-way merge of partitions that are sorted
  lexicographically over several arrays. Memory is bytes, in the little endian order of the
  platforms the library is built for; elements are compared by their decoded values, in which NaN
  sorts last, and are copied byte by byte.

  \<open>std::priority_queue\<close> promises of its top only that nothing in the queue orders before it; which
  of several equal rows it gives is open. The choice, \<open>pick\<close>, is a parameter of the model.
\<close>

section \<open>Values in memory\<close>

type_synonym byte = "8 word"

datatype MergeType = INT32 | INT64 | FLOAT32 | FLOAT64

text \<open>
  An IEEE 754 value: a finite one is counted in units of the least positive number of its format,
  which makes every finite value an integer. Zeros of both signs are the same value.
\<close>

datatype fp = NaN | Infinite bool | Finite int

definition bits_of :: "byte list \<Rightarrow> int" where
  "bits_of bs = horner_sum uint 256 bs"

definition int_value :: "byte list \<Rightarrow> int" where
  "int_value bs = signed_take_bit (8 * length bs - 1) (bits_of bs)"

definition fp_value :: "nat \<Rightarrow> nat \<Rightarrow> byte list \<Rightarrow> fp" where
  "fp_value ebits mbits bs =
     (let w = bits_of bs;
          negative = (drop_bit (ebits + mbits) w mod 2 = 1);
          e = take_bit ebits (drop_bit mbits w);
          m = take_bit mbits w
      in if e = 2 ^ ebits - 1 then (if m = 0 then Infinite negative else NaN)
         else let magnitude = (if e = 0 then m else (2 ^ mbits + m) * 2 ^ (nat e - 1))
              in Finite (if negative then - magnitude else magnitude))"

text \<open>\<open>lhs > rhs\<close> of floating point values is false if either is NaN.\<close>

fun fp_greater :: "fp \<Rightarrow> fp \<Rightarrow> bool" where
  "fp_greater NaN y = False"
| "fp_greater x NaN = False"
| "fp_greater (Finite x) (Finite y) = (y < x)"
| "fp_greater (Infinite neg) (Finite y) = (\<not> neg)"
| "fp_greater (Finite x) (Infinite neg) = neg"
| "fp_greater (Infinite neg) (Infinite neg') = (\<not> neg \<and> neg')"

section \<open>The merge\<close>

definition itemsize :: "MergeType \<Rightarrow> nat" where
  "itemsize ty = (case ty of INT32 \<Rightarrow> 4 | INT64 \<Rightarrow> 8 | FLOAT32 \<Rightarrow> 4 | FLOAT64 \<Rightarrow> 8)"

definition element :: "MergeType \<Rightarrow> byte list \<Rightarrow> nat \<Rightarrow> byte list" where
  "element ty bytes i = subspan (i * itemsize ty) (itemsize ty) bytes"

definition compare_int :: "int \<Rightarrow> int \<Rightarrow> int" where
  "compare_int l r = of_bool (r < l) - of_bool (l < r)"

definition compare_fp :: "fp \<Rightarrow> fp \<Rightarrow> int" where
  "compare_fp l r =
     (if l = NaN \<or> r = NaN then of_bool (l = NaN) - of_bool (r = NaN)
      else of_bool (fp_greater l r) - of_bool (fp_greater r l))"

text \<open>\<open>Compare<T>\<close> at the type \<open>GetTypeInfo\<close> selects.\<close>

definition Compare :: "MergeType \<Rightarrow> byte list \<Rightarrow> nat \<Rightarrow> byte list \<Rightarrow> nat \<Rightarrow> int" where
  "Compare ty lhs i rhs j =
     (let l = element ty lhs i; r = element ty rhs j
      in case ty of
           INT32 \<Rightarrow> compare_int (int_value l) (int_value r)
         | INT64 \<Rightarrow> compare_int (int_value l) (int_value r)
         | FLOAT32 \<Rightarrow> compare_fp (fp_value 8 23 l) (fp_value 8 23 r)
         | FLOAT64 \<Rightarrow> compare_fp (fp_value 11 52 l) (fp_value 11 52 r))"

record MergeData =
  md_row :: nat
  md_partition :: nat

text \<open>The lambda \<open>greater\<close>, whose loop visits the arrays from \<open>a\<close> on.\<close>

fun greater_loop :: "byte list list list \<Rightarrow> MergeType list \<Rightarrow> nat \<Rightarrow> MergeData \<Rightarrow> MergeData \<Rightarrow> bool" where
  "greater_loop inputs [] a lhs rhs = False"
| "greater_loop inputs (ty # types) a lhs rhs =
     (let cmp = Compare ty (inputs ! md_partition lhs ! a) (md_row lhs) (inputs ! md_partition rhs ! a) (md_row rhs)
      in if cmp \<noteq> 0 then 0 < cmp else greater_loop inputs types (a + 1) lhs rhs)"

definition greater :: "byte list list list \<Rightarrow> MergeType list \<Rightarrow> MergeData \<Rightarrow> MergeData \<Rightarrow> bool" where
  "greater inputs types = greater_loop inputs types 0"

text \<open>\<open>std::memcpy\<close> of one element; \<open>None\<close> if it leaves a buffer.\<close>

definition copy_element :: "MergeType \<Rightarrow> byte list \<Rightarrow> nat \<Rightarrow> byte list \<Rightarrow> nat \<Rightarrow> byte list option" where
  "copy_element ty out row inp prow =
     (let n = itemsize ty
      in if row * n + n \<le> length out \<and> prow * n + n \<le> length inp
         then Some (take (row * n) out @ element ty inp prow @ drop (row * n + n) out) else None)"

fun copy_row :: "MergeType list \<Rightarrow> byte list list \<Rightarrow> nat \<Rightarrow> byte list list \<Rightarrow> nat \<Rightarrow> byte list list option" where
  "copy_row [] outputs row inputs prow = Some outputs"
| "copy_row (ty # types) (out # outputs) row (inp # inputs) prow =
     Option.bind (copy_element ty out row inp prow) (\<lambda>out'.
     Option.bind (copy_row types outputs row inputs prow) (\<lambda>rest. Some (out' # rest)))"
| "copy_row (ty # types) outputs row inputs prow = None"

partial_function (option) merge_loop ::
  "(MergeData list \<Rightarrow> MergeData) \<Rightarrow> byte list list list \<Rightarrow> nat list \<Rightarrow> MergeType list \<Rightarrow> MergeData list \<Rightarrow> nat \<Rightarrow>
   byte list list \<Rightarrow> byte list list option" where
  "merge_loop pick inputs nrows types queue row outputs =
     (if queue = [] then Some outputs
      else let x = pick queue; prow = md_row x; p = md_partition x; queue' = remove1 x queue
           in Option.bind (copy_row types outputs row (inputs ! p) prow) (\<lambda>outputs'.
              merge_loop pick inputs nrows types
                (if prow + 1 < nrows ! p then \<lparr>md_row = prow + 1, md_partition = p\<rparr> # queue' else queue')
                (row + 1) outputs'))"

definition PartitionMerge ::
  "(MergeData list \<Rightarrow> MergeData) \<Rightarrow> byte list list list \<Rightarrow> nat list \<Rightarrow> MergeType list \<Rightarrow> byte list list \<Rightarrow>
   byte list list option" where
  "PartitionMerge pick inputs nrows types outputs =
     merge_loop pick inputs nrows types
       (map (\<lambda>p. \<lparr>md_row = 0, md_partition = p\<rparr>) (filter (\<lambda>p. 0 < nrows ! p) [0..<length inputs])) 0 outputs"

section \<open>The order of the rows\<close>

text \<open>A value as a pair that sorts like it: infinities and NaN around the finite values.\<close>

fun fp_key :: "fp \<Rightarrow> int \<times> int" where
  "fp_key (Infinite neg) = (if neg then (-1, 0) else (1, 0))"
| "fp_key (Finite x) = (0, x)"
| "fp_key NaN = (2, 0)"

definition elem_key :: "MergeType \<Rightarrow> byte list \<Rightarrow> int \<times> int" where
  "elem_key ty e =
     (case ty of
        INT32 \<Rightarrow> (0, int_value e) | INT64 \<Rightarrow> (0, int_value e)
      | FLOAT32 \<Rightarrow> fp_key (fp_value 8 23 e) | FLOAT64 \<Rightarrow> fp_key (fp_value 11 52 e))"

lemma compare_fp_key: "compare_fp l r = of_bool (fp_key r < fp_key l) - of_bool (fp_key l < fp_key r)"
  by (cases l; cases r) (auto simp: compare_fp_def less_prod_def)

lemma Compare_key:
  "Compare ty lhs i rhs j =
     of_bool (elem_key ty (element ty rhs j) < elem_key ty (element ty lhs i)) -
     of_bool (elem_key ty (element ty lhs i) < elem_key ty (element ty rhs j))"
  by (cases ty) (auto simp: Compare_def elem_key_def Let_def compare_int_def compare_fp_key less_prod_def)

text \<open>The key of a row of a partition, given as the partition's arrays.\<close>

fun row_key :: "MergeType list \<Rightarrow> byte list list \<Rightarrow> nat \<Rightarrow> (int \<times> int) list" where
  "row_key (ty # types) (arr # arrs) row = elem_key ty (element ty arr row) # row_key types arrs row"
| "row_key types arrs row = []"

lemma greater_loop_key:
  assumes "length types + a \<le> length (inputs ! md_partition l)" and "length types + a \<le> length (inputs ! md_partition r)"
  shows "greater_loop inputs types a l r \<longleftrightarrow>
    row_key types (drop a (inputs ! md_partition r)) (md_row r) < row_key types (drop a (inputs ! md_partition l)) (md_row l)"
  using assms
proof (induction types arbitrary: a)
  case (Cons ty types)
  let ?l = "inputs ! md_partition l" and ?r = "inputs ! md_partition r"
  have "drop a ?l = ?l ! a # drop (a + 1) ?l" "drop a ?r = ?r ! a # drop (a + 1) ?r"
    using Cons.prems by (simp_all add: Cons_nth_drop_Suc)
  moreover have "greater_loop inputs types (a + 1) l r \<longleftrightarrow>
      row_key types (drop (a + 1) ?r) (md_row r) < row_key types (drop (a + 1) ?l) (md_row l)"
    by (rule Cons.IH) (use Cons.prems in simp_all)
  ultimately show ?case by (auto simp: Compare_key Let_def)
qed simp

lemma greater_key:
  assumes "length types \<le> length (inputs ! md_partition l)" and "length types \<le> length (inputs ! md_partition r)"
  shows "greater inputs types l r \<longleftrightarrow>
    row_key types (inputs ! md_partition r) (md_row r) < row_key types (inputs ! md_partition l) (md_row l)"
  using greater_loop_key [of types 0 inputs l r] assms by (simp add: greater_def)

section \<open>Copying rows\<close>

text \<open>Rows of the partitions stored one after the other from row \<open>row\<close> of an output array.\<close>

definition stored :: "byte list list list \<Rightarrow> MergeType list \<Rightarrow> nat \<Rightarrow> nat \<Rightarrow> MergeData list \<Rightarrow> byte list \<Rightarrow> byte list" where
  "stored inputs types a row ds out =
     take (row * itemsize (types ! a)) out @
     concat (map (\<lambda>d. element (types ! a) (inputs ! md_partition d ! a) (md_row d)) ds) @
     drop ((row + length ds) * itemsize (types ! a)) out"

lemma itemsize_pos: "0 < itemsize ty"
  by (cases ty) (simp_all add: itemsize_def)

lemma length_element: "(i + 1) * itemsize ty \<le> length bytes \<Longrightarrow> length (element ty bytes i) = itemsize ty"
  by (simp add: element_def subspan_def)

lemma copy_row_eq:
  assumes "length outputs = length types" and "length inp = length types"
    and "\<forall>a < length types. (row + 1) * itemsize (types ! a) \<le> length (outputs ! a) \<and>
           (prow + 1) * itemsize (types ! a) \<le> length (inp ! a)"
  shows "\<exists>outputs'. copy_row types outputs row inp prow = Some outputs' \<and> length outputs' = length types \<and>
    (\<forall>a < length types. outputs' ! a = take (row * itemsize (types ! a)) (outputs ! a) @
       element (types ! a) (inp ! a) prow @ drop ((row + 1) * itemsize (types ! a)) (outputs ! a))"
  using assms
proof (induction types arbitrary: outputs inp)
  case (Cons ty types)
  obtain out outs where o: "outputs = out # outs" "length outs = length types" using Cons.prems(1) by (cases outputs) auto
  obtain i ins where i: "inp = i # ins" "length ins = length types" using Cons.prems(2) by (cases inp) auto
  have b: "(row + 1) * itemsize ty \<le> length out" "(prow + 1) * itemsize ty \<le> length i"
    using Cons.prems(3)[rule_format, of 0] o i by simp_all
  have "\<forall>a < length types. (row + 1) * itemsize (types ! a) \<le> length (outs ! a) \<and>
      (prow + 1) * itemsize (types ! a) \<le> length (ins ! a)"
    using Cons.prems(3) o i by (auto simp: All_less_Suc2 simp del: One_nat_def)
  from Cons.IH [OF o(2) i(2) this] obtain outs' where
    r: "copy_row types outs row ins prow = Some outs'" "length outs' = length types"
      "\<forall>a < length types. outs' ! a = take (row * itemsize (types ! a)) (outs ! a) @
         element (types ! a) (ins ! a) prow @ drop ((row + 1) * itemsize (types ! a)) (outs ! a)" by blast
  have c: "copy_element ty out row i prow =
      Some (take (row * itemsize ty) out @ element ty i prow @ drop ((row + 1) * itemsize ty) out)"
    using b by (simp add: copy_element_def Let_def algebra_simps)
  show ?case using r c o i by (auto simp: All_less_Suc2 simp del: One_nat_def)
qed simp

lemma stored_Nil: "stored inputs types a row [] out = out"
  by (simp add: stored_def)

lemma stored_Cons:
  assumes "(row + 1) * itemsize (types ! a) \<le> length out"
    and "length (element (types ! a) (inputs ! md_partition d ! a) (md_row d)) = itemsize (types ! a)"
  shows "stored inputs types a (row + 1) ds (take (row * itemsize (types ! a)) out @
      element (types ! a) (inputs ! md_partition d ! a) (md_row d) @ drop ((row + 1) * itemsize (types ! a)) out) =
    stored inputs types a row (d # ds) out"
proof -
  let ?n = "itemsize (types ! a)" and ?e = "element (types ! a) (inputs ! md_partition d ! a) (md_row d)"
  have row: "row * ?n \<le> length out" using assms(1) by simp
  have l: "length (take (row * ?n) out @ ?e) = (row + 1) * ?n" using row assms(2) by (simp add: min_def)
  have k: "(row + 1 + length ds) * ?n = (row + 1) * ?n + length ds * ?n" by (simp add: algebra_simps)
  have "take ((row + 1) * ?n) ((take (row * ?n) out @ ?e) @ drop ((row + 1) * ?n) out) = take (row * ?n) out @ ?e"
    using append_eq_conv_conj [of "take (row * ?n) out @ ?e"] unfolding l by metis
  moreover have "drop ((row + 1 + length ds) * ?n) ((take (row * ?n) out @ ?e) @ drop ((row + 1) * ?n) out) =
      drop ((row + length (d # ds)) * ?n) out"
  proof -
    have "drop ((row + 1) * ?n + length ds * ?n) ((take (row * ?n) out @ ?e) @ drop ((row + 1) * ?n) out) =
        drop (length ds * ?n) (drop ((row + 1) * ?n) out)"
      unfolding l [symmetric] by simp
    also have "\<dots> = drop ((row + length (d # ds)) * ?n) out" by (simp add: algebra_simps)
    finally show ?thesis unfolding k .
  qed
  ultimately show ?thesis by (simp add: stored_def)
qed

lemma length_stored:
  assumes "(row + length ds) * itemsize (types ! a) \<le> length out"
    and "\<forall>d \<in> set ds. length (element (types ! a) (inputs ! md_partition d ! a) (md_row d)) = itemsize (types ! a)"
  shows "length (stored inputs types a row ds out) = length out"
proof -
  have "sum_list (map (\<lambda>d. length (element (types ! a) (inputs ! md_partition d ! a) (md_row d))) ds) =
      length ds * itemsize (types ! a)" using assms(2) by (induction ds) auto
  then show ?thesis using assms(1) by (simp add: stored_def length_concat comp_def algebra_simps)
qed

section \<open>The loop\<close>

text \<open>What \<open>std::priority_queue\<close> promises of its top element.\<close>

definition picks :: "(MergeData list \<Rightarrow> MergeData) \<Rightarrow> byte list list list \<Rightarrow> MergeType list \<Rightarrow> bool" where
  "picks pick inputs types \<longleftrightarrow>
     (\<forall>q. q \<noteq> [] \<and> (\<forall>d \<in> set q. length (inputs ! md_partition d) = length types) \<longrightarrow>
        pick q \<in> set q \<and> (\<forall>y \<in> set q. \<not> greater inputs types (pick q) y))"

text \<open>What the caller is responsible for: the sizes of the buffers, and sorted partitions.\<close>

definition partition_ok :: "byte list list list \<Rightarrow> nat list \<Rightarrow> MergeType list \<Rightarrow> nat \<Rightarrow> bool" where
  "partition_ok inputs nrows types p \<longleftrightarrow> length (inputs ! p) = length types \<and>
     (\<forall>a < length types. nrows ! p * itemsize (types ! a) \<le> length (inputs ! p ! a)) \<and>
     sorted (map (row_key types (inputs ! p)) [0..<nrows ! p])"

definition md_key :: "byte list list list \<Rightarrow> MergeType list \<Rightarrow> MergeData \<Rightarrow> (int \<times> int) list" where
  "md_key inputs types d = row_key types (inputs ! md_partition d) (md_row d)"

definition rows_from :: "nat list \<Rightarrow> MergeData \<Rightarrow> MergeData list" where
  "rows_from nrows d =
     map (\<lambda>r. \<lparr>md_row = r, md_partition = md_partition d\<rparr>) [md_row d..<nrows ! md_partition d]"

definition remaining :: "nat list \<Rightarrow> MergeData list \<Rightarrow> MergeData list" where
  "remaining nrows q = concat (map (rows_from nrows) q)"

definition queue_ok :: "byte list list list \<Rightarrow> nat list \<Rightarrow> MergeType list \<Rightarrow> MergeData list \<Rightarrow> bool" where
  "queue_ok inputs nrows types q \<longleftrightarrow> distinct (map md_partition q) \<and>
     (\<forall>d \<in> set q. md_row d < nrows ! md_partition d \<and> partition_ok inputs nrows types (md_partition d))"

lemma picked:
  assumes "picks pick inputs types" and "queue_ok inputs nrows types q" and "q \<noteq> []"
  shows "pick q \<in> set q \<and> (\<forall>y \<in> set q. \<not> greater inputs types (pick q) y)"
proof -
  have "\<forall>d \<in> set q. length (inputs ! md_partition d) = length types"
    using assms(2) by (auto simp: queue_ok_def partition_ok_def)
  with assms(1,3) show ?thesis by (simp add: picks_def)
qed

text \<open>The queue after its row \<open>x\<close> is merged.\<close>

definition next_queue :: "nat list \<Rightarrow> MergeData list \<Rightarrow> MergeData \<Rightarrow> MergeData list" where
  "next_queue nrows q x =
     (if md_row x + 1 < nrows ! md_partition x
      then \<lparr>md_row = md_row x + 1, md_partition = md_partition x\<rparr> # remove1 x q else remove1 x q)"

lemma md_partition_rows: "y \<in> set (rows_from nrows d) \<Longrightarrow> md_partition y = md_partition d"
  by (auto simp: rows_from_def)

lemma rows_from_Cons:
  assumes "md_row x < nrows ! md_partition x"
  shows "rows_from nrows x = x # rows_from nrows \<lparr>md_row = md_row x + 1, md_partition = md_partition x\<rparr>"
  using assms by (simp add: rows_from_def upt_conv_Cons)

lemma mset_remaining: "mset (remaining nrows q) = sum_list (map (\<lambda>d. mset (rows_from nrows d)) q)"
  unfolding remaining_def by (induction q) auto

lemma mset_remaining_next:
  assumes "x \<in> set q" and "md_row x < nrows ! md_partition x"
  shows "mset (remaining nrows q) = add_mset x (mset (remaining nrows (next_queue nrows q x)))"
proof -
  have "mset q = mset (x # remove1 x q)" using assms(1) by simp
  then have "mset (map (\<lambda>d. mset (rows_from nrows d)) q) =
      mset (map (\<lambda>d. mset (rows_from nrows d)) (x # remove1 x q))"
    by (simp only: mset_map)
  then have "mset (remaining nrows q) = mset (remaining nrows (x # remove1 x q))"
    unfolding mset_remaining by (metis sum_mset_sum_list)
  also have "\<dots> = add_mset x (mset (remaining nrows (next_queue nrows q x)))"
    using rows_from_Cons [OF assms(2)] by (auto simp: remaining_def next_queue_def rows_from_def)
  finally show ?thesis .
qed

lemma queue_ok_next:
  assumes "queue_ok inputs nrows types q" and "x \<in> set q"
  shows "queue_ok inputs nrows types (next_queue nrows q x)"
proof -
  have inj: "inj_on md_partition (set q)" "distinct q" using assms(1) by (auto simp: queue_ok_def distinct_map)
  have "distinct (map md_partition (remove1 x q))"
    using inj by (auto simp: distinct_map intro: inj_on_subset [of _ "set q"] dest: set_remove1_subset [THEN subsetD])
  moreover have "md_partition x \<notin> md_partition ` set (remove1 x q)"
    using inj assms(2) by (auto simp: inj_on_def)
  ultimately show ?thesis
    using assms set_remove1_subset [of x q] by (auto simp: queue_ok_def next_queue_def)
qed

lemma filter_rows_from:
  "filter (\<lambda>d. md_partition d = p) (rows_from nrows d) = (if md_partition d = p then rows_from nrows d else [])"
  by (auto simp: filter_id_conv filter_empty_conv md_partition_rows)

lemma filter_remaining_none:
  "p \<notin> md_partition ` set q \<Longrightarrow> filter (\<lambda>d. md_partition d = p) (remaining nrows q) = []"
  by (auto simp: filter_empty_conv remaining_def md_partition_rows)

lemma filter_remaining:
  "distinct (map md_partition q) \<Longrightarrow> d \<in> set q \<Longrightarrow>
   filter (\<lambda>y. md_partition y = md_partition d) (remaining nrows q) = rows_from nrows d"
proof (induction q)
  case (Cons x q)
  show ?case
  proof (cases "x = d")
    case True
    with Cons.prems(1) filter_remaining_none [of "md_partition d" q nrows]
    show ?thesis by (auto simp: remaining_def filter_rows_from)
  next
    case False
    then have "md_partition x \<noteq> md_partition d" using Cons.prems by auto
    with Cons False show ?thesis by (simp add: remaining_def filter_rows_from)
  qed
qed simp

lemma filter_remaining_next:
  assumes "queue_ok inputs nrows types q" and "x \<in> set q"
  shows "filter (\<lambda>d. md_partition d = p) (remaining nrows q) =
    (if md_partition x = p then [x] else []) @ filter (\<lambda>d. md_partition d = p) (remaining nrows (next_queue nrows q x))"
proof -
  let ?q = "next_queue nrows q x" and ?x = "\<lparr>md_row = md_row x + 1, md_partition = md_partition x\<rparr>"
  have d: "distinct (map md_partition q)" "distinct (map md_partition ?q)" "md_row x < nrows ! md_partition x"
    using assms queue_ok_next [OF assms] by (auto simp: queue_ok_def)
  have dq: "distinct q" using d(1) by (simp add: distinct_map)
  show ?thesis
  proof (cases "md_partition x = p")
    case True
    have "filter (\<lambda>d. md_partition d = p) (remaining nrows ?q) = rows_from nrows ?x"
    proof (cases "md_row x + 1 < nrows ! md_partition x")
      case more: True
      then have "?x \<in> set ?q" by (simp add: next_queue_def)
      from filter_remaining [OF d(2) this, of nrows] True show ?thesis by simp
    next
      case False
      then have "p \<notin> md_partition ` set ?q"
        using d(1) assms(2) True dq by (auto simp: next_queue_def distinct_map inj_on_def)
      with False show ?thesis by (simp add: filter_remaining_none rows_from_def)
    qed
    then show ?thesis
      using filter_remaining [OF d(1) assms(2), of nrows] rows_from_Cons [OF d(3)] True by simp
  next
    case False
    show ?thesis
    proof (cases "p \<in> md_partition ` set q")
      case True
      then obtain y where y: "y \<in> set q" "md_partition y = p" by auto
      then have "y \<in> set ?q" using False dq by (auto simp: next_queue_def)
      from filter_remaining [OF d(2) this, of nrows] filter_remaining [OF d(1) y(1), of nrows] y(2) False
      show ?thesis by simp
    next
      case none: False
      then have "p \<notin> md_partition ` set ?q"
        using False set_remove1_subset [of x q] by (auto simp: next_queue_def)
      with none False show ?thesis by (simp add: filter_remaining_none)
    qed
  qed
qed

text \<open>Nothing that remains sorts before the row that is picked.\<close>

lemma picked_least:
  assumes "queue_ok inputs nrows types q" and "picks pick inputs types" and "q \<noteq> []"
    and "y \<in> set (remaining nrows q)"
  shows "md_key inputs types (pick q) \<le> md_key inputs types y"
proof -
  have x: "pick q \<in> set q" "\<forall>y \<in> set q. \<not> greater inputs types (pick q) y"
    using picked [OF assms(2,1,3)] by auto
  obtain d where d: "d \<in> set q" "y \<in> set (rows_from nrows d)" using assms(4) by (auto simp: remaining_def)
  have ok: "partition_ok inputs nrows types (md_partition d)" "partition_ok inputs nrows types (md_partition (pick q))"
    using assms(1) d(1) x(1) by (auto simp: queue_ok_def)
  then have "length types \<le> length (inputs ! md_partition (pick q))" "length types \<le> length (inputs ! md_partition d)"
    by (simp_all add: partition_ok_def)
  from greater_key [OF this] x(2) d(1) have "md_key inputs types (pick q) \<le> md_key inputs types d"
    by (auto simp: md_key_def not_less)
  also have "md_key inputs types d \<le> md_key inputs types y"
  proof -
    have r: "md_row d \<le> md_row y" "md_row y < nrows ! md_partition d" "md_partition y = md_partition d"
      using d(2) by (auto simp: rows_from_def)
    have "sorted (map (row_key types (inputs ! md_partition d)) [0..<nrows ! md_partition d])"
      using ok(1) by (simp add: partition_ok_def)
    from sorted_nth_mono [OF this r(1)] r show ?thesis by (simp add: md_key_def)
  qed
  finally show ?thesis .
qed

section \<open>The merge is correct\<close>

text \<open>The rows \<open>ds\<close> are a merge of the rows that remain in the queue.\<close>

definition merges :: "byte list list list \<Rightarrow> nat list \<Rightarrow> MergeType list \<Rightarrow> MergeData list \<Rightarrow> MergeData list \<Rightarrow> bool" where
  "merges inputs nrows types q ds \<longleftrightarrow> mset ds = mset (remaining nrows q) \<and>
     sorted (map (md_key inputs types) ds) \<and>
     (\<forall>p. filter (\<lambda>d. md_partition d = p) ds = filter (\<lambda>d. md_partition d = p) (remaining nrows q))"

lemma merges_Cons:
  assumes "queue_ok inputs nrows types q" and "picks pick inputs types" and "q \<noteq> []"
    and "merges inputs nrows types (next_queue nrows q (pick q)) ds"
  shows "merges inputs nrows types q (pick q # ds)"
proof -
  have x: "pick q \<in> set q" using picked [OF assms(2,1,3)] by simp
  then have row: "md_row (pick q) < nrows ! md_partition (pick q)" using assms(1) by (auto simp: queue_ok_def)
  have m: "mset (pick q # ds) = mset (remaining nrows q)"
    using assms(4) mset_remaining_next [OF x row] by (simp add: merges_def)
  have "\<forall>y \<in> set ds. md_key inputs types (pick q) \<le> md_key inputs types y"
    using picked_least [OF assms(1-3)] mset_eq_setD [OF m] by auto
  then show ?thesis
    using assms(4) m filter_remaining_next [OF assms(1) x] by (simp add: merges_def)
qed

lemma length_row_element:
  assumes "partition_ok inputs nrows types (md_partition d)" and "md_row d < nrows ! md_partition d" and "a < length types"
  shows "(md_row d + 1) * itemsize (types ! a) \<le> length (inputs ! md_partition d ! a)"
    and "length (element (types ! a) (inputs ! md_partition d ! a) (md_row d)) = itemsize (types ! a)"
proof -
  have "(md_row d + 1) * itemsize (types ! a) \<le> nrows ! md_partition d * itemsize (types ! a)"
    using assms(2) by (intro mult_le_mono1) simp
  then show "(md_row d + 1) * itemsize (types ! a) \<le> length (inputs ! md_partition d ! a)"
    using assms(1,3) by (auto simp: partition_ok_def)
  then show "length (element (types ! a) (inputs ! md_partition d ! a) (md_row d)) = itemsize (types ! a)"
    by (rule length_element)
qed

lemma merge_loop_step:
  assumes "q \<noteq> []"
  shows "merge_loop pick inputs nrows types q row outputs =
    Option.bind (copy_row types outputs row (inputs ! md_partition (pick q)) (md_row (pick q)))
      (\<lambda>outputs'. merge_loop pick inputs nrows types (next_queue nrows q (pick q)) (row + 1) outputs')"
  using assms by (subst merge_loop.simps) (simp add: Let_def next_queue_def)

lemma merge_loop_merges:
  assumes "picks pick inputs types" and "queue_ok inputs nrows types q" and "length outputs = length types"
    and "\<forall>a < length types. (row + length (remaining nrows q)) * itemsize (types ! a) \<le> length (outputs ! a)"
  shows "\<exists>ds outputs'. merge_loop pick inputs nrows types q row outputs = Some outputs' \<and>
    merges inputs nrows types q ds \<and> length outputs' = length types \<and>
    (\<forall>a < length types. outputs' ! a = stored inputs types a row ds (outputs ! a))"
  using assms(2-4)
proof (induction "length (remaining nrows q)" arbitrary: q row outputs)
  case 0
  have "q = []"
  proof (rule ccontr)
    assume "q \<noteq> []"
    then obtain d where "d \<in> set q" by (metis list.set_sel(1))
    with 0 have "rows_from nrows d = []" "md_row d < nrows ! md_partition d"
      by (auto simp: remaining_def queue_ok_def)
    then show False by (simp add: rows_from_Cons)
  qed
  with 0 show ?case
    by (subst merge_loop.simps) (auto simp: merges_def remaining_def stored_Nil intro!: exI [of _ "[]"])
next
  case (Suc n)
  let ?x = "pick q"
  have ne: "q \<noteq> []" using Suc.hyps(2) by (auto simp: remaining_def)
  then have x: "?x \<in> set q" using picked [OF assms(1) Suc.prems(1)] by simp
  then have ok: "partition_ok inputs nrows types (md_partition ?x)" "md_row ?x < nrows ! md_partition ?x"
    using Suc.prems(1) by (auto simp: queue_ok_def)
  let ?q = "next_queue nrows q ?x"
  have n: "length (remaining nrows q) = Suc (length (remaining nrows ?q))"
    using arg_cong [OF mset_remaining_next [OF x ok(2)], of size] by simp
  have cap: "(row + 1) * itemsize (types ! a) \<le> length (outputs ! a)" if "a < length types" for a
  proof -
    have "(row + 1) * itemsize (types ! a) \<le> (row + length (remaining nrows q)) * itemsize (types ! a)"
      using n by (intro mult_le_mono1) simp
    with Suc.prems(3) that show ?thesis by fastforce
  qed
  have "length (inputs ! md_partition ?x) = length types" using ok(1) by (simp add: partition_ok_def)
  moreover have "\<forall>a < length types. (row + 1) * itemsize (types ! a) \<le> length (outputs ! a) \<and>
      (md_row ?x + 1) * itemsize (types ! a) \<le> length (inputs ! md_partition ?x ! a)"
    using cap length_row_element(1) [OF ok] by blast
  ultimately obtain outs where c: "copy_row types outputs row (inputs ! md_partition ?x) (md_row ?x) = Some outs"
    "length outs = length types"
    "\<forall>a < length types. outs ! a = take (row * itemsize (types ! a)) (outputs ! a) @
       element (types ! a) (inputs ! md_partition ?x ! a) (md_row ?x) @ drop ((row + 1) * itemsize (types ! a)) (outputs ! a)"
    using copy_row_eq [OF Suc.prems(2), of "inputs ! md_partition ?x" row "md_row ?x"] by blast
  have st: "outs ! a = stored inputs types a row [?x] (outputs ! a)" if "a < length types" for a
    using c(3) that by (simp add: stored_def)
  have "length (outs ! a) = length (outputs ! a)" if "a < length types" for a
    unfolding st [OF that] using cap [OF that] length_row_element(2) [OF ok that] by (intro length_stored) simp_all
  then have "\<forall>a < length types. (row + 1 + length (remaining nrows ?q)) * itemsize (types ! a) \<le> length (outs ! a)"
    using Suc.prems(3) by (simp add: n)
  from Suc.hyps(1) [OF _ queue_ok_next [OF Suc.prems(1) x] c(2) this] Suc.hyps(2) n obtain ds outs' where
    l: "merge_loop pick inputs nrows types ?q (row + 1) outs = Some outs'" "merges inputs nrows types ?q ds"
      "length outs' = length types" "\<forall>a < length types. outs' ! a = stored inputs types a (row + 1) ds (outs ! a)" by auto
  have "outs' ! a = stored inputs types a row (?x # ds) (outputs ! a)" if "a < length types" for a
    using l(4) c(3) that stored_Cons [OF cap [OF that] length_row_element(2) [OF ok that]] by simp
  with l(1,3) c(1) merges_Cons [OF Suc.prems(1) assms(1) ne l(2)] show ?case
    unfolding merge_loop_step [OF ne] by (intro exI [of _ "?x # ds"] exI [of _ outs']) simp
qed

section \<open>Properties\<close>

definition all_rows :: "nat list \<Rightarrow> MergeData list" where
  "all_rows nrows =
     concat (map (\<lambda>p. map (\<lambda>r. \<lparr>md_row = r, md_partition = p\<rparr>) [0..<nrows ! p]) [0..<length nrows])"

lemma remaining_start:
  "remaining nrows (map (\<lambda>p. \<lparr>md_row = 0, md_partition = p\<rparr>) (filter (\<lambda>p. 0 < nrows ! p) ps)) =
   concat (map (\<lambda>p. map (\<lambda>r. \<lparr>md_row = r, md_partition = p\<rparr>) [0..<nrows ! p]) ps)"
  by (induction ps) (auto simp: remaining_def rows_from_def)

lemma length_all_rows: "length (all_rows nrows) = sum_list nrows"
proof -
  have "map (\<lambda>p. nrows ! p) [0..<length nrows] = nrows" by (rule map_nth)
  then show ?thesis by (simp add: all_rows_def length_concat comp_def)
qed

lemma element_stored:
  assumes "k < length ds" and "length ds * itemsize (types ! a) \<le> length out"
    and "\<forall>d \<in> set ds. length (element (types ! a) (inputs ! md_partition d ! a) (md_row d)) = itemsize (types ! a)"
  shows "element (types ! a) (stored inputs types a 0 ds out) k =
    element (types ! a) (inputs ! md_partition (ds ! k) ! a) (md_row (ds ! k))"
proof -
  let ?n = "itemsize (types ! a)"
  let ?bs = "map (\<lambda>d. element (types ! a) (inputs ! md_partition d ! a) (md_row d)) ds"
  have l: "sum_list (map length ?bs) = length ds * ?n" using assms(3) by (induction ds) auto
  have "k * ?n + ?n \<le> length (concat ?bs)"
    using mult_le_mono1 [of "k + 1" "length ds" ?n] assms(1) l by (simp add: length_concat algebra_simps)
  then have "subspan (k * ?n) ?n (concat ?bs @ drop (length ds * ?n) out) = subspan (k * ?n) ?n (concat ?bs)"
    by (simp add: subspan_def)
  also have "\<dots> = ?bs ! k" by (rule subspan_concat_block) (use assms(1,3) in auto)
  finally show ?thesis
    unfolding element_def [of _ "stored inputs types a 0 ds out"] using assms(1) by (simp add: stored_def)
qed

text \<open>
  C34. The merge of sorted partitions. For every choice a priority queue may make, and no access
  leaves a buffer, the merge returns with the rows of all partitions, each exactly once, in
  ascending lexicographic order (NaN last), those of one partition in their own order. Every element
  of a row is copied byte by byte, and the outputs keep their sizes.
\<close>

theorem PartitionMerge_merges:
  assumes "picks pick inputs types" and "length nrows = length inputs" and "length outputs = length types"
    and "\<forall>p < length inputs. partition_ok inputs nrows types p"
    and "\<forall>a < length types. sum_list nrows * itemsize (types ! a) \<le> length (outputs ! a)"
  shows "\<exists>order outputs'. PartitionMerge pick inputs nrows types outputs = Some outputs' \<and>
    mset order = mset (all_rows nrows) \<and> sorted (map (md_key inputs types) order) \<and>
    (\<forall>p. filter (\<lambda>d. md_partition d = p) order = filter (\<lambda>d. md_partition d = p) (all_rows nrows)) \<and>
    length outputs' = length types \<and>
    (\<forall>a < length types. length (outputs' ! a) = length (outputs ! a) \<and>
       (\<forall>k < sum_list nrows. element (types ! a) (outputs' ! a) k =
          element (types ! a) (inputs ! md_partition (order ! k) ! a) (md_row (order ! k))))"
proof -
  let ?q = "map (\<lambda>p. \<lparr>md_row = 0, md_partition = p\<rparr>) (filter (\<lambda>p. 0 < nrows ! p) [0..<length inputs])"
  have rest: "remaining nrows ?q = all_rows nrows" by (simp add: remaining_start all_rows_def assms(2))
  have "map md_partition ?q = filter (\<lambda>p. 0 < nrows ! p) [0..<length inputs]" by (simp add: comp_def)
  then have q: "queue_ok inputs nrows types ?q" using assms(4) by (simp add: queue_ok_def del: map_map)
  have "\<forall>a < length types. (0 + length (remaining nrows ?q)) * itemsize (types ! a) \<le> length (outputs ! a)"
    unfolding rest length_all_rows using assms(5) by simp
  from merge_loop_merges [OF assms(1) q assms(3) this] obtain ds outs where
    m: "merge_loop pick inputs nrows types ?q 0 outputs = Some outs" "merges inputs nrows types ?q ds"
      "length outs = length types" "\<forall>a < length types. outs ! a = stored inputs types a 0 ds (outputs ! a)" by blast
  have ds: "mset ds = mset (all_rows nrows)" using m(2) rest by (simp add: merges_def)
  then have len: "length ds = sum_list nrows" by (metis length_all_rows mset_eq_length)
  have el: "length (element (types ! a) (inputs ! md_partition d ! a) (md_row d)) = itemsize (types ! a)"
    if "a < length types" "d \<in> set ds" for a d
  proof -
    have "d \<in> set (all_rows nrows)" using that(2) mset_eq_setD [OF ds] by simp
    then have "md_partition d < length inputs" "md_row d < nrows ! md_partition d"
      using assms(2) by (auto simp: all_rows_def)
    with assms(4) that(1) show ?thesis by (intro length_row_element(2)) auto
  qed
  have "length (outs ! a) = length (outputs ! a) \<and>
      (\<forall>k < sum_list nrows. element (types ! a) (outs ! a) k =
          element (types ! a) (inputs ! md_partition (ds ! k) ! a) (md_row (ds ! k)))" if a: "a < length types" for a
    using length_stored [of 0 ds types a "outputs ! a" inputs] element_stored [of _ ds types a "outputs ! a" inputs]
      m(4) assms(5) el [OF a] a len by auto
  with m ds rest show ?thesis unfolding PartitionMerge_def by (intro exI [of _ ds] exI [of _ outs]) (auto simp: merges_def)
qed

text \<open>A priority queue that gives the first of the least rows.\<close>

definition first_least :: "byte list list list \<Rightarrow> MergeType list \<Rightarrow> MergeData list \<Rightarrow> MergeData" where
  "first_least inputs types q = arg_min_list (md_key inputs types) q"

lemma picks_first_least: "picks (first_least inputs types) inputs types"
  unfolding picks_def
proof (intro allI impI)
  fix q :: "MergeData list"
  assume q: "q \<noteq> [] \<and> (\<forall>d \<in> set q. length (inputs ! md_partition d) = length types)"
  let ?x = "first_least inputs types q"
  have x: "?x \<in> set q" using q by (simp add: first_least_def arg_min_list_in)
  have "md_key inputs types ?x = Min (md_key inputs types ` set q)"
    unfolding first_least_def using q by (simp add: f_arg_min_list_f)
  then have "md_key inputs types ?x \<le> md_key inputs types y" if "y \<in> set q" for y using that by simp
  with x q show "?x \<in> set q \<and> (\<forall>y \<in> set q. \<not> greater inputs types ?x y)"
    by (auto simp: greater_key md_key_def not_less)
qed

definition merge_example :: "byte list list list" where
  "merge_example = [[[255, 255, 255, 255, 3, 0, 0, 0]], [[2, 0, 0, 0]]]"

theorem PartitionMerge_merges_witness:
  "\<exists>outputs'. PartitionMerge (first_least merge_example [INT32]) merge_example [2, 1] [INT32] [replicate 12 0] = Some outputs' \<and>
     length (outputs' ! 0) = 12"
proof -
  have "partition_ok merge_example [2, 1] [INT32] 0" "partition_ok merge_example [2, 1] [INT32] 1"
    unfolding partition_ok_def by code_simp+
  then have "\<forall>p < length merge_example. partition_ok merge_example [2, 1] [INT32] p"
    by (simp add: merge_example_def less_Suc_eq)
  moreover have "length [2, 1 :: nat] = length merge_example" by (simp add: merge_example_def)
  ultimately show ?thesis
    using PartitionMerge_merges [OF picks_first_least, of "[2, 1]" merge_example "[replicate 12 0]" "[INT32]"]
    by (auto simp: itemsize_def)
qed

end
