(* ===== verification/Config.thy ===== *)
theory Config
  imports Prelude "HOL-Library.List_Lexorder" "HOL-Library.Char_ord"
begin

text \<open>
  The configuration of the library, \<open>cpp/arcae/configuration.h\<close> and \<open>configuration.cc\<close>, the locator
  that owns it, \<open>service_locator.cc\<close>, and the setting the conversion of results reads,
  \<open>GetConvertStrategy\<close> of \<open>read_impl.cc\<close>. A \<open>std::map\<close> with string keys is an association list in
  ascending order of its keys, as characters compare by their codes in both.
\<close>

type_synonym configuration = "(string \<times> string) list"

definition ConfigSize :: "configuration \<Rightarrow> nat" where
  "ConfigSize kvmap = length kvmap"

definition GetKeys :: "configuration \<Rightarrow> string list" where
  "GetKeys kvmap = map fst kvmap"

text \<open>\<open>kvmap_[key] = value\<close>\<close>

fun SetValue :: "string \<Rightarrow> 'v \<Rightarrow> (string \<times> 'v) list \<Rightarrow> (string \<times> 'v) list" where
  "SetValue key v [] = [(key, v)]"
| "SetValue key v ((k, w) # kvmap) =
     (if key < k then (key, v) # (k, w) # kvmap
      else if key = k then (key, v) # kvmap
      else (k, w) # SetValue key v kvmap)"

definition GetValue :: "configuration \<Rightarrow> string \<Rightarrow> string result" where
  "GetValue kvmap key = (case map_of kvmap key of Some v \<Rightarrow> Inr v | None \<Rightarrow> Inl (KeyError [Str key]))"

definition GetDefault :: "configuration \<Rightarrow> string \<Rightarrow> string \<Rightarrow> string" where
  "GetDefault kvmap key default_value = (case map_of kvmap key of Some v \<Rightarrow> v | None \<Rightarrow> default_value)"

definition Delete :: "string \<Rightarrow> configuration \<Rightarrow> bool result \<times> configuration" where
  "Delete key kvmap =
     (case map_of kvmap key of
        Some v \<Rightarrow> (Inr True, filter (\<lambda>(k, w). k \<noteq> key) kvmap)
      | None \<Rightarrow> (Inl (KeyError [Str key]), kvmap))"

definition SafeMultiThreadedWrites :: "unit result" where
  "SafeMultiThreadedWrites = Inl (NotImplemented [Str ''Safe Multi-threaded write support''])"

text \<open>The service locator: the configuration, once there is one.\<close>

type_synonym locator = "configuration option"

definition SetConfigurationService :: "configuration option \<Rightarrow> locator \<Rightarrow> locator" where
  "SetConfigurationService service loc = service"

definition locate_configuration :: "locator \<Rightarrow> configuration \<times> locator" where
  "locate_configuration loc = (case loc of Some c \<Rightarrow> (c, loc) | None \<Rightarrow> ([], Some []))"

section \<open>Maps in ascending order\<close>

definition map_ok :: "(string \<times> 'v) list \<Rightarrow> bool" where
  "map_ok kvmap \<longleftrightarrow> sorted_wrt (<) (map fst kvmap)"

lemma set_SetValue_keys: "set (map fst (SetValue key v kvmap)) = insert key (set (map fst kvmap))"
  by (induction key v kvmap rule: SetValue.induct) auto

lemma map_ok_SetValue: "map_ok kvmap \<Longrightarrow> map_ok (SetValue key v kvmap)"
proof (induction key v kvmap rule: SetValue.induct)
  case (2 key v k w kvmap)
  have keys: "\<forall>x \<in> set (map fst (SetValue key v kvmap)). x = key \<or> x \<in> set (map fst kvmap)"
    by (simp only: set_SetValue_keys insert_iff simp_thms Ball_def)
  have "k < key" if "\<not> key < k" "key \<noteq> k" using that by simp
  with 2 keys show ?case by (fastforce simp: map_ok_def)
qed (simp add: map_ok_def)

lemma map_of_SetValue: "map_ok kvmap \<Longrightarrow> map_of (SetValue key v kvmap) = (map_of kvmap)(key \<mapsto> v)"
proof (induction key v kvmap rule: SetValue.induct)
  case (2 key v k w kvmap)
  then show ?case by (auto simp: map_ok_def fun_eq_iff)
qed auto

lemma map_ok_filter: "map_ok kvmap \<Longrightarrow> map_ok (filter P kvmap)"
  unfolding map_ok_def by (induction kvmap) auto

lemma map_of_filter_key: "map_of (filter (\<lambda>(k, w). k \<noteq> key) kvmap) = (map_of kvmap)(key := None)"
  by (induction kvmap) (auto simp: fun_eq_iff)

text \<open>
  The interface the settings of the library rely on: a store that keeps its invariant and whose
  lookups see the last write to the key.
\<close>

locale settings =
  fixes ok :: "'c \<Rightarrow> bool"
    and lookup :: "'c \<Rightarrow> string \<Rightarrow> string option"
    and assign :: "string \<Rightarrow> string \<Rightarrow> 'c \<Rightarrow> 'c"
    and remove :: "string \<Rightarrow> 'c \<Rightarrow> 'c"
  assumes ok_assign: "ok c \<Longrightarrow> ok (assign k v c)"
    and ok_remove: "ok c \<Longrightarrow> ok (remove k c)"
    and lookup_assign: "ok c \<Longrightarrow> lookup (assign k v c) = (lookup c)(k \<mapsto> v)"
    and lookup_remove: "ok c \<Longrightarrow> lookup (remove k c) = (lookup c)(k := None)"
begin

lemma assign_assign: "ok c \<Longrightarrow> lookup (assign k v (assign k w c)) = lookup (assign k v c)"
  by (simp add: ok_assign lookup_assign)

lemma assign_commute: "ok c \<Longrightarrow> k \<noteq> k' \<Longrightarrow> lookup (assign k v (assign k' w c)) = lookup (assign k' w (assign k v c))"
  by (simp add: ok_assign lookup_assign fun_upd_twist)

lemma remove_assign: "ok c \<Longrightarrow> lookup (remove k (assign k v c)) = lookup (remove k c)"
  by (simp add: ok_assign lookup_assign lookup_remove)

text \<open>Any sequence of changes is the same sequence of changes to the abstract map.\<close>

lemma lookup_folds:
  "ok c \<Longrightarrow>
     (let change = (\<lambda>(k, w). case w of Some v \<Rightarrow> assign k v | None \<Rightarrow> remove k)
      in ok (fold change ops c) \<and> lookup (fold change ops c) = fold (\<lambda>(k, w) m. m(k := w)) ops (lookup c))"
proof (induction ops arbitrary: c)
  case (Cons op ops)
  obtain k w where op: "op = (k, w)" by (cases op)
  show ?case
  proof (cases w)
    case None
    with Cons.IH [OF ok_remove [OF Cons.prems, of k]] Cons.prems op show ?thesis
      by (simp add: lookup_remove Let_def)
  next
    case (Some v)
    with Cons.IH [OF ok_assign [OF Cons.prems, of k v]] Cons.prems op show ?thesis
      by (simp add: lookup_assign Let_def)
  qed
qed simp

end

interpretation config: settings map_ok map_of SetValue "\<lambda>key c. snd (Delete key c)"
proof
  fix c :: configuration and k v
  assume c: "map_ok c"
  show "map_ok (SetValue k v c)" by (rule map_ok_SetValue [OF c])
  show "map_of (SetValue k v c) = (map_of c)(k \<mapsto> v)" by (rule map_of_SetValue [OF c])
  show "map_ok (snd (Delete k c))" using c by (auto simp: Delete_def map_ok_filter split: option.splits)
  show "map_of (snd (Delete k c)) = (map_of c)(k := None)"
    by (auto simp: Delete_def map_of_filter_key split: option.splits)
qed

section \<open>The conversion strategy\<close>

datatype ConvertStrategy = FIXED | LIST

text \<open>\<open>s.find(pattern) != npos\<close>\<close>

definition contains :: "string \<Rightarrow> string \<Rightarrow> bool" where
  "contains s pattern = list_ex (\<lambda>i. take (length pattern) (drop i s) = pattern) [0..<length s + 1]"

definition convert_strategy :: "configuration \<Rightarrow> ConvertStrategy result" where
  "convert_strategy config =
     (let strategy = GetDefault config ''casa.convert.strategy'' ''fixed''
      in if contains strategy ''fixed'' then Inr FIXED
         else if contains strategy ''list'' then Inr LIST
         else Inl (Invalid [Str ''Invalid 'casa.convert.strategy='', Str strategy, Str [CHR 0x27]]))"

definition GetConvertStrategy :: "locator \<Rightarrow> ConvertStrategy result \<times> locator" where
  "GetConvertStrategy loc =
     (let (config, loc') = locate_configuration loc in (convert_strategy config, loc'))"

section \<open>Properties\<close>

definition change :: "string \<times> string option \<Rightarrow> configuration \<Rightarrow> configuration" where
  "change = (\<lambda>(k, w). case w of Some v \<Rightarrow> SetValue k v | None \<Rightarrow> (\<lambda>c. snd (Delete k c)))"

lemma fold_change:
  assumes "map_ok c"
  shows "map_ok (fold change ops c)"
    and "map_of (fold change ops c) = fold (\<lambda>(k, w) m. m(k := w)) ops (map_of c)"
  using config.lookup_folds [OF assms, of ops] by (simp_all add: change_def Let_def)

text \<open>
  The configuration is a map from keys to values: after any sequence of sets and deletes, a
  lookup sees the last change to its key, and fails, or gives its default, if that was a delete or
  there was none; and the keys are listed in ascending order, each once.
\<close>

theorem configuration_is_map:
  assumes "map_ok c"
  shows "let c' = fold change ops c; m = fold (\<lambda>(k, w) m. m(k := w)) ops (map_of c)
    in GetValue c' key = (case m key of Some v \<Rightarrow> Inr v | None \<Rightarrow> Inl (KeyError [Str key])) \<and>
       GetDefault c' key default_value = (case m key of Some v \<Rightarrow> v | None \<Rightarrow> default_value) \<and>
       fst (Delete key c') = (case m key of Some v \<Rightarrow> Inr True | None \<Rightarrow> Inl (KeyError [Str key])) \<and>
       sorted (GetKeys c') \<and> distinct (GetKeys c') \<and> set (GetKeys c') = dom m \<and> ConfigSize c' = card (dom m)"
proof -
  let ?c = "fold change ops c"
  note ok = fold_change(1) [OF assms, of ops] and m = fold_change(2) [OF assms, of ops]
  have "sorted (GetKeys ?c)" "distinct (GetKeys ?c)" using ok by (simp_all add: map_ok_def GetKeys_def strict_sorted_iff)
  moreover have "set (GetKeys ?c) = dom (map_of ?c)" by (simp add: GetKeys_def dom_map_of_conv_image_fst)
  moreover have "ConfigSize ?c = card (set (GetKeys ?c))"
    using calculation(2) by (metis ConfigSize_def GetKeys_def distinct_card length_map)
  ultimately show ?thesis
    unfolding Let_def m [symmetric] by (simp add: GetValue_def GetDefault_def Delete_def split: option.split)
qed

theorem configuration_is_map_witness:
  "GetValue (fold change [(''b'', Some ''1''), (''a'', Some ''2''), (''b'', None)] []) ''a'' = Inr ''2'' \<and>
   sorted (GetKeys (fold change [(''b'', Some ''1''), (''a'', Some ''2''), (''b'', None)] []))"
  using configuration_is_map [of "[]" "[(''b'', Some ''1''), (''a'', Some ''2''), (''b'', None)]" "''a''"]
  by (simp add: map_ok_def Let_def)

text \<open>
  The conversion strategy after any changes to the configuration the locator owns, the first
  use creating an empty one: fixed while it is not set, and otherwise what the last value set names.
\<close>

theorem GetConvertStrategy_last_set:
  assumes "map_ok (fst (locate_configuration loc))"
  shows "fst (GetConvertStrategy (Some (fold change ops (fst (locate_configuration loc))))) =
    (case fold (\<lambda>(k, w) m. m(k := w)) ops (map_of (fst (locate_configuration loc))) ''casa.convert.strategy'' of
       None \<Rightarrow> Inr FIXED
     | Some s \<Rightarrow> if contains s ''fixed'' then Inr FIXED else if contains s ''list'' then Inr LIST
         else Inl (Invalid [Str ''Invalid 'casa.convert.strategy='', Str s, Str [CHR 0x27]]))"
proof -
  have "contains ''fixed'' ''fixed''" by code_simp
  then show ?thesis
    using fold_change(2) [OF assms, of ops]
    by (simp add: GetConvertStrategy_def convert_strategy_def locate_configuration_def GetDefault_def Let_def
        split: option.splits)
qed

theorem GetConvertStrategy_last_set_witness:
  "fst (GetConvertStrategy (Some (fold change [(''casa.convert.strategy'', Some ''list'')] []))) = Inr LIST"
proof -
  have "contains ''list'' ''list'' \<and> \<not> contains ''list'' ''fixed''" by code_simp
  then show ?thesis
    using GetConvertStrategy_last_set [of None "[(''casa.convert.strategy'', Some ''list'')]"]
    by (simp add: locate_configuration_def map_ok_def)
qed

end
