(* ===== verification/TableUtils.thy ===== *)
theory TableUtils
  imports Config TypeTraits "HOL-Library.Sublist"
begin

text \<open>
  \<open>cpp/arcae/table_utils.h\<close> and \<open>table_utils.cc\<close>: the checks of columns and types, reopening a table
  for writing, and the parsing and application of cache sizes. Parsing JSON is casacore's: the
  parser is a parameter that gives the fields of the record in order, each with the integer
  \<open>asInt\<close> returns, or no value if it throws. The calls to \<open>setMaximumCacheSize\<close> are recorded in order.
\<close>

section \<open>Columns and types\<close>

definition ColumnExists :: "string list \<Rightarrow> string \<Rightarrow> unit result" where
  "ColumnExists columns column =
     require (column \<in> set columns) (Invalid [Str ''Column '', Str column, Str '' does not exist''])"

definition IsPrimitiveType :: "(casa_dtype \<Rightarrow> bool) \<Rightarrow> casa_dtype \<Rightarrow> bool" where
  "IsPrimitiveType isNumeric dt \<longleftrightarrow> isNumeric dt \<or> dt = TpBool \<or> dt = TpInt64"

text \<open>The table's writability, and whether it had to be reopened.\<close>

definition MaybeReopenRW :: "bool \<Rightarrow> bool \<times> bool" where
  "MaybeReopenRW isWritable = (if isWritable then (False, isWritable) else (True, True))"

section \<open>Cache size specifications\<close>

definition StripPrefix :: "string \<Rightarrow> string \<Rightarrow> bool \<times> string" where
  "StripPrefix name pre =
     (if take (length pre) name \<noteq> pre then (False, name) else (True, drop (length pre) name))"

record CacheSizeSpec =
  default_mib :: "int option"
  sm_mib :: "(string \<times> int) list"
  col_mib :: "(string \<times> int) list"

text \<open>\<open>std::map::emplace\<close> leaves an existing key alone.\<close>

definition emplace :: "string \<Rightarrow> int \<Rightarrow> (string \<times> int) list \<Rightarrow> (string \<times> int) list" where
  "emplace key v m = (if map_of m key = None then SetValue key v m else m)"

fun parse_fields :: "(string \<times> int option) list \<Rightarrow> CacheSizeSpec \<Rightarrow> CacheSizeSpec result" where
  "parse_fields [] spec = Inr spec"
| "parse_fields ((name, asInt) # fs) spec =
     (case asInt of
        None \<Rightarrow> Inl (Invalid [Str ''cache_size value for '', Str name, Str '' is not an integer''])
      | Some value \<Rightarrow>
          if value < 0 then Inl (Invalid [Str ''cache_size value for '', Str name, Str '' must be >= 0''])
          else if name = ''default'' then parse_fields fs (spec\<lparr>default_mib := Some value\<rparr>)
          else (case StripPrefix name ''stman:'' of
                  (True, sm) \<Rightarrow> parse_fields fs (spec\<lparr>sm_mib := emplace sm value (sm_mib spec)\<rparr>)
                | (False, _) \<Rightarrow>
                    (case StripPrefix name ''column:'' of
                       (True, col) \<Rightarrow> parse_fields fs (spec\<lparr>col_mib := emplace col value (col_mib spec)\<rparr>)
                     | (False, _) \<Rightarrow> Inl (Invalid [Str ''Unknown cache_size key '', Str name]))))"

definition empty_spec :: CacheSizeSpec where
  "empty_spec = \<lparr>default_mib = None, sm_mib = [], col_mib = []\<rparr>"

definition ParseCacheSizeSpec :: "(string \<Rightarrow> string + (string \<times> int option) list) \<Rightarrow> string \<Rightarrow> CacheSizeSpec result" where
  "ParseCacheSizeSpec parse json =
     (case parse json of
        Inl what \<Rightarrow> Inl (Invalid [Str ''Failed to parse cache_size '', Str json, Str what])
      | Inr fs \<Rightarrow> parse_fields fs empty_spec)"

section \<open>Applying cache sizes\<close>

type_synonym dm_info = "(string \<times> string list) list"

definition kDefaultCacheSizeMiB :: int where
  "kDefaultCacheSizeMiB = 128"

text \<open>The columns of each storage manager, and all columns in ascending order.\<close>

fun collect_columns ::
  "dm_info \<Rightarrow> (string \<times> string list) list \<Rightarrow> (string \<times> unit) list \<Rightarrow>
   (string \<times> string list) list \<times> (string \<times> unit) list" where
  "collect_columns [] sm_columns all_columns = (sm_columns, all_columns)"
| "collect_columns ((name, columns) # dms) sm_columns all_columns =
     collect_columns dms
       (SetValue name ((case map_of sm_columns name of Some cs \<Rightarrow> cs | None \<Rightarrow> []) @ columns) sm_columns)
       (fold (\<lambda>column. SetValue column ()) columns all_columns)"

type_synonym size_calls = "(string \<times> int) list"

definition set_column :: "string \<Rightarrow> int \<Rightarrow> size_calls" where
  "set_column column mib = (if 0 < mib then [(column, mib)] else [])"

definition ApplyCacheSizes :: "dm_info \<Rightarrow> CacheSizeSpec \<Rightarrow> size_calls result" where
  "ApplyCacheSizes dminfo spec =
     (let default = (case default_mib spec of Some v \<Rightarrow> v | None \<Rightarrow> kDefaultCacheSizeMiB);
          (sm_columns, columns) = collect_columns dminfo [] [];
          all_columns = map fst columns
      in rbind (rfor (\<lambda>(sm, mib). require (map_of sm_columns sm \<noteq> None)
                  (Invalid [Str ''Unknown storage manager '', Str sm, Str '' in cache_size''])) (sm_mib spec)) (\<lambda>_.
         rbind (rfor (\<lambda>(column, mib). require (column \<in> set all_columns)
                  (Invalid [Str ''Unknown column '', Str column, Str '' in cache_size''])) (col_mib spec)) (\<lambda>_.
         Inr (concat (map (\<lambda>column. set_column column default) all_columns) @
              concat (map (\<lambda>(sm, mib). concat (map (\<lambda>column. set_column column mib)
                            (case map_of sm_columns sm of Some cs \<Rightarrow> cs | None \<Rightarrow> []))) (sm_mib spec)) @
              concat (map (\<lambda>(column, mib). set_column column mib) (col_mib spec))))))"

text \<open>
  The effect of the calls: casacore caps the storage manager of the column, and the last call wins.
  \<open>sm_of\<close> is the storage manager of a column.
\<close>

definition apply_calls :: "(string \<Rightarrow> string) \<Rightarrow> size_calls \<Rightarrow> (string \<rightharpoonup> int) \<Rightarrow> (string \<rightharpoonup> int)" where
  "apply_calls sm_of calls caps = fold (\<lambda>(column, mib) caps. caps(sm_of column \<mapsto> mib)) calls caps"

section \<open>The columns of the storage managers\<close>

lemma map_ok_fold_SetValue: "map_ok m \<Longrightarrow> map_ok (fold (\<lambda>c. SetValue c ()) cs m)"
  by (induction cs arbitrary: m) (auto simp: map_ok_SetValue)

lemma keys_fold_SetValue: "fst ` set (fold (\<lambda>c. SetValue c ()) cs m) = fst ` set m \<union> set cs"
proof (induction cs arbitrary: m)
  case (Cons c cs)
  have "fst ` set (SetValue c () m) = insert c (fst ` set m)" using set_SetValue_keys [of c "()" m] by simp
  with Cons show ?case by auto
qed simp

text \<open>What the data manager info says of one storage manager, over all its records.\<close>

definition columns_of :: "dm_info \<Rightarrow> string \<Rightarrow> string list" where
  "columns_of dminfo sm = concat (map snd (filter (\<lambda>(name, cs). name = sm) dminfo))"

lemma collect_columns_eq:
  assumes "map_ok sms" and "map_ok cols" and "collect_columns dminfo sms cols = (sms', cols')"
  shows "map_ok cols' \<and> fst ` set cols' = fst ` set cols \<union> \<Union> (set ` snd ` set dminfo) \<and>
    (\<forall>sm. map_of sms' sm =
       (if sm \<in> fst ` set dminfo
        then Some ((case map_of sms sm of Some cs \<Rightarrow> cs | None \<Rightarrow> []) @ columns_of dminfo sm) else map_of sms sm))"
  using assms
proof (induction dminfo arbitrary: sms cols)
  case (Cons dm dminfo)
  obtain name cs where dm: "dm = (name, cs)" by (cases dm)
  let ?sms = "SetValue name ((case map_of sms name of Some cs \<Rightarrow> cs | None \<Rightarrow> []) @ cs) sms"
  let ?cols = "fold (\<lambda>c. SetValue c ()) cs cols"
  have c: "collect_columns dminfo ?sms ?cols = (sms', cols')" using Cons.prems(3) by (simp add: dm)
  note IH = Cons.IH [OF map_ok_SetValue [OF Cons.prems(1)] map_ok_fold_SetValue [OF Cons.prems(2)] c]
  have look: "map_of ?sms = (map_of sms)(name \<mapsto> (case map_of sms name of Some cs \<Rightarrow> cs | None \<Rightarrow> []) @ cs)"
    by (rule map_of_SetValue [OF Cons.prems(1)])
  have none: "columns_of dminfo name = []" if "name \<notin> fst ` set dminfo"
    using that by (force simp: columns_of_def filter_empty_conv)
  show ?case
  proof (intro conjI allI)
    show "map_ok cols'" using IH by simp
    show "fst ` set cols' = fst ` set cols \<union> \<Union> (set ` snd ` set (dm # dminfo))"
      using IH by (auto simp: keys_fold_SetValue dm)
    fix sm
    have "map_of sms' sm = (if sm \<in> fst ` set dminfo
        then Some ((case map_of ?sms sm of Some cs \<Rightarrow> cs | None \<Rightarrow> []) @ columns_of dminfo sm) else map_of ?sms sm)"
      using IH by blast
    then show "map_of sms' sm = (if sm \<in> fst ` set (dm # dminfo)
        then Some ((case map_of sms sm of Some cs \<Rightarrow> cs | None \<Rightarrow> []) @ columns_of (dm # dminfo) sm) else map_of sms sm)"
      unfolding look using none by (cases "sm = name") (auto simp: dm columns_of_def)
  qed
qed simp

section \<open>The effect of the calls\<close>

lemma apply_calls_append: "apply_calls sm_of (xs @ ys) caps = apply_calls sm_of ys (apply_calls sm_of xs caps)"
  by (simp add: apply_calls_def)

text \<open>The cap of a storage manager is the one of the last call for a column of it.\<close>

lemma apply_calls_last:
  "apply_calls sm_of calls caps sm =
     (let cs = filter (\<lambda>(c, m). sm_of c = sm) calls in if cs = [] then caps sm else Some (snd (last cs)))"
  unfolding apply_calls_def by (induction calls arbitrary: caps) (auto simp: Let_def)

lemma apply_calls_same:
  assumes "\<forall>(c, m) \<in> set calls. sm_of c = sm \<longrightarrow> m = v" and "\<exists>(c, m) \<in> set calls. sm_of c = sm"
  shows "apply_calls sm_of calls caps sm = Some v"
proof -
  let ?cs = "filter (\<lambda>(c, m). sm_of c = sm) calls"
  have ne: "?cs \<noteq> []" using assms(2) by (auto simp: filter_empty_conv)
  then have "last ?cs \<in> set ?cs" by (rule last_in_set)
  then have "snd (last ?cs) = v" using assms(1) by auto
  with ne show ?thesis by (simp add: apply_calls_last Let_def)
qed

lemma apply_calls_none: "\<forall>(c, m) \<in> set calls. sm_of c \<noteq> sm \<Longrightarrow> apply_calls sm_of calls caps sm = caps sm"
  by (auto simp: apply_calls_last Let_def filter_empty_conv split_beta)

text \<open>Every column is stored by the storage manager that lists it.\<close>

definition stored_by :: "(string \<Rightarrow> string) \<Rightarrow> dm_info \<Rightarrow> bool" where
  "stored_by sm_of dminfo \<longleftrightarrow> (\<forall>(name, cs) \<in> set dminfo. \<forall>c \<in> set cs. sm_of c = name)"

lemma in_columns_of: "c \<in> set (columns_of dminfo sm) \<longleftrightarrow> (\<exists>cs. (sm, cs) \<in> set dminfo \<and> c \<in> set cs)"
  by (force simp: columns_of_def)

text \<open>The cap each level of the specification asks for.\<close>

definition default_cap :: "CacheSizeSpec \<Rightarrow> int option \<Rightarrow> int option" where
  "default_cap spec initial =
     (let d = (case default_mib spec of Some v \<Rightarrow> v | None \<Rightarrow> 128) in if 0 < d then Some d else initial)"

definition stman_cap :: "CacheSizeSpec \<Rightarrow> string \<Rightarrow> int option \<Rightarrow> int option" where
  "stman_cap spec sm otherwise =
     (case map_of (sm_mib spec) sm of Some m \<Rightarrow> if 0 < m then Some m else otherwise | None \<Rightarrow> otherwise)"

definition column_cap :: "(string \<Rightarrow> string) \<Rightarrow> CacheSizeSpec \<Rightarrow> string \<Rightarrow> int option \<Rightarrow> int option" where
  "column_cap sm_of spec sm otherwise =
     (let cs = filter (\<lambda>(c, m). sm_of c = sm \<and> 0 < m) (col_mib spec)
      in if cs = [] then otherwise else Some (snd (last cs)))"

lemma default_pass:
  assumes "\<exists>c \<in> set cols. sm_of c = sm"
  shows "apply_calls sm_of (concat (map (\<lambda>c. set_column c d) cols)) caps sm = (if 0 < d then Some d else caps sm)"
proof (cases "0 < d")
  case True
  then show ?thesis
    using assms by (intro trans [OF apply_calls_same [of _ sm_of sm d]]) (auto simp: set_column_def)
next
  case False
  then have "apply_calls sm_of (concat (map (\<lambda>c. set_column c d) cols)) caps sm = caps sm"
    by (intro apply_calls_none) (auto simp: set_column_def)
  with False show ?thesis by simp
qed

lemma stman_pass:
  assumes "stored_by sm_of dminfo" and "columns_of dminfo sm \<noteq> []" and "distinct (map fst sms)"
    and "\<forall>s. map_of smc s = (if s \<in> fst ` set dminfo then Some (columns_of dminfo s) else None)"
  shows "apply_calls sm_of (concat (map (\<lambda>(s, mib). concat (map (\<lambda>c. set_column c mib)
      (case map_of smc s of Some cs \<Rightarrow> cs | None \<Rightarrow> []))) sms)) caps sm =
    (case map_of sms sm of Some m \<Rightarrow> if 0 < m then Some m else caps sm | None \<Rightarrow> caps sm)"
    (is "apply_calls sm_of ?calls caps sm = _")
proof -
  have calls: "(c, m) \<in> set ?calls \<longleftrightarrow> (\<exists>s. (s, m) \<in> set sms \<and> c \<in> set (columns_of dminfo s) \<and> 0 < m)" for c m
    using assms(4) by (force simp: set_column_def in_columns_of split: if_splits)
  have sm: "sm_of c = s" if "c \<in> set (columns_of dminfo s)" for c s
    using that assms(1) by (force simp: stored_by_def in_columns_of)
  have look: "(sm, m) \<in> set sms \<longleftrightarrow> map_of sms sm = Some m" for m
    using assms(3) by (metis map_of_SomeD map_of_eq_Some_iff)
  obtain c where c: "c \<in> set (columns_of dminfo sm)" using assms(2) by (cases "columns_of dminfo sm") auto
  show ?thesis
  proof (cases "\<exists>m. map_of sms sm = Some m \<and> 0 < m")
    case True
    then obtain m where m: "map_of sms sm = Some m" "0 < m" by blast
    have "apply_calls sm_of ?calls caps sm = Some m"
    proof (rule apply_calls_same)
      show "\<forall>(c, m') \<in> set ?calls. sm_of c = sm \<longrightarrow> m' = m"
      proof safe
        fix c' m' assume "(c', m') \<in> set ?calls" and "sm = sm_of c'"
        then have "(sm, m') \<in> set sms" using calls sm by metis
        then show "m' = m" using look m(1) by simp
      qed
      have "(c, m) \<in> set ?calls" using calls look m c by metis
      then show "\<exists>(c, m') \<in> set ?calls. sm_of c = sm" using sm [OF c] by blast
    qed
    with m show ?thesis by simp
  next
    case False
    have "apply_calls sm_of ?calls caps sm = caps sm"
    proof (rule apply_calls_none, safe)
      fix c' m' assume "(c', m') \<in> set ?calls" and "sm = sm_of c'"
      then have "(sm, m') \<in> set sms" "0 < m'" using calls sm by metis+
      then show False using False look by metis
    qed
    with False show ?thesis by (auto split: option.splits)
  qed
qed

lemma column_pass:
  "apply_calls sm_of (concat (map (\<lambda>(c, mib). set_column c mib) cols)) caps sm =
     (let cs = filter (\<lambda>(c, m). sm_of c = sm \<and> 0 < m) cols in if cs = [] then caps sm else Some (snd (last cs)))"
proof -
  have "concat (map (\<lambda>(c, mib). set_column c mib) cols) = filter (\<lambda>(c, m). 0 < m) cols"
    by (induction cols) (auto simp: set_column_def)
  moreover have "filter (\<lambda>(c, m). sm_of c = sm) (filter (\<lambda>(c, m). 0 < m) cols) =
      filter (\<lambda>(c, m). sm_of c = sm \<and> 0 < m) cols"
    unfolding filter_filter by (rule filter_cong) auto
  ultimately show ?thesis by (simp only: apply_calls_last)
qed

lemma rfor_require:
  fixes P :: "'x \<Rightarrow> bool"
  shows "(case rfor (\<lambda>x. require (P x) (e x)) xs of Inr u \<Rightarrow> (\<forall>x \<in> set xs. P x) | Inl s \<Rightarrow> (\<exists>x \<in> set xs. \<not> P x \<and> s = e x))"
proof (induction xs)
  case (Cons x xs)
  then show ?case by (cases "P x"; cases "rfor (\<lambda>x. require (P x) (e x)) xs") (auto simp: require_def)
qed simp

section \<open>The fields of a specification\<close>

definition valid_field :: "string \<times> int option \<Rightarrow> bool" where
  "valid_field = (\<lambda>(name, v). (case v of Some x \<Rightarrow> 0 \<le> x | None \<Rightarrow> False) \<and>
     (name = ''default'' \<or> prefix ''stman:'' name \<or> prefix ''column:'' name))"

definition given :: "(string \<times> int option) list \<Rightarrow> string \<Rightarrow> int option \<Rightarrow> int option" where
  "given fs name otherwise = (case map_of fs name of Some v \<Rightarrow> v | None \<Rightarrow> otherwise)"

lemma StripPrefix_eq: "StripPrefix name pre = (prefix pre name, if prefix pre name then drop (length pre) name else name)"
proof -
  have "take (length pre) name = pre \<longleftrightarrow> prefix pre name"
    by (metis append_eq_conv_conj prefix_def take_is_prefix)
  then show ?thesis by (simp add: StripPrefix_def)
qed

lemma map_of_emplace:
  "map_ok m \<Longrightarrow> map_ok (emplace k v m) \<and>
     map_of (emplace k v m) k' = (case map_of m k' of Some x \<Rightarrow> Some x | None \<Rightarrow> if k' = k then Some v else None)"
  by (auto simp: emplace_def map_ok_SetValue map_of_SetValue split: option.splits)

lemma parse_fields_given:
  assumes "distinct (map fst fs)" and "map_ok (sm_mib spec)" and "map_ok (col_mib spec)"
  shows "case parse_fields fs spec of
      Inl e \<Rightarrow> \<exists>f \<in> set fs. \<not> valid_field f
    | Inr s \<Rightarrow> (\<forall>f \<in> set fs. valid_field f) \<and> default_mib s = given fs ''default'' (default_mib spec) \<and>
        (\<forall>n. map_of (sm_mib s) n =
           (case map_of (sm_mib spec) n of Some v \<Rightarrow> Some v | None \<Rightarrow> given fs (''stman:'' @ n) None)) \<and>
        (\<forall>n. map_of (col_mib s) n =
           (case map_of (col_mib spec) n of Some v \<Rightarrow> Some v | None \<Rightarrow> given fs (''column:'' @ n) None))"
  using assms
proof (induction fs arbitrary: spec)
  case (Cons f fs)
  obtain name v where f: "f = (name, v)" by (cases f)
  have fresh: "map_of fs name = None" and dist: "distinct (map fst fs)"
    using Cons.prems(1) by (auto simp: f map_of_eq_None_iff)
  note IH = Cons.IH [OF dist]
  consider (bad) "\<not> valid_field f" | (default) x where "v = Some x" "0 \<le> x" "name = ''default''"
    | (stman) x n where "v = Some x" "0 \<le> x" "name = ''stman:'' @ n"
    | (column) x n where "v = Some x" "0 \<le> x" "name = ''column:'' @ n"
  proof (cases "valid_field f")
    case True
    then obtain x where x: "v = Some x" "0 \<le> x" by (auto simp: valid_field_def f split: option.splits)
    with True have "name = ''default'' \<or> (\<exists>n. name = ''stman:'' @ n) \<or> (\<exists>n. name = ''column:'' @ n)"
      by (auto simp: valid_field_def f prefix_def)
    with x that show ?thesis by metis
  qed (use that in blast)
  then show ?case
  proof cases
    case bad
    then show ?thesis by (auto simp: f valid_field_def StripPrefix_eq split: option.splits sum.splits)
  next
    case default
    have "valid_field f" using default by (simp add: f valid_field_def)
    with default IH [of "spec\<lparr>default_mib := Some x\<rparr>"] Cons.prems(2,3) fresh show ?thesis
      by (auto simp: f given_def split: sum.splits option.splits)
  next
    case stman
    have "valid_field f" using stman by (simp add: f valid_field_def prefix_def)
    moreover note map_of_emplace [OF Cons.prems(2), of n x]
    ultimately show ?thesis
      using stman IH [of "spec\<lparr>sm_mib := emplace n x (sm_mib spec)\<rparr>"] Cons.prems(2,3) fresh
      by (auto simp: f given_def StripPrefix_eq split: sum.splits option.splits)
  next
    case column
    have "valid_field f" using column by (simp add: f valid_field_def prefix_def)
    moreover note map_of_emplace [OF Cons.prems(3), of n x]
    ultimately show ?thesis
      using column IH [of "spec\<lparr>col_mib := emplace n x (col_mib spec)\<rparr>"] Cons.prems(2,3) fresh
      by (auto simp: f given_def StripPrefix_eq split: sum.splits option.splits)
  qed
qed (auto simp: given_def split: option.splits)

section \<open>Properties\<close>

text \<open>
  The parsing of a cache size specification. If the names of the fields are distinct, parsing
  fails exactly if the JSON does not parse or some field is not an integer, is negative or has an
  unknown name; otherwise the specification holds exactly the values given: the default, and per
  storage manager and column the value of the field with the prefix and that name.
\<close>

theorem ParseCacheSizeSpec_fields:
  assumes "\<forall>fs. parse json = Inr fs \<longrightarrow> distinct (map fst fs)"
  shows "case ParseCacheSizeSpec parse json of
      Inl e \<Rightarrow> (case parse json of Inl what \<Rightarrow> True | Inr fs \<Rightarrow> \<exists>f \<in> set fs. \<not> valid_field f)
    | Inr spec \<Rightarrow> (case parse json of Inl what \<Rightarrow> False | Inr fs \<Rightarrow>
        (\<forall>f \<in> set fs. valid_field f) \<and> default_mib spec = given fs ''default'' None \<and>
        (\<forall>n. map_of (sm_mib spec) n = given fs (''stman:'' @ n) None) \<and>
        (\<forall>n. map_of (col_mib spec) n = given fs (''column:'' @ n) None))"
proof (cases "parse json")
  case (Inr fs)
  with assms have "distinct (map fst fs)" by simp
  from parse_fields_given [OF this, of empty_spec] Inr show ?thesis
    by (auto simp: ParseCacheSizeSpec_def empty_spec_def map_ok_def split: sum.splits)
qed (simp add: ParseCacheSizeSpec_def)

theorem ParseCacheSizeSpec_fields_witness:
  "let parse = (\<lambda>_ :: string. Inr [(''default'', Some 64), (''column:A'', Some 0), (''stman:T'', Some 7)] :: string + _)
   in case ParseCacheSizeSpec parse ''json'' of Inl e \<Rightarrow> False | Inr spec \<Rightarrow>
      default_mib spec = Some 64 \<and> map_of (sm_mib spec) ''T'' = Some 7 \<and> map_of (col_mib spec) ''A'' = Some 0"
  using ParseCacheSizeSpec_fields [of "\<lambda>_ :: string. Inr [(''default'', Some 64), (''column:A'', Some 0), (''stman:T'', Some 7)] :: string + _" "''json''"]
  by (auto simp: given_def valid_field_def Let_def split: sum.splits)

text \<open>What applying a specification does, level by level.\<close>

lemma ApplyCacheSizes_resolves:
  assumes "stored_by sm_of dminfo" and "distinct (map fst (sm_mib spec))"
  shows "(case ApplyCacheSizes dminfo spec of
      Inl e \<Rightarrow> (\<exists>sm \<in> fst ` set (sm_mib spec). sm \<notin> fst ` set dminfo) \<or>
               (\<exists>c \<in> fst ` set (col_mib spec). c \<notin> \<Union> (set ` snd ` set dminfo))
    | Inr calls \<Rightarrow> fst ` set (sm_mib spec) \<subseteq> fst ` set dminfo \<and>
        fst ` set (col_mib spec) \<subseteq> \<Union> (set ` snd ` set dminfo) \<and>
        (\<forall>sm. columns_of dminfo sm \<noteq> [] \<longrightarrow> apply_calls sm_of calls caps sm =
           column_cap sm_of spec sm (stman_cap spec sm (default_cap spec (caps sm)))))"
proof -
  obtain smc cols where c: "collect_columns dminfo [] [] = (smc, cols)" by fastforce
  have "map_ok ([] :: (string \<times> string list) list)" "map_ok ([] :: (string \<times> unit) list)" by (simp_all add: map_ok_def)
  from collect_columns_eq [OF this c] have
    cols: "fst ` set cols = \<Union> (set ` snd ` set dminfo)"
    and smc: "\<forall>s. map_of smc s = (if s \<in> fst ` set dminfo then Some (columns_of dminfo s) else None)" by auto
  let ?s = "rfor (\<lambda>(sm, mib). require (map_of smc sm \<noteq> None)
      (Invalid [Str ''Unknown storage manager '', Str sm, Str '' in cache_size''])) (sm_mib spec)"
  let ?c = "rfor (\<lambda>(column, mib). require (column \<in> set (map fst cols))
      (Invalid [Str ''Unknown column '', Str column, Str '' in cache_size''])) (col_mib spec)"
  have "?s = rfor (\<lambda>x. require (map_of smc (fst x) \<noteq> None)
      (Invalid [Str ''Unknown storage manager '', Str (fst x), Str '' in cache_size''])) (sm_mib spec)"
    by (rule arg_cong [where f = "\<lambda>f. rfor f _"]) (rule ext, simp add: split_beta)
  then have s: "case ?s of Inr u \<Rightarrow> \<forall>x \<in> set (sm_mib spec). map_of smc (fst x) \<noteq> None
      | Inl e \<Rightarrow> \<exists>x \<in> set (sm_mib spec). \<not> map_of smc (fst x) \<noteq> None \<and>
          e = Invalid [Str ''Unknown storage manager '', Str (fst x), Str '' in cache_size'']"
    by (simp only: rfor_require)
  have s: "case ?s of Inr u \<Rightarrow> fst ` set (sm_mib spec) \<subseteq> fst ` set dminfo
      | Inl e \<Rightarrow> \<exists>sm \<in> fst ` set (sm_mib spec). sm \<notin> fst ` set dminfo"
  proof (cases ?s)
    case (Inl e)
    then obtain x where "x \<in> set (sm_mib spec)" "map_of smc (fst x) = None" using s by auto
    then show ?thesis unfolding Inl using smc by (auto split: if_splits)
  next
    case (Inr u)
    then have "\<forall>x \<in> set (sm_mib spec). map_of smc (fst x) \<noteq> None" using s by (simp only: sum.case)
    then have "\<forall>x \<in> set (sm_mib spec). fst x \<in> fst ` set dminfo" using smc by metis
    then show ?thesis unfolding Inr by auto
  qed
  have "?c = rfor (\<lambda>x. require (fst x \<in> set (map fst cols))
      (Invalid [Str ''Unknown column '', Str (fst x), Str '' in cache_size''])) (col_mib spec)"
    by (rule arg_cong [where f = "\<lambda>f. rfor f _"]) (rule ext, simp add: split_beta)
  then have cc: "case ?c of Inr u \<Rightarrow> \<forall>x \<in> set (col_mib spec). fst x \<in> set (map fst cols)
      | Inl e \<Rightarrow> \<exists>x \<in> set (col_mib spec). fst x \<notin> set (map fst cols) \<and>
          e = Invalid [Str ''Unknown column '', Str (fst x), Str '' in cache_size'']"
    by (simp only: rfor_require)
  have cc: "case ?c of Inr u \<Rightarrow> fst ` set (col_mib spec) \<subseteq> \<Union> (set ` snd ` set dminfo)
      | Inl e \<Rightarrow> \<exists>c \<in> fst ` set (col_mib spec). c \<notin> \<Union> (set ` snd ` set dminfo)"
  proof (cases ?c)
    case (Inl e)
    then obtain x where "x \<in> set (col_mib spec)" "fst x \<notin> set (map fst cols)" using cc by auto
    then have "fst x \<in> fst ` set (col_mib spec) \<and> fst x \<notin> fst ` set cols" by auto
    then show ?thesis unfolding Inl sum.case cols by blast
  next
    case (Inr u)
    then have "\<forall>x \<in> set (col_mib spec). fst x \<in> fst ` set cols" using cc by (simp only: sum.case set_map)
    then show ?thesis unfolding Inr sum.case cols by blast
  qed
  show ?thesis
  proof (cases ?s)
    case (Inl e)
    with s c show ?thesis by (simp add: ApplyCacheSizes_def)
  next
    case s': (Inr u)
    show ?thesis
    proof (cases ?c)
      case (Inl e)
      with s' cc c show ?thesis by (simp add: ApplyCacheSizes_def)
    next
      case c': (Inr u')
      let ?d = "case default_mib spec of Some v \<Rightarrow> v | None \<Rightarrow> kDefaultCacheSizeMiB"
      have "apply_calls sm_of (concat (map (\<lambda>column. set_column column ?d) (map fst cols)) @
          concat (map (\<lambda>(s, mib). concat (map (\<lambda>column. set_column column mib)
            (case map_of smc s of Some cs \<Rightarrow> cs | None \<Rightarrow> []))) (sm_mib spec)) @
          concat (map (\<lambda>(column, mib). set_column column mib) (col_mib spec))) caps sm =
        column_cap sm_of spec sm (stman_cap spec sm (default_cap spec (caps sm)))"
        if ne: "columns_of dminfo sm \<noteq> []" for sm
      proof -
        obtain x where x: "x \<in> set (columns_of dminfo sm)" using ne by (cases "columns_of dminfo sm") auto
        have "sm_of x = sm" using x assms(1) by (force simp: stored_by_def in_columns_of)
        moreover have "x \<in> fst ` set cols" unfolding cols using x by (force simp: in_columns_of)
        ultimately have e: "\<exists>c \<in> set (map fst cols). sm_of c = sm" by auto
        show ?thesis
          unfolding apply_calls_append column_pass stman_pass [OF assms(1) ne assms(2) smc] default_pass [OF e]
          unfolding column_cap_def stman_cap_def default_cap_def kDefaultCacheSizeMiB_def Let_def by simp
      qed
      with s s' cc c' c show ?thesis by (simp add: ApplyCacheSizes_def)
    qed
  qed
qed

text \<open>
  The cap that \<open>table_utils.h\<close> documents: the size of the most specific level that gives one, where a
  size of 0 leaves the storage manager unbounded, as casacore has it.
\<close>

definition documented_cap :: "(string \<Rightarrow> string) \<Rightarrow> CacheSizeSpec \<Rightarrow> string \<Rightarrow> int option \<Rightarrow> int option" where
  "documented_cap sm_of spec sm initial =
     (let cs = filter (\<lambda>(c, m). sm_of c = sm) (col_mib spec);
          size = (if cs \<noteq> [] then snd (last cs)
                  else case map_of (sm_mib spec) sm of
                         Some m \<Rightarrow> m
                       | None \<Rightarrow> (case default_mib spec of Some v \<Rightarrow> v | None \<Rightarrow> 128))
      in if 0 < size then Some size else initial)"

lemma documented_cap_positive:
  assumes "\<forall>x \<in> set (sm_mib spec) \<union> set (col_mib spec). 0 < snd x"
  shows "column_cap sm_of spec sm (stman_cap spec sm (default_cap spec initial)) = documented_cap sm_of spec sm initial"
proof -
  let ?cs = "filter (\<lambda>(c, m). sm_of c = sm) (col_mib spec)"
  have cs: "filter (\<lambda>(c, m). sm_of c = sm \<and> 0 < m) (col_mib spec) = ?cs"
    using assms by (intro filter_cong) force+
  have "0 < snd (last ?cs)" if "?cs \<noteq> []" using last_in_set [OF that] assms by force
  moreover have "0 < m" if "map_of (sm_mib spec) sm = Some m" for m
    using map_of_SomeD [OF that] assms by force
  ultimately show ?thesis
    unfolding column_cap_def cs documented_cap_def stman_cap_def default_cap_def Let_def by (auto split: option.splits)
qed

lemma zero_stman_cap:
  assumes "map_of (sm_mib spec) sm = Some 0" and "\<forall>x \<in> set (col_mib spec). sm_of (fst x) \<noteq> sm"
  shows "column_cap sm_of spec sm (stman_cap spec sm c) = c" and "documented_cap sm_of spec sm initial = initial"
proof -
  have "filter (\<lambda>(c, m). sm_of c = sm) (col_mib spec) = []" "filter (\<lambda>(c, m). sm_of c = sm \<and> 0 < m) (col_mib spec) = []"
    using assms(2) by (auto simp: filter_empty_conv)
  with assms(1) show "column_cap sm_of spec sm (stman_cap spec sm c) = c" "documented_cap sm_of spec sm initial = initial"
    by (simp_all add: column_cap_def stman_cap_def documented_cap_def)
qed

text \<open>
  C37. The cache sizes of the storage managers. Applying a specification fails exactly if it names
  a storage manager or a column that the table does not have. Otherwise the cap of each storage
  manager with columns is resolved with precedence: the last positive size of a column of it, in
  the order of names; else its own size, if positive; else the default, if positive; else it stays.
  If the sizes of storage managers and columns are positive, this is what \<open>table_utils.h\<close> documents.
  A size of 0 diverges from it: a storage manager with the size 0, and none for its columns, should be
  unbounded, but gets the default.
\<close>

theorem ApplyCacheSizes_precedence:
  assumes "stored_by sm_of dminfo" and "distinct (map fst (sm_mib spec))"
  shows "(case ApplyCacheSizes dminfo spec of
      Inl e \<Rightarrow> (\<exists>sm \<in> fst ` set (sm_mib spec). sm \<notin> fst ` set dminfo) \<or>
               (\<exists>c \<in> fst ` set (col_mib spec). c \<notin> \<Union> (set ` snd ` set dminfo))
    | Inr calls \<Rightarrow> fst ` set (sm_mib spec) \<subseteq> fst ` set dminfo \<and>
        fst ` set (col_mib spec) \<subseteq> \<Union> (set ` snd ` set dminfo) \<and>
        (\<forall>sm. columns_of dminfo sm \<noteq> [] \<longrightarrow>
           (let cap = apply_calls sm_of calls caps sm
            in cap = column_cap sm_of spec sm (stman_cap spec sm (default_cap spec (caps sm))) \<and>
               ((\<forall>x \<in> set (sm_mib spec) \<union> set (col_mib spec). 0 < snd x) \<longrightarrow> cap = documented_cap sm_of spec sm (caps sm)) \<and>
               (map_of (sm_mib spec) sm = Some 0 \<and> (\<forall>x \<in> set (col_mib spec). sm_of (fst x) \<noteq> sm) \<longrightarrow>
                  cap = default_cap spec (caps sm) \<and> documented_cap sm_of spec sm (caps sm) = caps sm))))"
  using ApplyCacheSizes_resolves [OF assms, of caps] documented_cap_positive [of spec] zero_stman_cap [of spec]
  by (auto simp: Let_def split: sum.splits)

theorem ApplyCacheSizes_precedence_witness:
  "let dminfo = [(''T'', [''A'', ''B'']), (''S'', [''C''])]; sm_of = (\<lambda>c. if c = ''C'' then ''S'' else ''T'');
       spec = \<lparr>default_mib = Some 64, sm_mib = [(''T'', 7)], col_mib = [(''B'', 9)]\<rparr>
   in case ApplyCacheSizes dminfo spec of Inl e \<Rightarrow> False
      | Inr calls \<Rightarrow> apply_calls sm_of calls Map.empty ''T'' = Some 9 \<and> apply_calls sm_of calls Map.empty ''S'' = Some 64"
proof -
  let ?dm = "[(''T'', [''A'', ''B'']), (''S'', [''C''])]" and ?sm = "\<lambda>c. if c = ''C'' then ''S'' else ''T''"
  let ?spec = "\<lparr>default_mib = Some 64, sm_mib = [(''T'', 7)], col_mib = [(''B'', 9)]\<rparr>"
  have "stored_by ?sm ?dm" "distinct (map fst (sm_mib ?spec))" by (simp_all add: stored_by_def)
  from ApplyCacheSizes_precedence [OF this, of Map.empty]
  show ?thesis
    by (auto simp: Let_def columns_of_def column_cap_def stman_cap_def default_cap_def split: sum.splits)
qed

text \<open>
  A size of zero for a storage manager does not lift its cap: with the specification
  \<open>{"stman:T": 0}\<close> the columns of \<open>T\<close> still get the default of 128 MiB, while a default of zero
  leaves them alone.
\<close>

theorem ApplyCacheSizes_zero_keeps_default:
  "ApplyCacheSizes [(''T'', [''A''])] \<lparr>default_mib = None, sm_mib = [(''T'', 0)], col_mib = []\<rparr> = Inr [(''A'', 128)] \<and>
   ApplyCacheSizes [(''T'', [''A''])] \<lparr>default_mib = Some 0, sm_mib = [], col_mib = []\<rparr> = Inr []"
  by (simp add: ApplyCacheSizes_def set_column_def kDefaultCacheSizeMiB_def require_def)

end
