(* ===== verification/IsolatedTable.thy ===== *)
theory IsolatedTable
  imports Prelude "HOL-Library.Word"
begin

text \<open>
  \<open>cpp/arcae/isolated_table_proxy.h\<close> and \<open>isolated_table_proxy.cc\<close>: tasks on casacore tables, run by
  thread pools of one thread each. A proxy has one table and one pool per instance; a proxy made by
  \<open>Spawn\<close> shares the pools and statistics of its parent, so that the state of a family of proxies has
  one list of pools and statistics, and for each proxy its flag \<open>is_closed_\<close> and whether each of its
  tables is closed (\<open>isNull\<close>). The functor of \<open>Spawn\<close> runs on the pool of each instance in turn, with the
  parent's table of that instance, as a task that is not measured and checks nothing.

  Threads interleave. The threads are the pool workers and any number of clients; each carries the
  calls it still makes (\<open>prog\<close>) and the call it is in. One step of the relation is one atomic
  operation of one thread: the check of the flag, the load of one counter, a reservation, the
  submission to a pool, the start or end of a task. What a functor does with its table is a
  parameter: a \<open>job\<close> is the list of calls it makes into this component and its outcome. The functor of
  \<open>Spawn\<close> is an \<open>opener\<close>: it runs once for each instance, and may end differently on each.
  The counters are \<open>std::atomic<std::int64_t>\<close>, whose arithmetic wraps, hence words of 64 bits.
\<close>

section \<open>State\<close>

type_synonym int64 = "64 word"

record InstanceStats =
  submitted :: int64
  outstanding_cost :: int64
  completed :: int64
  wait_ns :: int64
  busy_ns :: int64
  io_bytes :: int64

record InstanceStatsSnapshot =
  snap_submitted :: int64
  snap_completed :: int64
  snap_wait_ns :: int64
  snap_busy_ns :: int64
  snap_io_bytes :: int64

record Submission =
  on_instance :: nat
  sub_time :: int64
  sub_cost :: int64

text \<open>How a functor ends: it returns, or throws.\<close>

datatype 'v outcome = Returns "'v result" | AipsError string | StdException string

text \<open>
  The calls of a thread into the component: \<open>RunAsync\<close> and \<open>RunSync\<close> of a job on a proxy with a
  cost, \<open>Close\<close>, \<open>Spawn\<close> of a proxy with an opener, and \<open>RecordIoBytes\<close>. The flag of \<open>Run\<close> tells
  whether the caller waits. The table that an opener returns for an instance is given by whether it
  is null.
\<close>

datatype 'v job = Job (actions: "'v action list") (outcome: "'v outcome")
  and 'v action = Record int64 | Run bool nat int64 "'v job" | Close nat | Spawn nat "'v opener"
  and 'v opener = Opener (open_actions: "'v action list") (opened: "nat \<Rightarrow> bool outcome")

text \<open>The closures in a pool: of \<open>RunAsync\<close>, of \<open>Close\<close>, and of \<open>Spawn\<close> with the instance it captures.\<close>

datatype 'v task = Work nat Submission "'v job" | CloseTable nat | OpenTable nat nat "'v opener"

datatype 'v reply = Value 'v | Closed bool | Table bool | Spawned nat

text \<open>A future: the instance whose pool has the task, and the number of the task on it.\<close>

type_synonym future = "nat \<times> nat"

text \<open>
  The call a thread is in: the loop of \<open>Dispatch\<close> at an instance with the least load so far, between
  the reservation and the submission, the loop of \<open>Close\<close> with the futures of the close tasks and
  the inline status, the loop of \<open>Spawn\<close> with the tables opened so far, the same waiting for the next
  table, or waiting for a future.
\<close>

datatype 'v call =
    Idle
  | Loading bool nat int64 "'v job" nat nat int64
  | Submitting bool nat Submission "'v job"
  | Closing nat nat "future list" "status option"
  | Spawning nat "'v opener" "bool list"
  | Opening nat "'v opener" "bool list" future
  | Waiting future

record 'v running =
  run_sub :: Submission
  run_proxy :: nat
  run_start :: int64
  invoked :: bool
  run_outcome :: "'v outcome"

text \<open>A functor of \<open>Spawn\<close> that runs: the table it was given, by proxy and instance, and how it ends.\<close>

record open_run =
  open_proxy :: nat
  open_instance :: nat
  open_outcome :: "bool outcome"

text \<open>
  \<open>current\<close> is the thread local \<open>current_task\<close> with the task it stands for; a functor of \<open>Spawn\<close> is not
  measured and does not set it.
\<close>

record 'v thread =
  prog :: "'v action list"
  call :: "'v call"
  current :: "'v running option"
  open_task :: "open_run option"
  log :: "'v reply result list"

datatype tid = Client nat | Worker nat

record proxy =
  is_closed :: bool
  isNull :: "bool list"

record 'v sys =
  now :: int64
  stats :: "InstanceStats list"
  queues :: "'v task list list"
  replies :: "'v reply result list list"
  proxies :: "proxy list"
  nclients :: nat
  threads :: "tid \<Rightarrow> 'v thread"

definition nInstances :: "'v sys \<Rightarrow> nat" where
  "nInstances s = length (stats s)"

definition kDefaultTaskCost :: int64 where
  "kDefaultTaskCost = 1024 * 1024"

section \<open>Updates\<close>

definition upd_stats :: "nat \<Rightarrow> (InstanceStats \<Rightarrow> InstanceStats) \<Rightarrow> 'v sys \<Rightarrow> 'v sys" where
  "upd_stats i f s = s\<lparr>stats := (stats s)[i := f (stats s ! i)]\<rparr>"

definition set_thread :: "tid \<Rightarrow> 'v thread \<Rightarrow> 'v sys \<Rightarrow> 'v sys" where
  "set_thread t th s = s\<lparr>threads := (threads s)(t := th)\<rparr>"

definition enqueue :: "nat \<Rightarrow> 'v task \<Rightarrow> 'v sys \<Rightarrow> 'v sys" where
  "enqueue i task s = s\<lparr>queues := (queues s)[i := queues s ! i @ [task]]\<rparr>"

definition pop :: "nat \<Rightarrow> 'v sys \<Rightarrow> 'v sys" where
  "pop i s = s\<lparr>queues := (queues s)[i := tl (queues s ! i)]\<rparr>"

definition reply :: "nat \<Rightarrow> 'v reply result \<Rightarrow> 'v sys \<Rightarrow> 'v sys" where
  "reply i r s = s\<lparr>replies := (replies s)[i := replies s ! i @ [r]]\<rparr>"

definition set_null :: "nat \<Rightarrow> nat \<Rightarrow> bool \<Rightarrow> 'v sys \<Rightarrow> 'v sys" where
  "set_null p i b s = s\<lparr>proxies := (proxies s)[p := (proxies s ! p)\<lparr>isNull := (isNull (proxies s ! p))[i := b]\<rparr>]\<rparr>"

definition set_closed :: "nat \<Rightarrow> 'v sys \<Rightarrow> 'v sys" where
  "set_closed p s = s\<lparr>proxies := (proxies s)[p := (proxies s ! p)\<lparr>is_closed := True\<rparr>]\<rparr>"

definition add_proxy :: "bool list \<Rightarrow> 'v sys \<Rightarrow> 'v sys" where
  "add_proxy nulls s = s\<lparr>proxies := proxies s @ [\<lparr>is_closed = False, isNull = nulls\<rparr>]\<rparr>"

text \<open>The number of the next task on a pool, and whether a future has completed.\<close>

definition busy :: "'v thread \<Rightarrow> bool" where
  "busy th \<longleftrightarrow> current th \<noteq> None \<or> open_task th \<noteq> None"

definition begun :: "'v sys \<Rightarrow> nat \<Rightarrow> nat" where
  "begun s i = length (replies s ! i) + (if busy (threads s (Worker i)) then 1 else 0)"

definition next_number :: "'v sys \<Rightarrow> nat \<Rightarrow> nat" where
  "next_number s i = begun s i + length (queues s ! i)"

definition is_finished :: "'v sys \<Rightarrow> future \<Rightarrow> bool" where
  "is_finished s f \<longleftrightarrow> snd f < length (replies s ! fst f)"

definition result_of :: "'v sys \<Rightarrow> future \<Rightarrow> 'v reply result" where
  "result_of s f = replies s ! fst f ! snd f"

section \<open>Operations\<close>

definition IsClosed :: "'v sys \<Rightarrow> nat \<Rightarrow> bool" where
  "IsClosed s p = is_closed (proxies s ! p)"

definition CheckClosed :: "'v sys \<Rightarrow> nat \<Rightarrow> unit result" where
  "CheckClosed s p = (if \<not> is_closed (proxies s ! p) then Inr () else Inl (Invalid [Str ''TableProxy is closed'']))"

definition ElapsedNs :: "int64 \<Rightarrow> int64 \<Rightarrow> int64" where
  "ElapsedNs start finish = finish - start"

definition RecordIoBytes :: "tid \<Rightarrow> int64 \<Rightarrow> 'v sys \<Rightarrow> 'v sys" where
  "RecordIoBytes t nbytes s =
     (case current (threads s t) of
        Some r \<Rightarrow> upd_stats (on_instance (run_sub r)) (\<lambda>x. x\<lparr>io_bytes := io_bytes x + nbytes\<rparr>) s
      | None \<Rightarrow> s)"

text \<open>One iteration of the loop of \<open>Dispatch\<close>: the load of an instance, and the least so far.\<close>

definition load_of :: "'v running option \<Rightarrow> InstanceStats list \<Rightarrow> nat \<Rightarrow> int64" where
  "load_of cur sts i =
     (let load = outstanding_cost (sts ! i)
      in case cur of
           Some r \<Rightarrow> if on_instance (run_sub r) = i then load - sub_cost (run_sub r) else load
         | None \<Rightarrow> load)"

definition less_loaded :: "int64 \<Rightarrow> nat \<Rightarrow> nat \<times> int64 \<Rightarrow> nat \<times> int64" where
  "less_loaded load i acc = (case acc of (inst, least) \<Rightarrow> if sint load < sint least then (i, load) else (inst, least))"

definition max_int64 :: int64 where
  "max_int64 = 0x7FFFFFFFFFFFFFFF"

text \<open>The whole loop, over loads that do not change meanwhile.\<close>

definition choose_instance :: "int64 list \<Rightarrow> nat" where
  "choose_instance loads =
     fst (fold (\<lambda>i acc. less_loaded (loads ! i) i acc) [0..<length loads] (0, max_int64))"

text \<open>The reservation at the end of \<open>Dispatch\<close>.\<close>

definition reserve :: "nat \<Rightarrow> int64 \<Rightarrow> 'v sys \<Rightarrow> 'v sys \<times> Submission" where
  "reserve i c s =
     (upd_stats i (\<lambda>x. x\<lparr>outstanding_cost := outstanding_cost x + c, submitted := submitted x + 1\<rparr>) s,
      \<lparr>on_instance = i, sub_time = now s, sub_cost = c\<rparr>)"

text \<open>\<open>Dispatch\<close> as one operation, with no other thread in between.\<close>

definition Dispatch :: "'v running option \<Rightarrow> int64 \<Rightarrow> 'v sys \<Rightarrow> 'v sys \<times> Submission" where
  "Dispatch cur c s = reserve (choose_instance (map (load_of cur (stats s)) [0..<nInstances s])) c s"

text \<open>The constructor and the destructor of \<open>TaskScope\<close>.\<close>

definition enter_scope :: "Submission \<Rightarrow> 'v sys \<Rightarrow> 'v sys" where
  "enter_scope sub s =
     upd_stats (on_instance sub) (\<lambda>x. x\<lparr>wait_ns := wait_ns x + ElapsedNs (sub_time sub) (now s)\<rparr>) s"

definition leave_scope :: "'v running \<Rightarrow> 'v sys \<Rightarrow> 'v sys" where
  "leave_scope r s =
     upd_stats (on_instance (run_sub r))
       (\<lambda>x. x\<lparr>outstanding_cost := outstanding_cost x - sub_cost (run_sub r),
              busy_ns := busy_ns x + ElapsedNs (run_start r) (now s),
              completed := completed x + 1\<rparr>) s"

text \<open>\<open>InvokeOnInstance\<close>: the functor runs only on a table that has not been closed.\<close>

definition InvokeOnInstance :: "Submission \<Rightarrow> nat \<Rightarrow> 'v job \<Rightarrow> 'v sys \<Rightarrow> 'v action list \<times> 'v running" where
  "InvokeOnInstance sub p job s =
     (if isNull (proxies s ! p) ! on_instance sub
      then ([], \<lparr>run_sub = sub, run_proxy = p, run_start = now s, invoked = False,
                 run_outcome = Returns (Inl (Invalid [Str ''TableProxy is closed'']))\<rparr>)
      else (actions job, \<lparr>run_sub = sub, run_proxy = p, run_start = now s, invoked = True,
                          run_outcome = outcome job\<rparr>))"

text \<open>\<open>Invoke\<close>: exceptions become statuses.\<close>

fun Invoke :: "'a outcome \<Rightarrow> 'a result" where
  "Invoke (Returns (Inr v)) = Inr v"
| "Invoke (Returns (Inl e)) = Inl e"
| "Invoke (AipsError what) = Inl (Invalid [Str ''Unhandled casacore exception: '', Str what])"
| "Invoke (StdException what) = Inl (Invalid [Str ''Unhandled exception: '', Str what])"

definition GetInstanceStats :: "'v sys \<Rightarrow> InstanceStatsSnapshot list" where
  "GetInstanceStats s =
     map (\<lambda>x. \<lparr>snap_submitted = submitted x, snap_completed = completed x, snap_wait_ns = wait_ns x,
               snap_busy_ns = busy_ns x, snap_io_bytes = io_bytes x\<rparr>) (stats s)"

definition OwnsThisThread :: "'v sys \<Rightarrow> tid \<Rightarrow> bool" where
  "OwnsThisThread s t \<longleftrightarrow> (\<exists>i \<in> set [0..<nInstances s]. t = Worker i)"

text \<open>
  Closing the table of one instance. Whether \<open>close()\<close> leaves the table null, and the exception it
  throws if any, are casacore's: the parameter \<open>closing\<close>.
\<close>

type_synonym closing = "nat \<Rightarrow> nat \<Rightarrow> bool \<times> string option"

definition close_status :: "closing \<Rightarrow> nat \<Rightarrow> nat \<Rightarrow> status option" where
  "close_status closing p i =
     (case snd (closing p i) of
        Some what \<Rightarrow> Some (Invalid [Str ''Error closing table: '', Str what])
      | None \<Rightarrow> None)"

definition close_table :: "closing \<Rightarrow> nat \<Rightarrow> nat \<Rightarrow> 'v sys \<Rightarrow> 'v sys" where
  "close_table closing p i s =
     set_null p i (isNull (proxies s ! p) ! i \<or> fst (closing p i)) s"

text \<open>What \<open>Close\<close> returns once all close tasks are done.\<close>

definition close_result :: "'v sys \<Rightarrow> future list \<Rightarrow> status option \<Rightarrow> 'v reply result" where
  "close_result s fs inline =
     (case inline of
        Some e \<Rightarrow> Inl e
      | None \<Rightarrow> (case [e. Inl e \<leftarrow> map (result_of s) fs] of e # es \<Rightarrow> Inl e | [] \<Rightarrow> Inr (Closed True)))"

text \<open>
  \<open>ReleasePools\<close>, at the end of the destructor: where the pools are destroyed. A thread of one of them
  hands them to the pool for CPU work, and leaks them if that refuses the task (\<open>spawn_ok\<close>).
\<close>

datatype disposal = Destroyed_here | Handed_over | Leaked

definition ReleasePools :: "'v sys \<Rightarrow> tid \<Rightarrow> bool \<Rightarrow> disposal" where
  "ReleasePools s t spawn_ok =
     (if \<not> OwnsThisThread s t then Destroyed_here else if spawn_ok then Handed_over else Leaked)"

section \<open>Make and Spawn\<close>

definition idle_thread :: "'v thread" where
  "idle_thread = \<lparr>prog = [], call = Idle, current = None, open_task = None, log = []\<rparr>"

definition zero_stats :: InstanceStats where
  "zero_stats = \<lparr>submitted = 0, outstanding_cost = 0, completed = 0, wait_ns = 0, busy_ns = 0, io_bytes = 0\<rparr>"

text \<open>
  The loop that opens a table on each pool: the functor's outcome per instance is a parameter, the
  first failure stops the loop. The value is whether each table it made is null.
\<close>

fun open_tables :: "(nat \<Rightarrow> bool outcome) \<Rightarrow> nat \<Rightarrow> nat \<Rightarrow> bool list result" where
  "open_tables functor i 0 = Inr []"
| "open_tables functor i (Suc k) =
     rbind (Invoke (functor i)) (\<lambda>b. rbind (open_tables functor (Suc i) k) (\<lambda>bs. Inr (b # bs)))"

definition MakeProxy :: "(nat \<Rightarrow> bool outcome) \<Rightarrow> nat \<Rightarrow> nat \<Rightarrow> 'v sys result" where
  "MakeProxy functor ninstances clients =
     (if ninstances < 1 then Inl (Invalid [Str ''Number of instances must at least be 1''])
      else rbind (open_tables functor 0 ninstances) (\<lambda>nulls.
        Inr \<lparr>now = 0, stats = replicate ninstances zero_stats, queues = replicate ninstances [],
             replies = replicate ninstances [], proxies = [\<lparr>is_closed = False, isNull = nulls\<rparr>],
             nclients = clients, threads = (\<lambda>_. idle_thread)\<rparr>))"

text \<open>
  \<open>Spawn\<close> submits its functor to the pool of each instance in turn, for the parent's table of this
  instance, and waits for the table it returns (rules \<open>spawn_begin\<close> to \<open>spawn_done\<close> below). It checks neither
  the flag of the parent nor whether the table is null: \<open>OpenTask\<close> is the closure that it submits, and
  \<open>InvokeOpener\<close> what the worker does with it. The first failure is the result; otherwise, after the
  last instance, the new proxy with the tables shares the pools and statistics. That it also keeps
  its parent alive is not modelled, since no object of the model is destroyed.
\<close>

definition OpenTask :: "nat \<Rightarrow> 'v opener \<Rightarrow> bool list \<Rightarrow> 'v task" where
  "OpenTask p f nulls = OpenTable p (length nulls) f"

definition InvokeOpener :: "nat \<Rightarrow> nat \<Rightarrow> 'v opener \<Rightarrow> 'v action list \<times> open_run" where
  "InvokeOpener p i f = (open_actions f, \<lparr>open_proxy = p, open_instance = i, open_outcome = opened f i\<rparr>)"

definition collect_table :: "nat \<Rightarrow> 'v opener \<Rightarrow> bool list \<Rightarrow> 'v reply result \<Rightarrow> 'v thread \<Rightarrow> 'v thread" where
  "collect_table p f nulls r th =
     (case r of
        Inl e \<Rightarrow> th\<lparr>call := Idle, log := log th @ [Inl e]\<rparr>
      | Inr v \<Rightarrow>
          (case v of
             Table b \<Rightarrow> th\<lparr>call := Spawning p f (nulls @ [b])\<rparr>
           | _ \<Rightarrow> th\<lparr>call := Idle, log := log th @ [Inl (Undefined ''no table'')]\<rparr>))"

section \<open>Steps\<close>

text \<open>One step of thread \<open>t\<close> from state \<open>s\<close>.\<close>

inductive step :: "closing \<Rightarrow> tid \<Rightarrow> 'v sys \<Rightarrow> 'v sys \<Rightarrow> bool" for closing where
  record_bytes: "threads s t = th \<Longrightarrow> call th = Idle \<Longrightarrow> prog th = Record k # as \<Longrightarrow>
     step closing t s (RecordIoBytes t k (set_thread t (th\<lparr>prog := as\<rparr>) s))"
| run_refused: "threads s t = th \<Longrightarrow> call th = Idle \<Longrightarrow> prog th = Run sync p c job # as \<Longrightarrow> p < length (proxies s) \<Longrightarrow>
     CheckClosed s p = Inl e \<Longrightarrow>
     step closing t s (set_thread t (th\<lparr>prog := as, log := log th @ [Inl e]\<rparr>) s)"
| run_checked: "threads s t = th \<Longrightarrow> call th = Idle \<Longrightarrow> prog th = Run sync p c job # as \<Longrightarrow> p < length (proxies s) \<Longrightarrow>
     CheckClosed s p = Inr () \<Longrightarrow>
     step closing t s (set_thread t (th\<lparr>prog := as, call := Loading sync p c job 0 0 max_int64\<rparr>) s)"
| load: "threads s t = th \<Longrightarrow> call th = Loading sync p c job i inst least \<Longrightarrow> i < nInstances s \<Longrightarrow>
     less_loaded (load_of (current th) (stats s) i) i (inst, least) = (inst', least') \<Longrightarrow>
     step closing t s (set_thread t (th\<lparr>call := Loading sync p c job (Suc i) inst' least'\<rparr>) s)"
| reserve: "threads s t = th \<Longrightarrow> call th = Loading sync p c job (nInstances s) inst least \<Longrightarrow>
     reserve inst c s = (s', sub) \<Longrightarrow>
     step closing t s (set_thread t (th\<lparr>call := Submitting sync p sub job\<rparr>) s')"
| submit: "threads s t = th \<Longrightarrow> call th = Submitting sync p sub job \<Longrightarrow> on_instance sub = i \<Longrightarrow>
     step closing t s (set_thread t (th\<lparr>call := (if sync then Waiting (i, next_number s i) else Idle)\<rparr>)
       (enqueue i (Work p sub job) s))"
| waited: "threads s t = th \<Longrightarrow> call th = Waiting f \<Longrightarrow> is_finished s f \<Longrightarrow>
     step closing t s (set_thread t (th\<lparr>call := Idle, log := log th @ [result_of s f]\<rparr>) s)"
| close_again: "threads s t = th \<Longrightarrow> call th = Idle \<Longrightarrow> prog th = Close p # as \<Longrightarrow> p < length (proxies s) \<Longrightarrow>
     is_closed (proxies s ! p) \<Longrightarrow>
     step closing t s (set_thread t (th\<lparr>prog := as, log := log th @ [Inr (Closed False)]\<rparr>) s)"
| close_begin: "threads s t = th \<Longrightarrow> call th = Idle \<Longrightarrow> prog th = Close p # as \<Longrightarrow> p < length (proxies s) \<Longrightarrow>
     \<not> is_closed (proxies s ! p) \<Longrightarrow>
     step closing t s (set_thread t (th\<lparr>prog := as, call := Closing p 0 [] None\<rparr>) s)"
| close_inline: "threads s t = th \<Longrightarrow> call th = Closing p i fs inline \<Longrightarrow> i < nInstances s \<Longrightarrow> t = Worker i \<Longrightarrow>
     step closing t s (set_thread t (th\<lparr>call := Closing p (Suc i) fs
         (case close_status closing p i of Some e \<Rightarrow> Some e | None \<Rightarrow> inline)\<rparr>)
       (close_table closing p i s))"
| close_submit: "threads s t = th \<Longrightarrow> call th = Closing p i fs inline \<Longrightarrow> i < nInstances s \<Longrightarrow> t \<noteq> Worker i \<Longrightarrow>
     step closing t s (set_thread t (th\<lparr>call := Closing p (Suc i) (fs @ [(i, next_number s i)]) inline\<rparr>)
       (enqueue i (CloseTable p) s))"
| close_done: "threads s t = th \<Longrightarrow> call th = Closing p (nInstances s) fs inline \<Longrightarrow> \<forall>f \<in> set fs. is_finished s f \<Longrightarrow>
     step closing t s (set_thread t (th\<lparr>call := Idle, log := log th @ [close_result s fs inline]\<rparr>) (set_closed p s))"
| spawn_begin: "threads s t = th \<Longrightarrow> call th = Idle \<Longrightarrow> prog th = Spawn p f # as \<Longrightarrow> p < length (proxies s) \<Longrightarrow>
     step closing t s (set_thread t (th\<lparr>prog := as, call := Spawning p f []\<rparr>) s)"
| spawn_submit: "threads s t = th \<Longrightarrow> call th = Spawning p f nulls \<Longrightarrow> length nulls = i \<Longrightarrow> i < nInstances s \<Longrightarrow>
     step closing t s (set_thread t (th\<lparr>call := Opening p f nulls (i, next_number s i)\<rparr>)
       (enqueue i (OpenTask p f nulls) s))"
| spawn_collect: "threads s t = th \<Longrightarrow> call th = Opening p f nulls fut \<Longrightarrow> is_finished s fut \<Longrightarrow>
     step closing t s (set_thread t (collect_table p f nulls (result_of s fut) th) s)"
| spawn_done: "threads s t = th \<Longrightarrow> call th = Spawning p f nulls \<Longrightarrow> length nulls = nInstances s \<Longrightarrow>
     step closing t s (set_thread t (th\<lparr>call := Idle, log := log th @ [Inr (Spawned (length (proxies s)))]\<rparr>)
       (add_proxy nulls s))"
| start: "threads s (Worker i) = th \<Longrightarrow> call th = Idle \<Longrightarrow> prog th = [] \<Longrightarrow> \<not> busy th \<Longrightarrow> i < nInstances s \<Longrightarrow>
     queues s ! i = Work p sub job # q \<Longrightarrow> InvokeOnInstance sub p job s = (as, r) \<Longrightarrow>
     step closing (Worker i) s (set_thread (Worker i) (th\<lparr>prog := as, current := Some r\<rparr>) (enter_scope sub (pop i s)))"
| start_open: "threads s (Worker i) = th \<Longrightarrow> call th = Idle \<Longrightarrow> prog th = [] \<Longrightarrow> \<not> busy th \<Longrightarrow> i < nInstances s \<Longrightarrow>
     queues s ! i = OpenTable p j f # q \<Longrightarrow> InvokeOpener p j f = (as, r) \<Longrightarrow>
     step closing (Worker i) s (set_thread (Worker i) (th\<lparr>prog := as, open_task := Some r\<rparr>) (pop i s))"
| start_close: "threads s (Worker i) = th \<Longrightarrow> call th = Idle \<Longrightarrow> prog th = [] \<Longrightarrow> \<not> busy th \<Longrightarrow> i < nInstances s \<Longrightarrow>
     queues s ! i = CloseTable p # q \<Longrightarrow>
     step closing (Worker i) s (reply i
         (case close_status closing p i of Some e \<Rightarrow> Inl e | None \<Rightarrow> Inr (Closed True))
       (close_table closing p i (pop i s)))"
| finish: "threads s (Worker i) = th \<Longrightarrow> call th = Idle \<Longrightarrow> prog th = [] \<Longrightarrow> current th = Some r \<Longrightarrow> open_task th = None \<Longrightarrow>
     i < nInstances s \<Longrightarrow>
     step closing (Worker i) s (reply i (rbind (Invoke (run_outcome r)) (\<lambda>v. Inr (Value v)))
       (set_thread (Worker i) (th\<lparr>current := None\<rparr>) (leave_scope r s)))"
| finish_open: "threads s (Worker i) = th \<Longrightarrow> call th = Idle \<Longrightarrow> prog th = [] \<Longrightarrow> open_task th = Some r \<Longrightarrow> i < nInstances s \<Longrightarrow>
     step closing (Worker i) s (reply i (rbind (Invoke (open_outcome r)) (\<lambda>b. Inr (Table b)))
       (set_thread (Worker i) (th\<lparr>open_task := None\<rparr>) s))"

text \<open>The proxies that calls refer to exist, also in the jobs that run later.\<close>

fun known :: "nat \<Rightarrow> 'v action \<Rightarrow> bool" and known_job :: "nat \<Rightarrow> 'v job \<Rightarrow> bool"
  and known_opener :: "nat \<Rightarrow> 'v opener \<Rightarrow> bool" where
  "known n (Record k) = True"
| "known n (Run sync p c job) = (p < n \<and> known_job n job)"
| "known n (Close p) = (p < n)"
| "known n (Spawn p f) = (p < n \<and> known_opener n f)"
| "known_job n (Job as out) = (\<forall>a \<in> set as. known n a)"
| "known_opener n (Opener as outs) = (\<forall>a \<in> set as. known n a)"

text \<open>
  The states of a family: made, then any interleaving of steps of its threads, of the passing of
  time, and of idle clients that begin to make calls, each satisfying \<open>P\<close>.
\<close>

inductive reachable :: "('v action \<Rightarrow> bool) \<Rightarrow> closing \<Rightarrow> 'v sys \<Rightarrow> bool" for P closing where
  made: "MakeProxy functor n m = Inr s \<Longrightarrow> reachable P closing s"
| stepped: "reachable P closing s \<Longrightarrow> step closing t s s' \<Longrightarrow> reachable P closing s'"
| tick: "reachable P closing s \<Longrightarrow> reachable P closing (s\<lparr>now := now s + d\<rparr>)"
| requested: "reachable P closing s \<Longrightarrow> threads s (Client k) = th \<Longrightarrow> k < nclients s \<Longrightarrow> prog th = [] \<Longrightarrow> call th = Idle \<Longrightarrow>
     (\<forall>a \<in> set as. P a \<and> known (length (proxies s)) a) \<Longrightarrow>
     reachable P closing (set_thread (Client k) (th\<lparr>prog := as\<rparr>) s)"


section \<open>What the updates leave alone\<close>

lemma nth_upd: "xs[i := x] ! j = (if i = j \<and> i < length xs then x else xs ! j)"
  by (cases "i < length xs") (auto simp: nth_list_update list_update_beyond)

lemmas update_defs = upd_stats_def set_thread_def enqueue_def pop_def reply_def set_null_def set_closed_def add_proxy_def

lemma nInstances_upd [simp]:
  "nInstances (upd_stats i f s) = nInstances s" "nInstances (set_thread t th s) = nInstances s"
  "nInstances (enqueue i k s) = nInstances s" "nInstances (pop i s) = nInstances s"
  "nInstances (reply i r s) = nInstances s" "nInstances (set_null p i b s) = nInstances s"
  "nInstances (set_closed p s) = nInstances s" "nInstances (add_proxy nulls s) = nInstances s"
  by (simp_all add: nInstances_def update_defs)

lemma threads_upd [simp]:
  "threads (upd_stats i f s) = threads s" "threads (set_thread t th s) = (threads s)(t := th)"
  "threads (enqueue i k s) = threads s" "threads (pop i s) = threads s"
  "threads (reply i r s) = threads s" "threads (set_null p i b s) = threads s"
  "threads (set_closed p s) = threads s" "threads (add_proxy nulls s) = threads s"
  by (simp_all add: update_defs)

lemma queues_upd [simp]:
  "queues (upd_stats i f s) = queues s" "queues (set_thread t th s) = queues s"
  "queues (enqueue i k s) = (queues s)[i := queues s ! i @ [k]]" "queues (pop i s) = (queues s)[i := tl (queues s ! i)]"
  "queues (reply i r s) = queues s" "queues (set_null p i b s) = queues s"
  "queues (set_closed p s) = queues s" "queues (add_proxy nulls s) = queues s"
  by (simp_all add: update_defs)

lemma replies_upd [simp]:
  "replies (upd_stats i f s) = replies s" "replies (set_thread t th s) = replies s"
  "replies (enqueue i k s) = replies s" "replies (pop i s) = replies s"
  "replies (reply i r s) = (replies s)[i := replies s ! i @ [r]]" "replies (set_null p i b s) = replies s"
  "replies (set_closed p s) = replies s" "replies (add_proxy nulls s) = replies s"
  by (simp_all add: update_defs)

lemma stats_upd [simp]:
  "stats (upd_stats i f s) = (stats s)[i := f (stats s ! i)]" "stats (set_thread t th s) = stats s"
  "stats (enqueue i k s) = stats s" "stats (pop i s) = stats s"
  "stats (reply i r s) = stats s" "stats (set_null p i b s) = stats s"
  "stats (set_closed p s) = stats s" "stats (add_proxy nulls s) = stats s"
  by (simp_all add: update_defs)

lemma proxies_upd [simp]:
  "proxies (upd_stats i f s) = proxies s" "proxies (set_thread t th s) = proxies s"
  "proxies (enqueue i k s) = proxies s" "proxies (pop i s) = proxies s" "proxies (reply i r s) = proxies s"
  "length (proxies (set_null p i b s)) = length (proxies s)" "length (proxies (set_closed p s)) = length (proxies s)"
  "length (proxies (add_proxy nulls s)) = Suc (length (proxies s))"
  by (simp_all add: update_defs)

lemma add_proxy_proxies [simp]: "q < length (proxies s) \<Longrightarrow> proxies (add_proxy nulls s) ! q = proxies s ! q"
  by (simp add: add_proxy_def nth_append)

text \<open>What each outcome of an opened table does to the thread that waits for it.\<close>

lemma collect_table_cases:
  obtains (table) b where "r = Inr (Table b)" and "collect_table p f nulls r th = th\<lparr>call := Spawning p f (nulls @ [b])\<rparr>"
  | (failed) e where "\<forall>b. r \<noteq> Inr (Table b)" and "\<forall>e'. r = Inl e' \<longrightarrow> e = e'"
      and "collect_table p f nulls r th = th\<lparr>call := Idle, log := log th @ [Inl e]\<rparr>"
proof (cases r)
  case (Inl e)
  then show ?thesis by (intro failed [of e]) (simp_all add: collect_table_def)
next
  case (Inr v)
  show ?thesis
  proof (cases v)
    case (Table b)
    with Inr show ?thesis by (intro table [of b]) (simp_all add: collect_table_def)
  qed (use Inr in \<open>intro failed [of "Undefined ''no table''"]; simp add: collect_table_def\<close>)+
qed

lemma collect_table_frame [simp]:
  "prog (collect_table p f nulls r th) = prog th" "current (collect_table p f nulls r th) = current th"
  "open_task (collect_table p f nulls r th) = open_task th"
  by (simp_all add: collect_table_def split: sum.split reply.split)

lemma call_collect_table [simp]:
  "call (collect_table p f nulls r th) \<noteq> Closing q i fs inline" "call (collect_table p f nulls r th) \<noteq> Opening q f' nulls' fut"
  by (cases rule: collect_table_cases [of r p f nulls th]; simp)+

lemma nclients_upd [simp]:
  "nclients (upd_stats i f s) = nclients s" "nclients (set_thread t th s) = nclients s"
  "nclients (enqueue i k s) = nclients s" "nclients (pop i s) = nclients s"
  "nclients (reply i r s) = nclients s" "nclients (set_null p i b s) = nclients s"
  "nclients (set_closed p s) = nclients s" "nclients (add_proxy nulls s) = nclients s"
  by (simp_all add: update_defs)

lemma now_upd [simp]:
  "now (upd_stats i f s) = now s" "now (set_thread t th s) = now s"
  "now (enqueue i k s) = now s" "now (pop i s) = now s" "now (reply i r s) = now s"
  "now (set_null p i b s) = now s" "now (set_closed p s) = now s" "now (add_proxy nulls s) = now s"
  by (simp_all add: update_defs)

lemma RecordIoBytes_frame [simp]:
  "nInstances (RecordIoBytes t k s) = nInstances s" "threads (RecordIoBytes t k s) = threads s"
  "queues (RecordIoBytes t k s) = queues s" "replies (RecordIoBytes t k s) = replies s"
  "proxies (RecordIoBytes t k s) = proxies s" "nclients (RecordIoBytes t k s) = nclients s"
  "length (stats (RecordIoBytes t k s)) = length (stats s)"
  by (simp_all add: RecordIoBytes_def split: option.split)

lemma set_null_proxies:
  "q < length (proxies s) \<Longrightarrow> is_closed (proxies (set_null p i b s) ! q) = is_closed (proxies s ! q)"
  "q < length (proxies s) \<Longrightarrow> isNull (proxies (set_null p i b s) ! q) =
     (if q = p then (isNull (proxies s ! p))[i := b] else isNull (proxies s ! q))"
  by (cases "p < length (proxies s)"; auto simp: set_null_def nth_list_update)+

lemma set_closed_proxies:
  "q < length (proxies s) \<Longrightarrow> is_closed (proxies (set_closed p s) ! q) = (q = p \<or> is_closed (proxies s ! q))"
  "q < length (proxies s) \<Longrightarrow> isNull (proxies (set_closed p s) ! q) = isNull (proxies s ! q)"
  by (cases "p < length (proxies s)"; auto simp: set_closed_def nth_list_update)+

lemmas scope_defs = enter_scope_def leave_scope_def close_table_def reserve_def

section \<open>Well formed states\<close>

definition tids :: "'v sys \<Rightarrow> tid set" where
  "tids s = Client ` {..<nclients s} \<union> Worker ` {..<nInstances s}"

definition issued :: "'v sys \<Rightarrow> future \<Rightarrow> bool" where
  "issued s f \<longleftrightarrow> fst f < nInstances s \<and> snd f < next_number s (fst f)"

definition wf_call :: "'v sys \<Rightarrow> 'v call \<Rightarrow> bool" where
  "wf_call s c =
     (case c of
        Idle \<Rightarrow> True
      | Loading sync p k job i inst least \<Rightarrow> i \<le> nInstances s \<and> inst < nInstances s \<and> p < length (proxies s) \<and>
          known_job (length (proxies s)) job
      | Submitting sync p sub job \<Rightarrow> on_instance sub < nInstances s \<and> p < length (proxies s) \<and>
          known_job (length (proxies s)) job
      | Closing p i fs inline \<Rightarrow> i \<le> nInstances s \<and> p < length (proxies s) \<and> (\<forall>f \<in> set fs. issued s f)
      | Spawning p f nulls \<Rightarrow> length nulls \<le> nInstances s \<and> p < length (proxies s) \<and> known_opener (length (proxies s)) f
      | Opening p f nulls fut \<Rightarrow> length nulls < nInstances s \<and> p < length (proxies s) \<and>
          known_opener (length (proxies s)) f \<and> issued s fut
      | Waiting f \<Rightarrow> issued s f)"

definition wf_task :: "'v sys \<Rightarrow> nat \<Rightarrow> 'v task \<Rightarrow> bool" where
  "wf_task s i task =
     (case task of
        Work p sub job \<Rightarrow> on_instance sub = i \<and> p < length (proxies s) \<and> known_job (length (proxies s)) job
      | CloseTable p \<Rightarrow> p < length (proxies s)
      | OpenTable p j f \<Rightarrow> j = i \<and> p < length (proxies s) \<and> known_opener (length (proxies s)) f)"

text \<open>
  Only the worker of an instance runs a task, a task of this instance, and one at a time. A task that
  found its table closed ends with the status for it.
\<close>

definition wf_current :: "'v sys \<Rightarrow> tid \<Rightarrow> bool" where
  "wf_current s t \<longleftrightarrow>
     (\<forall>r. current (threads s t) = Some r \<longrightarrow> t = Worker (on_instance (run_sub r)) \<and> on_instance (run_sub r) < nInstances s \<and>
        run_proxy r < length (proxies s) \<and>
        (\<not> invoked r \<longrightarrow> run_outcome r = Returns (Inl (Invalid [Str ''TableProxy is closed''])))) \<and>
     (\<forall>r. open_task (threads s t) = Some r \<longrightarrow> t = Worker (open_instance r) \<and> open_instance r < nInstances s \<and>
        open_proxy r < length (proxies s) \<and> current (threads s t) = None)"

definition wf_thread :: "'v sys \<Rightarrow> tid \<Rightarrow> bool" where
  "wf_thread s t \<longleftrightarrow>
     (let th = threads s t
      in (t \<notin> tids s \<longrightarrow> prog th = [] \<and> call th = Idle) \<and>
         wf_current s t \<and>
         (\<forall>a \<in> set (prog th). known (length (proxies s)) a) \<and> wf_call s (call th))"

definition wf_sys :: "'v sys \<Rightarrow> bool" where
  "wf_sys s \<longleftrightarrow> 0 < nInstances s \<and> length (queues s) = nInstances s \<and> length (replies s) = nInstances s \<and>
     (\<forall>p \<in> set (proxies s). length (isNull p) = nInstances s) \<and>
     (\<forall>i < nInstances s. \<forall>task \<in> set (queues s ! i). wf_task s i task) \<and> (\<forall>t. wf_thread s t)"

lemma known_mono:
  fixes a :: "'v action" and job :: "'v job" and f :: "'v opener"
  shows "known n a \<Longrightarrow> n \<le> m \<Longrightarrow> known m a"
    and "known_job n job \<Longrightarrow> n \<le> m \<Longrightarrow> known_job m job"
    and "known_opener n f \<Longrightarrow> n \<le> m \<Longrightarrow> known_opener m f"
  by (induction n a and n job and n f rule: known_known_job_known_opener.induct) auto

lemma known_actions:
  "known_job n job \<Longrightarrow> a \<in> set (actions job) \<Longrightarrow> known n a"
  "known_opener n f \<Longrightarrow> a \<in> set (open_actions f) \<Longrightarrow> known n a"
  by (cases job; auto) (cases f; auto)

lemma step_frame:
  "step closing t s s' \<Longrightarrow> nInstances s' = nInstances s \<and> length (proxies s) \<le> length (proxies s') \<and>
     nclients s' = nclients s \<and> length (queues s') = length (queues s) \<and> length (replies s') = length (replies s) \<and>
     now s' = now s \<and> (\<forall>t'. t' \<noteq> t \<longrightarrow> threads s' t' = threads s t')"
  by (induction rule: step.induct) (auto simp: scope_defs RecordIoBytes_def split: option.splits)

lemma step_tids: "step closing t s s' \<Longrightarrow> tids s' = tids s"
  by (drule step_frame) (simp add: tids_def)

lemma step_next_number:
  assumes "step closing t s s'" and "wf_sys s" and "i < nInstances s"
  shows "next_number s i \<le> next_number s' i"
  using assms
  by (induction rule: step.induct)
    (auto simp: next_number_def begun_def busy_def scope_defs wf_sys_def nth_upd split: if_splits)

lemma step_issued: "step closing t s s' \<Longrightarrow> wf_sys s \<Longrightarrow> issued s f \<Longrightarrow> issued s' f"
  using step_next_number step_frame by (fastforce simp: issued_def)

lemma wf_call_mono:
  assumes "wf_call s c" and "nInstances s' = nInstances s" and "length (proxies s) \<le> length (proxies s')"
    and "\<And>f. issued s f \<Longrightarrow> issued s' f"
  shows "wf_call s' c"
  using assms by (auto simp: wf_call_def intro: known_mono order_less_le_trans split: call.splits)

lemma wf_thread_other:
  assumes "wf_thread s t'" and "step closing t s s'" and "wf_sys s" and "t' \<noteq> t"
  shows "wf_thread s' t'"
proof -
  note fr = step_frame [OF assms(2)] and tids = step_tids [OF assms(2)] and iss = step_issued [OF assms(2,3)]
  have "wf_call s' c" if "wf_call s c" for c using that iss fr by (rule_tac wf_call_mono [of s]) auto
  moreover have "known (length (proxies s')) a" if "known (length (proxies s)) a" for a :: "'a action"
    using known_mono(1) [OF that] fr by simp
  moreover have "wf_current s' t'" if "wf_current s t'"
    using that fr assms(4) by (auto simp: wf_current_def)
  ultimately show ?thesis using assms(1,4) fr tids by (auto simp: wf_thread_def Let_def)
qed

lemma less_loaded_inst: "less_loaded load i (inst, least) = (inst', least') \<Longrightarrow> inst' = i \<or> inst' = inst"
  by (auto simp: less_loaded_def split: if_splits)

lemma wf_thread_currentI: "wf_sys s \<Longrightarrow> wf_current s t"
  by (simp add: wf_sys_def wf_thread_def Let_def)

lemma step_wf_current:
  assumes "step closing t s s'" and "wf_sys s"
  shows "wf_current s' t"
proof -
  have w: "wf_current s t" and wq: "\<forall>i < nInstances s. \<forall>task \<in> set (queues s ! i). wf_task s i task"
    using assms(2) by (auto simp: wf_sys_def intro: wf_thread_currentI [OF assms(2)])
  from assms(1) w wq show ?thesis
  proof (induction rule: step.induct)
    case (start s i th p sub job q acts r)
    then have "wf_task s i (Work p sub job)" by auto
    with start show ?case
      by (auto simp: wf_current_def InvokeOnInstance_def wf_task_def scope_defs busy_def split: if_splits)
  next
    case (start_open s i th p j f q acts r)
    then have "wf_task s i (OpenTable p j f)" by auto
    with start_open show ?case by (auto simp: wf_current_def InvokeOpener_def wf_task_def busy_def)
  qed (auto simp: wf_current_def scope_defs)
qed

lemma step_wf_thread:
  assumes "step closing t s s'" and "wf_sys s"
  shows "wf_thread s' t"
proof -
  have iss: "issued s' f" if "issued s f" for f using step_issued [OF assms that] .
  have cur: "wf_current s' t" by (rule step_wf_current [OF assms])
  from assms(2) have wt: "wf_thread s t" and wq: "\<forall>i < nInstances s. \<forall>task \<in> set (queues s ! i). wf_task s i task"
    and l: "length (queues s) = nInstances s" "0 < nInstances s" by (simp_all add: wf_sys_def)
  from assms(1) cur iss wt wq l show ?thesis
  proof (induction rule: step.induct)
    case (load s t th sync p c job i inst least inst' least')
    then show ?case by (auto simp: wf_thread_def Let_def wf_call_def tids_def dest!: less_loaded_inst)
  next
    case (start s i th p sub job q acts r)
    have "wf_task s i (Work p sub job)" using start by auto
    with start show ?case
      by (auto simp: wf_thread_def Let_def wf_call_def tids_def InvokeOnInstance_def wf_task_def scope_defs
          known_actions split: if_splits)
  next
    case (start_open s i th p j f q acts r)
    have "wf_task s i (OpenTable p j f)" using start_open by auto
    with start_open show ?case
      by (auto simp: wf_thread_def Let_def wf_call_def tids_def InvokeOpener_def wf_task_def known_actions)
  next
    case (submit s t th sync p sub job i)
    then show ?case
      by (auto simp: wf_thread_def Let_def wf_call_def tids_def issued_def next_number_def begun_def busy_def)
  next
    case (close_submit s t th p i fs inline)
    then show ?case
      by (auto simp: wf_thread_def Let_def wf_call_def tids_def issued_def next_number_def begun_def busy_def)
  next
    case (spawn_submit s t th p f nulls i)
    then show ?case
      by (auto simp: wf_thread_def Let_def wf_call_def tids_def issued_def next_number_def begun_def busy_def)
  next
    case (spawn_collect s t th p f nulls fut)
    then show ?case
      by (cases rule: collect_table_cases [of "result_of s fut" p f nulls th])
        (auto simp: wf_thread_def Let_def wf_call_def tids_def)
  next
    case (spawn_done s t th p f nulls)
    then show ?case
      by (auto simp: wf_thread_def Let_def wf_call_def tids_def intro: known_mono)
  qed (auto simp: wf_thread_def Let_def wf_call_def tids_def scope_defs)
qed

definition null_lengths :: "nat \<Rightarrow> 'v sys \<Rightarrow> bool" where
  "null_lengths n s \<longleftrightarrow> (\<forall>p \<in> set (proxies s). length (isNull p) = n)"

lemma null_lengths_same [simp]:
  "null_lengths n (upd_stats i f s) = null_lengths n s" "null_lengths n (set_thread t th s) = null_lengths n s"
  "null_lengths n (enqueue i k s) = null_lengths n s" "null_lengths n (pop i s) = null_lengths n s"
  "null_lengths n (reply i r s) = null_lengths n s" "null_lengths n (RecordIoBytes t c s) = null_lengths n s"
  by (simp_all add: null_lengths_def)

lemma null_lengths_upd:
  "null_lengths n s \<Longrightarrow> null_lengths n (set_null p i b s)" "null_lengths n s \<Longrightarrow> null_lengths n (set_closed p s)"
  by (cases "p < length (proxies s)";
    auto simp: null_lengths_def set_null_def set_closed_def list_update_beyond
      dest!: subsetD [OF set_update_subset_insert])+

lemma null_lengths_add: "null_lengths n s \<Longrightarrow> length nulls = n \<Longrightarrow> null_lengths n (add_proxy nulls s)"
  by (auto simp: null_lengths_def add_proxy_def)

lemma wf_callI: "wf_sys s \<Longrightarrow> wf_call s (call (threads s t))"
  by (simp add: wf_sys_def wf_thread_def Let_def)

lemma wf_task_mono:
  assumes "wf_task s i task" and "length (proxies s) \<le> length (proxies s')"
  shows "wf_task s' i task"
  using assms by (auto simp: wf_task_def intro: known_mono order_less_le_trans split: task.splits)

lemma step_wf_queues:
  assumes "step closing t s s'" and "wf_sys s"
  shows "\<forall>i < nInstances s'. \<forall>task \<in> set (queues s' ! i). wf_task s' i task"
proof -
  have wc: "wf_call s (call (threads s t))" by (rule wf_callI [OF assms(2)])
  from assms wc have "\<forall>i < nInstances s. \<forall>task \<in> set (queues s' ! i). wf_task s i task"
  proof (induction rule: step.induct)
    case (submit s t th sync p sub job i)
    then show ?case by (auto simp: wf_sys_def nth_upd wf_call_def wf_task_def)
  next
    case (close_submit s t th p i fs inline)
    then show ?case by (auto simp: wf_sys_def nth_upd wf_call_def wf_task_def)
  next
    case (spawn_submit s t th p f nulls i)
    then show ?case by (auto simp: wf_sys_def nth_upd wf_call_def wf_task_def OpenTask_def)
  qed (auto simp: wf_sys_def nth_upd scope_defs dest!: list.set_sel(2) [rotated] split: if_splits)
  then show ?thesis using wf_task_mono [of s _ _ s'] step_frame [OF assms(1)] by simp
qed

lemma step_nulls: "step closing t s s' \<Longrightarrow> null_lengths (nInstances s) s \<Longrightarrow> null_lengths (nInstances s) s'"
  by (induction rule: step.induct) (auto simp: scope_defs null_lengths_upd null_lengths_add)

lemma step_wf_nulls: "step closing t s s' \<Longrightarrow> wf_sys s \<Longrightarrow> \<forall>p \<in> set (proxies s'). length (isNull p) = nInstances s"
  using step_nulls [of closing t s s'] by (simp add: wf_sys_def null_lengths_def)

lemma step_wf:
  assumes "step closing t s s'" and "wf_sys s"
  shows "wf_sys s'"
proof -
  have "wf_thread s' t'" for t'
    using step_wf_thread [OF assms] wf_thread_other [OF _ assms, of t'] assms(2) by (cases "t' = t") (auto simp: wf_sys_def)
  then show ?thesis
    using step_frame [OF assms(1)] step_wf_queues [OF assms] step_wf_nulls [OF assms] assms(2) by (simp add: wf_sys_def)
qed

lemma open_tables_length: "open_tables f i k = Inr bs \<Longrightarrow> length bs = k"
  by (induction f i k arbitrary: bs rule: open_tables.induct) (auto simp: rbind_Inr_conv)

lemma MakeProxy_wf: "MakeProxy functor n m = Inr s \<Longrightarrow> wf_sys s"
  by (auto simp: MakeProxy_def rbind_Inr_conv wf_sys_def wf_thread_def wf_current_def Let_def idle_thread_def wf_call_def nInstances_def
      open_tables_length split: if_splits)

lemma wf_tick: "wf_sys s \<Longrightarrow> wf_sys (s\<lparr>now := now s + d\<rparr>)"
proof -
  let ?s = "s\<lparr>now := now s + d\<rparr>"
  have n: "nInstances ?s = nInstances s" "tids ?s = tids s" by (simp_all add: nInstances_def tids_def)
  moreover have iss: "issued ?s = issued s" by (auto simp: issued_def next_number_def begun_def n fun_eq_iff)
  moreover have "wf_call ?s = wf_call s" by (auto simp: wf_call_def iss n fun_eq_iff split: call.splits)
  moreover have "wf_task ?s = wf_task s" by (auto simp: wf_task_def fun_eq_iff split: task.splits)
  moreover have "wf_current ?s = wf_current s" by (auto simp: wf_current_def n fun_eq_iff)
  ultimately show "wf_sys s \<Longrightarrow> wf_sys ?s" by (simp add: wf_sys_def wf_thread_def Let_def)
qed

lemma wf_request:
  assumes "wf_sys s" and "k < nclients s" and "\<forall>a \<in> set as. known (length (proxies s)) a"
  shows "wf_sys (set_thread (Client k) ((threads s (Client k))\<lparr>prog := as\<rparr>) s)" (is "wf_sys ?s")
proof -
  have iss: "issued ?s = issued s" by (auto simp: issued_def next_number_def begun_def fun_eq_iff)
  have "wf_current ?s t = wf_current s t" for t by (auto simp: wf_current_def)
  moreover have "wf_call ?s c = wf_call s c" for c by (auto simp: wf_call_def iss split: call.splits)
  moreover have "wf_task ?s i j = wf_task s i j" for i j by (auto simp: wf_task_def split: task.splits)
  moreover have "tids ?s = tids s" by (simp add: tids_def)
  ultimately show ?thesis
    using assms by (auto simp: wf_sys_def wf_thread_def Let_def tids_def)
qed

lemma reachable_wf: "reachable P closing s \<Longrightarrow> wf_sys s"
proof (induction rule: reachable.induct)
  case (made f n m s)
  then show ?case by (rule MakeProxy_wf)
next
  case (stepped s t s')
  then show ?case by (blast intro: step_wf)
next
  case (tick s d)
  then show ?case by (blast intro: wf_tick)
next
  case (requested s k th acts)
  then show ?case using wf_request [OF requested.IH, of k acts] by blast
qed

section \<open>Accounting\<close>

text \<open>What the tasks on an instance that have not completed amount to, each measured by \<open>f\<close>.\<close>

definition reserved :: "(Submission \<Rightarrow> int64) \<Rightarrow> nat \<Rightarrow> 'v thread \<Rightarrow> int64" where
  "reserved f i th =
     (case call th of Submitting sync p sub job \<Rightarrow> if on_instance sub = i then f sub else 0 | _ \<Rightarrow> 0) +
     (case current th of Some r \<Rightarrow> if on_instance (run_sub r) = i then f (run_sub r) else 0 | None \<Rightarrow> 0)"

definition queued :: "(Submission \<Rightarrow> int64) \<Rightarrow> 'v task \<Rightarrow> int64" where
  "queued f task = (case task of Work p sub job \<Rightarrow> f sub | _ \<Rightarrow> 0)"

definition held :: "(Submission \<Rightarrow> int64) \<Rightarrow> nat \<Rightarrow> 'v sys \<Rightarrow> int64" where
  "held f i s = (\<Sum>t \<in> tids s. reserved f i (threads s t)) + (\<Sum>task \<leftarrow> queues s ! i. queued f task)"

lemma finite_tids [simp]: "finite (tids s)"
  by (simp add: tids_def)

definition queued_sum :: "(Submission \<Rightarrow> int64) \<Rightarrow> nat \<Rightarrow> 'v sys \<Rightarrow> int64" where
  "queued_sum f i s = (\<Sum>task \<leftarrow> queues s ! i. queued f task)"

lemma held_change:
  assumes "t \<in> tids s" and "tids s' = tids s" and "\<forall>t'. t' \<noteq> t \<longrightarrow> threads s' t' = threads s t'"
  shows "held f i s' - held f i s =
    reserved f i (threads s' t) - reserved f i (threads s t) + (queued_sum f i s' - queued_sum f i s)"
proof -
  have "(\<Sum>t' \<in> tids s - {t}. reserved f i (threads s' t')) = (\<Sum>t' \<in> tids s - {t}. reserved f i (threads s t'))"
    using assms(3) by (intro sum.cong) auto
  then show ?thesis
    using assms(2) by (simp add: held_def queued_sum_def sum.remove [OF finite_tids assms(1)])
qed

lemma step_tid: "step closing t s s' \<Longrightarrow> wf_sys s \<Longrightarrow> t \<in> tids s"
proof -
  assume st: "step closing t s s'" and "wf_sys s"
  then have "wf_thread s t" by (simp add: wf_sys_def)
  with st show ?thesis by (induction rule: step.induct) (auto simp: wf_thread_def Let_def tids_def)
qed

text \<open>A counter of the statistics that follows \<open>f\<close>: up when a task is reserved, down when it ends.\<close>

locale account =
  fixes counter :: "InstanceStats \<Rightarrow> int64"
    and f :: "Submission \<Rightarrow> int64"
  assumes counter_zero: "counter zero_stats = 0"
    and counter_reserve: "counter (x\<lparr>outstanding_cost := outstanding_cost x + sub_cost sub, submitted := submitted x + 1\<rparr>) =
      counter x + f sub"
    and counter_record: "counter (x\<lparr>io_bytes := n\<rparr>) = counter x"
    and counter_wait: "counter (x\<lparr>wait_ns := n\<rparr>) = counter x"
    and counter_release: "counter (x\<lparr>outstanding_cost := outstanding_cost x - sub_cost sub, busy_ns := n,
      completed := completed x + 1\<rparr>) = counter x - f sub"
begin

lemma step_counter:
  assumes "step closing t s s'" and "wf_sys s" and "i < nInstances s"
  shows "counter (stats s' ! i) - held f i s' = counter (stats s ! i) - held f i s"
proof -
  have wt: "wf_thread s t" and l: "length (queues s) = nInstances s" "i < length (stats s)"
    and wq: "\<forall>i < nInstances s. \<forall>task \<in> set (queues s ! i). wf_task s i task"
    using assms by (simp_all add: wf_sys_def nInstances_def)
  from assms(1) wt l wq have "counter (stats s' ! i) - counter (stats s ! i) =
    reserved f i (threads s' t) - reserved f i (threads s t) + (queued_sum f i s' - queued_sum f i s)"
  proof (induction rule: step.induct)
    case (reserve s t th sync p c job inst least s' sub)
    then show ?case
      using counter_reserve [of "stats s ! i" sub]
      by (auto simp: reserved_def queued_sum_def reserve_def nth_upd)
  next
    case (start s j th p sub job q acts r)
    then have "on_instance sub = j" by (fastforce simp: wf_task_def nInstances_def)
    with start show ?case
      by (auto simp: reserved_def queued_sum_def queued_def scope_defs nth_upd counter_wait InvokeOnInstance_def
          busy_def nInstances_def split: if_splits)
  next
    case (finish s j th r)
    then show ?case
      by (auto simp: reserved_def queued_sum_def scope_defs nth_upd counter_release)
  next
    case (spawn_collect s t th p fn nulls fut)
    then show ?case
      by (cases rule: collect_table_cases [of "result_of s fut" p fn nulls th]) (auto simp: reserved_def queued_sum_def)
  qed (auto simp: reserved_def queued_sum_def queued_def OpenTask_def scope_defs nth_upd counter_record RecordIoBytes_def
      wf_thread_def wf_call_def Let_def split: option.splits if_splits)
  also have "\<dots> = held f i s' - held f i s"
    using step_frame [OF assms(1)] held_change [OF step_tid [OF assms(1,2)] step_tids [OF assms(1)], of f i] by simp
  finally show ?thesis by (simp add: algebra_simps)
qed

lemma reachable_counter: "reachable P closing s \<Longrightarrow> i < nInstances s \<Longrightarrow> counter (stats s ! i) = held f i s"
proof (induction rule: reachable.induct)
  case (made fn n m s)
  then show ?case
    by (auto simp: MakeProxy_def rbind_Inr_conv held_def reserved_def idle_thread_def counter_zero nInstances_def split: if_splits)
next
  case (stepped s t s')
  then show ?case
    using step_counter [OF stepped.hyps(2) reachable_wf [OF stepped.hyps(1)], of i] step_frame [OF stepped.hyps(2)] by simp
next
  case (tick s d)
  then show ?case by (simp add: nInstances_def held_def tids_def)
next
  case (requested s k th acts)
  let ?s' = "set_thread (Client k) (th\<lparr>prog := acts\<rparr>) s"
  have "(\<Sum>t \<in> tids s. reserved f i (threads ?s' t)) = (\<Sum>t \<in> tids s. reserved f i (threads s t))"
    using requested.hyps by (intro sum.cong) (auto simp: reserved_def)
  then have "held f i ?s' = held f i s" by (simp add: held_def tids_def)
  with requested show ?case by simp
qed

end

interpretation cost: account outstanding_cost sub_cost
  by unfold_locales (simp_all add: zero_stats_def)

interpretation tasks: account "\<lambda>x. submitted x - completed x" "\<lambda>_. 1"
  by unfold_locales (simp_all add: zero_stats_def)

section \<open>The choice of an instance\<close>

text \<open>The loop of \<open>Dispatch\<close> keeps the least load of the instances so far, the first of the least.\<close>

definition least_of :: "int64 list \<Rightarrow> nat \<Rightarrow> nat \<times> int64 \<Rightarrow> bool" where
  "least_of loads n acc \<longleftrightarrow>
     (\<forall>j < n. sint (snd acc) \<le> sint (loads ! j)) \<and> (\<forall>j < min n (fst acc). sint (snd acc) < sint (loads ! j)) \<and>
     (if fst acc = 0 then n = 0 \<or> snd acc = loads ! 0 \<or> snd acc = max_int64
      else fst acc < n \<and> snd acc = loads ! fst acc)"

lemma sint_max: "sint (x :: int64) \<le> sint max_int64"
  using sint_lt [of x] by (simp add: max_int64_def)

lemma least_of_fold:
  "n \<le> length loads \<Longrightarrow> least_of loads n (fold (\<lambda>i acc. less_loaded (loads ! i) i acc) [0..<n] (0, max_int64))"
proof (induction n)
  case (Suc n)
  obtain inst least where acc: "fold (\<lambda>i acc. less_loaded (loads ! i) i acc) [0..<n] (0, max_int64) = (inst, least)"
    by fastforce
  with Suc show ?case by (auto simp: least_of_def less_loaded_def less_Suc_eq)
qed (simp add: least_of_def)

lemma choose_instance_least:
  assumes "loads \<noteq> []"
  shows "choose_instance loads < length loads" and "j < length loads \<Longrightarrow> sint (loads ! choose_instance loads) \<le> sint (loads ! j)"
    and "j < choose_instance loads \<Longrightarrow> sint (loads ! choose_instance loads) < sint (loads ! j)"
proof -
  obtain inst least where acc: "fold (\<lambda>i acc. less_loaded (loads ! i) i acc) [0..<length loads] (0, max_int64) = (inst, least)"
    by fastforce
  have inst: "choose_instance loads = inst" by (simp add: choose_instance_def acc)
  have l: "least_of loads (length loads) (inst, least)" using least_of_fold [of "length loads" loads] acc by simp
  have "sint least = sint (loads ! inst) \<and> inst < length loads"
  proof (cases "inst = 0")
    case True
    with l assms have "least = loads ! 0 \<or> least = max_int64" by (simp add: least_of_def)
    moreover have "sint least \<le> sint (loads ! 0)" using l assms by (simp add: least_of_def)
    ultimately show ?thesis using sint_max [of "loads ! 0"] True assms by auto
  qed (use l in \<open>simp add: least_of_def\<close>)
  with l show "choose_instance loads < length loads"
    and "j < length loads \<Longrightarrow> sint (loads ! choose_instance loads) \<le> sint (loads ! j)"
    and "j < choose_instance loads \<Longrightarrow> sint (loads ! choose_instance loads) < sint (loads ! j)"
    by (auto simp: inst least_of_def)
qed

section \<open>Running a thread\<close>

text \<open>The step of a thread as a function: no value where the thread cannot move.\<close>

definition exec_idle :: "closing \<Rightarrow> tid \<Rightarrow> 'v sys \<Rightarrow> 'v sys option" where
  "exec_idle closing t s =
     (case t of
        Client k \<Rightarrow> None
      | Worker i \<Rightarrow>
          if \<not> i < nInstances s then None
          else let th = threads s t
               in (case open_task th of
                    Some r \<Rightarrow> Some (reply i (rbind (Invoke (open_outcome r)) (\<lambda>b. Inr (Table b)))
                                (set_thread t (th\<lparr>open_task := None\<rparr>) s))
                  | None \<Rightarrow>
                      (case current th of
                         Some r \<Rightarrow> Some (reply i (rbind (Invoke (run_outcome r)) (\<lambda>v. Inr (Value v)))
                                     (set_thread t (th\<lparr>current := None\<rparr>) (leave_scope r s)))
                       | None \<Rightarrow>
                           (case queues s ! i of
                              [] \<Rightarrow> None
                            | Work p sub job # q \<Rightarrow>
                                (case InvokeOnInstance sub p job s of (as, r) \<Rightarrow>
                                   Some (set_thread t (th\<lparr>prog := as, current := Some r\<rparr>) (enter_scope sub (pop i s))))
                            | OpenTable p j f # q \<Rightarrow>
                                (case InvokeOpener p j f of (as, r) \<Rightarrow>
                                   Some (set_thread t (th\<lparr>prog := as, open_task := Some r\<rparr>) (pop i s)))
                            | CloseTable p # q \<Rightarrow>
                                Some (reply i (case close_status closing p i of Some e \<Rightarrow> Inl e | None \<Rightarrow> Inr (Closed True))
                                  (close_table closing p i (pop i s)))))))"

definition exec :: "closing \<Rightarrow> tid \<Rightarrow> 'v sys \<Rightarrow> 'v sys option" where
  "exec closing t s =
     (let th = threads s t
      in case call th of
           Idle \<Rightarrow>
             (case prog th of
                [] \<Rightarrow> exec_idle closing t s
              | Record k # as \<Rightarrow> Some (RecordIoBytes t k (set_thread t (th\<lparr>prog := as\<rparr>) s))
              | Run sync p c job # as \<Rightarrow>
                  if \<not> p < length (proxies s) then None
                  else (case CheckClosed s p of
                          Inl e \<Rightarrow> Some (set_thread t (th\<lparr>prog := as, log := log th @ [Inl e]\<rparr>) s)
                        | Inr u \<Rightarrow> Some (set_thread t (th\<lparr>prog := as, call := Loading sync p c job 0 0 max_int64\<rparr>) s))
              | Close p # as \<Rightarrow>
                  if \<not> p < length (proxies s) then None
                  else if is_closed (proxies s ! p)
                  then Some (set_thread t (th\<lparr>prog := as, log := log th @ [Inr (Closed False)]\<rparr>) s)
                  else Some (set_thread t (th\<lparr>prog := as, call := Closing p 0 [] None\<rparr>) s)
              | Spawn p f # as \<Rightarrow>
                  if \<not> p < length (proxies s) then None
                  else Some (set_thread t (th\<lparr>prog := as, call := Spawning p f []\<rparr>) s))
         | Loading sync p c job i inst least \<Rightarrow>
             if i < nInstances s
             then (case less_loaded (load_of (current th) (stats s) i) i (inst, least) of (inst', least') \<Rightarrow>
                     Some (set_thread t (th\<lparr>call := Loading sync p c job (Suc i) inst' least'\<rparr>) s))
             else if i = nInstances s
             then (case reserve inst c s of (s', sub) \<Rightarrow> Some (set_thread t (th\<lparr>call := Submitting sync p sub job\<rparr>) s'))
             else None
         | Submitting sync p sub job \<Rightarrow>
             Some (set_thread t (th\<lparr>call := (if sync then Waiting (on_instance sub, next_number s (on_instance sub)) else Idle)\<rparr>)
               (enqueue (on_instance sub) (Work p sub job) s))
         | Closing p i fs inline \<Rightarrow>
             if i < nInstances s
             then (if t = Worker i
                   then Some (set_thread t (th\<lparr>call := Closing p (Suc i) fs
                           (case close_status closing p i of Some e \<Rightarrow> Some e | None \<Rightarrow> inline)\<rparr>) (close_table closing p i s))
                   else Some (set_thread t (th\<lparr>call := Closing p (Suc i) (fs @ [(i, next_number s i)]) inline\<rparr>)
                           (enqueue i (CloseTable p) s)))
             else if i = nInstances s \<and> (\<forall>f \<in> set fs. is_finished s f)
             then Some (set_thread t (th\<lparr>call := Idle, log := log th @ [close_result s fs inline]\<rparr>) (set_closed p s))
             else None
         | Spawning p f nulls \<Rightarrow>
             (let i = length nulls
              in if i < nInstances s
                 then Some (set_thread t (th\<lparr>call := Opening p f nulls (i, next_number s i)\<rparr>)
                        (enqueue i (OpenTask p f nulls) s))
                 else if i = nInstances s
                 then Some (set_thread t (th\<lparr>call := Idle, log := log th @ [Inr (Spawned (length (proxies s)))]\<rparr>)
                        (add_proxy nulls s))
                 else None)
         | Opening p f nulls fut \<Rightarrow>
             if is_finished s fut then Some (set_thread t (collect_table p f nulls (result_of s fut) th) s) else None
         | Waiting f \<Rightarrow>
             if is_finished s f then Some (set_thread t (th\<lparr>call := Idle, log := log th @ [result_of s f]\<rparr>) s) else None)"

lemma exec_idle_step:
  assumes "exec_idle closing t s = Some s'" and "call (threads s t) = Idle" and "prog (threads s t) = []"
  shows "step closing t s s'"
proof -
  obtain i where i: "t = Worker i" "i < nInstances s"
    using assms(1) by (auto simp: exec_idle_def split: tid.splits if_splits)
  consider r where "open_task (threads s t) = Some r" | r where "open_task (threads s t) = None" "current (threads s t) = Some r"
    | "\<not> busy (threads s t)"
    by (cases "open_task (threads s t)"; cases "current (threads s t)") (auto simp: busy_def)
  then show ?thesis
  proof cases
    case 1
    with i assms step.finish_open [OF refl, of s i _ closing] show ?thesis by (simp add: exec_idle_def)
  next
    case 2
    with i assms step.finish [OF refl, of s i _ closing] show ?thesis by (simp add: exec_idle_def)
  next
    case 3
    show ?thesis
    proof (cases "queues s ! i")
      case (Cons task q)
      with 3 i assms step.start [OF refl, of s i _ _ _ q _ _ closing] step.start_close [OF refl, of s i _ q closing]
        step.start_open [OF refl, of s i _ _ _ q _ _ closing]
      show ?thesis by (cases task) (auto simp: exec_idle_def busy_def split: prod.splits)
    qed (use 3 i assms in \<open>simp add: exec_idle_def busy_def\<close>)
  qed
qed

lemma exec_step: "exec closing t s = Some s' \<Longrightarrow> step closing t s s'"
proof (cases "call (threads s t)")
  case Idle
  assume e: "exec closing t s = Some s'"
  show ?thesis
  proof (cases "prog (threads s t)")
    case Nil
    with e Idle show ?thesis by (auto simp: exec_def Let_def intro: exec_idle_step)
  next
    case (Cons a acts)
    with e Idle show ?thesis
      by (cases a) (auto simp: exec_def Let_def split: if_splits sum.splits
          intro: step.record_bytes step.run_refused step.run_checked step.close_again step.close_begin step.spawn_begin)
  qed
next
  case (Loading sync p c job i inst least)
  moreover assume "exec closing t s = Some s'"
  ultimately show ?thesis
    by (auto simp: exec_def Let_def split: if_splits prod.splits intro: step.load step.reserve)
next
  case (Submitting sync p sub job)
  moreover assume "exec closing t s = Some s'"
  ultimately show ?thesis
    using step.submit [OF refl Submitting refl, of closing] by (auto simp: exec_def Let_def)
next
  case (Closing p i fs inline)
  moreover assume "exec closing t s = Some s'"
  ultimately show ?thesis
    using step.close_inline [OF refl Closing, of closing] step.close_submit [OF refl Closing, of closing]
      step.close_done [OF refl, of s t p fs inline closing]
    by (auto simp: exec_def Let_def split: if_splits)
next
  case (Spawning p f nulls)
  moreover assume "exec closing t s = Some s'"
  ultimately show ?thesis
    using step.spawn_submit [OF refl Spawning refl, of closing] step.spawn_done [OF refl Spawning, of closing]
    by (auto simp: exec_def Let_def split: if_splits)
next
  case (Opening p f nulls fut)
  moreover assume "exec closing t s = Some s'"
  ultimately show ?thesis
    using step.spawn_collect [OF refl Opening, of closing] by (auto simp: exec_def Let_def split: if_splits)
next
  case (Waiting f)
  moreover assume "exec closing t s = Some s'"
  ultimately show ?thesis
    by (auto simp: exec_def Let_def split: if_splits intro: step.waited)
qed

lemma step_exec: "step closing t s s' \<Longrightarrow> exec closing t s = Some s'"
  by (induction rule: step.induct) (auto simp: exec_def exec_idle_def busy_def Let_def split: list.split)

lemma step_iff_exec: "step closing t s s' \<longleftrightarrow> exec closing t s = Some s'"
  using exec_step step_exec by metis

text \<open>A schedule: the threads in the order in which they move.\<close>

fun run :: "closing \<Rightarrow> tid list \<Rightarrow> 'v sys \<Rightarrow> 'v sys option" where
  "run closing [] s = Some s"
| "run closing (t # ts) s = (case exec closing t s of Some s' \<Rightarrow> run closing ts s' | None \<Rightarrow> None)"

lemma reachable_run: "run closing ts s = Some s' \<Longrightarrow> reachable P closing s \<Longrightarrow> reachable P closing s'"
  by (induction ts arbitrary: s) (auto split: option.splits intro: reachable.stepped exec_step)

text \<open>A family of two instances with two clients, for concrete runs.\<close>

definition two_instances :: "'v sys" where
  "two_instances =
     \<lparr>now = 0, stats = [zero_stats, zero_stats], queues = [[], []], replies = [[], []],
      proxies = [\<lparr>is_closed = False, isNull = [False, False]\<rparr>], nclients = 2, threads = (\<lambda>_. idle_thread)\<rparr>"

lemma reachable_two_instances: "reachable P closing two_instances"
proof -
  have "MakeProxy (\<lambda>_. Returns (Inr False)) 2 2 = Inr two_instances"
    by (simp add: MakeProxy_def two_instances_def numeral_2_eq_2)
  then show ?thesis by (rule reachable.made)
qed

definition calls_of :: "nat \<Rightarrow> 'v action list \<Rightarrow> 'v sys \<Rightarrow> 'v sys" where
  "calls_of k acts s = set_thread (Client k) ((threads s (Client k))\<lparr>prog := acts\<rparr>) s"

lemma reachable_calls_of:
  assumes "reachable P closing s" and "k < nclients s" and "prog (threads s (Client k)) = []"
    and "call (threads s (Client k)) = Idle" and "\<forall>a \<in> set acts. P a \<and> known (length (proxies s)) a"
  shows "reachable P closing (calls_of k acts s)"
  unfolding calls_of_def using reachable.requested [OF assms(1) refl assms(2-5)] .

text \<open>Evaluation of a schedule from such a state.\<close>

lemmas run_defs = numeral_eq_Suc exec_def exec_idle_def Let_def calls_of_def two_instances_def idle_thread_def CheckClosed_def
  nInstances_def less_loaded_def load_of_def zero_stats_def max_int64_def scope_defs update_defs begun_def busy_def next_number_def
  is_finished_def InvokeOnInstance_def RecordIoBytes_def

lemma reachable_client:
  assumes "\<forall>a \<in> set acts. P a \<and> known 1 a"
  shows "reachable P closing (calls_of 0 acts two_instances)"
  by (rule reachable_calls_of [OF reachable_two_instances]) (use assms in \<open>simp_all add: two_instances_def idle_thread_def\<close>)

section \<open>The loop of Dispatch\<close>

lemma run_snoc: "run closing ts s = Some s' \<Longrightarrow> exec closing t s' = Some s'' \<Longrightarrow> run closing (ts @ [t]) s = Some s''"
  by (induction ts arbitrary: s) (auto split: option.splits)

text \<open>The first iterations of the loop of a thread that no other interrupts, and the reservation.\<close>

lemma load_run:
  assumes "threads s t = th" and "call th = Loading sync p c job 0 0 max_int64" and "n \<le> nInstances s"
  shows "\<exists>inst least. run closing (replicate n t) s = Some (set_thread t (th\<lparr>call := Loading sync p c job n inst least\<rparr>) s) \<and>
    (inst, least) = fold (\<lambda>i acc. less_loaded (load_of (current th) (stats s) i) i acc) [0..<n] (0, max_int64)"
  using assms(3)
proof (induction n)
  case 0
  have "set_thread t (th\<lparr>call := Loading sync p c job 0 0 max_int64\<rparr>) s = s"
    using assms(1,2) by (cases s; cases th) (auto simp: set_thread_def)
  then show ?case by auto
next
  case (Suc n)
  then obtain inst least where
    r: "run closing (replicate n t) s = Some (set_thread t (th\<lparr>call := Loading sync p c job n inst least\<rparr>) s)"
    and acc: "(inst, least) = fold (\<lambda>i acc. less_loaded (load_of (current th) (stats s) i) i acc) [0..<n] (0, max_int64)" by auto
  let ?s = "set_thread t (th\<lparr>call := Loading sync p c job n inst least\<rparr>) s"
  obtain inst' least' where ll: "less_loaded (load_of (current th) (stats s) n) n (inst, least) = (inst', least')" by fastforce
  have "exec closing t ?s = Some (set_thread t (th\<lparr>call := Loading sync p c job (Suc n) inst' least'\<rparr>) s)"
    using Suc.prems ll by (simp add: exec_def set_thread_def nInstances_def)
  from run_snoc [OF r this] ll acc show ?case by (simp add: replicate_append_same)
qed

lemma Dispatch_run:
  assumes "threads s t = th" and "call th = Loading sync p c job 0 0 max_int64" and "Dispatch (current th) c s = (s', sub)"
  shows "run closing (replicate (Suc (nInstances s)) t) s = Some (set_thread t (th\<lparr>call := Submitting sync p sub job\<rparr>) s')"
proof -
  let ?n = "nInstances s"
  obtain inst least where
    r: "run closing (replicate ?n t) s = Some (set_thread t (th\<lparr>call := Loading sync p c job ?n inst least\<rparr>) s)"
    and acc: "(inst, least) = fold (\<lambda>i acc. less_loaded (load_of (current th) (stats s) i) i acc) [0..<?n] (0, max_int64)"
    using load_run [OF assms(1,2), of ?n closing] by auto
  let ?s = "set_thread t (th\<lparr>call := Loading sync p c job ?n inst least\<rparr>) s"
  let ?loads = "map (load_of (current th) (stats s)) [0..<?n]"
  have "fold (\<lambda>i acc. less_loaded (?loads ! i) i acc) [0..<length ?loads] (0, max_int64) = (inst, least)"
    unfolding acc by (rule fold_cong) auto
  then have "choose_instance ?loads = inst" by (simp add: choose_instance_def)
  with assms(3) have s': "reserve inst c s = (s', sub)" by (simp add: Dispatch_def)
  have "exec closing t ?s = Some (set_thread t (th\<lparr>call := Submitting sync p sub job\<rparr>) s')"
    using s' by (auto simp: exec_def reserve_def upd_stats_def set_thread_def nInstances_def)
  from run_snoc [OF r this] show ?thesis by (simp add: replicate_append_same)
qed

text \<open>\<open>Dispatch\<close> as a whole reserves on the instance of least load, with the load written out.\<close>

lemma Dispatch_chooses:
  assumes "0 < nInstances s" and "Dispatch cur c s = (s', sub)"
  defines "load \<equiv> \<lambda>j. sint (outstanding_cost (stats s ! j) - (case cur of
      Some r \<Rightarrow> if on_instance (run_sub r) = j then sub_cost (run_sub r) else 0 | None \<Rightarrow> 0))"
  shows "on_instance sub < nInstances s" and "\<forall>j < nInstances s. load (on_instance sub) \<le> load j"
    and "\<forall>j < on_instance sub. load (on_instance sub) < load j" and "sub_cost sub = c"
    and "s' = upd_stats (on_instance sub) (\<lambda>x. x\<lparr>outstanding_cost := outstanding_cost x + c, submitted := submitted x + 1\<rparr>) s"
proof -
  let ?loads = "map (load_of cur (stats s)) [0..<nInstances s]"
  have load: "load j = sint (load_of cur (stats s) j)" for j
    by (simp add: load_def load_of_def Let_def split: option.split)
  have ne: "?loads \<noteq> []" using assms(1) by simp
  note least = choose_instance_least [OF ne]
  have sub: "on_instance sub = choose_instance ?loads" using assms(2) by (auto simp: Dispatch_def reserve_def)
  show lt: "on_instance sub < nInstances s" using least(1) by (simp add: sub)
  show "\<forall>j < nInstances s. load (on_instance sub) \<le> load j" using least(2) lt by (simp add: sub load)
  show "\<forall>j < on_instance sub. load (on_instance sub) < load j" using least(3) lt by (simp add: sub load)
  show "sub_cost sub = c"
    and "s' = upd_stats (on_instance sub) (\<lambda>x. x\<lparr>outstanding_cost := outstanding_cost x + c, submitted := submitted x + 1\<rparr>) s"
    using assms(2) by (auto simp: Dispatch_def reserve_def)
qed

section \<open>Properties\<close>

text \<open>
  C38. The loop of \<open>Dispatch\<close> balances the load. A thread that has passed the check of the flag, and
  takes its steps with no other thread in between, has after one step for each instance and one
  more reserved the cost on the instance with the least load, the lowest numbered of them if there
  are several, and on no other. The load is the outstanding cost, less the cost of the task that
  the thread runs itself on its own instance, compared as signed numbers.
\<close>

theorem Dispatch_least_loaded:
  assumes "threads s t = th" and "call th = Loading sync p c job 0 0 max_int64" and "0 < nInstances s"
  shows "let load = (\<lambda>j. sint (outstanding_cost (stats s ! j) - (case current th of
        Some r \<Rightarrow> if on_instance (run_sub r) = j then sub_cost (run_sub r) else 0 | None \<Rightarrow> 0)))
    in \<exists>sub. run closing (replicate (Suc (nInstances s)) t) s =
          Some (set_thread t (th\<lparr>call := Submitting sync p sub job\<rparr>)
            (s\<lparr>stats := (stats s)[on_instance sub := (stats s ! on_instance sub)
               \<lparr>outstanding_cost := outstanding_cost (stats s ! on_instance sub) + c,
                submitted := submitted (stats s ! on_instance sub) + 1\<rparr>]\<rparr>)) \<and>
        on_instance sub < nInstances s \<and> sub_cost sub = c \<and>
        (\<forall>j < nInstances s. load (on_instance sub) \<le> load j) \<and> (\<forall>j < on_instance sub. load (on_instance sub) < load j)"
proof -
  obtain s' sub where d: "Dispatch (current th) c s = (s', sub)" by fastforce
  note D = Dispatch_chooses [OF assms(3) d]
  show ?thesis
    unfolding Let_def
    by (intro exI [of _ sub] conjI)
      (use Dispatch_run [OF assms(1,2) d, of closing] D in \<open>simp_all add: upd_stats_def\<close>)
qed

theorem Dispatch_least_loaded_witness:
  "let sub = \<lparr>on_instance = 0, sub_time = 0, sub_cost = 5\<rparr>; job = Job [] (Returns (Inr (3 :: int)));
       r = \<lparr>run_sub = sub, run_proxy = 0, run_start = 0, invoked = True, run_outcome = Returns (Inr 1)\<rparr>;
       th = idle_thread\<lparr>call := Loading False 0 7 job 0 0 max_int64, current := Some r\<rparr>;
       s = set_thread (Worker 0) th (upd_stats 1 (\<lambda>x. x\<lparr>outstanding_cost := 1\<rparr>)
             (upd_stats 0 (\<lambda>x. x\<lparr>outstanding_cost := 5\<rparr>) two_instances))
   in \<exists>sub' s'. run (\<lambda>p i. (True, None)) (replicate 3 (Worker 0)) s = Some s' \<and>
        call (threads s' (Worker 0)) = Submitting False 0 sub' job \<and> on_instance sub' = 0 \<and>
        outstanding_cost (stats s' ! 0) = 12 \<and> outstanding_cost (stats s' ! 1) = 1"
proof -
  let ?sub = "\<lparr>on_instance = 0, sub_time = 0, sub_cost = 5\<rparr>" and ?job = "Job [] (Returns (Inr (3 :: int)))"
  let ?r = "\<lparr>run_sub = ?sub, run_proxy = 0, run_start = 0, invoked = True, run_outcome = Returns (Inr 1)\<rparr>"
  let ?th = "idle_thread\<lparr>call := Loading False 0 7 ?job 0 0 max_int64, current := Some ?r\<rparr>"
  define s where "s = set_thread (Worker 0) ?th (upd_stats 1 (\<lambda>x. x\<lparr>outstanding_cost := 1\<rparr>)
             (upd_stats 0 (\<lambda>x. x\<lparr>outstanding_cost := 5\<rparr>) two_instances))"
  have s: "threads s (Worker 0) = ?th" "nInstances s = 2" "outstanding_cost (stats s ! 0) = 5"
      "outstanding_cost (stats s ! 1) = 1" "length (stats s) = 2"
    by (simp_all add: s_def two_instances_def nInstances_def)
  have c: "call ?th = Loading False 0 7 ?job 0 0 max_int64" and n: "0 < nInstances s" by (simp_all add: s)
  from Dispatch_least_loaded [OF s(1) c n, where closing = "\<lambda>p i. (True, None)"]
  obtain sub' where R: "run (\<lambda>p i. (True, None)) (replicate (Suc (nInstances s)) (Worker 0)) s =
       Some (set_thread (Worker 0) (?th\<lparr>call := Submitting False 0 sub' ?job\<rparr>)
            (s\<lparr>stats := (stats s)[on_instance sub' := (stats s ! on_instance sub')
               \<lparr>outstanding_cost := outstanding_cost (stats s ! on_instance sub') + 7,
                submitted := submitted (stats s ! on_instance sub') + 1\<rparr>]\<rparr>))"
    and i: "on_instance sub' < 2"
    and least: "\<forall>j < on_instance sub'. sint (outstanding_cost (stats s ! on_instance sub') -
        (case current ?th of Some r \<Rightarrow> if on_instance (run_sub r) = on_instance sub' then sub_cost (run_sub r) else 0 | None \<Rightarrow> 0)) <
      sint (outstanding_cost (stats s ! j) -
        (case current ?th of Some r \<Rightarrow> if on_instance (run_sub r) = j then sub_cost (run_sub r) else 0 | None \<Rightarrow> 0))"
    unfolding Let_def s(2) by blast
  have "on_instance sub' \<noteq> 1" using spec [OF least, of 0] s(4) by (auto simp: s(1,3))
  with i have "on_instance sub' = 0" by linarith
  with R s show ?thesis
    unfolding Let_def s_def [symmetric] by (simp add: numeral_3_eq_3 numeral_2_eq_2)
qed

text \<open>
  C33. The statistics are exact in every reachable state, whatever the interleaving: the outstanding
  cost of an instance is the sum of the costs of the tasks reserved on it that have not ended, those
  between reservation and submission, in the queue and running; and the number of submitted tasks
  less that of completed ones is their number.
\<close>

theorem reachable_accounts:
  assumes "reachable P closing s" and "i < nInstances s"
  shows "outstanding_cost (stats s ! i) = held sub_cost i s \<and>
    submitted (stats s ! i) - completed (stats s ! i) = held (\<lambda>_. 1) i s"
  using cost.reachable_counter [OF assms] tasks.reachable_counter [OF assms] by simp

theorem reachable_accounts_witness:
  "case run (\<lambda>p i. (True, None)) (replicate 5 (Client 0))
      (calls_of 0 [Run False 0 7 (Job [] (Returns (Inr (3 :: int))))] two_instances) of
     None \<Rightarrow> False
   | Some s \<Rightarrow> held sub_cost 0 s = 7 \<and> outstanding_cost (stats s ! 0) = held sub_cost 0 s"
proof -
  let ?c = "\<lambda>p i. (True, None)"
  let ?s = "calls_of 0 [Run False 0 7 (Job [] (Returns (Inr (3 :: int))))] two_instances"
  have r: "reachable (\<lambda>_. True) ?c ?s"
    using reachable_client [where P = "\<lambda>_. True" and acts = "[Run False 0 7 (Job [] (Returns (Inr (3 :: int))))]"] by simp
  obtain s where s: "run ?c (replicate 5 (Client 0)) ?s = Some s" and o: "outstanding_cost (stats s ! 0) = 7" "nInstances s = 2"
    by (simp add: run_defs)
  have "outstanding_cost (stats s ! 0) = held sub_cost 0 s"
    using reachable_accounts [OF reachable_run [OF s r], of 0] o(2) by simp
  with s o show ?thesis by simp
qed

end
