(* ===== verification/IsolatedSafety.thy ===== *)
theory IsolatedSafety
  imports IsolatedTable
begin

text \<open>
  What a family of isolated table proxies guarantees in every interleaving: only the worker of an
  instance touches the tables of that instance, no submitted functor starts on a closed table, a closed
  proxy has closed all its tables and refuses work, and \<open>Spawn\<close> makes a proxy of the tables that its
  functor returns, though without a check of the parent.
\<close>

section \<open>The tables of an instance belong to its worker\<close>

definition null_of :: "'v sys \<Rightarrow> nat \<Rightarrow> nat \<Rightarrow> bool" where
  "null_of s p i = isNull (proxies s ! p) ! i"

lemma null_of_upd [simp]:
  "null_of (upd_stats i f s) = null_of s" "null_of (set_thread t th s) = null_of s"
  "null_of (enqueue i k s) = null_of s" "null_of (pop i s) = null_of s" "null_of (reply i r s) = null_of s"
  "null_of (RecordIoBytes t c s) = null_of s"
  by (simp_all add: null_of_def fun_eq_iff)

lemma null_of_set_closed [simp]: "null_of (set_closed q s) p i = null_of s p i"
  by (auto simp: null_of_def set_closed_def nth_upd)

lemma null_of_add_proxy: "p < length (proxies s) \<Longrightarrow> null_of (add_proxy nulls s) p i = null_of s p i"
  by (simp add: null_of_def)

lemma null_of_close_table:
  "null_of (close_table closing q j s) p i =
     (null_of s p i \<or> p = q \<and> i = j \<and> p < length (proxies s) \<and> i < length (isNull (proxies s ! p)) \<and> fst (closing p i))"
  by (auto simp: null_of_def close_table_def set_null_def nth_upd)

lemma step_null_of:
  assumes "step closing t s s'" and "p < length (proxies s)" and "null_of s' p i \<noteq> null_of s p i"
  shows "t = Worker i \<and> null_of s' p i \<and> \<not> null_of s p i"
  using assms
  by (induction rule: step.induct)
    (auto simp: null_of_close_table null_of_add_proxy enter_scope_def leave_scope_def reserve_def)

lemma step_null_mono: "step closing t s s' \<Longrightarrow> p < length (proxies s) \<Longrightarrow> null_of s p i \<Longrightarrow> null_of s' p i"
  using step_null_of by metis

lemma step_current:
  assumes "step closing t s s'" and "current (threads s' u) \<noteq> current (threads s u)"
  shows "u = t \<and> (\<exists>i. t = Worker i)"
  using assms by (induction rule: step.induct) (auto simp: scope_defs split: if_splits)

lemma step_open_task:
  assumes "step closing t s s'" and "open_task (threads s' u) \<noteq> open_task (threads s u)"
  shows "u = t"
  using assms by (induction rule: step.induct) (auto simp: scope_defs split: if_splits)

text \<open>A submitted functor starts exactly if its table is open.\<close>

lemma step_starts:
  assumes "step closing t s s'" and "current (threads s' u) = Some r" and "current (threads s u) \<noteq> Some r" and "wf_sys s"
  shows "invoked r = (\<not> isNull (proxies s ! run_proxy r) ! on_instance (run_sub r))"
  using assms
  by (induction rule: step.induct) (auto simp: scope_defs InvokeOnInstance_def split: if_splits)

section \<open>Jobs that do not block\<close>

text \<open>
  A job that neither waits for another task nor closes or spawns a proxy, and a call of a client whose
  jobs and openers are of this kind. The client itself may wait, close and spawn.
\<close>

fun plain :: "'v action \<Rightarrow> bool" and plain_job :: "'v job \<Rightarrow> bool" where
  "plain (Record k) = True"
| "plain (Run sync p c job) = (\<not> sync \<and> plain_job job)"
| "plain (Close p) = False"
| "plain (Spawn p f) = False"
| "plain_job (Job as out) = (\<forall>a \<in> set as. plain a)"

fun client_call :: "'v action \<Rightarrow> bool" where
  "client_call (Record k) = True"
| "client_call (Run sync p c job) = plain_job job"
| "client_call (Close p) = True"
| "client_call (Spawn p f) = (\<forall>a \<in> set (open_actions f). plain a)"

fun plain_call :: "bool \<Rightarrow> 'v call \<Rightarrow> bool" where
  "plain_call w Idle = True"
| "plain_call w (Loading sync p c job i inst least) = (plain_job job \<and> (w \<longrightarrow> \<not> sync))"
| "plain_call w (Submitting sync p sub job) = (plain_job job \<and> (w \<longrightarrow> \<not> sync))"
| "plain_call w (Closing p i fs inline) = (\<not> w)"
| "plain_call w (Spawning p f nulls) = (\<not> w \<and> (\<forall>a \<in> set (open_actions f). plain a))"
| "plain_call w (Opening p f nulls fut) = (\<not> w \<and> (\<forall>a \<in> set (open_actions f). plain a))"
| "plain_call w (Waiting f) = (\<not> w)"

fun is_worker :: "tid \<Rightarrow> bool" where
  "is_worker (Worker i) = True"
| "is_worker (Client k) = False"

definition plain_thread :: "'v sys \<Rightarrow> tid \<Rightarrow> bool" where
  "plain_thread s t \<longleftrightarrow>
     plain_call (is_worker t) (call (threads s t)) \<and>
     (\<forall>a \<in> set (prog (threads s t)). if is_worker t then plain a else client_call a)"

fun plain_task :: "'v task \<Rightarrow> bool" where
  "plain_task (Work p sub job) = plain_job job"
| "plain_task (CloseTable p) = True"
| "plain_task (OpenTable p j f) = (\<forall>a \<in> set (open_actions f). plain a)"

definition plain_queues :: "'v sys \<Rightarrow> bool" where
  "plain_queues s \<longleftrightarrow> (\<forall>i < length (queues s). \<forall>task \<in> set (queues s ! i). plain_task task)"

lemma plain_actions: "plain_job job \<Longrightarrow> a \<in> set (actions job) \<Longrightarrow> plain a"
  by (cases job) auto

lemma plain_client: "plain a \<Longrightarrow> client_call a"
  by (cases a) auto

lemma step_plain_thread:
  assumes "step closing t s s'" and "plain_thread s t" and "plain_queues s" and "length (queues s) = nInstances s"
  shows "plain_thread s' t"
  using assms
proof (induction rule: step.induct)
  case (run_checked s t th sync p c job acts)
  then show ?case by (cases t) (auto simp: plain_thread_def)
next
  case (start s i th p sub job q acts r)
  then have "plain_job job" by (fastforce simp: plain_queues_def)
  with start show ?case
    by (auto simp: plain_thread_def scope_defs InvokeOnInstance_def plain_actions split: if_splits)
next
  case (start_open s i th p j f q acts r)
  then have "\<forall>a \<in> set (open_actions f). plain a" by (fastforce simp: plain_queues_def)
  with start_open show ?case by (auto simp: plain_thread_def InvokeOpener_def)
next
  case (spawn_collect s t th p f nulls fut)
  then show ?case
    by (cases rule: collect_table_cases [of "result_of s fut" p f nulls th]) (auto simp: plain_thread_def)
qed (auto simp: plain_thread_def scope_defs split: if_splits)

lemma plain_queues_enqueue: "plain_queues s \<Longrightarrow> plain_task task \<Longrightarrow> plain_queues (enqueue i task s)"
  by (auto simp: plain_queues_def nth_upd)

lemma plain_queues_pop: "plain_queues s \<Longrightarrow> plain_queues (pop i s)"
proof -
  assume p: "plain_queues s"
  have "set (tl (queues s ! i)) \<subseteq> set (queues s ! i)" by (cases "queues s ! i") auto
  with p show ?thesis by (auto simp: plain_queues_def nth_upd)
qed

lemma plain_queues_same [simp]:
  "plain_queues (upd_stats i f s) = plain_queues s" "plain_queues (set_thread t th s) = plain_queues s"
  "plain_queues (reply i r s) = plain_queues s" "plain_queues (set_null p i b s) = plain_queues s"
  "plain_queues (set_closed p s) = plain_queues s" "plain_queues (RecordIoBytes t k s) = plain_queues s"
  "plain_queues (add_proxy nulls s) = plain_queues s"
  by (simp_all add: plain_queues_def)

lemma step_plain_queues:
  assumes "step closing t s s'" and "plain_thread s t" and "plain_queues s"
  shows "plain_queues s'"
  using assms
  by (induction rule: step.induct)
    (auto simp: scope_defs plain_thread_def OpenTask_def intro!: plain_queues_enqueue plain_queues_pop split: if_splits)

text \<open>The table of a running functor is open.\<close>

definition open_running :: "'v sys \<Rightarrow> bool" where
  "open_running s \<longleftrightarrow> (\<forall>i r. current (threads s (Worker i)) = Some r \<and> invoked r \<longrightarrow> \<not> null_of s (run_proxy r) i)"

definition all_plain :: "'v sys \<Rightarrow> bool" where
  "all_plain s \<longleftrightarrow> (\<forall>t. plain_thread s t) \<and> plain_queues s"

lemma step_all_plain:
  assumes "step closing t s s'" and "all_plain s" and "wf_sys s"
  shows "all_plain s'"
proof -
  have "plain_thread s' u" for u
  proof (cases "u = t")
    case True
    with assms show ?thesis using step_plain_thread [OF assms(1)] by (simp add: all_plain_def wf_sys_def)
  next
    case False
    with step_frame [OF assms(1)] have "threads s' u = threads s u" by simp
    with assms(2) show ?thesis by (simp add: all_plain_def plain_thread_def)
  qed
  with step_plain_queues [OF assms(1)] assms(2) show ?thesis by (simp add: all_plain_def)
qed

lemma plain_worker_call: "plain_thread s (Worker i) \<Longrightarrow> call (threads s (Worker i)) \<noteq> Closing p j fs inline"
  by (auto simp: plain_thread_def)

lemma step_open_running:
  assumes "step closing t s s'" and "open_running s" and "wf_sys s" and "all_plain s"
  shows "open_running s'"
  unfolding open_running_def
proof (intro allI impI, elim conjE)
  fix i r
  assume r: "current (threads s' (Worker i)) = Some r" and inv: "invoked r"
  have cur: "run_proxy r < length (proxies s)" if "current (threads s (Worker i)) = Some r"
    using wf_thread_currentI [OF assms(3), of "Worker i"] that by (auto simp: wf_current_def)
  show "\<not> null_of s' (run_proxy r) i"
  proof (cases "current (threads s (Worker i)) = Some r")
    case True
    have "null_of s' p i = null_of s p i" if "p < length (proxies s)" for p
    proof (rule ccontr)
      assume n: "null_of s' p i \<noteq> null_of s p i"
      then have t: "t = Worker i" using step_null_of [OF assms(1) that] by metis
      from assms(1) True t n that assms(4) plain_worker_call [of s i] show False
        by (induction rule: step.induct) (auto simp: all_plain_def null_of_add_proxy busy_def scope_defs [unfolded close_table_def])
    qed
    with True cur assms(2) inv show ?thesis by (auto simp: open_running_def)
  next
    case False
    with r have "t = Worker i" using step_current [OF assms(1), of "Worker i"] by metis
    with assms(1) False r inv assms(3) show ?thesis
    proof (induction rule: step.induct)
      case (start s j th p sub job q acts r')
      then have "wf_task s j (Work p sub job)" by (auto simp: wf_sys_def)
      with start show ?case
        by (auto simp: wf_task_def InvokeOnInstance_def scope_defs null_of_def split: if_splits)
    qed (auto simp: scope_defs)
  qed
qed

definition tidy :: "'v sys \<Rightarrow> bool" where
  "tidy s \<longleftrightarrow> wf_sys s \<and> all_plain s \<and> open_running s"

lemma step_tidy: "step closing t s s' \<Longrightarrow> tidy s \<Longrightarrow> tidy s'"
  unfolding tidy_def using step_wf step_all_plain step_open_running by metis

lemma reachable_tidy:
  assumes "reachable P closing s" and P: "\<And>a. P a \<Longrightarrow> client_call a"
  shows "tidy s"
  using assms(1)
proof (induction rule: reachable.induct)
  case (made f n m s)
  have "all_plain s \<and> open_running s"
    using made by (auto simp: MakeProxy_def rbind_Inr_conv all_plain_def plain_thread_def plain_queues_def idle_thread_def
        open_running_def split: if_splits)
  with made show ?case by (simp add: tidy_def MakeProxy_wf)
next
  case (stepped s t s')
  then show ?case by (blast intro: step_tidy)
next
  case (tick s d)
  then show ?case
    using reachable_wf [OF reachable.tick [OF tick.hyps]]
    by (simp add: tidy_def all_plain_def plain_thread_def plain_queues_def open_running_def null_of_def)
next
  case (requested s k th acts)
  let ?s = "set_thread (Client k) (th\<lparr>prog := acts\<rparr>) s"
  have "wf_sys ?s" using reachable_wf [OF reachable.requested [OF requested.hyps]] .
  moreover have "all_plain ?s"
    using requested.IH requested.hyps P by (auto simp: tidy_def all_plain_def plain_thread_def)
  moreover have "open_running ?s" using requested.IH by (simp add: tidy_def open_running_def)
  ultimately show ?case by (simp add: tidy_def)
qed

section \<open>Closing\<close>

text \<open>The task with a number on an instance, if it waits in the queue.\<close>

definition task_at :: "'v sys \<Rightarrow> future \<Rightarrow> 'v task option" where
  "task_at s f =
     (if begun s (fst f) \<le> snd f \<and> snd f - begun s (fst f) < length (queues s ! fst f)
      then Some (queues s ! fst f ! (snd f - begun s (fst f))) else None)"

lemma task_at_finished: "is_finished s f \<Longrightarrow> task_at s f = None"
  by (auto simp: task_at_def is_finished_def begun_def)

lemma task_at_next:
  assumes "i < length (queues s)" and "busy (threads s' (Worker i)) = busy (threads s (Worker i))"
    and "replies s' = replies s" and "queues s' = (queues s)[i := queues s ! i @ [task]]"
  shows "task_at s' (i, next_number s i) = Some task"
  using assms by (auto simp: task_at_def next_number_def begun_def)

text \<open>A waiting task keeps its number and place until its worker takes it.\<close>

lemma step_task_at:
  assumes "step closing t s s'" and "wf_sys s" and "fst f < nInstances s" and "task_at s f = Some task"
  shows "task_at s' f = Some task \<or> (t = Worker (fst f) \<and> queues s ! fst f = task # tl (queues s ! fst f) \<and>
     snd f = begun s (fst f) \<and> call (threads s t) = Idle \<and> prog (threads s t) = [] \<and> \<not> busy (threads s t))"
proof -
  obtain i k where f: "f = (i, k)" by (cases f)
  have l: "length (queues s) = nInstances s" "length (replies s) = nInstances s" "i < nInstances s"
    using assms(2,3) by (simp_all add: wf_sys_def f)
  from assms(4) have k: "begun s i \<le> k" "k - begun s i < length (queues s ! i)" "task = queues s ! i ! (k - begun s i)"
    by (auto simp: task_at_def f split: if_splits)
  have w: "wf_current s t" by (rule wf_thread_currentI [OF assms(2)])
  from assms(1) w l k show ?thesis unfolding f fst_conv
  proof (induction rule: step.induct)
    case (start s j th p sub job q acts r)
    show ?case
    proof (cases "j = i \<and> k = begun s i")
      case False
      then show ?thesis
        using start by (cases "j = i") (auto simp: task_at_def begun_def busy_def scope_defs nth_upd nth_Cons' split: if_splits)
    qed (use start in \<open>auto simp: begun_def\<close>)
  next
    case (start_open s j th p l fn q acts r)
    show ?case
    proof (cases "j = i \<and> k = begun s i")
      case False
      then show ?thesis
        using start_open by (cases "j = i") (auto simp: task_at_def begun_def busy_def nth_upd nth_Cons' split: if_splits)
    qed (use start_open in \<open>auto simp: begun_def\<close>)
  next
    case (start_close s j th p q)
    show ?case
    proof (cases "j = i \<and> k = begun s i")
      case False
      then show ?thesis
        using start_close by (cases "j = i") (auto simp: task_at_def begun_def busy_def scope_defs nth_upd nth_Cons' split: if_splits)
    qed (use start_close in \<open>auto simp: begun_def\<close>)
  next
    case (finish_open s j th r)
    then have "current th = None" by (auto simp: wf_current_def)
    with finish_open show ?case by (auto simp: task_at_def begun_def busy_def nth_upd split: if_splits)
  qed (auto simp: task_at_def begun_def busy_def scope_defs nth_upd nth_append split: if_splits)
qed

definition close_pending :: "'v sys \<Rightarrow> nat \<Rightarrow> nat \<Rightarrow> future list \<Rightarrow> bool" where
  "close_pending s p j fs \<longleftrightarrow> null_of s p j \<or> (\<exists>k. (j, k) \<in> set fs \<and> task_at s (j, k) = Some (CloseTable p))"

definition closing_inv :: "'v sys \<Rightarrow> bool" where
  "closing_inv s \<longleftrightarrow>
     (\<forall>t p i fs inline. call (threads s t) = Closing p i fs inline \<longrightarrow> (\<forall>j < i. close_pending s p j fs)) \<and>
     (\<forall>p < length (proxies s). is_closed (proxies s ! p) \<longrightarrow> (\<forall>j < nInstances s. null_of s p j))"

lemma wf_null_length: "wf_sys s \<Longrightarrow> p < length (proxies s) \<Longrightarrow> length (isNull (proxies s ! p)) = nInstances s"
  by (simp add: wf_sys_def)

lemma step_close_pending:
  assumes "step closing t s s'" and "wf_sys s" and "\<forall>p i. fst (closing p i)" and "p < length (proxies s)" and "j < nInstances s"
    and "close_pending s p j fs"
  shows "close_pending s' p j fs"
proof (cases "null_of s p j")
  case True
  then show ?thesis using step_null_mono [OF assms(1,4)] by (simp add: close_pending_def)
next
  case False
  with assms(6) obtain k where k: "(j, k) \<in> set fs" "task_at s (j, k) = Some (CloseTable p)" by (auto simp: close_pending_def)
  from step_task_at [OF assms(1,2) _ k(2)] assms(5)
  consider "task_at s' (j, k) = Some (CloseTable p)"
    | "t = Worker j" "queues s ! j = CloseTable p # tl (queues s ! j)" "call (threads s t) = Idle"
      "prog (threads s t) = []" "\<not> busy (threads s t)" by auto
  then show ?thesis
  proof cases
    case 1
    with k show ?thesis by (auto simp: close_pending_def)
  next
    case 2
    with assms(1) have "null_of s' p j = null_of (close_table closing p j (pop j s)) p j"
      by (induction rule: step.induct) (auto simp: busy_def)
    also have "\<dots>" using assms(3-5) wf_null_length [OF assms(2,4)] by (simp add: null_of_close_table)
    finally show ?thesis by (simp add: close_pending_def)
  qed
qed

lemma step_closing_call:
  assumes "step closing t s s'" and "call (threads s' t) = Closing p (Suc i) fs inline" and "wf_sys s" and "\<forall>p i. fst (closing p i)"
  shows "\<exists>fs' inline'. call (threads s t) = Closing p i fs' inline' \<and> set fs' \<subseteq> set fs \<and> close_pending s' p i fs"
proof -
  have wc: "wf_call s (call (threads s t))" using wf_callI [OF assms(3)] .
  have l: "length (queues s) = nInstances s" "length (replies s) = nInstances s" using assms(3) by (simp_all add: wf_sys_def)
  note nl = wf_null_length [OF assms(3), of p]
  from assms(1,2,4) wc l nl show ?thesis
  proof (induction rule: step.induct)
    case (close_inline s t th q j fs' inline')
    then show ?case by (auto simp: close_pending_def null_of_close_table wf_call_def)
  next
    case (close_submit s t th q j fs' inline')
    then show ?case
      by (auto simp: close_pending_def task_at_next)
  qed (auto simp: scope_defs split: if_splits)
qed

lemma step_closing_zero: "0 < (i :: nat) \<Longrightarrow> \<exists>k. i = Suc k"
  by (cases i) auto

lemma step_is_closed:
  assumes "step closing t s s'" and "p < length (proxies s')" and "is_closed (proxies s' ! p)"
  shows "p < length (proxies s) \<and> (is_closed (proxies s ! p) \<or>
    (\<exists>fs inline. call (threads s t) = Closing p (nInstances s) fs inline \<and> (\<forall>f \<in> set fs. is_finished s f)))"
  using assms
  by (induction rule: step.induct)
    (auto simp: scope_defs set_null_proxies set_closed_proxies add_proxy_def nth_append less_Suc_eq split: if_splits)

lemma step_closing_inv:
  assumes "step closing t s s'" and "wf_sys s" and "\<forall>p i. fst (closing p i)" and "closing_inv s"
  shows "closing_inv s'"
  unfolding closing_inv_def
proof (intro conjI allI impI)
  note fr = step_frame [OF assms(1)]
  note pend = step_close_pending [OF assms(1-3)]
  have old: "close_pending s' p j fs" if c: "call (threads s u) = Closing p i fs inline" and "j < i" for u p i fs inline j
  proof (rule pend)
    show "p < length (proxies s)" "j < nInstances s"
      using wf_callI [OF assms(2), of u] that by (auto simp: wf_call_def)
    show "close_pending s p j fs" using assms(4) that unfolding closing_inv_def by blast
  qed
  fix u p i fs inline j
  assume c: "call (threads s' u) = Closing p i fs inline" and j: "j < i"
  show "close_pending s' p j fs"
  proof (cases "call (threads s u) = call (threads s' u)")
    case True
    with c j old show ?thesis by metis
  next
    case False
    with fr have u: "u = t" by metis
    obtain i' where i': "i = Suc i'" using j by (cases i) auto
    from step_closing_call [OF assms(1) _ assms(2,3), of p i' fs inline] c u i'
    obtain fs' inline' where o: "call (threads s t) = Closing p i' fs' inline'" "set fs' \<subseteq> set fs" "close_pending s' p i' fs" by auto
    show ?thesis
    proof (cases "j = i'")
      case False
      with j i' have "close_pending s' p j fs'" using old [OF o(1), of j] by simp
      with o(2) show ?thesis by (auto simp: close_pending_def)
    qed (use o in simp)
  qed
next
  fix p j
  assume p: "p < length (proxies s')" "is_closed (proxies s' ! p)" and j: "j < nInstances s'"
  note fr = step_frame [OF assms(1)]
  note cl = step_is_closed [OF assms(1) p]
  then consider "is_closed (proxies s ! p)"
    | fs inline where "call (threads s t) = Closing p (nInstances s) fs inline" "\<forall>f \<in> set fs. is_finished s f" by auto
  then have "null_of s p j"
  proof cases
    case 1
    with assms(4) cl j fr show ?thesis by (auto simp: closing_inv_def)
  next
    case 2
    moreover have "j < nInstances s" using j fr by simp
    ultimately have "close_pending s p j fs" using assms(4) unfolding closing_inv_def by blast
    with 2(2) task_at_finished [of s] show ?thesis by (fastforce simp: close_pending_def)
  qed
  with cl show "null_of s' p j" using step_null_mono [OF assms(1)] by blast
qed

lemma reachable_closing_inv:
  assumes "reachable P closing s" and "\<forall>p i. fst (closing p i)"
  shows "closing_inv s"
  using assms(1)
proof (induction rule: reachable.induct)
  case (made f n m s)
  then show ?case by (auto simp: MakeProxy_def rbind_Inr_conv closing_inv_def idle_thread_def split: if_splits)
next
  case (stepped s t s')
  then show ?case using step_closing_inv [OF stepped.hyps(2) reachable_wf assms(2)] by blast
next
  case (tick s d)
  have "task_at (s\<lparr>now := now s + d\<rparr>) f = task_at s f" for f by (simp add: task_at_def begun_def)
  with tick.IH show ?case
    by (auto simp: closing_inv_def close_pending_def null_of_def nInstances_def)
next
  case (requested s k th acts)
  have "task_at (set_thread (Client k) (th\<lparr>prog := acts\<rparr>) s) f = task_at s f" for f by (simp add: task_at_def begun_def)
  with requested show ?case by (auto simp: closing_inv_def close_pending_def split: if_splits)
qed

lemma step_stays_closed:
  "step closing t s s' \<Longrightarrow> p < length (proxies s) \<Longrightarrow> is_closed (proxies s ! p) \<Longrightarrow> is_closed (proxies s' ! p)"
  by (induction rule: step.induct) (auto simp: scope_defs set_null_proxies set_closed_proxies)

section \<open>Spawning\<close>

lemma step_replies:
  assumes "step closing t s s'" and "length (replies s) = nInstances s"
  shows "\<exists>rs. replies s' ! i = replies s ! i @ rs"
  using assms by (induction rule: step.induct) (auto simp: scope_defs nth_upd)

text \<open>The tables a call of \<open>Spawn\<close> has collected are those its functor returned.\<close>

definition opened_tables :: "'v opener \<Rightarrow> bool list \<Rightarrow> bool" where
  "opened_tables f nulls \<longleftrightarrow> (\<forall>j < length nulls. opened f j = Returns (Inr (nulls ! j)))"

text \<open>The task it waits for is in the queue, runs, or has ended as its functor does on this instance.\<close>

definition table_pending :: "'v sys \<Rightarrow> nat \<Rightarrow> 'v opener \<Rightarrow> nat \<Rightarrow> future \<Rightarrow> bool" where
  "table_pending s p f i fut \<longleftrightarrow> fst fut = i \<and>
     (task_at s fut = Some (OpenTable p i f) \<or>
      snd fut = length (replies s ! i) \<and>
        open_task (threads s (Worker i)) = Some \<lparr>open_proxy = p, open_instance = i, open_outcome = opened f i\<rparr> \<or>
      is_finished s fut \<and> result_of s fut = rbind (Invoke (opened f i)) (\<lambda>b. Inr (Table b)))"

definition spawn_call_inv :: "'v sys \<Rightarrow> 'v call \<Rightarrow> bool" where
  "spawn_call_inv s c =
     (case c of
        Spawning p f nulls \<Rightarrow> opened_tables f nulls
      | Opening p f nulls fut \<Rightarrow> opened_tables f nulls \<and> table_pending s p f (length nulls) fut
      | _ \<Rightarrow> True)"

lemma step_table_pending:
  assumes "step closing t s s'" and "wf_sys s" and "i < nInstances s" and "table_pending s p f i fut"
  shows "table_pending s' p f i fut"
proof -
  obtain k where fut: "fut = (i, k)" using assms(4) by (cases fut) (simp add: table_pending_def)
  have l: "length (replies s) = nInstances s" using assms(2) by (simp add: wf_sys_def)
  let ?r = "\<lparr>open_proxy = p, open_instance = i, open_outcome = opened f i\<rparr>"
  consider (queued) "task_at s (i, k) = Some (OpenTable p i f)"
    | (runs) "k = length (replies s ! i)" "open_task (threads s (Worker i)) = Some ?r"
    | (ended) "is_finished s (i, k)" "result_of s (i, k) = rbind (Invoke (opened f i)) (\<lambda>b. Inr (Table b))"
    using assms(4) by (auto simp: table_pending_def fut)
  then show ?thesis
  proof cases
    case queued
    from step_task_at [OF assms(1,2) _ queued] assms(3)
    consider "task_at s' (i, k) = Some (OpenTable p i f)"
      | "t = Worker i" "queues s ! i = OpenTable p i f # tl (queues s ! i)" "k = begun s i"
        "call (threads s t) = Idle" "prog (threads s t) = []" "\<not> busy (threads s t)" by auto
    then show ?thesis
    proof cases
      case 1
      then show ?thesis by (simp add: table_pending_def fut)
    next
      case 2
      with assms(1) have "open_task (threads s' (Worker i)) = Some ?r \<and> replies s' = replies s"
        by (induction rule: step.induct) (auto simp: busy_def InvokeOpener_def)
      with 2 show ?thesis by (simp add: table_pending_def fut begun_def)
    qed
  next
    case runs
    have "current (threads s (Worker i)) = None"
      using wf_thread_currentI [OF assms(2), of "Worker i"] runs(2) by (simp add: wf_current_def)
    with assms(1,3) l runs have "open_task (threads s' (Worker i)) = Some ?r \<and> replies s' ! i = replies s ! i \<or>
      replies s' ! i = replies s ! i @ [rbind (Invoke (opened f i)) (\<lambda>b. Inr (Table b))]"
      by (induction rule: step.induct) (auto simp: busy_def scope_defs nth_upd)
    with runs show ?thesis by (auto simp: table_pending_def fut is_finished_def result_of_def)
  next
    case ended
    obtain rs where "replies s' ! i = replies s ! i @ rs" using step_replies [OF assms(1) l] by blast
    with ended show ?thesis
      by (auto simp: table_pending_def fut is_finished_def result_of_def nth_append)
  qed
qed

text \<open>When the table is collected, it is the one the functor returned for this instance.\<close>

lemma table_pending_result:
  assumes "table_pending s p f i fut" and "is_finished s fut"
  shows "result_of s fut = rbind (Invoke (opened f i)) (\<lambda>b. Inr (Table b))"
  using assms task_at_finished [OF assms(2)] by (cases fut) (auto simp: table_pending_def is_finished_def)

lemma Invoke_Inr: "Invoke r = Inr b \<longleftrightarrow> r = Returns (Inr b)"
  by (cases r rule: Invoke.cases) auto

lemma opened_tables_snoc: "opened_tables f nulls \<Longrightarrow> opened f (length nulls) = Returns (Inr b) \<Longrightarrow> opened_tables f (nulls @ [b])"
  by (auto simp: opened_tables_def nth_append less_Suc_eq)

lemma step_spawn_own:
  assumes "step closing t s s'" and "wf_sys s" and "spawn_call_inv s (call (threads s t))"
  shows "spawn_call_inv s' (call (threads s' t))"
proof -
  have wc: "wf_call s (call (threads s t))" and l: "length (queues s) = nInstances s"
    using assms(2) by (simp_all add: wf_callI wf_sys_def)
  from assms(1,3) wc l show ?thesis
  proof (induction rule: step.induct)
    case (spawn_submit s t th p f nulls i)
    then show ?case
      by (auto simp: spawn_call_inv_def table_pending_def OpenTask_def busy_def task_at_next)
  next
    case (spawn_collect s t th p f nulls fut)
    then have "result_of s fut = rbind (Invoke (opened f (length nulls))) (\<lambda>b. Inr (Table b))"
      by (auto simp: spawn_call_inv_def intro: table_pending_result)
    with spawn_collect show ?case
      by (cases "Invoke (opened f (length nulls))")
        (auto simp: spawn_call_inv_def collect_table_def Invoke_Inr intro: opened_tables_snoc)
  qed (auto simp: spawn_call_inv_def opened_tables_def scope_defs)
qed

lemma step_spawn_inv:
  assumes "step closing t s s'" and "wf_sys s" and "\<forall>u. spawn_call_inv s (call (threads s u))"
  shows "spawn_call_inv s' (call (threads s' u))"
proof (cases "u = t")
  case True
  with step_spawn_own [OF assms(1,2)] assms(3) show ?thesis by simp
next
  case False
  with step_frame [OF assms(1)] have c: "call (threads s' u) = call (threads s u)" by simp
  have "wf_call s (call (threads s u))" by (rule wf_callI [OF assms(2)])
  with assms(3) step_table_pending [OF assms(1,2)] show ?thesis
    unfolding c spawn_call_inv_def wf_call_def by (auto split: call.splits)
qed

lemma reachable_spawn_inv: "reachable P closing s \<Longrightarrow> spawn_call_inv s (call (threads s u))"
proof (induction arbitrary: u rule: reachable.induct)
  case (made f n m s)
  then show ?case by (auto simp: MakeProxy_def rbind_Inr_conv spawn_call_inv_def idle_thread_def split: if_splits)
next
  case (stepped s t s')
  then show ?case using step_spawn_inv [OF stepped.hyps(2) reachable_wf] by blast
next
  case (tick s d)
  have "table_pending (s\<lparr>now := now s + d\<rparr>) p f i fut = table_pending s p f i fut" for p f i fut
    by (simp add: table_pending_def task_at_def begun_def is_finished_def result_of_def)
  with tick.IH [of u] show ?case by (auto simp: spawn_call_inv_def simp del: split_paired_All split: call.splits)
next
  case (requested s k th acts)
  let ?s = "set_thread (Client k) (th\<lparr>prog := acts\<rparr>) s"
  have "table_pending ?s p f i fut = table_pending s p f i fut" for p f i fut
    by (simp add: table_pending_def task_at_def begun_def is_finished_def result_of_def)
  with requested.IH [of u] requested.hyps show ?case by (auto simp: spawn_call_inv_def split: call.splits)
qed

section \<open>Opening the tables\<close>

lemma open_tables_result:
  fixes fn :: "nat \<Rightarrow> bool outcome" and i k :: nat
  shows "case open_tables fn i k of
     Inl e \<Rightarrow> \<exists>j. i \<le> j \<and> j < i + k \<and> (\<forall>l. i \<le> l \<and> l < j \<longrightarrow> (\<exists>b. fn l = Returns (Inr b))) \<and> Invoke (fn j) = Inl e
   | Inr bs \<Rightarrow> length bs = k \<and> (\<forall>l < k. fn (i + l) = Returns (Inr (bs ! l)))"
proof (induction k arbitrary: i)
  case (Suc k)
  note IH = Suc [of "Suc i"]
  consider b where "fn i = Returns (Inr b)" | e where "Invoke (fn i) = Inl e"
    by (cases "fn i" rule: Invoke.cases) auto
  then show ?case
  proof cases
    case (1 b)
    show ?thesis
    proof (cases "open_tables fn (Suc i) k")
      case (Inl e)
      with IH obtain j where j: "Suc i \<le> j" "j < Suc i + k" "\<forall>l. Suc i \<le> l \<and> l < j \<longrightarrow> (\<exists>b. fn l = Returns (Inr b))"
        "Invoke (fn j) = Inl e" by auto
      have "\<forall>l. i \<le> l \<and> l < j \<longrightarrow> (\<exists>b. fn l = Returns (Inr b))" using j(3) 1 by (metis Suc_leI le_neq_implies_less)
      with j Inl 1 show ?thesis by (auto intro!: exI [of _ j])
    next
      case (Inr bs)
      with IH have "\<forall>l < Suc k. fn (i + l) = Returns (Inr ((b # bs) ! l))"
        using 1 by (auto simp: less_Suc_eq_0_disj)
      with Inr IH 1 show ?thesis by simp
    qed
  next
    case (2 e)
    then show ?thesis by (auto intro!: exI [of _ i])
  qed
qed simp

section \<open>Properties\<close>

text \<open>
  C31. Isolation, in every interleaving. A step changes the state of a table of instance \<open>i\<close> only if
  the thread that moves is the worker of \<open>i\<close>. A task submitted to an instance, and a functor that
  \<open>Spawn\<close> submits for the table of an instance, run on the worker of this instance only, and only the
  worker itself begins them. A submitted functor starts exactly if its table is open at that moment;
  if the table is closed, nothing runs and the task ends with the status for a closed table. If the
  jobs and openers of clients do not themselves wait, close or spawn, the table moreover stays open
  while the functor runs. The functors of \<open>Spawn\<close> run without any such check, also on closed tables.
\<close>

theorem isolation:
  assumes "reachable P closing s" and "step closing t s s'"
  shows "(\<forall>p < length (proxies s). \<forall>i. isNull (proxies s' ! p) ! i \<noteq> isNull (proxies s ! p) ! i \<longrightarrow> t = Worker i) \<and>
    (\<forall>u r. current (threads s' u) = Some r \<longrightarrow> u = Worker (on_instance (run_sub r)) \<and>
       (\<not> invoked r \<longrightarrow> Invoke (run_outcome r) = Inl (Invalid [Str ''TableProxy is closed''])) \<and>
       (current (threads s u) \<noteq> Some r \<longrightarrow>
          t = u \<and> invoked r = (\<not> isNull (proxies s ! run_proxy r) ! on_instance (run_sub r)))) \<and>
    (\<forall>u r. open_task (threads s' u) = Some r \<longrightarrow> u = Worker (open_instance r) \<and>
       (open_task (threads s u) \<noteq> Some r \<longrightarrow> t = u)) \<and>
    ((\<forall>a. P a \<longrightarrow> client_call a) \<longrightarrow> (\<forall>u r. current (threads s' u) = Some r \<and> invoked r \<longrightarrow>
       \<not> isNull (proxies s' ! run_proxy r) ! on_instance (run_sub r)))"
proof (intro conjI allI impI; (elim conjE)?)
  note wf = reachable_wf [OF assms(1)] and wf' = reachable_wf [OF reachable.stepped [OF assms]]
  note cur = wf_thread_currentI [OF wf']
  show "t = Worker i" if "p < length (proxies s)" "isNull (proxies s' ! p) ! i \<noteq> isNull (proxies s ! p) ! i" for p i
    using step_null_of [OF assms(2)] that by (auto simp: null_of_def)
  fix u
  show "u = Worker (on_instance (run_sub r))" if "current (threads s' u) = Some r" for r
    using cur [of u] that by (simp add: wf_current_def)
  show "Invoke (run_outcome r) = Inl (Invalid [Str ''TableProxy is closed''])"
    if "current (threads s' u) = Some r" "\<not> invoked r" for r
    using cur [of u] that by (simp add: wf_current_def)
  show "t = u" if "current (threads s' u) = Some r" "current (threads s u) \<noteq> Some r" for r
    using step_current [OF assms(2), of u] that by simp
  show "invoked r = (\<not> isNull (proxies s ! run_proxy r) ! on_instance (run_sub r))"
    if "current (threads s' u) = Some r" "current (threads s u) \<noteq> Some r" for r
    by (rule step_starts [OF assms(2) that wf])
  show "u = Worker (open_instance r)" if "open_task (threads s' u) = Some r" for r
    using cur [of u] that by (simp add: wf_current_def)
  show "t = u" if "open_task (threads s' u) = Some r" "open_task (threads s u) \<noteq> Some r" for r
    using step_open_task [OF assms(2), of u] that by simp
  show "\<not> isNull (proxies s' ! run_proxy r) ! on_instance (run_sub r)"
    if P: "\<forall>a. P a \<longrightarrow> client_call a" and r: "current (threads s' u) = Some r" "invoked r" for r
  proof -
    have "tidy s'" using reachable_tidy [OF reachable.stepped [OF assms]] P by blast
    moreover have "u = Worker (on_instance (run_sub r))" using cur [of u] r by (simp add: wf_current_def)
    ultimately show ?thesis using r by (auto simp: tidy_def open_running_def null_of_def)
  qed
qed

theorem isolation_witness:
  "\<exists>s s' :: int sys. reachable client_call (\<lambda>p i. (True, None)) s \<and> step (\<lambda>p i. (True, None)) (Worker 0) s s' \<and>
     (\<exists>r. current (threads s' (Worker 0)) = Some r \<and> on_instance (run_sub r) = 0 \<and> invoked r \<and>
          \<not> isNull (proxies s' ! run_proxy r) ! 0)"
proof -
  let ?c = "\<lambda>p i. (True, None)" and ?acts = "[Run False 0 7 (Job [] (Returns (Inr (3 :: int))))]"
  have r: "reachable client_call ?c (calls_of 0 ?acts two_instances)"
    using reachable_client [where P = client_call and acts = ?acts] by simp
  obtain s where s: "run ?c (replicate 5 (Client 0)) (calls_of 0 ?acts two_instances) = Some s"
    and e: "\<exists>s' r. exec ?c (Worker 0) s = Some s' \<and> current (threads s' (Worker 0)) = Some r \<and> invoked r"
    by (simp add: run_defs)
  then obtain s' r where s': "exec ?c (Worker 0) s = Some s'" "current (threads s' (Worker 0)) = Some r" "invoked r" by blast
  note R = reachable_run [OF s r] and S = exec_step [OF s'(1)]
  note I = isolation [OF R S]
  have "Worker 0 = Worker (on_instance (run_sub r))" using I s'(2) by blast
  moreover have "\<not> isNull (proxies s' ! run_proxy r) ! on_instance (run_sub r)" using I s'(2,3) by blast
  ultimately have "on_instance (run_sub r) = 0 \<and> \<not> isNull (proxies s' ! run_proxy r) ! 0" by simp
  with R S s'(2,3) show ?thesis by blast
qed

text \<open>
  C40. What \<open>Spawn\<close> does, in every interleaving: its call collects the tables that the functor returns
  on the instances, in their order. Each further step of the thread submits the functor for the
  next instance, to the pool of this instance; or takes the table it returned; or, after the last
  instance, makes one new proxy, which is open and has these tables; or gives up with the status,
  exceptions included, of the first instance on which the functor failed, and makes no proxy.
\<close>

theorem Spawn_collects_tables:
  assumes "reachable P closing s" and "step closing t s s'"
    and "call (threads s t) = Spawning p f nulls \<or> call (threads s t) = Opening p f nulls fut"
  shows "(\<forall>j < length nulls. opened f j = Returns (Inr (nulls ! j))) \<and>
    (case call (threads s' t) of
       Opening p' f' nulls' fut' \<Rightarrow> p' = p \<and> f' = f \<and> nulls' = nulls \<and> fst fut' = length nulls \<and>
         queues s' = (queues s)[length nulls := queues s ! length nulls @ [OpenTable p (length nulls) f]]
     | Spawning p' f' nulls' \<Rightarrow> p' = p \<and> f' = f \<and>
         (\<exists>b. opened f (length nulls) = Returns (Inr b) \<and> nulls' = nulls @ [b])
     | Idle \<Rightarrow>
         length nulls = nInstances s \<and> proxies s' = proxies s @ [\<lparr>is_closed = False, isNull = nulls\<rparr>] \<and>
           log (threads s' t) = log (threads s t) @ [Inr (Spawned (length (proxies s)))] \<or>
         length nulls < nInstances s \<and> proxies s' = proxies s \<and>
           (\<exists>e. Invoke (opened f (length nulls)) = Inl e \<and> log (threads s' t) = log (threads s t) @ [Inl e])
     | _ \<Rightarrow> False)" (is "?tables \<and> ?next")
proof -
  have wc: "wf_call s (call (threads s t))" by (rule wf_callI [OF reachable_wf [OF assms(1)]])
  have inv: "spawn_call_inv s (call (threads s t))" by (rule reachable_spawn_inv [OF assms(1)])
  have o: "\<forall>j < length nulls. opened f j = Returns (Inr (nulls ! j))"
    using inv assms(3) by (auto simp: spawn_call_inv_def opened_tables_def)
  from assms(2,3) wc inv have ?next
  proof (induction rule: step.induct)
    case (spawn_collect s t th q g ns fut')
    then have e: "q = p" "g = f" "ns = nulls" "fut' = fut" by auto
    with spawn_collect have "result_of s fut = rbind (Invoke (opened f (length nulls))) (\<lambda>b. Inr (Table b))"
      by (auto simp: spawn_call_inv_def intro: table_pending_result)
    with spawn_collect e show ?case
      by (cases "Invoke (opened f (length nulls))")
        (auto simp: collect_table_def wf_call_def Invoke_Inr)
  qed (auto simp: OpenTask_def add_proxy_def wf_call_def)
  with o show ?thesis by (rule conjI)
qed

theorem Spawn_collects_tables_witness:
  "\<exists>s s' :: int sys. run (\<lambda>p i. (True, None)) [Client 0, Client 0, Worker 0, Worker 0, Client 0, Client 0, Worker 1, Worker 1]
        (calls_of 0 [Spawn 0 (Opener [] (\<lambda>i. if i = 0 then Returns (Inr False) else AipsError ''locked''))] two_instances) = Some s \<and>
     step (\<lambda>p i. (True, None)) (Client 0) s s' \<and> length (proxies s') = 1 \<and>
     log (threads s' (Client 0)) = [Inl (Invalid [Str ''Unhandled casacore exception: '', Str ''locked''])]"
proof -
  let ?c = "\<lambda>p i. (True, None)" and ?f = "Opener [] (\<lambda>i. if i = 0 then Returns (Inr False) else AipsError ''locked'') :: int opener"
  let ?s = "calls_of 0 [Spawn 0 ?f] two_instances"
  have r: "reachable (\<lambda>_. True) ?c ?s"
    using reachable_client [where P = "\<lambda>_. True" and acts = "[Spawn 0 ?f]"] by simp
  obtain s where s: "run ?c [Client 0, Client 0, Worker 0, Worker 0, Client 0, Client 0, Worker 1, Worker 1] ?s = Some s"
    and c: "call (threads s (Client 0)) = Opening 0 ?f [False] (1, 0)" "length (proxies s) = 1"
      "log (threads s (Client 0)) = []" "nInstances s = 2"
    and e: "\<exists>s'. exec ?c (Client 0) s = Some s' \<and> call (threads s' (Client 0)) = Idle"
    by (simp add: run_defs OpenTask_def InvokeOpener_def collect_table_def result_of_def)
  then obtain s' where s': "exec ?c (Client 0) s = Some s'" "call (threads s' (Client 0)) = Idle" by blast
  from Spawn_collects_tables [OF reachable_run [OF s r] exec_step [OF s'(1)] disjI2 [OF c(1)]] s'(2) c
  have "length (proxies s') = 1 \<and> log (threads s' (Client 0)) = [Inl (Invalid [Str ''Unhandled casacore exception: '', Str ''locked''])]"
    by auto
  with s exec_step [OF s'(1)] show ?thesis by blast
qed

text \<open>
  \<open>Spawn\<close> does not ask whether its parent is closed. After \<open>Close\<close> of a proxy, its functor runs with
  the closed table of instance 0, and if it returns tables nevertheless, there is an open proxy.
\<close>

theorem Spawn_ignores_close:
  "let f = Opener [] (\<lambda>i. Returns (Inr False)) :: int opener; closing = (\<lambda>p i. (True, None));
       closed = [Client 0, Client 0, Client 0, Worker 0, Worker 1, Client 0]
   in case run closing (closed @ [Client 0, Client 0, Worker 0]) (calls_of 0 [Close 0, Spawn 0 f] two_instances) of
        None \<Rightarrow> False
      | Some s \<Rightarrow>
          IsClosed s 0 \<and> isNull (proxies s ! 0) ! 0 \<and>
          open_task (threads s (Worker 0)) = Some \<lparr>open_proxy = 0, open_instance = 0, open_outcome = Returns (Inr False)\<rparr> \<and>
          (case run closing [Worker 0, Client 0, Client 0, Worker 1, Worker 1, Client 0, Client 0] s of
             None \<Rightarrow> False
           | Some s' \<Rightarrow> IsClosed s' 0 \<and> length (proxies s') = 2 \<and> \<not> IsClosed s' 1)"
  by (simp add: run_defs OpenTask_def InvokeOpener_def collect_table_def result_of_def close_status_def close_result_def IsClosed_def)

text \<open>
  C35. A closed proxy stays closed, in every interleaving with other threads that submit tasks or
  close the same proxy, if \<open>close()\<close> of casacore leaves each table null: all its tables are closed,
  new calls of \<open>RunAsync\<close> and \<open>RunSync\<close> are refused, though not \<open>Spawn\<close>, tasks that are still in a queue do not run their functors but end with the
  status for a closed table, and the flag is never cleared.
\<close>

theorem Close_is_final:
  assumes "reachable P closing s" and "\<forall>p i. fst (closing p i)" and "p < length (proxies s)" and "IsClosed s p"
  shows "(\<forall>i < nInstances s. isNull (proxies s ! p) ! i) \<and>
    CheckClosed s p = Inl (Invalid [Str ''TableProxy is closed'']) \<and>
    (\<forall>sub job. on_instance sub < nInstances s \<longrightarrow>
       (case InvokeOnInstance sub p job s of (acts, r) \<Rightarrow>
          acts = [] \<and> Invoke (run_outcome r) = Inl (Invalid [Str ''TableProxy is closed'']))) \<and>
    (\<forall>t s'. step closing t s s' \<longrightarrow> IsClosed s' p)"
proof -
  have "\<forall>i < nInstances s. isNull (proxies s ! p) ! i"
    using reachable_closing_inv [OF assms(1,2)] assms(3,4) by (auto simp: closing_inv_def IsClosed_def null_of_def)
  then show ?thesis
    using assms(3,4) step_stays_closed [of closing _ s _ p] by (auto simp: CheckClosed_def InvokeOnInstance_def IsClosed_def)
qed

theorem Close_is_final_witness:
  "case run (\<lambda>p i. (True, None)) [Client 0, Client 0, Client 0, Worker 1, Worker 0, Client 0]
      (calls_of 0 [Close 0] two_instances :: int sys) of
     None \<Rightarrow> False
   | Some s \<Rightarrow> IsClosed s 0 \<and> isNull (proxies s ! 0) ! 1 \<and> CheckClosed s 0 = Inl (Invalid [Str ''TableProxy is closed''])"
proof -
  let ?c = "\<lambda>p i. (True, None)" and ?s = "calls_of 0 [Close 0] two_instances :: int sys"
  have r: "reachable (\<lambda>_. True) ?c ?s"
    using reachable_client [where P = "\<lambda>_. True" and acts = "[Close 0]"] by simp
  obtain s where s: "run ?c [Client 0, Client 0, Client 0, Worker 1, Worker 0, Client 0] ?s = Some s"
    and e: "IsClosed s 0" "nInstances s = 2" "length (proxies s) = 1"
    by (simp add: run_defs close_status_def IsClosed_def)
  from Close_is_final [OF reachable_run [OF s r], of 0] s e show ?thesis by simp
qed

text \<open>
  \<open>Make\<close> fails for no instances, or with the status of the first instance whose table cannot be
  opened, exceptions included; otherwise it makes an open proxy with the tables of all instances,
  idle pools and zero statistics.
\<close>

theorem MakeProxy_first_failure:
  "case MakeProxy fn n m of
     Inl e \<Rightarrow> n = 0 \<and> e = Invalid [Str ''Number of instances must at least be 1''] \<or>
       (\<exists>i < n. (\<forall>j < i. \<exists>b. fn j = Returns (Inr b)) \<and> Invoke (fn i) = Inl e)
   | Inr s \<Rightarrow> 0 < n \<and> nInstances s = n \<and> \<not> IsClosed s 0 \<and> stats s = replicate n zero_stats \<and>
       queues s = replicate n [] \<and> (\<forall>i < n. fn i = Returns (Inr (isNull (proxies s ! 0) ! i)))"
  using open_tables_result [where fn = fn and i = 0 and k = n]
  by (cases "open_tables fn 0 n") (auto simp: MakeProxy_def nInstances_def IsClosed_def)

theorem MakeProxy_first_failure_witness:
  "MakeProxy (\<lambda>i. if i = 1 then AipsError ''locked'' else Returns (Inr False)) 2 1 =
     (Inl (Invalid [Str ''Unhandled casacore exception: '', Str ''locked'']) :: int sys result)"
proof -
  let ?f = "\<lambda>i :: nat. if i = 1 then AipsError ''locked'' else Returns (Inr False)"
  have "open_tables ?f 0 2 = Inl (Invalid [Str ''Unhandled casacore exception: '', Str ''locked''])"
    by (simp add: numeral_2_eq_2)
  then obtain e where e: "MakeProxy ?f 2 1 = (Inl e :: int sys result)" by (simp add: MakeProxy_def)
  with MakeProxy_first_failure [where fn = ?f and n = 2 and m = 1 and 'a = int] obtain i where i: "i < 2" "\<forall>j < i. \<exists>b. ?f j = Returns (Inr b)" "Invoke (?f i) = Inl e"
    by auto
  then have "i = 1" by (auto simp: less_2_cases_iff)
  with i e show ?thesis by auto
qed

end
