(* ===== verification/IsolatedLiveness.thy ===== *)
theory IsolatedLiveness
  imports IsolatedSafety
begin

text \<open>
  Every schedule of a family of isolated table proxies ends, with all tasks completed, if jobs do
  not themselves wait, close or spawn: each step decreases the work that is left, and a thread that cannot
  move is idle. Two jobs that close two proxies on two instances wait for each other forever.
\<close>

section \<open>The work that is left\<close>

fun action_work :: "nat \<Rightarrow> 'v action \<Rightarrow> nat" and job_work :: "nat \<Rightarrow> 'v job \<Rightarrow> nat"
  and opener_work :: "nat \<Rightarrow> 'v opener \<Rightarrow> nat" where
  "action_work n (Record k) = 1"
| "action_work n (Run sync p c job) = n + 4 + job_work n job"
| "action_work n (Close p) = 2 * n + 2"
| "action_work n (Spawn p f) = n * (opener_work n f + 2) + 2"
| "job_work n (Job as out) = 2 + sum_list (map (action_work n) as)"
| "opener_work n (Opener as outs) = 2 + sum_list (map (action_work n) as)"

fun call_work :: "nat \<Rightarrow> 'v call \<Rightarrow> nat" where
  "call_work n Idle = 0"
| "call_work n (Loading sync p c job i inst least) = (n - i) + 3 + job_work n job"
| "call_work n (Submitting sync p sub job) = 2 + job_work n job"
| "call_work n (Closing p i fs inline) = 2 * (n - i) + 1"
| "call_work n (Spawning p f nulls) = (n - length nulls) * (opener_work n f + 2) + 1"
| "call_work n (Opening p f nulls fut) = (n - Suc (length nulls)) * (opener_work n f + 2) + 2"
| "call_work n (Waiting f) = 1"

fun task_work :: "nat \<Rightarrow> 'v task \<Rightarrow> nat" where
  "task_work n (Work p sub job) = job_work n job"
| "task_work n (CloseTable p) = 1"
| "task_work n (OpenTable p j f) = opener_work n f"

definition thread_work :: "nat \<Rightarrow> 'v thread \<Rightarrow> nat" where
  "thread_work n th = sum_list (map (action_work n) (prog th)) + call_work n (call th) +
     (if current th = None then 0 else 1) + (if open_task th = None then 0 else 1)"

definition queue_work :: "nat \<Rightarrow> 'v sys \<Rightarrow> nat" where
  "queue_work n s = sum_list (map (\<lambda>q. sum_list (map (task_work n) q)) (queues s))"

definition work :: "'v sys \<Rightarrow> nat" where
  "work s = (\<Sum>t \<in> tids s. thread_work (nInstances s) (threads s t)) + queue_work (nInstances s) s"

lemma job_work_actions: "job_work n job = 2 + sum_list (map (action_work n) (actions job))"
  by (cases job) simp

lemma opener_work_actions: "opener_work n f = 2 + sum_list (map (action_work n) (open_actions f))"
  by (cases f) simp

lemma queue_work_same [simp]:
  "queue_work n (upd_stats i f s) = queue_work n s" "queue_work n (set_thread t th s) = queue_work n s"
  "queue_work n (reply i r s) = queue_work n s" "queue_work n (set_null p i b s) = queue_work n s"
  "queue_work n (set_closed p s) = queue_work n s" "queue_work n (RecordIoBytes t k s) = queue_work n s"
  "queue_work n (add_proxy nulls s) = queue_work n s"
  by (simp_all add: queue_work_def)

lemma sum_list_upd:
  fixes xs :: "nat list"
  shows "i < length xs \<Longrightarrow> sum_list (xs[i := x]) + xs ! i = sum_list xs + x"
  by (induction xs arbitrary: i) (auto split: nat.split)

lemma queue_work_enqueue:
  "i < length (queues s) \<Longrightarrow> queue_work n (enqueue i task s) = queue_work n s + task_work n task"
  using sum_list_upd [of i "map (\<lambda>q. sum_list (map (task_work n) q)) (queues s)"
      "sum_list (map (task_work n) (queues s ! i)) + task_work n task"]
  by (simp add: queue_work_def map_update)

lemma queue_work_pop:
  "i < length (queues s) \<Longrightarrow> queues s ! i = task # q \<Longrightarrow> queue_work n s = queue_work n (pop i s) + task_work n task"
  using sum_list_upd [of i "map (\<lambda>q. sum_list (map (task_work n) q)) (queues s)" "sum_list (map (task_work n) q)"]
  by (simp add: queue_work_def map_update)

lemma step_thread_work:
  assumes "step closing t s s'" and "wf_sys s" and "n = nInstances s"
  shows "thread_work n (threads s' t) + queue_work n s' < thread_work n (threads s t) + queue_work n s"
proof -
  have wc: "wf_call s (call (threads s t))" by (rule wf_callI [OF assms(2)])
  have l: "length (queues s) = nInstances s" using assms(2) by (simp add: wf_sys_def)
  from assms(1,3) wc l show ?thesis
  proof (induction rule: step.induct)
    case (reserve s t th sync p c job inst least s' sub)
    then show ?case by (auto simp: thread_work_def scope_defs)
  next
    case (submit s t th sync p sub job i)
    then show ?case by (auto simp: thread_work_def queue_work_enqueue wf_call_def)
  next
    case (close_submit s t th p i fs inline)
    then show ?case by (auto simp: thread_work_def queue_work_enqueue)
  next
    case (start s i th p sub job q acts r)
    then have "queue_work n s = queue_work n (pop i s) + job_work n job" using queue_work_pop [of i s "Work p sub job" q n] by simp
    with start show ?case
      by (auto simp: thread_work_def scope_defs busy_def InvokeOnInstance_def job_work_actions split: if_splits)
  next
    case (start_open s i th p j f q acts r)
    then have "queue_work n s = queue_work n (pop i s) + opener_work n f"
      using queue_work_pop [of i s "OpenTable p j f" q n] by simp
    with start_open show ?case by (auto simp: thread_work_def busy_def InvokeOpener_def opener_work_actions)
  next
    case (spawn_submit s t th p f nulls i)
    then have "n - length nulls = Suc (n - Suc (length nulls))" by simp
    with spawn_submit show ?case by (auto simp: thread_work_def queue_work_enqueue OpenTask_def)
  next
    case (spawn_collect s t th p f nulls fut)
    then show ?case
      by (cases rule: collect_table_cases [of "result_of s fut" p f nulls th]) (auto simp: thread_work_def)
  next
    case (start_close s i th p q)
    then have "queue_work n s = queue_work n (pop i s) + 1" using queue_work_pop [of i s "CloseTable p" q n] by simp
    with start_close show ?case by (auto simp: thread_work_def scope_defs)
  qed (auto simp: thread_work_def scope_defs)
qed

lemma step_work:
  assumes "step closing t s s'" and "wf_sys s"
  shows "work s' < work s"
proof -
  note fr = step_frame [OF assms(1)] and t = step_tid [OF assms] and tids = step_tids [OF assms(1)]
  let ?w = "\<lambda>s t. thread_work (nInstances s) (threads s t)"
  have "(\<Sum>u \<in> tids s - {t}. ?w s' u) = (\<Sum>u \<in> tids s - {t}. ?w s u)" using fr by (intro sum.cong) auto
  then show ?thesis
    using step_thread_work [OF assms refl] fr by (simp add: work_def tids sum.remove [OF finite_tids t])
qed

lemma run_work: "run closing ts s = Some s' \<Longrightarrow> wf_sys s \<Longrightarrow> length ts + work s' \<le> work s"
proof (induction ts arbitrary: s)
  case (Cons t ts)
  then obtain s1 where s1: "exec closing t s = Some s1" "run closing ts s1 = Some s'" by (auto split: option.splits)
  with exec_step have st: "step closing t s s1" by blast
  from Cons.IH [OF s1(2) step_wf [OF st Cons.prems(2)]] step_work [OF st Cons.prems(2)] show ?case by simp
qed simp

section \<open>Progress\<close>

definition stuck :: "closing \<Rightarrow> 'v sys \<Rightarrow> bool" where
  "stuck closing s \<longleftrightarrow> (\<forall>t. exec closing t s = None)"

definition quiescent :: "'v sys \<Rightarrow> bool" where
  "quiescent s \<longleftrightarrow> (\<forall>t. prog (threads s t) = [] \<and> call (threads s t) = Idle \<and> \<not> busy (threads s t)) \<and>
     (\<forall>i < nInstances s. queues s ! i = [])"

lemma exec_idle_None:
  "exec_idle closing (Worker i) s = None \<Longrightarrow> i < nInstances s \<Longrightarrow> \<not> busy (threads s (Worker i)) \<and> queues s ! i = []"
  by (auto simp: exec_idle_def busy_def Let_def split: option.splits list.splits task.splits prod.splits)

text \<open>A thread that cannot move and waits for nothing has nothing left to do.\<close>

lemma exec_None_idle:
  assumes "exec closing t s = None" and "wf_sys s"
  shows "prog (threads s t) = [] \<and> call (threads s t) = Idle \<and> exec_idle closing t s = None \<or>
    (\<exists>f. call (threads s t) = Waiting f \<and> \<not> is_finished s f) \<or>
    (\<exists>p f nulls fut. call (threads s t) = Opening p f nulls fut \<and> \<not> is_finished s fut) \<or>
    (\<exists>p fs inline. call (threads s t) = Closing p (nInstances s) fs inline \<and> \<not> (\<forall>f \<in> set fs. is_finished s f))"
proof -
  have wc: "wf_call s (call (threads s t))" and k: "\<forall>a \<in> set (prog (threads s t)). known (length (proxies s)) a"
    using assms(2) by (simp_all add: wf_sys_def wf_thread_def Let_def)
  show ?thesis
  proof (cases "call (threads s t)")
    case Idle
    show ?thesis
    proof (cases "prog (threads s t)")
      case Nil
      with Idle assms(1) show ?thesis by (simp add: exec_def Let_def)
    next
      case (Cons a acts)
      with Idle assms(1) k show ?thesis by (cases a) (auto simp: exec_def Let_def split: sum.splits if_splits)
    qed
  qed (use assms(1) wc in \<open>auto simp: exec_def Let_def wf_call_def split: prod.splits if_splits\<close>)
qed

lemma stuck_quiescent:
  assumes "stuck closing s" and "tidy s"
  shows "quiescent s"
proof -
  have wf_sys: "wf_sys s" and plain: "\<And>t. plain_thread s t" using assms(2) by (simp_all add: tidy_def all_plain_def)
  note idle = exec_None_idle [OF _ wf_sys]
  have worker: "prog (threads s (Worker i)) = [] \<and> call (threads s (Worker i)) = Idle \<and> exec_idle closing (Worker i) s = None" for i
    using idle [of closing "Worker i"] assms(1) plain [of "Worker i"] by (auto simp: stuck_def plain_thread_def)
  have empty: "\<not> busy (threads s (Worker i)) \<and> queues s ! i = []" if "i < nInstances s" for i
    using exec_idle_None [of closing i s] worker [of i] that by simp
  have fin: "is_finished s f" if "issued s f" for f
    using that empty [of "fst f"] by (simp add: issued_def is_finished_def next_number_def begun_def)
  have "prog (threads s t) = [] \<and> call (threads s t) = Idle" for t
    using idle [of closing t] assms(1) wf_callI [OF wf_sys, of t] fin by (auto simp: stuck_def wf_call_def)
  moreover have "\<not> busy (threads s t)" for t
  proof
    assume b: "busy (threads s t)"
    then obtain i where "t = Worker i" "i < nInstances s"
      using wf_thread_currentI [OF wf_sys, of t] by (auto simp: busy_def wf_current_def)
    with b empty show False by simp
  qed
  ultimately show ?thesis using empty by (simp add: quiescent_def)
qed

lemma quiescent_held: "quiescent s \<Longrightarrow> i < nInstances s \<Longrightarrow> held f i s = 0"
  by (simp add: quiescent_def held_def reserved_def busy_def)

text \<open>Some schedule reaches a state in which no thread can move.\<close>

lemma run_until_stuck: "wf_sys s \<Longrightarrow> \<exists>ts s'. run closing ts s = Some s' \<and> stuck closing s'"
proof (induction "work s" arbitrary: s rule: less_induct)
  case less
  show ?case
  proof (cases "stuck closing s")
    case True
    then have "run closing [] s = Some s \<and> stuck closing s" by simp
    then show ?thesis by blast
  next
    case False
    then obtain t s1 where e: "exec closing t s = Some s1" by (auto simp: stuck_def)
    note st = exec_step [OF e]
    from less.hyps [OF step_work [OF st less.prems] step_wf [OF st less.prems]]
    obtain ts s' where "run closing ts s1 = Some s'" "stuck closing s'" by blast
    with e have "run closing (t # ts) s = Some s' \<and> stuck closing s'" by simp
    then show ?thesis by blast
  qed
qed

section \<open>Properties\<close>

text \<open>
  C32. Every schedule drains the pools. From a reachable state in which the jobs and openers of clients
  do not themselves wait, close or spawn, a schedule has at most \<open>work s\<close> steps; some schedule reaches a state in
  which no thread can move; and in every such state all calls have returned, the pools are empty,
  no cost is outstanding and every submitted task has completed.
\<close>

theorem pools_drain:
  assumes "reachable client_call closing s"
  shows "(\<forall>ts s'. run closing ts s = Some s' \<longrightarrow> length ts \<le> work s \<and>
       (stuck closing s' \<longrightarrow> quiescent s' \<and> (\<forall>i < nInstances s'. outstanding_cost (stats s' ! i) = 0 \<and>
          submitted (stats s' ! i) = completed (stats s' ! i)))) \<and>
    (\<exists>ts s'. run closing ts s = Some s' \<and> stuck closing s')"
proof (intro conjI allI impI)
  note wf_sys = reachable_wf [OF assms]
  show "\<exists>ts s'. run closing ts s = Some s' \<and> stuck closing s'" by (rule run_until_stuck [OF wf_sys])
  fix ts s'
  assume r: "run closing ts s = Some s'"
  show "length ts \<le> work s" using run_work [OF r wf_sys] by simp
  note R = reachable_run [OF r assms]
  assume stuck: "stuck closing s'"
  show q: "quiescent s'" by (rule stuck_quiescent [OF stuck reachable_tidy [OF R]])
  fix i assume i: "i < nInstances s'"
  show "outstanding_cost (stats s' ! i) = 0" using cost.reachable_counter [OF R i] quiescent_held [OF q i] by simp
  show "submitted (stats s' ! i) = completed (stats s' ! i)"
    using tasks.reachable_counter [OF R i] quiescent_held [OF q i, of "\<lambda>_. 1"] by simp
qed

theorem pools_drain_witness:
  "\<exists>ts s'. run (\<lambda>p i. (True, None)) ts
      (calls_of 0 [Run True 0 7 (Job [Record 5] (Returns (Inr (3 :: int)))), Close 0] two_instances) = Some s' \<and>
     quiescent s' \<and> outstanding_cost (stats s' ! 0) = 0"
proof -
  let ?c = "\<lambda>p i. (True, None)" and ?acts = "[Run True 0 7 (Job [Record 5] (Returns (Inr (3 :: int)))), Close 0]"
  let ?s = "calls_of 0 ?acts two_instances"
  have r: "reachable client_call ?c ?s"
    using reachable_client [where P = client_call and acts = ?acts] by simp
  from pools_drain [OF r] obtain ts s' where ts: "run ?c ts ?s = Some s'" "stuck ?c s'" by blast
  with pools_drain [OF r] have q: "quiescent s'" and o: "\<forall>i < nInstances s'. outstanding_cost (stats s' ! i) = 0" by blast+
  have "0 < nInstances s'" using reachable_wf [OF reachable_run [OF ts(1) r]] by (simp add: wf_sys_def)
  with ts q o show ?thesis by blast
qed

text \<open>
  C39. Closing two proxies from two instances can deadlock. A client spawns two proxies of a proxy with
  two instances. Then a job on instance 0 that closes one of them and a job on instance 1 that closes
  the other each close their own instance inline, submit the other close to the pool of the other
  job, and wait for it: a reachable state in which no thread can move, although two tasks are
  running and two are in the queues.
\<close>

theorem crossed_closes_deadlock:
  "let closing = (\<lambda>p i. (True, None)); f = Opener [] (\<lambda>i. Returns (Inr False));
       spawning = [Client 0, Client 0, Worker 0, Worker 0, Client 0, Client 0, Worker 1, Worker 1, Client 0, Client 0]
   in case run closing (spawning @ spawning) (calls_of 0 [Spawn 0 f, Spawn 0 f] two_instances) of
        None \<Rightarrow> False
      | Some s1 \<Rightarrow>
          (case run closing
              (replicate 5 (Client 0) @ replicate 5 (Client 1) @
               [Worker 0, Worker 1, Worker 0, Worker 1, Worker 0, Worker 1, Worker 0, Worker 1])
              (calls_of 1 [Run False 2 7 (Job [Close 2] (Returns (Inr (3 :: int))))]
                (calls_of 0 [Run False 1 7 (Job [Close 1] (Returns (Inr 3)))] s1)) of
             None \<Rightarrow> False
           | Some s \<Rightarrow> reachable (\<lambda>_. True) closing s \<and> stuck closing s \<and> queues s = [[CloseTable 2], [CloseTable 1]] \<and>
               current (threads s (Worker 0)) \<noteq> None \<and> current (threads s (Worker 1)) \<noteq> None)"
proof -
  let ?c = "\<lambda>p i. (True, None)" and ?f = "Opener [] (\<lambda>i. Returns (Inr False)) :: int opener"
  let ?sp = "[Client 0, Client 0, Worker 0, Worker 0, Client 0, Client 0, Worker 1, Worker 1, Client 0, Client 0]"
  let ?ts = "replicate 5 (Client 0) @ replicate 5 (Client 1) @
       [Worker 0, Worker 1, Worker 0, Worker 1, Worker 0, Worker 1, Worker 0, Worker 1]"
  let ?calls = "\<lambda>s. calls_of 1 [Run False 2 7 (Job [Close 2] (Returns (Inr (3 :: int))))]
                (calls_of 0 [Run False 1 7 (Job [Close 1] (Returns (Inr 3)))] s)"
  note ev = run_defs OpenTask_def InvokeOpener_def collect_table_def result_of_def close_status_def
  obtain s1 where s1: "run ?c (?sp @ ?sp) (calls_of 0 [Spawn 0 ?f, Spawn 0 ?f] two_instances) = Some s1"
    and p1: "stats s1 = [zero_stats, zero_stats]" "queues s1 = [[], []]"
      "replies s1 = [[Inr (Table False), Inr (Table False)], [Inr (Table False), Inr (Table False)]]"
      "proxies s1 = replicate 3 \<lparr>is_closed = False, isNull = [False, False]\<rparr>" "nclients s1 = 2"
      "\<forall>t. \<exists>l. threads s1 t = idle_thread\<lparr>log := l\<rparr>"
    by (simp add: ev)
  have "reachable (\<lambda>_. True) ?c (calls_of 0 [Spawn 0 ?f, Spawn 0 ?f] two_instances)"
    using reachable_client [where P = "\<lambda>_. True" and acts = "[Spawn 0 ?f, Spawn 0 ?f]"] by simp
  note r = reachable_run [OF s1 this]
  have i1: "prog (threads s1 t) = [] \<and> call (threads s1 t) = Idle \<and> \<not> busy (threads s1 t)" for t
    using spec [OF p1(6), of t] by (auto simp: idle_thread_def busy_def)
  have r: "reachable (\<lambda>_. True) ?c (?calls s1)"
    by (intro reachable_calls_of [OF reachable_calls_of [OF r]]) (use i1 p1 in \<open>simp_all add: calls_of_def\<close>)
  obtain s where s: "run ?c ?ts (?calls s1) = Some s" and q: "queues s = [[CloseTable 2], [CloseTable 1]]"
    and cur: "current (threads s (Worker 0)) \<noteq> None" "current (threads s (Worker 1)) \<noteq> None"
    and w0: "call (threads s (Worker 0)) = Closing 1 2 [(1, 3)] None" and w1: "call (threads s (Worker 1)) = Closing 2 2 [(0, 3)] None"
    and other: "\<forall>t. t \<noteq> Worker 0 \<and> t \<noteq> Worker 1 \<longrightarrow> prog (threads s t) = [] \<and> call (threads s t) = Idle \<and> \<not> busy (threads s t)"
    and n: "nInstances s = 2" and rep: "replies s = replies s1"
    using i1 p1 by (simp add: ev)
  have "exec ?c t s = None" for t
  proof -
    consider "t = Worker 0" | "t = Worker 1" | "t \<noteq> Worker 0" "t \<noteq> Worker 1" by blast
    then show ?thesis
    proof cases
      case 3
      then have "exec_idle ?c t s = None"
        using n by (cases t) (auto simp: exec_idle_def less_2_cases_iff)
      with 3 other show ?thesis by (simp add: exec_def Let_def)
    qed (simp_all add: exec_def Let_def w0 w1 [unfolded One_nat_def] n rep p1(3) is_finished_def)
  qed
  with s s1 q cur reachable_run [OF s r] show ?thesis by (simp add: stuck_def Let_def)
qed

end
