(* ===== verification/ArrowArrays.thy ===== *)
theory ArrowArrays
  imports ResultShape Config TableUtils
begin

text \<open>
  Arrow arrays and the shapes of arrays: the functions of \<open>cpp/arcae/result_shape.cc\<close> that derive a
  shape from an array (\<open>GetRowShapes\<close>, \<open>GetArrowResultShapeData\<close>, \<open>GetResultShapeData\<close>,
  \<open>FromArray\<close>) and that make arrays of a shape (\<open>GetShapeArray\<close>, \<open>GetOffsets\<close>), \<open>MakeArray\<close> of
  \<open>read_impl.cc\<close> and \<open>GetFlatArray\<close> of \<open>write_impl.cc\<close>.

  An array is what the code can see of one through arrow's accessors, in arrow's columnar format:
  a view of a buffer of values, lists given by offsets into a child, lists of a fixed size, or a
  type the code rejects. A slice has an offset of its own; the child of a sliced list is the
  whole child, as \<open>values()\<close> and \<open>child_data\<close> return it.
\<close>

section \<open>Arrays\<close>

datatype value_type = Value_type arrow_dtype | Bool_type | UInt64_type

datatype list_kind = List32 | List64

datatype 'v arrow =
    Values value_type "'v list" nat nat                      \<comment> \<open>type, buffer, offset, length\<close>
  | Lists list_kind "int list" "bool list option" "'v arrow"  \<comment> \<open>offsets, validity, values\<close>
  | FixedLists int nat nat "bool list option" "'v arrow"      \<comment> \<open>list size, length, offset, validity, values\<close>
  | Unsupported string

fun array_length :: "'v arrow \<Rightarrow> nat" where
  "array_length (Values ty buf off n) = n"
| "array_length (Lists k offsets valid vals) = length offsets - 1"
| "array_length (FixedLists list_size n off valid vals) = n"
| "array_length (Unsupported ty) = 0"

fun null_count :: "'v arrow \<Rightarrow> nat" where
  "null_count (Lists k offsets (Some valid) vals) = length (filter Not valid)"
| "null_count (FixedLists list_size n off (Some valid) vals) = length (filter Not valid)"
| "null_count _ = 0"

fun list_values :: "'v arrow \<Rightarrow> 'v arrow" where
  "list_values (Lists k offsets valid vals) = vals"
| "list_values (FixedLists list_size n off valid vals) = vals"
| "list_values a = a"

text \<open>A read of the offsets outside the array is undefined, and so is a list of negative length.\<close>

definition at_int :: "int list \<Rightarrow> int \<Rightarrow> int result" where
  "at_int xs i = (if 0 \<le> i \<and> i < int (length xs) then Inr (xs ! nat i) else Inl (Undefined ''out of range''))"

fun value_offset :: "'v arrow \<Rightarrow> int \<Rightarrow> int result" where
  "value_offset (Lists k offsets valid vals) i = at_int offsets i"
| "value_offset (FixedLists list_size n off valid vals) i = Inr ((i + int off) * list_size)"
| "value_offset a i = Inl (Undefined ''no list'')"

definition nonnegative :: "int \<Rightarrow> nat result" where
  "nonnegative x = (if 0 \<le> x then Inr (nat x) else Inl (Undefined ''negative length''))"

fun value_length :: "'v arrow \<Rightarrow> int \<Rightarrow> nat result" where
  "value_length (Lists k offsets valid vals) i =
     rbind (at_int offsets i) (\<lambda>a. rbind (at_int offsets (i + 1)) (\<lambda>b. nonnegative (b - a)))"
| "value_length (FixedLists list_size n off valid vals) i = nonnegative list_size"
| "value_length a i = Inl (Undefined ''no list'')"

fun is_fixed_list :: "'v arrow \<Rightarrow> bool" where
  "is_fixed_list (FixedLists list_size n off valid vals) = True"
| "is_fixed_list a = False"

section \<open>Shapes of arrays\<close>

text \<open>
  The lambda \<open>SetRowShape\<close> of \<open>GetRowShapes\<close>: \<open>first\<close> and \<open>last\<close> delimit the part of the list array
  that belongs to row \<open>r\<close>, \<open>dims\<close> are the dimensions set so far.
\<close>

definition SetRowShape :: "'v arrow \<Rightarrow> nat \<Rightarrow> int \<Rightarrow> int \<Rightarrow> shape \<Rightarrow> (shape \<times> int \<times> int) result" where
  "SetRowShape arr r first past dims =
     rbind (require (null_count arr = 0) (NotImplemented [Str ''nulls''])) (\<lambda>_.
     rbind (value_length arr first) (\<lambda>dim_size.
     rbind (if is_fixed_list arr then Inr ()
            else rfor (\<lambda>i. rbind (value_length arr i) (\<lambda>n.
                   require (dim_size = n) (Invalid [Str ''Offsets in row '', Num (int r), Str '' don'', Str [CHR 0x27], Str ''t match''])))
                 [first + 1..past - 1]) (\<lambda>_.
     rbind (value_offset arr first) (\<lambda>first'.
     rbind (value_offset arr past) (\<lambda>past'.
     Inr (dims @ [dim_size], first', past'))))))"

fun row_shape_loop :: "nat \<Rightarrow> 'v arrow \<Rightarrow> int \<Rightarrow> int \<Rightarrow> shape \<Rightarrow> shape result" where
  "row_shape_loop r (Values ty buf off n) first past dims = Inr dims"
| "row_shape_loop r (Lists k offsets valid vals) first past dims =
     rbind (SetRowShape (Lists k offsets valid vals) r first past dims)
       (\<lambda>(dims', first', past'). row_shape_loop r vals first' past' dims')"
| "row_shape_loop r (FixedLists list_size n off valid vals) first past dims =
     rbind (SetRowShape (FixedLists list_size n off valid vals) r first past dims)
       (\<lambda>(dims', first', past'). row_shape_loop r vals first' past' dims')"
| "row_shape_loop r (Unsupported ty) first past dims =
     Inl (NotImplemented [Str ''Shape derivation of '', Str ty, Str '' is not supported''])"

definition GetRowShapes :: "'v arrow \<Rightarrow> shape list result" where
  "GetRowShapes data = rmapM (\<lambda>r. row_shape_loop r data (int r) (int r + 1) []) [0..<array_length data]"

text \<open>
  The lambda \<open>MaybeUpdateShapeAndNdim\<close>, on whether the shape is fixed so far, the shape and the
  number of dimensions. The loop over the lists stops at the first length that differs.
\<close>

fun lengths_agree :: "'v arrow \<Rightarrow> nat \<Rightarrow> nat list \<Rightarrow> bool result" where
  "lengths_agree arr dim_size [] = Inr True"
| "lengths_agree arr dim_size (i # is) =
     rbind (value_length arr (int i)) (\<lambda>n. if dim_size \<noteq> n then Inr False else lengths_agree arr dim_size is)"

definition MaybeUpdateShapeAndNdim :: "'v arrow \<Rightarrow> bool \<times> nat list \<times> nat \<Rightarrow> (bool \<times> nat list \<times> nat) result" where
  "MaybeUpdateShapeAndNdim arr st =
     (case st of (fixed_shape, sh, ndim) \<Rightarrow>
       if 0 < null_count arr then Inl (NotImplemented [Str ''null handling''])
       else if \<not> fixed_shape then Inr (False, sh, ndim + 1)
       else rbind (value_length arr 0) (\<lambda>dim_size.
            rbind (if is_fixed_list arr then Inr True
                   else lengths_agree arr dim_size [0..<array_length arr]) (\<lambda>agree.
            if agree then Inr (True, sh @ [dim_size], ndim + 1) else Inr (False, sh, ndim + 1))))"

fun arrow_shape_loop :: "'v arrow \<Rightarrow> bool \<times> nat list \<times> nat \<Rightarrow> (bool \<times> nat list \<times> nat) result" where
  "arrow_shape_loop (Values ty buf off n) st = Inr st"
| "arrow_shape_loop (Lists k offsets valid vals) st =
     rbind (MaybeUpdateShapeAndNdim (Lists k offsets valid vals) st) (arrow_shape_loop vals)"
| "arrow_shape_loop (FixedLists list_size n off valid vals) st =
     rbind (MaybeUpdateShapeAndNdim (FixedLists list_size n off valid vals) st) (arrow_shape_loop vals)"
| "arrow_shape_loop (Unsupported ty) st =
     Inl (NotImplemented [Str ''Shape derivation of '', Str ty, Str '' is not supported''])"

definition GetArrowResultShapeData :: "string \<Rightarrow> casa_dtype \<Rightarrow> 'v arrow option \<Rightarrow> ResultShapeData result" where
  "GetArrowResultShapeData name dtype array =
     (case array of
        None \<Rightarrow> Inl (Invalid [Str ''data is null''])
      | Some data \<Rightarrow>
          rbind (arrow_shape_loop data (True, [array_length data], 1)) (\<lambda>(fixed_shape, sh, ndim).
          if fixed_shape then
            Inr \<lparr>rs_name = name, rs_shape = Some (rev sh), rs_ndim = int ndim, rs_dtype = dtype,
                 rs_row_shapes = None, rs_cell_extents = None\<rparr>
          else rbind (GetRowShapes data) (\<lambda>row_shapes.
            Inr \<lparr>rs_name = name, rs_shape = None, rs_ndim = int ndim, rs_dtype = dtype,
                 rs_row_shapes = Some (map rev row_shapes), rs_cell_extents = None\<rparr>)))"

text \<open>The removal of the dimension of the pairs of complex values.\<close>

definition drop_pairs :: "string \<Rightarrow> shape \<Rightarrow> shape result" where
  "drop_pairs name sh =
     (if IsDegenerateShape sh \<or> hd sh \<noteq> 2
      then Inl (Invalid [Str ''Arrow result data must supply pairs of values '',
                         Str ''for complex valued column '', Str name])
      else Inr (tl sh))"

definition GetResultShapeData :: "string \<Rightarrow> casa_dtype \<Rightarrow> 'v arrow option \<Rightarrow> ResultShapeData result" where
  "GetResultShapeData name dtype array =
     rbind (GetArrowResultShapeData name dtype array) (\<lambda>d.
     if rs_dtype d \<noteq> TpComplex \<and> rs_dtype d \<noteq> TpDComplex then Inr d
     else case rs_shape d of
       Some sh \<Rightarrow>
         rbind (drop_pairs (rs_name d) sh) (\<lambda>sh'.
         Inr \<lparr>rs_name = rs_name d, rs_shape = Some sh', rs_ndim = int (length sh'), rs_dtype = rs_dtype d,
              rs_row_shapes = None, rs_cell_extents = None\<rparr>)
     | None \<Rightarrow>
         rbind (rmapM (drop_pairs (rs_name d)) (the (rs_row_shapes d))) (\<lambda>row_shapes.
         rbind (ConsistentNDim d) (\<lambda>ndim.
         Inr \<lparr>rs_name = rs_name d, rs_shape = None, rs_ndim = int ndim - 1, rs_dtype = rs_dtype d,
              rs_row_shapes = Some row_shapes, rs_cell_extents = None\<rparr>)))"

definition FromArray :: "table_column \<Rightarrow> 'v arrow option \<Rightarrow> ResultShapeData result" where
  "FromArray col array = GetResultShapeData (tc_name col) (tc_dtype col) array"

section \<open>Arrays of shapes\<close>

text \<open>
  \<open>GetShapeArray\<close>: one list of dimensions per row, in C order, null for a missing row. The values
  are appended to a builder of 32 bit integers.
\<close>

definition row_dims :: "nat \<Rightarrow> shape \<Rightarrow> int list result" where
  "row_dims ndim sh = rmapM (\<lambda>dim. rbind (at sh dim) (\<lambda>s. Inr (wrap_int32 (int s)))) (rev [0..<ndim])"

definition GetShapeArray :: "ResultShapeData \<Rightarrow> int arrow result" where
  "GetShapeArray d =
     rbind (ConsistentNDim d) (\<lambda>n.
     let ndim = int n - 1; nrow = nRows d
     in if ndim = 0 then Inr (Values (Value_type uint8) (replicate nrow 1) 0 nrow)
        else if ndim < 0 then Inl (Undefined ''vector of negative size'')
        else case rs_shape d of
          Some sh \<Rightarrow>
            rbind (rmapM (\<lambda>row. row_dims (nat ndim) sh) [0..<nrow]) (\<lambda>rows.
            Inr (FixedLists ndim nrow 0 None (Values (Value_type int32) (concat rows) 0 (length (concat rows)))))
        | None \<Rightarrow>
            rbind (rmapM (\<lambda>row. let sh = GetRowShape d row
                     in row_dims (nat ndim) (if IsDegenerateShape sh then replicate (nat ndim) 0 else sh)) [0..<nrow]) (\<lambda>rows.
            Inr (FixedLists ndim nrow 0 (Some (map (\<lambda>row. GetRowShape d row \<noteq> []) [0..<nrow]))
                   (Values (Value_type int32) (concat rows) 0 (length (concat rows))))))"

text \<open>
  The loop of \<open>GetOffsets\<close> over the dimensions of one row, from the one before the rows down to 0:
  \<open>running\<close> and \<open>builders\<close> hold the running offset and the offsets of each dimension.
\<close>

fun append_offsets :: "nat \<Rightarrow> nat \<Rightarrow> nat \<Rightarrow> int list \<Rightarrow> nat \<times> int list" where
  "append_offsets 0 dim_size running builder = (running, builder)"
| "append_offsets (Suc p) dim_size running builder =
     append_offsets p dim_size (running + dim_size) (builder @ [wrap_int32 (int (running + dim_size))])"

fun offset_dims :: "(nat \<Rightarrow> nat result) \<Rightarrow> nat list \<Rightarrow> nat \<Rightarrow> nat list \<times> int list list \<Rightarrow> (nat list \<times> int list list) result" where
  "offset_dims dim_size_of [] product st = Inr st"
| "offset_dims dim_size_of (dim # dims) product st =
     rbind (dim_size_of dim) (\<lambda>dim_size.
     case st of (running, builders) \<Rightarrow>
       case append_offsets product dim_size (running ! dim) (builders ! dim) of (r, b) \<Rightarrow>
         offset_dims dim_size_of dims (product * dim_size) (running[dim := r], builders[dim := b]))"

fun offset_rows :: "(nat \<Rightarrow> nat \<Rightarrow> nat result) \<Rightarrow> nat \<Rightarrow> nat list \<Rightarrow> nat list \<times> int list list \<Rightarrow> (nat list \<times> int list list) result" where
  "offset_rows dim_size_of ndim [] st = Inr st"
| "offset_rows dim_size_of ndim (row # rows) st =
     rbind (offset_dims (dim_size_of row) (rev [0..<ndim]) 1 st) (offset_rows dim_size_of ndim rows)"

definition GetOffsets :: "ResultShapeData \<Rightarrow> int list list result" where
  "GetOffsets d =
     rbind (ConsistentNDim d) (\<lambda>n.
     let ndim = int n - 1
     in if ndim < 0 then Inl (NotImplemented [Str ''Building offset arrays for scalar or variable rank arrays''])
        else rbind (offset_rows
               (case rs_shape d of
                  None \<Rightarrow> (\<lambda>row dim. let sh = GetRowShape d row in if IsDegenerateShape sh then Inr 0 else at sh dim)
                | Some sh \<Rightarrow> (\<lambda>row dim. at sh dim))
               (nat ndim) [0..<nRows d] (replicate (nat ndim) 0, replicate (nat ndim) [0]))
             (\<lambda>(running, builders). Inr builders))"

section \<open>Making and flattening arrays\<close>

text \<open>
  Arrow makes lists from arrays: \<open>FixedSizeListArray::FromArrays\<close> and \<open>ListArray::FromArrays\<close> are
  parameters of the model. What the code needs of them is the locale \<open>list_maker\<close>.
\<close>

locale list_maker =
  fixes fixed_lists :: "'v arrow \<Rightarrow> int \<Rightarrow> 'v arrow result"
    and list_array :: "int list \<Rightarrow> 'v arrow \<Rightarrow> 'v arrow result"
  assumes fixed_lists: "0 < n \<Longrightarrow> array_length vals = m * nat n \<Longrightarrow> fixed_lists vals n = Inr (FixedLists n m 0 None vals)"
    and list_array: "offsets \<noteq> [] \<Longrightarrow> list_array offsets vals = Inr (Lists List32 offsets None vals)"

text \<open>The columnar format itself has these operations.\<close>

definition format_fixed_lists :: "'v arrow \<Rightarrow> int \<Rightarrow> 'v arrow result" where
  "format_fixed_lists vals n =
     (if n \<le> 0 then Inl (Invalid [Str ''list_size needs to be a strict positive value''])
      else if array_length vals mod nat n \<noteq> 0
      then Inl (Invalid [Str ''The length of the values Array needs to be a multiple of the list_size''])
      else Inr (FixedLists n (array_length vals div nat n) 0 None vals))"

definition format_list_array :: "int list \<Rightarrow> 'v arrow \<Rightarrow> 'v arrow result" where
  "format_list_array offsets vals =
     (if offsets = [] then Inl (Invalid [Str ''List offsets must have non-zero length''])
      else Inr (Lists List32 offsets None vals))"

interpretation columnar: list_maker format_fixed_lists format_list_array
  by unfold_locales (auto simp: format_fixed_lists_def format_list_array_def)

definition MakePrimitiveArray :: "arrow_dtype \<Rightarrow> nat \<Rightarrow> 'v list \<Rightarrow> 'v arrow" where
  "MakePrimitiveArray dtype n buffer = Values (Value_type dtype) buffer 0 n"

fun nest_fixed :: "('v arrow \<Rightarrow> int \<Rightarrow> 'v arrow result) \<Rightarrow> shape \<Rightarrow> 'v arrow \<Rightarrow> 'v arrow result" where
  "nest_fixed fixed_lists [] arr = Inr arr"
| "nest_fixed fixed_lists (dim # dims) arr =
     rbind (fixed_lists arr (wrap_int32 (int dim))) (nest_fixed fixed_lists dims)"

fun nest_offsets :: "(int list \<Rightarrow> 'v arrow \<Rightarrow> 'v arrow result) \<Rightarrow> int list list \<Rightarrow> 'v arrow \<Rightarrow> 'v arrow result" where
  "nest_offsets list_array [] arr = Inr arr"
| "nest_offsets list_array (offset # offsets) arr = rbind (list_array offset arr) (nest_offsets list_array offsets)"

text \<open>
  \<open>MakeArray\<close>: \<open>vals\<close> gives the arrow values of a CASA value, one or, for complex ones, two; the
  strategy comes from the configuration service, which is made if there is none. \<open>isNumeric\<close> is
  casacore's.
\<close>

definition base_array ::
  "('v arrow \<Rightarrow> int \<Rightarrow> 'v arrow result) \<Rightarrow> (int list \<Rightarrow> 'v arrow \<Rightarrow> 'v arrow result) \<Rightarrow>
   (casa_dtype \<Rightarrow> bool) \<Rightarrow> ('b \<Rightarrow> 'v list) \<Rightarrow> ConvertStrategy \<Rightarrow> arrow_dtype \<Rightarrow> ResultShapeData \<Rightarrow> 'b list \<Rightarrow> 'v arrow result" where
  "base_array fixed_lists list_array isNumeric vals strat adt d buffer =
     (let nelements = nElements d; buf = concat (map vals buffer)
      in if rs_dtype d = TpString then Inr (Values (Value_type utf8) buf 0 (length buf))
         else if is_complex (rs_dtype d) then
           (let base = MakePrimitiveArray adt (2 * nelements) buf
            in case strat of
                 FIXED \<Rightarrow> fixed_lists base 2
               | LIST \<Rightarrow> list_array (map (\<lambda>i. wrap_int32 (2 * int i)) [0..<nelements + 1]) base)
         else if IsPrimitiveType isNumeric (rs_dtype d) then Inr (MakePrimitiveArray adt nelements buf)
         else Inl (TypeError [Str ''Unhandled CASA Type '']))"

definition nest_array ::
  "('v arrow \<Rightarrow> int \<Rightarrow> 'v arrow result) \<Rightarrow> (int list \<Rightarrow> 'v arrow \<Rightarrow> 'v arrow result) \<Rightarrow>
   ConvertStrategy \<Rightarrow> ResultShapeData \<Rightarrow> 'v arrow \<Rightarrow> 'v arrow result" where
  "nest_array fixed_lists list_array strat d arr =
     (if IsFixed d \<and> strat = FIXED
      then rbind (ConsistentNDim d) (\<lambda>ndim. nest_fixed fixed_lists (take (ndim - 1) (GetShape d)) arr)
      else rbind (GetOffsets d) (\<lambda>offsets. nest_offsets list_array offsets arr))"

definition MakeArray ::
  "('v arrow \<Rightarrow> int \<Rightarrow> 'v arrow result) \<Rightarrow> (int list \<Rightarrow> 'v arrow \<Rightarrow> 'v arrow result) \<Rightarrow>
   (casa_dtype \<Rightarrow> bool) \<Rightarrow> ('b \<Rightarrow> 'v list) \<Rightarrow> locator \<Rightarrow> ResultShapeData \<Rightarrow> 'b list \<Rightarrow> 'v arrow result \<times> locator" where
  "MakeArray fixed_lists list_array isNumeric vals loc d buffer =
     (case ArrowDataType (rs_dtype d) of
        Inl e \<Rightarrow> (Inl e, loc)
      | Inr adt \<Rightarrow>
          (case GetConvertStrategy loc of
             (Inl e, loc') \<Rightarrow> (Inl e, loc')
           | (Inr strat, loc') \<Rightarrow>
               (rbind (base_array fixed_lists list_array isNumeric vals strat adt d buffer)
                  (nest_array fixed_lists list_array strat d), loc')))"

text \<open>\<open>GetFlatArray\<close>; \<open>nulls\<close> is the flag that allows nulls in the lists.\<close>

fun GetFlatArray :: "bool \<Rightarrow> 'v arrow \<Rightarrow> 'v arrow result" where
  "GetFlatArray nulls (Values ty buf off n) = Inr (Values ty buf off n)"
| "GetFlatArray nulls (Lists k offsets valid vals) =
     (if \<not> nulls \<and> 0 < null_count (Lists k offsets valid vals)
      then Inl (Invalid [Str ''Null values were encountered '', Str ''during array flattening.''])
      else GetFlatArray nulls vals)"
| "GetFlatArray nulls (FixedLists list_size n off valid vals) =
     (if \<not> nulls \<and> 0 < null_count (FixedLists list_size n off valid vals)
      then Inl (Invalid [Str ''Null values were encountered '', Str ''during array flattening.''])
      else GetFlatArray nulls vals)"
| "GetFlatArray nulls (Unsupported ty) =
     Inl (NotImplemented [Str ''Flattening of type '', Str ty, Str '' is not supported''])"

end
