(* ===== verification/WriteShapes.thy ===== *)
theory WriteShapes
  imports ReadShapes ArrowArrays FixedPartition
begin

text \<open>
  The shape of a write: \<open>ResultShapeData::MakeWrite\<close> of \<open>cpp/arcae/result_shape.cc\<close>. It derives the
  shape of the data, checks it and the selection against the cells of the column, and gives the
  rows that have no cell yet a shape. The last is a call of casacore's \<open>ArrayColumnBase::setShape\<close>,
  a parameter of the model that changes the table; \<open>look\<close> is what a \<open>TableColumn\<close> shows of the table.
  Every operation returns the table as it is left, also after a failure.
\<close>

section \<open>The checks\<close>

record dim_selection =
  ds_span :: "index list"
  ds_nselected :: nat
  ds_max_index :: index

definition dim_selections :: "selection \<Rightarrow> nat \<Rightarrow> nat \<Rightarrow> dim_selection option list" where
  "dim_selections sel ndim row_dim =
     map (\<lambda>dim. map_option (\<lambda>span. \<lparr>ds_span = span, ds_nselected = length (filter (\<lambda>i. 0 \<le> i) span),
                                     ds_max_index = Max (set span)\<rparr>) (MaybeFSpan sel dim ndim)) [0..<row_dim]"

definition DataRowShape :: "ResultShapeData \<Rightarrow> nat \<Rightarrow> nat \<Rightarrow> shape" where
  "DataRowShape d row_dim r = (if IsFixed d then take row_dim (GetShape d) else GetRowShape d r)"

definition CheckAgainstCell :: "string \<Rightarrow> dim_selection option list \<Rightarrow> shape \<Rightarrow> shape \<Rightarrow> unit result" where
  "CheckAgainstCell name dims cell_shape data_shape =
     rfor (\<lambda>dim. case dims ! dim of
         Some s \<Rightarrow>
           rbind (at cell_shape dim) (\<lambda>c.
           rbind (require (ds_nselected s \<le> c)
             (IndexError [Str ''Selection size '', Num (int (ds_nselected s)), Str '' exceeds the dimension size '',
                          Num (int c), Str '' of dimension '', Num (int dim), Str '' in column '', Str name])) (\<lambda>_.
           require (ds_max_index s < int c)
             (IndexError [Str ''Selection '', Num (ds_max_index s), Str '' exceeds the dimension size '',
                          Num (int c), Str '' of dimension '', Num (int dim), Str '' in column '', Str name])))
       | None \<Rightarrow>
           rbind (at data_shape dim) (\<lambda>x. rbind (at cell_shape dim) (\<lambda>c.
           require (x \<le> c)
             (IndexError [Str ''Data shape '', Shp data_shape, Str '' exceeds cell shape '', Shp cell_shape,
                          Str '' in dimension '', Num (int dim), Str '' of column '', Str name]))))
     [0..<length dims]"

text \<open>\<open>last()\<close> of an empty position is undefined.\<close>

definition data_rows :: "ResultShapeData \<Rightarrow> nat result" where
  "data_rows d = (if rs_shape d = Some [] then Inl (Undefined ''last of an empty position'') else Inr (nRows d))"

definition check_row_span :: "table_column \<Rightarrow> selection \<Rightarrow> ResultShapeData \<Rightarrow> unit result" where
  "check_row_span col sel d =
     (if \<not> HasRowSpan sel then Inr ()
      else let row_span = GetRowSpan sel in
        rbind (data_rows d) (\<lambda>n.
        rbind (require (length row_span = n)
          (IndexError [Str ''Row selection size '', Num (int (length row_span)), Str '' does not match the number of rows'',
                       Str '' in the result shape '', Num (int n)])) (\<lambda>_.
        rbind (require (length row_span \<le> tc_nrow col)
          (IndexError [Str ''Row selection size '', Num (int (length row_span)), Str '' exceeds the number of rows'',
                       Str '' in the result shape '', Num (int (tc_nrow col))])) (\<lambda>_.
        rfor (\<lambda>row. require (row < int (tc_nrow col))
          (IndexError [Str ''Row selection '', Num row, Str '' exceeds the number of rows '', Num (int (tc_nrow col)),
                       Str '' in column '', Str (tc_name col)])) row_span))))"

definition check_data_dims :: "string \<Rightarrow> dim_selection option list \<Rightarrow> (nat \<Rightarrow> shape) \<Rightarrow> nat \<Rightarrow> unit result" where
  "check_data_dims name dims data_row ndata_rows =
     rfor (\<lambda>r. rfor (\<lambda>dim. case dims ! dim of
         None \<Rightarrow> Inr ()
       | Some s \<Rightarrow>
           rbind (at (data_row r) dim) (\<lambda>x.
           require (length (ds_span s) = x)
             (IndexError [Str ''Selection size '', Num (int (length (ds_span s))), Str '' does not match data size '',
                          Num (int x), Str '' in dimension '', Num (int dim), Str '' of column '', Str name])))
       [0..<length dims]) [0..<ndata_rows]"

section \<open>The cells of a column whose shape varies\<close>

text \<open>The shape given to a row that has none: that of the data, enlarged to the largest index of a selection.\<close>

fun widen :: "dim_selection option list \<Rightarrow> shape \<Rightarrow> shape result" where
  "widen [] sh = Inr sh"
| "widen (None # dims) [] = widen dims []"
| "widen (None # dims) (x # sh) = rbind (widen dims sh) (\<lambda>sh'. Inr (x # sh'))"
| "widen (Some s # dims) [] = Inl (Undefined ''out of range'')"
| "widen (Some s # dims) (x # sh) =
     rbind (widen dims sh) (\<lambda>sh'. Inr (nat (max (ds_max_index s + 1) (int x)) # sh'))"

text \<open>\<open>known\<close> holds the last cell shape and data shape that passed the check.\<close>

fun cell_loop ::
  "('s \<Rightarrow> table_column) \<Rightarrow> (nat \<Rightarrow> shape \<Rightarrow> 's \<Rightarrow> 's) \<Rightarrow> dim_selection option list \<Rightarrow> (nat \<Rightarrow> shape) \<Rightarrow> (nat \<Rightarrow> index) \<Rightarrow>
   nat list \<Rightarrow> (shape \<times> shape) option \<Rightarrow> 's \<Rightarrow> unit result \<times> 's" where
  "cell_loop look setShape dims data_row row_of [] known s = (Inr (), s)"
| "cell_loop look setShape dims data_row row_of (r # rs) known s =
     (let row = row_of r; data_shape = data_row r
      in if row < 0 then cell_loop look setShape dims data_row row_of rs known s
         else if tc_defined (look s) (nat row) then
           (let cell_shape = tc_cell (look s) (nat row)
            in if known = Some (cell_shape, data_shape) then cell_loop look setShape dims data_row row_of rs known s
               else (case CheckAgainstCell (tc_name (look s)) dims cell_shape data_shape of
                       Inl e \<Rightarrow> (Inl e, s)
                     | Inr _ \<Rightarrow> cell_loop look setShape dims data_row row_of rs (Some (cell_shape, data_shape)) s))
         else (case widen dims data_shape of
                 Inl e \<Rightarrow> (Inl e, s)
               | Inr row_shape \<Rightarrow> cell_loop look setShape dims data_row row_of rs known (setShape (nat row) row_shape s)))"

definition row_selected :: "selection \<Rightarrow> nat \<Rightarrow> index" where
  "row_selected sel r = (if HasRowSpan sel then GetRowSpan sel ! r else int r)"

section \<open>MakeWrite\<close>

definition write_shape :: "table_column \<Rightarrow> 'v arrow option \<Rightarrow> selection \<Rightarrow> (ResultShapeData \<times> nat) result" where
  "write_shape col data sel =
     rbind (require (data \<noteq> None) (Invalid [Str ''data array is null''])) (\<lambda>_.
     rbind (CheckRowNumberLimit (tc_name col) (tc_nrow col)) (\<lambda>_.
     rbind (GetResultShapeData (tc_name col) (tc_dtype col) data) (\<lambda>d.
     rbind (ConsistentNDim d) (\<lambda>n.
     rbind (require (tc_ndim col = -1 \<or> int n = tc_ndim col + 1)
       (Invalid [Str ''Number of data dimensions '', Num (int n), Str '' does not match number of column dimensions '',
                 Num (tc_ndim col + 1)])) (\<lambda>_.
     rbind (check_row_span col sel d) (\<lambda>_.
     Inr (d, n)))))))"

definition MakeWrite ::
  "('s \<Rightarrow> table_column) \<Rightarrow> (nat \<Rightarrow> shape \<Rightarrow> 's \<Rightarrow> 's) \<Rightarrow> 's \<Rightarrow> 'v arrow option \<Rightarrow> selection \<Rightarrow>
   ResultShapeData result \<times> 's" where
  "MakeWrite look setShape s data sel =
     (let col = look s in
      case write_shape col data sel of
        Inl e \<Rightarrow> (Inl e, s)
      | Inr (d, n) \<Rightarrow>
          if n \<le> 1 then (Inr d, s)
          else let row_dim = n - 1; dims = dim_selections sel n row_dim; data_row = DataRowShape d row_dim;
                   ndata_rows = (if IsFixed d then 1 else nRows d)
            in (case check_data_dims (tc_name col) dims data_row ndata_rows of
                 Inl e \<Rightarrow> (Inl e, s)
               | Inr _ \<Rightarrow>
                   if tc_fixed col then
                     (rbind (rfor (\<lambda>r. CheckAgainstCell (tc_name col) dims (tc_shape col) (data_row r)) [0..<ndata_rows])
                        (\<lambda>_. Inr d), s)
                   else (case cell_loop look setShape dims data_row (row_selected sel)
                           [0..<if HasRowSpan sel then length (GetRowSpan sel) else min (tc_nrow col) (nRows d)] None s of
                           (r, s') \<Rightarrow> (rbind r (\<lambda>_. Inr d), s'))))"

section \<open>Ranks\<close>

fun list_depth :: "'v arrow \<Rightarrow> nat" where
  "list_depth (Lists k offsets valid vals) = Suc (list_depth vals)"
| "list_depth (FixedLists list_size n off valid vals) = Suc (list_depth vals)"
| "list_depth a = 0"

lemma Maybe_rank:
  "MaybeUpdateShapeAndNdim arr (fixed, sh, nd) = Inr (fixed', sh', nd') \<Longrightarrow>
   nd' = Suc nd \<and> (fixed' \<longrightarrow> fixed \<and> length sh' = Suc (length sh))"
  by (auto simp: MaybeUpdateShapeAndNdim_def rbind_Inr_conv split: if_splits)

lemma arrow_shape_loop_rank:
  "arrow_shape_loop arr (fixed, sh, nd) = Inr (fixed', sh', nd') \<Longrightarrow>
   nd' = nd + list_depth arr \<and> (fixed' \<longrightarrow> fixed \<and> length sh' = length sh + list_depth arr)"
proof (induction arr arbitrary: fixed sh nd)
  case (Lists k offsets valid vals)
  then obtain f s n where m: "MaybeUpdateShapeAndNdim (Lists k offsets valid vals) (fixed, sh, nd) = Inr (f, s, n)"
    "arrow_shape_loop vals (f, s, n) = Inr (fixed', sh', nd')" by (auto simp: rbind_Inr_conv)
  from Maybe_rank [OF m(1)] Lists.IH [OF m(2)] show ?case by simp
next
  case (FixedLists list_size n off valid vals)
  then obtain f s m' where m: "MaybeUpdateShapeAndNdim (FixedLists list_size n off valid vals) (fixed, sh, nd) = Inr (f, s, m')"
    "arrow_shape_loop vals (f, s, m') = Inr (fixed', sh', nd')" by (auto simp: rbind_Inr_conv)
  from Maybe_rank [OF m(1)] FixedLists.IH [OF m(2)] show ?case by simp
qed simp_all

lemma SetRowShape_rank: "SetRowShape arr r first past dims = Inr (dims', x, y) \<Longrightarrow> length dims' = Suc (length dims)"
  by (auto simp: SetRowShape_def rbind_Inr_conv)

lemma row_shape_loop_rank:
  "row_shape_loop r arr first past dims = Inr out \<Longrightarrow> length out = length dims + list_depth arr"
proof (induction arr arbitrary: first past dims)
  case (Lists k offsets valid vals)
  then obtain dims' x y where m: "SetRowShape (Lists k offsets valid vals) r first past dims = Inr (dims', x, y)"
    "row_shape_loop r vals x y dims' = Inr out" by (auto simp: rbind_Inr_conv)
  from SetRowShape_rank [OF m(1)] Lists.IH [OF m(2)] show ?case by simp
next
  case (FixedLists list_size n off valid vals)
  then obtain dims' x y where m: "SetRowShape (FixedLists list_size n off valid vals) r first past dims = Inr (dims', x, y)"
    "row_shape_loop r vals x y dims' = Inr out" by (auto simp: rbind_Inr_conv)
  from SetRowShape_rank [OF m(1)] FixedLists.IH [OF m(2)] show ?case by simp
qed simp_all

text \<open>The ranks of a shape agree: that of a fixed shape is its length, that of a row one less.\<close>

definition ranks_agree :: "ResultShapeData \<Rightarrow> bool" where
  "ranks_agree d \<longleftrightarrow>
     (case rs_shape d of
        Some sh \<Rightarrow> rs_ndim d = int (length sh)
      | None \<Rightarrow> \<exists>rows. rs_row_shapes d = Some rows \<and> (\<forall>row \<in> set rows. rs_ndim d = int (length row) + 1))"

lemma GetArrow_ranks: "GetArrowResultShapeData name dtype array = Inr d \<Longrightarrow> ranks_agree d"
proof -
  assume get: "GetArrowResultShapeData name dtype array = Inr d"
  then obtain data where data: "array = Some data" by (cases array) (auto simp: GetArrowResultShapeData_def)
  with get obtain fixed sh nd where loop: "arrow_shape_loop data (True, [array_length data], 1) = Inr (fixed, sh, nd)"
    by (auto simp: GetArrowResultShapeData_def rbind_Inr_conv)
  note rank = arrow_shape_loop_rank [OF loop]
  show ?thesis
  proof (cases fixed)
    case True
    with get data loop rank show ?thesis by (auto simp: GetArrowResultShapeData_def ranks_agree_def)
  next
    case False
    then obtain rows where rows: "GetRowShapes data = Inr rows" "rs_row_shapes d = Some (map rev rows)" "rs_shape d = None"
      "rs_ndim d = int nd" using get data loop by (auto simp: GetArrowResultShapeData_def rbind_Inr_conv)
    have "length row = list_depth data" if row: "row \<in> set rows" for row
    proof -
      from rows(1) have "list_all2 (\<lambda>r row. row_shape_loop r data (int r) (int r + 1) [] = Inr row) [0..<array_length data] rows"
        by (simp add: GetRowShapes_def rmapM_Inr_conv)
      with row obtain r where "row_shape_loop r data (int r) (int r + 1) [] = Inr row"
        by (auto simp: in_set_conv_nth list_all2_conv_all_nth)
      from row_shape_loop_rank [OF this] show ?thesis by simp
    qed
    with rows rank show ?thesis by (auto simp: ranks_agree_def)
  qed
qed

lemma drop_pairs_length: "drop_pairs name sh = Inr sh' \<Longrightarrow> length sh = Suc (length sh')"
  by (cases sh) (auto simp: drop_pairs_def IsDegenerateShape_def split: if_splits)

lemma GetResult_ranks: "GetResultShapeData name dtype array = Inr d \<Longrightarrow> ranks_agree d"
proof -
  assume get: "GetResultShapeData name dtype array = Inr d"
  then obtain d0 where d0: "GetArrowResultShapeData name dtype array = Inr d0"
    by (auto simp: GetResultShapeData_def rbind_Inr_conv)
  note ranks = GetArrow_ranks [OF d0]
  show ?thesis
  proof (cases "rs_dtype d0 \<noteq> TpComplex \<and> rs_dtype d0 \<noteq> TpDComplex")
    case True
    with get d0 ranks show ?thesis by (simp add: GetResultShapeData_def)
  next
    case False
    show ?thesis
    proof (cases "rs_shape d0")
      case (Some sh)
      with False get d0 show ?thesis by (auto simp: GetResultShapeData_def ranks_agree_def rbind_Inr_conv)
    next
      case None
      with ranks obtain rows where rows: "rs_row_shapes d0 = Some rows" "\<forall>row \<in> set rows. rs_ndim d0 = int (length row) + 1"
        by (auto simp: ranks_agree_def)
      from None False get d0 rows(1) obtain rows' n where r: "rmapM (drop_pairs (rs_name d0)) rows = Inr rows'"
        "ConsistentNDim d0 = Inr n" "rs_shape d = None" "rs_row_shapes d = Some rows'" "rs_ndim d = int n - 1"
        by (auto simp: GetResultShapeData_def rbind_Inr_conv)
      have n: "int n = rs_ndim d0" using r(2) by (auto simp: ConsistentNDim_def split: if_splits)
      have "rs_ndim d = int (length row') + 1" if "row' \<in> set rows'" for row'
      proof -
        from that r(1) obtain i where i: "i < length rows" "drop_pairs (rs_name d0) (rows ! i) = Inr row'"
          by (auto simp: rmapM_Inr_conv list_all2_conv_all_nth in_set_conv_nth)
        then show ?thesis using drop_pairs_length [OF i(2)] rows(2) r(5) n by (auto simp: all_set_conv_all_nth)
      qed
      with r show ?thesis by (simp add: ranks_agree_def)
    qed
  qed
qed

lemma DataRowShape_rank:
  assumes "ranks_agree d" and "ConsistentNDim d = Inr n" and "r < (if IsFixed d then 1 else nRows d)"
  shows "length (DataRowShape d (n - 1) r) = n - 1"
proof (cases "rs_shape d")
  case None
  with assms obtain rows where rows: "rs_row_shapes d = Some rows" "r < length rows"
    "\<forall>row \<in> set rows. rs_ndim d = int (length row) + 1" by (auto simp: ranks_agree_def IsFixed_def nRows_def)
  then have "rs_ndim d = int (length (rows ! r)) + 1" by simp
  moreover have "rs_ndim d = int n" using assms(2) by (auto simp: ConsistentNDim_def split: if_splits)
  ultimately show ?thesis using None rows(1) by (simp add: DataRowShape_def IsFixed_def GetRowShape_def)
next
  case (Some sh)
  with assms show ?thesis
    by (auto simp: DataRowShape_def IsFixed_def ConsistentNDim_def ranks_agree_def GetShape_def split: if_splits)
qed

section \<open>What the checks decide\<close>

text \<open>
  A cell accommodates the data of a row: the selected indices lie in the cell and are no more than
  it has, and the data do not exceed it in the dimensions that are not selected.
\<close>

definition accommodates :: "selection \<Rightarrow> nat \<Rightarrow> shape \<Rightarrow> shape \<Rightarrow> bool" where
  "accommodates sel ndim cell data \<longleftrightarrow>
     (\<forall>dim < ndim - 1. dim < length cell \<and>
        (case MaybeFSpan sel dim ndim of
           Some span \<Rightarrow> length (filter (\<lambda>i. 0 \<le> i) span) \<le> cell ! dim \<and> (\<forall>i \<in> set span. i < int (cell ! dim))
         | None \<Rightarrow> data ! dim \<le> cell ! dim))"

definition dims_match :: "selection \<Rightarrow> nat \<Rightarrow> shape \<Rightarrow> bool" where
  "dims_match sel ndim data \<longleftrightarrow>
     (\<forall>dim < ndim - 1. case MaybeFSpan sel dim ndim of None \<Rightarrow> True | Some span \<Rightarrow> length span = data ! dim)"

lemma dims_match_conv:
  "dims_match sel ndim data \<longleftrightarrow>
     (\<forall>dim < ndim - 1. \<forall>span. MaybeFSpan sel dim ndim = Some span \<longrightarrow> length span = data ! dim)"
  by (auto simp: dims_match_def split: option.splits)

lemma length_dim_selections [simp]: "length (dim_selections sel n m) = m"
  by (simp add: dim_selections_def)

lemma nth_dim_selections:
  "dim < m \<Longrightarrow> dim_selections sel n m ! dim =
     map_option (\<lambda>span. \<lparr>ds_span = span, ds_nselected = length (filter (\<lambda>i. 0 \<le> i) span), ds_max_index = Max (set span)\<rparr>)
       (MaybeFSpan sel dim n)"
  by (simp add: dim_selections_def)

lemma CheckAgainstCell_Inr:
  assumes "length data = n - 1"
  shows "CheckAgainstCell name (dim_selections sel n (n - 1)) cell data = Inr () \<longleftrightarrow> accommodates sel n cell data"
proof -
  have "(case dim_selections sel n (n - 1) ! dim of
         Some s \<Rightarrow>
           rbind (at cell dim) (\<lambda>c. rbind (require (ds_nselected s \<le> c) (e1 s c)) (\<lambda>_. require (ds_max_index s < int c) (e2 s c)))
       | None \<Rightarrow> rbind (at data dim) (\<lambda>x. rbind (at cell dim) (\<lambda>c. require (x \<le> c) (e3 c)))) = Inr () \<longleftrightarrow>
     dim < length cell \<and>
        (case MaybeFSpan sel dim n of
           Some span \<Rightarrow> length (filter (\<lambda>i. 0 \<le> i) span) \<le> cell ! dim \<and> (\<forall>i \<in> set span. i < int (cell ! dim))
         | None \<Rightarrow> data ! dim \<le> cell ! dim)" if "dim < n - 1" for dim e1 e2 e3
    using that assms MaybeFSpan_Max [of sel dim n]
    by (cases "MaybeFSpan sel dim n") (auto simp: nth_dim_selections rbind_Inr_conv require_Inr_conv at_Inr_conv)
  from this [unfolded One_nat_def] show ?thesis by (auto simp: CheckAgainstCell_def rfor_Inr_conv accommodates_def)
qed

lemma check_data_dims_Inr:
  assumes "\<forall>r < nd. length (data_row r) = n - 1"
  shows "check_data_dims name (dim_selections sel n (n - 1)) data_row nd = Inr () \<longleftrightarrow> (\<forall>r < nd. dims_match sel n (data_row r))"
proof -
  have "(case dim_selections sel n (n - 1) ! dim of
         None \<Rightarrow> Inr ()
       | Some s \<Rightarrow> rbind (at (data_row r) dim) (\<lambda>x. require (length (ds_span s) = x) (e s x))) = Inr () \<longleftrightarrow>
     (\<forall>span. MaybeFSpan sel dim n = Some span \<longrightarrow> length span = data_row r ! dim)" if "dim < n - 1" "r < nd" for dim r e
    using that assms
    by (cases "MaybeFSpan sel dim n") (auto simp: nth_dim_selections rbind_Inr_conv require_Inr_conv at_Inr_conv)
  from this [unfolded One_nat_def] show ?thesis by (auto simp: check_data_dims_def rfor_Inr_conv dims_match_conv)
qed

lemma widen_Inr:
  "length dims \<le> length sh \<Longrightarrow> \<exists>sh'. widen dims sh = Inr sh' \<and> length sh' = length sh \<and>
     (\<forall>dim < length dims. sh' ! dim =
        (case dims ! dim of Some s \<Rightarrow> nat (max (ds_max_index s + 1) (int (sh ! dim))) | None \<Rightarrow> sh ! dim))"
proof (induction dims sh rule: widen.induct)
  case (3 dims x sh)
  then show ?case by (auto simp: less_Suc_eq_0_disj split: option.splits)
next
  case (5 s dims x sh)
  then show ?case by (auto simp: less_Suc_eq_0_disj split: option.splits)
qed simp_all

text \<open>The shape a row is given accommodates the data it was made for.\<close>

lemma widen_accommodates:
  assumes "length data = n - 1" and "dims_match sel n data"
    and "widen (dim_selections sel n (n - 1)) data = Inr sh"
  shows "accommodates sel n sh data"
proof -
  let ?dims = "dim_selections sel n (n - 1)"
  from widen_Inr [of ?dims data] assms(1,3)
  have sh: "length sh = n - 1" "\<forall>dim < n - 1. sh ! dim =
     (case ?dims ! dim of Some s \<Rightarrow> nat (max (ds_max_index s + 1) (int (data ! dim))) | None \<Rightarrow> data ! dim)" by auto
  have "case MaybeFSpan sel dim n of
           Some span \<Rightarrow> length (filter (\<lambda>i. 0 \<le> i) span) \<le> sh ! dim \<and> (\<forall>i \<in> set span. i < int (sh ! dim))
         | None \<Rightarrow> data ! dim \<le> sh ! dim" if dim: "dim < n - 1" for dim
  proof (cases "MaybeFSpan sel dim n")
    case None
    with dim sh(2) show ?thesis by (simp add: nth_dim_selections)
  next
    case (Some span)
    then have x: "int (sh ! dim) = max (Max (set span) + 1) (int (data ! dim))"
      using dim sh(2) le_max_iff_disj [of 0 "Max (set span) + 1" "int (data ! dim)"] by (simp add: nth_dim_selections)
    have "length span = data ! dim" using assms(2) dim Some by (simp add: dims_match_conv)
    then have "length (filter (\<lambda>i. 0 \<le> i) span) \<le> sh ! dim"
      using x length_filter_le [of "\<lambda>i. 0 \<le> i" span] by linarith
    moreover have "i < int (sh ! dim)" if "i \<in> set span" for i using Max_ge [OF finite_set that] x by linarith
    ultimately show ?thesis using Some by simp
  qed
  with sh(1) show ?thesis by (simp add: accommodates_def)
qed

section \<open>The loop over the cells\<close>

text \<open>What casacore promises of \<open>setShape\<close>: the row gets a cell of that shape, and nothing else changes.\<close>

definition with_cell :: "table_column \<Rightarrow> nat \<Rightarrow> shape \<Rightarrow> table_column" where
  "with_cell col row sh = col\<lparr>tc_defined := (tc_defined col)(row := True), tc_cell := (tc_cell col)(row := sh)\<rparr>"

locale shape_setter =
  fixes look :: "'s \<Rightarrow> table_column"
    and setShape :: "nat \<Rightarrow> shape \<Rightarrow> 's \<Rightarrow> 's"
  assumes setShape: "row < tc_nrow (look s) \<Longrightarrow> look (setShape row sh s) = with_cell (look s) row sh"

interpretation with_cell: shape_setter "\<lambda>col. col" "\<lambda>row sh col. with_cell col row sh"
  by unfold_locales simp

text \<open>
  What the loop leaves: rows that had a cell keep it, other rows got one of the shape made for the
  data of a row written there, and nothing else changed.
\<close>

definition cells_made ::
  "dim_selection option list \<Rightarrow> (nat \<Rightarrow> shape) \<Rightarrow> (nat \<Rightarrow> index) \<Rightarrow> nat list \<Rightarrow> table_column \<Rightarrow> table_column \<Rightarrow> bool" where
  "cells_made dims data_row row_of rs col col' \<longleftrightarrow>
     col' = col\<lparr>tc_defined := tc_defined col', tc_cell := tc_cell col'\<rparr> \<and>
     (\<forall>row. tc_defined col row \<longrightarrow> tc_defined col' row \<and> tc_cell col' row = tc_cell col row) \<and>
     (\<forall>row. \<not> tc_defined col row \<longrightarrow>
        (if tc_defined col' row then \<exists>r \<in> set rs. row_of r = int row \<and> widen dims (data_row r) = Inr (tc_cell col' row)
         else tc_cell col' row = tc_cell col row))"

lemma cells_made_refl: "cells_made dims data_row row_of rs col col"
  by (simp add: cells_made_def)

lemma cells_made_Cons: "cells_made dims data_row row_of rs col col' \<Longrightarrow> cells_made dims data_row row_of (r # rs) col col'"
  unfolding cells_made_def set_simps bex_simps by (smt (verit))

lemma cells_made_step:
  assumes "widen dims (data_row r) = Inr sh" and "row_of r = int row" and "\<not> tc_defined col row"
    and "cells_made dims data_row row_of rs (with_cell col row sh) col'"
  shows "cells_made dims data_row row_of (r # rs) col col' \<and> tc_defined col' row \<and> tc_cell col' row = sh"
proof -
  let ?c = "with_cell col row sh"
  have new: "tc_defined col' row" "tc_cell col' row = sh" using assms(4) by (auto simp: cells_made_def with_cell_def)
  have "col' = ?c\<lparr>tc_defined := tc_defined col', tc_cell := tc_cell col'\<rparr>" using assms(4) by (simp only: cells_made_def)
  then have "col' = col\<lparr>tc_defined := tc_defined col', tc_cell := tc_cell col'\<rparr>" by (simp add: with_cell_def)
  moreover have "tc_defined col' x \<and> tc_cell col' x = tc_cell col x" if "tc_defined col x" for x
    using that assms(3,4) by (auto simp: cells_made_def with_cell_def)
  moreover have "if tc_defined col' x then \<exists>r' \<in> set (r # rs). row_of r' = int x \<and> widen dims (data_row r') = Inr (tc_cell col' x)
     else tc_cell col' x = tc_cell col x" if "\<not> tc_defined col x" for x
  proof (cases "x = row")
    case True
    with new assms(1,2) show ?thesis by auto
  next
    case False
    with that have "\<not> tc_defined ?c x" "tc_cell ?c x = tc_cell col x" by (simp_all add: with_cell_def)
    with assms(4) show ?thesis by (fastforce simp: cells_made_def)
  qed
  ultimately show ?thesis using new unfolding cells_made_def by blast
qed

context shape_setter
begin

lemma cell_loop_sound:
  assumes "cell_loop look setShape (dim_selections sel n (n - 1)) data_row row_of rs known s = (res, s')"
    and "\<forall>r \<in> set rs. length (data_row r) = n - 1 \<and> dims_match sel n (data_row r) \<and> row_of r < int (tc_nrow (look s))"
    and "\<forall>cell data. known = Some (cell, data) \<longrightarrow> accommodates sel n cell data"
  shows "cells_made (dim_selections sel n (n - 1)) data_row row_of rs (look s) (look s') \<and>
    (res = Inr () \<longrightarrow> (\<forall>r \<in> set rs. 0 \<le> row_of r \<longrightarrow> tc_defined (look s') (nat (row_of r)) \<and>
       accommodates sel n (tc_cell (look s') (nat (row_of r))) (data_row r)))"
  using assms
proof (induction rs arbitrary: known s)
  case Nil
  then show ?case by (simp add: cells_made_refl)
next
  case (Cons r rs)
  let ?dims = "dim_selections sel n (n - 1)" and ?row = "nat (row_of r)"
  have r: "length (data_row r) = n - 1" "dims_match sel n (data_row r)" "row_of r < int (tc_nrow (look s))"
    and rs: "\<forall>r \<in> set rs. length (data_row r) = n - 1 \<and> dims_match sel n (data_row r) \<and> row_of r < int (tc_nrow (look s))"
    using Cons.prems(2) by auto
  show ?case
  proof (cases "row_of r < 0")
    case True
    with Cons.prems(1) have "cell_loop look setShape ?dims data_row row_of rs known s = (res, s')" by simp
    from Cons.IH [OF this rs Cons.prems(3)] cells_made_Cons [of _ data_row row_of rs "look s" "look s'" r] True show ?thesis by auto
  next
    case nonneg: False
    show ?thesis
    proof (cases "tc_defined (look s) ?row")
      case True
      let ?cell = "tc_cell (look s) ?row"
      have step: ?thesis if ok: "accommodates sel n ?cell (data_row r)"
        and rest: "cell_loop look setShape ?dims data_row row_of rs k s = (res, s')"
        and k: "\<forall>cell data. k = Some (cell, data) \<longrightarrow> accommodates sel n cell data" for k
      proof -
        note ih = Cons.IH [OF rest rs k]
        then have "tc_defined (look s') ?row \<and> tc_cell (look s') ?row = ?cell" using True by (auto simp: cells_made_def)
        with ih ok cells_made_Cons [of _ data_row row_of rs "look s" "look s'" r] show ?thesis by auto
      qed
      show ?thesis
      proof (cases "known = Some (?cell, data_row r)")
        case known: True
        with Cons.prems nonneg True show ?thesis by (intro step [of known]) auto
      next
        case unknown: False
        show ?thesis
        proof (cases "CheckAgainstCell (tc_name (look s)) ?dims ?cell (data_row r)")
          case (Inl e)
          with Cons.prems(1) nonneg True unknown have "res = Inl e" "s' = s" by simp_all
          then show ?thesis by (simp add: cells_made_refl)
        next
          case (Inr u)
          then have ok: "accommodates sel n ?cell (data_row r)" using CheckAgainstCell_Inr [OF r(1)] by simp
          from Inr Cons.prems(1) nonneg True unknown
          have "cell_loop look setShape ?dims data_row row_of rs (Some (?cell, data_row r)) s = (res, s')" by simp
          from step [OF ok this] ok show ?thesis by simp
        qed
      qed
    next
      case False
      have "length ?dims \<le> length (data_row r)" using r(1) by simp
      from widen_Inr [OF this] obtain sh where sh: "widen ?dims (data_row r) = Inr sh" by blast
      have set: "look (setShape ?row sh s) = with_cell (look s) ?row sh" using r(3) nonneg by (intro setShape) linarith
      with Cons.prems(1) nonneg False sh
      have rest: "cell_loop look setShape ?dims data_row row_of rs known (setShape ?row sh s) = (res, s')" by simp
      have rs': "\<forall>r \<in> set rs. length (data_row r) = n - 1 \<and> dims_match sel n (data_row r) \<and>
          row_of r < int (tc_nrow (look (setShape ?row sh s)))" using rs by (simp add: with_cell_def set)
      note ih = Cons.IH [OF rest rs' Cons.prems(3), unfolded set]
      have "row_of r = int ?row" using nonneg by simp
      from cells_made_step [of ?dims data_row r sh row_of ?row "look s" rs "look s'", OF sh this False] ih widen_accommodates [OF r(1,2) sh]
      show ?thesis by auto
    qed
  qed
qed

text \<open>With distinct rows, the loop succeeds when every row that has a cell accommodates its data.\<close>

lemma cell_loop_complete:
  assumes "\<forall>r \<in> set rs. length (data_row r) = n - 1 \<and> row_of r < int (tc_nrow (look s))"
    and "distinct (filter (\<lambda>x. 0 \<le> x) (map row_of rs))"
    and "\<forall>r \<in> set rs. 0 \<le> row_of r \<and> tc_defined (look s) (nat (row_of r)) \<longrightarrow>
      accommodates sel n (tc_cell (look s) (nat (row_of r))) (data_row r)"
  shows "\<exists>s'. cell_loop look setShape (dim_selections sel n (n - 1)) data_row row_of rs known s = (Inr (), s')"
  using assms
proof (induction rs arbitrary: known s)
  case (Cons r rs)
  let ?dims = "dim_selections sel n (n - 1)" and ?row = "nat (row_of r)"
  have dist: "distinct (filter (\<lambda>x. 0 \<le> x) (map row_of rs))" using Cons.prems(2) by (simp split: if_splits)
  have rest: "\<exists>s'. cell_loop look setShape ?dims data_row row_of rs k s = (Inr (), s')" for k
    by (rule Cons.IH) (use Cons.prems dist in auto)
  show ?case
  proof (cases "row_of r < 0")
    case True
    with rest [of known] show ?thesis by simp
  next
    case nonneg: False
    show ?thesis
    proof (cases "tc_defined (look s) ?row")
      case True
      then have "accommodates sel n (tc_cell (look s) ?row) (data_row r)" using Cons.prems(3) nonneg by simp
      then have "CheckAgainstCell (tc_name (look s)) ?dims (tc_cell (look s) ?row) (data_row r) = Inr ()"
        using CheckAgainstCell_Inr [of "data_row r" n] Cons.prems(1) by simp
      with True nonneg rest [of known] rest [of "Some (tc_cell (look s) ?row, data_row r)"] show ?thesis by (simp add: Let_def)
    next
      case False
      have "length ?dims \<le> length (data_row r)" using Cons.prems(1) by simp
      from widen_Inr [OF this] obtain sh where sh: "widen ?dims (data_row r) = Inr sh" by blast
      have set: "look (setShape ?row sh s) = with_cell (look s) ?row sh" using Cons.prems(1) nonneg by (intro setShape) auto
      have other: "nat (row_of r') \<noteq> ?row" if "r' \<in> set rs" "0 \<le> row_of r'" for r'
      proof -
        have "row_of r \<notin> row_of ` set rs" using Cons.prems(2) nonneg by auto
        with that nonneg show ?thesis by (metis eq_nat_nat_iff image_eqI not_less)
      qed
      have "\<exists>s'. cell_loop look setShape ?dims data_row row_of rs known (setShape ?row sh s) = (Inr (), s')"
        by (rule Cons.IH) (use Cons.prems dist other in \<open>auto simp: with_cell_def set\<close>)
      with False nonneg sh set show ?thesis by simp
    qed
  qed
qed simp

text \<open>Whatever a call of \<open>setShape\<close> keeps for other rows, the loop keeps for a row that has a cell or is not written.\<close>

lemma cell_loop_keeps:
  assumes "\<And>row sh s. row < tc_nrow (look s) \<Longrightarrow> x \<noteq> row \<Longrightarrow> f (setShape row sh s) = f s"
    and "cell_loop look setShape dims data_row row_of rs known s = (res, s')"
    and "\<forall>r \<in> set rs. row_of r < int (tc_nrow (look s))"
    and "tc_defined (look s) x \<or> (\<forall>r \<in> set rs. row_of r \<noteq> int x)"
  shows "f s' = f s"
  using assms(2-4)
proof (induction rs arbitrary: known s)
  case (Cons r rs)
  let ?row = "nat (row_of r)"
  have rest: "\<forall>r \<in> set rs. row_of r < int (tc_nrow (look s))"
    "tc_defined (look s) x \<or> (\<forall>r \<in> set rs. row_of r \<noteq> int x)" using Cons.prems(2,3) by auto
  show ?case
  proof (cases "0 \<le> row_of r \<and> \<not> tc_defined (look s) ?row")
    case False
    with Cons.prems(1) Cons.IH [OF _ rest] show ?thesis
      by (auto simp: Let_def split: if_splits sum.splits)
  next
    case True
    show ?thesis
    proof (cases "widen dims (data_row r)")
      case (Inl e)
      with True Cons.prems(1) show ?thesis by simp
    next
      case (Inr sh)
      let ?s = "setShape ?row sh s"
      have set: "look ?s = with_cell (look s) ?row sh" using Cons.prems(2) True by (intro setShape) auto
      have "x \<noteq> ?row" using Cons.prems(3) True by auto
      then have f: "f ?s = f s" using Cons.prems(2) True by (intro assms(1)) auto
      have "cell_loop look setShape dims data_row row_of rs known ?s = (res, s')" using Cons.prems(1) True Inr by simp
      from Cons.IH [OF this] rest f show ?thesis by (simp add: set with_cell_def)
    qed
  qed
qed simp

end

section \<open>The whole operation\<close>

definition write_rows :: "table_column \<Rightarrow> selection \<Rightarrow> ResultShapeData \<Rightarrow> nat list" where
  "write_rows col sel d = [0..<if HasRowSpan sel then length (GetRowSpan sel) else min (tc_nrow col) (nRows d)]"

definition rows_ok :: "table_column \<Rightarrow> selection \<Rightarrow> ResultShapeData \<Rightarrow> bool" where
  "rows_ok col sel d \<longleftrightarrow> (HasRowSpan sel \<longrightarrow> length (GetRowSpan sel) = nRows d \<and> length (GetRowSpan sel) \<le> tc_nrow col \<and>
     (\<forall>row \<in> set (GetRowSpan sel). row < int (tc_nrow col)))"

lemma write_shape_Inr:
  "write_shape col (Some arr) sel = Inr (d, n) \<longleftrightarrow>
     int (tc_nrow col) \<le> 2 ^ 63 - 1 \<and> GetResultShapeData (tc_name col) (tc_dtype col) (Some arr) = Inr d \<and>
     rs_ndim d = int n \<and> (tc_ndim col = -1 \<or> int n = tc_ndim col + 1) \<and>
     (HasRowSpan sel \<longrightarrow> rs_shape d \<noteq> Some []) \<and> rows_ok col sel d"
  by (auto simp: write_shape_def rbind_Inr_conv require_Inr_conv CheckRowNumberLimit_def ConsistentNDim_def
      check_row_span_def data_rows_def rows_ok_def rfor_Inr_conv Let_def split: if_splits)

lemma write_rows_bounds:
  assumes "rows_ok col sel d" and "r \<in> set (write_rows col sel d)"
  shows "r < nRows d \<and> row_selected sel r < int (tc_nrow col)"
  using assms by (auto simp: write_rows_def rows_ok_def row_selected_def split: if_splits)

lemma DataRowShape_row:
  assumes "ranks_agree d" and "rs_ndim d = int n" and "r < nRows d"
  shows "length (DataRowShape d (n - 1) r) = n - 1 \<and>
    ((\<forall>r < (if IsFixed d then 1 else nRows d). P (DataRowShape d (n - 1) r)) \<longrightarrow> P (DataRowShape d (n - 1) r))"
proof (cases "IsFixed d")
  case True
  then have "DataRowShape d (n - 1) r = DataRowShape d (n - 1) 0" by (simp add: DataRowShape_def)
  with True DataRowShape_rank [OF assms(1), of n 0] assms(2) show ?thesis by (auto simp: ConsistentNDim_def)
next
  case False
  with DataRowShape_rank [OF assms(1), of n r] assms(2,3) show ?thesis by (auto simp: ConsistentNDim_def)
qed

lemma MakeWrite_shape:
  "MakeWrite look setShape s data sel = (Inr d, s') \<Longrightarrow> \<exists>n. write_shape (look s) data sel = Inr (d, n)"
  by (cases "write_shape (look s) data sel")
    (auto simp: MakeWrite_def Let_def rbind_Inr_conv split: if_splits sum.splits prod.splits)

text \<open>A write whose data have a dimension beside the rows.\<close>

lemma MakeWrite_checked:
  assumes "write_shape (look s) data sel = Inr (d, n)" and "1 < n" and "ranks_agree d" and "rs_ndim d = int n"
  shows "MakeWrite look setShape s data sel = (Inr d, s') \<longleftrightarrow>
    (\<forall>r < (if IsFixed d then 1 else nRows d). dims_match sel n (DataRowShape d (n - 1) r)) \<and>
    (if tc_fixed (look s)
     then (\<forall>r < (if IsFixed d then 1 else nRows d). accommodates sel n (tc_shape (look s)) (DataRowShape d (n - 1) r)) \<and> s' = s
     else cell_loop look setShape (dim_selections sel n (n - 1)) (DataRowShape d (n - 1)) (row_selected sel)
       (write_rows (look s) sel d) None s = (Inr (), s'))"
proof -
  let ?nd = "if IsFixed d then 1 else nRows d" and ?row = "DataRowShape d (n - 1)"
  let ?dims = "dim_selections sel n (n - 1)"
  have n: "ConsistentNDim d = Inr n" using assms(4) by (simp add: ConsistentNDim_def)
  have rank: "\<forall>r < ?nd. length (?row r) = n - 1" using DataRowShape_rank [OF assms(3) n] by blast
  note dims = check_data_dims_Inr [OF rank, of "tc_name (look s)" sel]
  have cells: "rfor (\<lambda>r. CheckAgainstCell (tc_name (look s)) ?dims (tc_shape (look s)) (?row r)) [0..<?nd] = Inr () \<longleftrightarrow>
      (\<forall>r < ?nd. accommodates sel n (tc_shape (look s)) (?row r))"
    unfolding rfor_Inr_conv using CheckAgainstCell_Inr [of _ n "tc_name (look s)" sel "tc_shape (look s)"] rank by auto
  show ?thesis
  proof (cases "check_data_dims (tc_name (look s)) ?dims ?row ?nd")
    case (Inl e)
    with dims have "\<not> (\<forall>r < ?nd. dims_match sel n (?row r))" by simp
    moreover have "fst (MakeWrite look setShape s data sel) = Inl e"
      using assms(1,2) Inl by (simp add: MakeWrite_def Let_def)
    ultimately show ?thesis by auto
  next
    case (Inr u)
    then have match: "\<forall>r < ?nd. dims_match sel n (?row r)" using dims by simp
    show ?thesis
    proof (cases "tc_fixed (look s)")
      case True
      have "MakeWrite look setShape s data sel =
          (rbind (rfor (\<lambda>r. CheckAgainstCell (tc_name (look s)) ?dims (tc_shape (look s)) (?row r)) [0..<?nd]) (\<lambda>_. Inr d), s)"
        using assms(1,2) Inr True by (simp add: MakeWrite_def Let_def)
      with match True cells show ?thesis
        by (cases "rfor (\<lambda>r. CheckAgainstCell (tc_name (look s)) ?dims (tc_shape (look s)) (?row r)) [0..<?nd]") auto
    next
      case False
      have "MakeWrite look setShape s data sel =
          (case cell_loop look setShape ?dims ?row (row_selected sel) (write_rows (look s) sel d) None s of
             (r, s') \<Rightarrow> (rbind r (\<lambda>_. Inr d), s'))"
        using assms(1,2) Inr False by (simp add: MakeWrite_def Let_def write_rows_def)
      with match False show ?thesis
        by (cases "cell_loop look setShape ?dims ?row (row_selected sel) (write_rows (look s) sel d) None s")
          (auto simp: rbind_Inr_conv)
    qed
  qed
qed

lemma MakeWrite_sound:
  assumes "shape_setter look setShape" and "MakeWrite look setShape s (Some arr) sel = (Inr d, s')"
  shows "GetResultShapeData (tc_name (look s)) (tc_dtype (look s)) (Some arr) = Inr d \<and>
    (\<forall>row. tc_defined (look s) row \<longrightarrow> tc_defined (look s') row \<and> tc_cell (look s') row = tc_cell (look s) row) \<and>
    (\<forall>row. (\<forall>r \<in> set (write_rows (look s) sel d). row_selected sel r \<noteq> int row) \<longrightarrow>
       tc_defined (look s') row = tc_defined (look s) row \<and> tc_cell (look s') row = tc_cell (look s) row) \<and>
    (\<forall>r \<in> set (write_rows (look s) sel d). row_selected sel r < int (tc_nrow (look s))) \<and>
    (1 < rs_ndim d \<longrightarrow> (\<forall>r \<in> set (write_rows (look s) sel d).
       dims_match sel (nat (rs_ndim d)) (DataRowShape d (nat (rs_ndim d) - 1) r) \<and>
       (0 \<le> row_selected sel r \<longrightarrow>
         (tc_fixed (look s) \<or> tc_defined (look s') (nat (row_selected sel r))) \<and>
         accommodates sel (nat (rs_ndim d)) (if tc_fixed (look s) then tc_shape (look s) else tc_cell (look s') (nat (row_selected sel r)))
           (DataRowShape d (nat (rs_ndim d) - 1) r))))"
proof -
  from MakeWrite_shape [where look = look and s = s, OF assms(2)] obtain n where w: "write_shape (look s) (Some arr) sel = Inr (d, n)" by blast
  then have d: "GetResultShapeData (tc_name (look s)) (tc_dtype (look s)) (Some arr) = Inr d" "rs_ndim d = int n" "rows_ok (look s) sel d"
    by (simp_all add: write_shape_Inr)
  note ranks = GetResult_ranks [OF d(1)] and bounds = write_rows_bounds [OF d(3)]
  show ?thesis
  proof (cases "1 < n")
    case False
    then have "s' = s" using assms(2) w by (simp add: MakeWrite_def)
    with False d bounds show ?thesis by simp
  next
    case True
    note made = iffD1 [OF MakeWrite_checked [where look = look and s = s, OF w True ranks d(2)] assms(2)]
    have rows: "length (DataRowShape d (n - 1) r) = n - 1 \<and> dims_match sel n (DataRowShape d (n - 1) r)"
      if "r \<in> set (write_rows (look s) sel d)" for r
      using DataRowShape_row [OF ranks d(2), of r "dims_match sel n"] bounds [OF that] made by auto
    show ?thesis
    proof (cases "tc_fixed (look s)")
      case fixed: True
      have "accommodates sel n (tc_shape (look s)) (DataRowShape d (n - 1) r)" if "r \<in> set (write_rows (look s) sel d)" for r
        using DataRowShape_row [OF ranks d(2), of r "accommodates sel n (tc_shape (look s))"] bounds [OF that] made fixed by auto
      with fixed made d rows bounds True show ?thesis by simp
    next
      case False
      then have loop: "cell_loop look setShape (dim_selections sel n (n - 1)) (DataRowShape d (n - 1)) (row_selected sel)
          (write_rows (look s) sel d) None s = (Inr (), s')" using made by simp
      have "cells_made (dim_selections sel n (n - 1)) (DataRowShape d (n - 1)) (row_selected sel) (write_rows (look s) sel d) (look s) (look s') \<and>
        (\<forall>r \<in> set (write_rows (look s) sel d). 0 \<le> row_selected sel r \<longrightarrow> tc_defined (look s') (nat (row_selected sel r)) \<and>
           accommodates sel n (tc_cell (look s') (nat (row_selected sel r))) (DataRowShape d (n - 1) r))"
        using shape_setter.cell_loop_sound [OF assms(1) loop] rows bounds by simp
      moreover have "tc_defined (look s') row = tc_defined (look s) row \<and> tc_cell (look s') row = tc_cell (look s) row"
        if "\<forall>r \<in> set (write_rows (look s) sel d). row_selected sel r \<noteq> int row" for row
        using that calculation by (cases "tc_defined (look s) row"; cases "tc_defined (look s') row") (auto simp: cells_made_def)
      ultimately show ?thesis using False d rows bounds True by (auto simp: cells_made_def)
    qed
  qed
qed

lemma MakeWrite_keeps:
  assumes "shape_setter look setShape" and "MakeWrite look setShape s (Some arr) sel = (Inr d, s')"
    and "\<And>row sh s. row < tc_nrow (look s) \<Longrightarrow> x \<noteq> row \<Longrightarrow> f (setShape row sh s) = f s"
    and "tc_fixed (look s) \<or> tc_defined (look s) x \<or> (\<forall>r \<in> set (write_rows (look s) sel d). row_selected sel r \<noteq> int x)"
  shows "f s' = f s"
proof -
  from MakeWrite_shape [where look = look and s = s, OF assms(2)] obtain n where
    w: "write_shape (look s) (Some arr) sel = Inr (d, n)" by blast
  then have d: "GetResultShapeData (tc_name (look s)) (tc_dtype (look s)) (Some arr) = Inr d" "rs_ndim d = int n"
    "rows_ok (look s) sel d" by (simp_all add: write_shape_Inr)
  show ?thesis
  proof (cases "1 < n \<and> \<not> tc_fixed (look s)")
    case True
    then have n: "1 < n" by simp
    from iffD1 [OF MakeWrite_checked [where look = look and s = s, OF w n GetResult_ranks [OF d(1)] d(2)] assms(2)] True
    have "cell_loop look setShape (dim_selections sel n (n - 1)) (DataRowShape d (n - 1)) (row_selected sel)
        (write_rows (look s) sel d) None s = (Inr (), s')" by simp
    from shape_setter.cell_loop_keeps [OF assms(1) assms(3) this] True assms(4) write_rows_bounds [OF d(3)]
    show ?thesis by simp
  next
    case False
    have "s' = s"
    proof (cases "1 < n")
      case n: True
      from iffD1 [OF MakeWrite_checked [where look = look and s = s, OF w n GetResult_ranks [OF d(1)] d(2)] assms(2)] False n
      show ?thesis by simp
    next
      case n: False
      with assms(2) w show ?thesis by (simp add: MakeWrite_def)
    qed
    then show ?thesis by simp
  qed
qed

lemma cell_loop_any:
  assumes "\<And>row sh s. f (setShape row sh s) = f s"
  shows "cell_loop look setShape dims data_row row_of rs known s = (res, s') \<Longrightarrow> f s' = f s"
proof (induction rs arbitrary: known s)
  case (Cons r rs)
  then show ?case by (auto simp: Let_def assms split: if_splits sum.splits)
qed simp

lemma MakeWrite_any:
  assumes "MakeWrite look setShape s data sel = (res, s')" and "\<And>row sh s. f (setShape row sh s) = f s"
  shows "f s' = f s"
  using assms(1) cell_loop_any [where f = f and setShape = setShape, OF assms(2)]
  by (auto simp: MakeWrite_def Let_def split: if_splits sum.splits prod.splits)

lemma MakeWrite_fixed: "tc_fixed (look s) \<Longrightarrow> MakeWrite look setShape s data sel = (res, s') \<Longrightarrow> s' = s"
  by (auto simp: MakeWrite_def Let_def split: if_splits sum.splits prod.splits)

text \<open>The selection of a write fits a fixed shape.\<close>

lemma MakeWrite_sel_fits:
  assumes "MakeWrite look setShape s (Some arr) sel = (Inr d, s')" and "rs_shape d = Some sh" and "sh \<noteq> []"
  shows "sel_fits sel sh"
proof -
  from MakeWrite_shape [where look = look and s = s, OF assms(1)] obtain n where
    w: "write_shape (look s) (Some arr) sel = Inr (d, n)" by blast
  then have d: "GetResultShapeData (tc_name (look s)) (tc_dtype (look s)) (Some arr) = Inr d" "rs_ndim d = int n"
    "rows_ok (look s) sel d" by (simp_all add: write_shape_Inr)
  have n: "n = length sh" using GetResult_ranks [OF d(1)] assms(2) d(2) by (simp add: ranks_agree_def)
  have secondary: "length span = sh ! dim" if "dim < length sh - 1" "MaybeFSpan sel dim (length sh) = Some span" for dim span
  proof -
    have big: "1 < n" using that(1) n by simp
    from iffD1 [OF MakeWrite_checked [where look = look and s = s, OF w big GetResult_ranks [OF d(1)] d(2)] assms(1)] assms(2)
    have "dims_match sel n (DataRowShape d (n - 1) 0)" by (simp add: IsFixed_def)
    moreover have "DataRowShape d (n - 1) 0 = take (length sh - 1) sh"
      using assms(2) n by (simp add: DataRowShape_def IsFixed_def GetShape_def)
    ultimately show ?thesis using that n by (simp add: dims_match_conv)
  qed
  have row: "length span = sh ! (length sh - 1)" if "MaybeFSpan sel (length sh - 1) (length sh) = Some span" for span
  proof -
    have "HasRowSpan sel" using that MaybeFSpan_no_row [of sel "length sh"] by auto
    moreover from this have "span = GetRowSpan sel" using that MaybeFSpan_row [of sel "length sh"] assms(3) by simp
    ultimately show ?thesis using d(3) assms(2,3) by (simp add: rows_ok_def nRows_def last_conv_nth)
  qed
  show ?thesis
    unfolding sel_fits_def
  proof (intro allI impI)
    fix dim assume "dim < length sh"
    then have "dim < length sh - 1 \<or> dim = length sh - 1" by linarith
    with secondary row show "case MaybeFSpan sel dim (length sh) of Some span \<Rightarrow> length span = sh ! dim | None \<Rightarrow> True"
      by (auto split: option.splits)
  qed
qed

section \<open>Properties\<close>

text \<open>
  Two rows of two values, written to the indices 0 and 2 of the cells of rows 2 and 0, of which the
  former has no cell yet.
\<close>

definition ragged_column :: table_column where
  "ragged_column = \<lparr>tc_name = ''WEIGHT'', tc_dtype = TpFloat, tc_fixed = False, tc_shape = [], tc_ndim = 1,
     tc_nrow = 3, tc_defined = (\<lambda>row. row < 2), tc_cell = (\<lambda>row. if row < 2 then [3] else [])\<rparr>"

definition ragged_selection :: selection where
  "ragged_selection = FromInit IndexElem [[2, 0], [0, 2]]"

definition two_rows :: "int arrow" where
  "two_rows = FixedLists 2 2 0 None (Values (Value_type float32) [1, 2, 3, 4] 0 4)"

definition two_rows_shape :: ResultShapeData where
  "two_rows_shape = \<lparr>rs_name = ''WEIGHT'', rs_shape = Some [2, 2], rs_ndim = 2, rs_dtype = TpFloat,
     rs_row_shapes = None, rs_cell_extents = None\<rparr>"

lemma ragged_facts:
  "fst (MakeWrite (\<lambda>col. col) (\<lambda>row sh col. with_cell col row sh) ragged_column (Some two_rows) ragged_selection) = Inr two_rows_shape"
  "map (row_selected ragged_selection) (write_rows ragged_column ragged_selection two_rows_shape) = [2, 0]"
  "write_rows ragged_column ragged_selection two_rows_shape = [0, 1]"
  "GetResultShapeData (tc_name ragged_column) (tc_dtype ragged_column) (Some two_rows) = Inr two_rows_shape"
  by code_simp+

text \<open>
  C22. A write that passes \<open>MakeWrite\<close> fits the column, as far as it is checked. With a selection of
  rows, these are as many as the rows of the data, and all of them exist. Without one, only the
  leading rows that both the column and the data have are checked: rows of the data past the end of
  the column are accepted. The cell of each row checked, as the call leaves it, has room for the
  indices selected and for the dimensions of the data that are not, and the selections are as long
  as the data. Rows that had a cell keep its shape; the other rows that are checked have one now,
  and no other row has changed. The cache of the last cell checked does not show.
\<close>

theorem MakeWrite_fits:
  assumes "shape_setter look setShape" and "MakeWrite look setShape s (Some arr) sel = (Inr d, s')"
  shows "GetResultShapeData (tc_name (look s)) (tc_dtype (look s)) (Some arr) = Inr d \<and>
    write_rows (look s) sel d = [0..<if HasRowSpan sel then nRows d else min (tc_nrow (look s)) (nRows d)] \<and>
    (HasRowSpan sel \<longrightarrow> length (GetRowSpan sel) = nRows d \<and> (\<forall>row \<in> set (GetRowSpan sel). row < int (tc_nrow (look s)))) \<and>
    (\<forall>row. tc_defined (look s) row \<longrightarrow> tc_defined (look s') row \<and> tc_cell (look s') row = tc_cell (look s) row) \<and>
    (\<forall>row. (\<forall>r \<in> set (write_rows (look s) sel d). row_selected sel r \<noteq> int row) \<longrightarrow>
       tc_defined (look s') row = tc_defined (look s) row \<and> tc_cell (look s') row = tc_cell (look s) row) \<and>
    (\<forall>r \<in> set (write_rows (look s) sel d). row_selected sel r < int (tc_nrow (look s))) \<and>
    (1 < rs_ndim d \<longrightarrow> (\<forall>r \<in> set (write_rows (look s) sel d).
       dims_match sel (nat (rs_ndim d)) (DataRowShape d (nat (rs_ndim d) - 1) r) \<and>
       (0 \<le> row_selected sel r \<longrightarrow>
         (tc_fixed (look s) \<or> tc_defined (look s') (nat (row_selected sel r))) \<and>
         accommodates sel (nat (rs_ndim d)) (if tc_fixed (look s) then tc_shape (look s) else tc_cell (look s') (nat (row_selected sel r)))
           (DataRowShape d (nat (rs_ndim d) - 1) r))))"
proof -
  obtain m where "write_shape (look s) (Some arr) sel = Inr (d, m)" using MakeWrite_shape [OF assms(2)] by blast
  then have "rows_ok (look s) sel d" by (simp add: write_shape_Inr)
  then show ?thesis
    using MakeWrite_sound [OF assms] by (simp add: rows_ok_def write_rows_def)
qed

theorem MakeWrite_fits_witness:
  "\<exists>col'. MakeWrite (\<lambda>col. col) (\<lambda>row sh col. with_cell col row sh) ragged_column (Some two_rows) ragged_selection = (Inr two_rows_shape, col') \<and>
     tc_defined col' 2 \<and> accommodates ragged_selection 2 (tc_cell col' 2) [2] \<and> tc_cell col' 0 = [3]"
proof -
  obtain col' where make: "MakeWrite (\<lambda>col. col) (\<lambda>row sh col. with_cell col row sh) ragged_column (Some two_rows) ragged_selection = (Inr two_rows_shape, col')"
    using ragged_facts(1) by (metis prod.collapse)
  have rows: "row_selected ragged_selection 0 = 2" "write_rows ragged_column ragged_selection two_rows_shape = [0, 1]"
    "DataRowShape two_rows_shape 1 0 = [2]" by code_simp+
  have col: "tc_defined ragged_column 0" "tc_cell ragged_column 0 = [3]" "\<not> tc_fixed ragged_column"
    and ndim: "rs_ndim two_rows_shape = 2" by (simp_all add: ragged_column_def two_rows_shape_def)
  from MakeWrite_fits [OF with_cell.shape_setter_axioms make] make rows col ndim show ?thesis by auto
qed

text \<open>
  C24. What \<open>MakeWrite\<close> refuses, exactly. For data of a known shape with a dimension beside the rows,
  and rows that are selected once, it succeeds if and only if the ranks agree; a selection of rows,
  if there is one, names as many rows as the data has, all of which exist; the selections are as
  long as the data; and every cell there is among the rows checked accommodates its data. Rows
  without a cell never fail. Without a selection of rows their number is not checked: data with
  more rows than the column is accepted, which the partition then takes for rows past the end.
\<close>

theorem MakeWrite_exact:
  assumes "shape_setter look setShape" and "GetResultShapeData (tc_name (look s)) (tc_dtype (look s)) (Some arr) = Inr d"
    and "rs_ndim d = int n" and "1 < n" and "int (tc_nrow (look s)) < 2 ^ 63"
    and "distinct (filter (\<lambda>row. 0 \<le> row) (map (row_selected sel) (write_rows (look s) sel d)))"
  shows "(\<exists>s'. MakeWrite look setShape s (Some arr) sel = (Inr d, s')) \<longleftrightarrow>
    (tc_ndim (look s) = -1 \<or> int n = tc_ndim (look s) + 1) \<and> (HasRowSpan sel \<longrightarrow> length (GetRowSpan sel) = nRows d \<and> length (GetRowSpan sel) \<le> tc_nrow (look s) \<and>
       (\<forall>row \<in> set (GetRowSpan sel). row < int (tc_nrow (look s)))) \<and>
    (\<forall>r < (if IsFixed d then 1 else nRows d). dims_match sel n (DataRowShape d (n - 1) r)) \<and>
    (if tc_fixed (look s) then \<forall>r < (if IsFixed d then 1 else nRows d). accommodates sel n (tc_shape (look s)) (DataRowShape d (n - 1) r)
     else \<forall>r \<in> set (write_rows (look s) sel d). 0 \<le> row_selected sel r \<and> tc_defined (look s) (nat (row_selected sel r)) \<longrightarrow>
            accommodates sel n (tc_cell (look s) (nat (row_selected sel r))) (DataRowShape d (n - 1) r))"
proof -
  let ?loop = "cell_loop look setShape (dim_selections sel n (n - 1)) (DataRowShape d (n - 1)) (row_selected sel)
     (write_rows (look s) sel d) None s"
  note ranks = GetResult_ranks [OF assms(2)]
  have ne: "rs_shape d \<noteq> Some []" using ranks assms(3,4) by (auto simp: ranks_agree_def)
  have w: "write_shape (look s) (Some arr) sel = Inr (d, n) \<longleftrightarrow> (tc_ndim (look s) = -1 \<or> int n = tc_ndim (look s) + 1) \<and> rows_ok (look s) sel d"
    using assms(2,3,5) ne by (auto simp: write_shape_Inr)
  note w' = w [unfolded rows_ok_def]
  show ?thesis
  proof (cases "write_shape (look s) (Some arr) sel = Inr (d, n)")
    case False
    moreover have "\<not> (\<exists>s'. MakeWrite look setShape s (Some arr) sel = (Inr d, s'))"
    proof
      assume "\<exists>s'. MakeWrite look setShape s (Some arr) sel = (Inr d, s')"
      then obtain m where "write_shape (look s) (Some arr) sel = Inr (d, m)" using MakeWrite_shape [of look setShape s] by blast
      moreover from this have "m = n" using assms(3) by (simp add: write_shape_Inr)
      ultimately show False using False by simp
    qed
    ultimately show ?thesis using w' by blast
  next
    case True
    then have ok: "rows_ok (look s) sel d" using w by simp
    have rows: "length (DataRowShape d (n - 1) r) = n - 1 \<and> row_selected sel r < int (tc_nrow (look s))"
      if "r \<in> set (write_rows (look s) sel d)" for r
      using DataRowShape_row [OF ranks assms(3)] write_rows_bounds [OF ok that] by blast
    have dims: "dims_match sel n (DataRowShape d (n - 1) r)"
      if "r \<in> set (write_rows (look s) sel d)" "\<forall>r < (if IsFixed d then 1 else nRows d). dims_match sel n (DataRowShape d (n - 1) r)" for r
      using DataRowShape_row [OF ranks assms(3), of r "dims_match sel n"] write_rows_bounds [OF ok that(1)] that(2) by blast
    have loop: "(\<exists>s'. ?loop = (Inr (), s')) \<longleftrightarrow>
        (\<forall>r \<in> set (write_rows (look s) sel d). 0 \<le> row_selected sel r \<and> tc_defined (look s) (nat (row_selected sel r)) \<longrightarrow>
            accommodates sel n (tc_cell (look s) (nat (row_selected sel r))) (DataRowShape d (n - 1) r))"
      if "\<forall>r < (if IsFixed d then 1 else nRows d). dims_match sel n (DataRowShape d (n - 1) r)"
    proof
      assume "\<exists>s'. ?loop = (Inr (), s')"
      then obtain s' where l: "?loop = (Inr (), s')" by blast
      from shape_setter.cell_loop_sound [OF assms(1) l] rows dims [OF _ that]
      show "\<forall>r \<in> set (write_rows (look s) sel d). 0 \<le> row_selected sel r \<and> tc_defined (look s) (nat (row_selected sel r)) \<longrightarrow>
            accommodates sel n (tc_cell (look s) (nat (row_selected sel r))) (DataRowShape d (n - 1) r)"
        by (auto simp: cells_made_def)
    next
      assume cells: "\<forall>r \<in> set (write_rows (look s) sel d). 0 \<le> row_selected sel r \<and> tc_defined (look s) (nat (row_selected sel r)) \<longrightarrow>
            accommodates sel n (tc_cell (look s) (nat (row_selected sel r))) (DataRowShape d (n - 1) r)"
      show "\<exists>s'. ?loop = (Inr (), s')"
        by (rule shape_setter.cell_loop_complete [OF assms(1) _ assms(6) cells]) (use rows in blast)
    qed
    show ?thesis
      unfolding MakeWrite_checked [where look = look and s = s, OF True assms(4) ranks assms(3)] using True w' loop by (cases "tc_fixed (look s)") auto
  qed
qed

theorem MakeWrite_exact_witness:
  "\<exists>col'. MakeWrite (\<lambda>col. col) (\<lambda>row sh col. with_cell col row sh) ragged_column (Some two_rows) ragged_selection = (Inr two_rows_shape, col')"
proof -
  have dist: "distinct (filter (\<lambda>row. 0 \<le> row)
      (map (row_selected ragged_selection) (write_rows ragged_column ragged_selection two_rows_shape)))"
    unfolding ragged_facts(2) by simp
  have facts: "HasRowSpan ragged_selection \<longrightarrow> length (GetRowSpan ragged_selection) = nRows two_rows_shape \<and>
      length (GetRowSpan ragged_selection) \<le> tc_nrow ragged_column \<and>
      (\<forall>row \<in> set (GetRowSpan ragged_selection). row < int (tc_nrow ragged_column))" "dims_match ragged_selection 2 [2]"
    "accommodates ragged_selection 2 [3] [2]" "DataRowShape two_rows_shape 1 0 = [2]" "DataRowShape two_rows_shape 1 1 = [2]"
    "row_selected ragged_selection 0 = 2" "row_selected ragged_selection 1 = 0" "IsFixed two_rows_shape" by code_simp+
  have col: "int (tc_nrow ragged_column) < 2 ^ 63" "\<not> tc_fixed ragged_column" "tc_ndim ragged_column = 1"
    "\<not> tc_defined ragged_column 2" "tc_cell ragged_column 0 = [3]" and ndim: "rs_ndim two_rows_shape = int 2"
    by (simp_all add: ragged_column_def two_rows_shape_def)
  show ?thesis
    by (rule iffD2 [OF MakeWrite_exact [OF with_cell.shape_setter_axioms ragged_facts(4) ndim _ col(1) dist]],
      simp, intro conjI) (use facts col ragged_facts(3) in \<open>auto\<close>)
qed

end
