(* ===== verification/TableAccess.thy ===== *)
theory TableAccess
  imports WriteShapes ColumnWrite "HOL-Library.Word"
begin

unbundle bit_operations_syntax

text \<open>
  Reading and writing a whole column: the buffers of results (\<open>GetSafeAlignment\<close>, \<open>GetResultBuffer\<close>,
  \<open>GetResultBufferOrAllocate\<close>) and the tasks of \<open>ReadImpl\<close> and \<open>ReadTableImpl\<close> of
  \<open>cpp/arcae/read_impl.cc\<close>, and \<open>ExtractBufferOrCopyValues\<close> and the task of \<open>WriteImpl\<close> of
  \<open>cpp/arcae/write_impl.cc\<close>. They put together the components of the other theories.

  What they call of casacore and arrow is the record \<open>access\<close>; its laws are the locale
  \<open>table_access\<close>. A table is a value of type \<open>'t\<close>, \<open>'v\<close> is the type of arrow values and \<open>'a\<close> the type of
  CASA values.
\<close>

section \<open>What casacore and arrow offer\<close>

record ('t, 'v, 'a) access =
  column_names :: "'t \<Rightarrow> string list"                                   \<comment> \<open>tableDesc().columnNames()\<close>
  is_writable :: "'t \<Rightarrow> bool"                                           \<comment> \<open>isWritable()\<close>
  reopenRW :: "'t \<Rightarrow> 't"
  column_of :: "string \<Rightarrow> 't \<Rightarrow> table_column"                            \<comment> \<open>TableColumn(table, name)\<close>
  storage_of :: "string \<Rightarrow> 't \<Rightarrow> column_storage"                         \<comment> \<open>its data manager\<close>
  set_cell_shape :: "string \<Rightarrow> nat \<Rightarrow> shape \<Rightarrow> 't \<Rightarrow> 't"                   \<comment> \<open>ArrayColumnBase::setShape\<close>
  reader_of :: "string \<Rightarrow> 't \<Rightarrow> 'a column_reader"
  writer_of :: "string \<Rightarrow> ('t, 'a) column_writer"
  numeric :: "casa_dtype \<Rightarrow> bool"                                       \<comment> \<open>casacore::isNumeric\<close>
  sizeof_String :: nat
  default_alignment :: nat                                          \<comment> \<open>arrow::kDefaultBufferAlignment\<close>
  allocate :: "casa_dtype \<Rightarrow> nat \<Rightarrow> nat \<Rightarrow> 'a list result"                \<comment> \<open>AllocateBuffer: values, alignment\<close>
  empty_String :: 'a
  fresh_value :: 'a                                                 \<comment> \<open>of an array before it is filled\<close>
  arrow_values :: "'a \<Rightarrow> 'v list"
  casa_view :: "casa_dtype \<Rightarrow> value_type \<Rightarrow> 'v list \<Rightarrow> 'a list"           \<comment> \<open>the bytes of a buffer as CASA values\<close>
  cast :: "'v arrow \<Rightarrow> arrow_dtype \<Rightarrow> 'v arrow result"                  \<comment> \<open>arrow::compute::Cast\<close>
  fixed_lists_of :: "'v arrow \<Rightarrow> int \<Rightarrow> 'v arrow result"
  list_array_of :: "int list \<Rightarrow> 'v arrow \<Rightarrow> 'v arrow result"

section \<open>Buffers of results\<close>

text \<open>A size with a single bit set is a power of two.\<close>

definition GetSafeAlignment :: "nat \<Rightarrow> nat \<Rightarrow> nat" where
  "GetSafeAlignment default_align type_size =
     (let w = of_nat type_size :: 64 word; is_power_of_two = (w AND (w - 1) = 0)
      in if type_size = 0 \<or> \<not> is_power_of_two then default_align else type_size)"

text \<open>The bytes of a buffer of values; booleans are packed. Buffers of strings are not used.\<close>

definition buffer_size :: "value_type \<Rightarrow> 'v list \<Rightarrow> nat" where
  "buffer_size ty buf =
     (case ty of
        Bool_type \<Rightarrow> (length buf + 7) div 8
      | UInt64_type \<Rightarrow> length buf * 8
      | Value_type dt \<Rightarrow> length buf * (case arrow_width dt of Some w \<Rightarrow> w | None \<Rightarrow> 0))"

fun result_values :: "'v arrow \<Rightarrow> nat \<Rightarrow> (value_type \<times> 'v list) result" where
  "result_values (Values ty buf off n) nbytes =
     (if ty = Value_type utf8 then Inl (NotImplemented [Str ''Extracting array buffer for type '', Str ''string''])
      else if buffer_size ty buf \<noteq> nbytes
      then Inl (Invalid [Str ''Result buffer of '', Num (int (buffer_size ty buf)), Str '' bytes does not contain the'',
                         Str '' expected number of bytes '', Num (int nbytes)])
      else Inr (ty, buf))"
| "result_values (Lists k offsets valid vals) nbytes = result_values vals nbytes"
| "result_values (FixedLists list_size n off valid vals) nbytes = result_values vals nbytes"
| "result_values (Unsupported ty) nbytes = Inl (NotImplemented [Str ''Extracting array buffer for type '', Str ty])"

definition GetResultBuffer :: "'v arrow option \<Rightarrow> nat \<Rightarrow> (value_type \<times> 'v list) result" where
  "GetResultBuffer result nbytes =
     (case result of None \<Rightarrow> Inl (Invalid [Str ''Result array is null'']) | Some arr \<Rightarrow> result_values arr nbytes)"

definition GetResultBufferOrAllocate ::
  "('t, 'v, 'a) access \<Rightarrow> nat \<Rightarrow> casa_dtype \<Rightarrow> 'v arrow option \<Rightarrow> 'a list result" where
  "GetResultBufferOrAllocate A nelements dt result =
     rbind (CasaDataTypeSize (sizeof_String A) dt) (\<lambda>casa_type_size.
     let nbytes = nelements * casa_type_size
     in if result \<noteq> None then
          rbind (GetResultBuffer result nbytes) (\<lambda>(ty, buf). Inr (casa_view A dt ty buf))
        else let alignment = GetSafeAlignment (default_alignment A) casa_type_size
          in rbind (allocate A dt nelements alignment) (\<lambda>buffer.
             if IsPrimitiveType (numeric A) dt then Inr buffer
             else if dt = TpString then Inr (replicate (length buffer) (empty_String A))
             else Inl (TypeError [Str ''Unhandled CASA type''])))"

section \<open>The buffer of a write\<close>

text \<open>\<open>data()->buffers[1]\<close>: the whole buffer of values, whatever the offset and length of the array.\<close>

fun value_buffer :: "'v arrow \<Rightarrow> (value_type \<times> 'v list) result" where
  "value_buffer (Values ty buf off n) = Inr (ty, buf)"
| "value_buffer arr = Inl (Undefined ''no buffer of values'')"

text \<open>\<open>GetView(i)\<close> for every \<open>i\<close> below the length.\<close>

fun string_views :: "'v arrow \<Rightarrow> 'v list result" where
  "string_views (Values ty buf off n) =
     (if ty = Value_type utf8 then Inr (take n (drop off buf)) else Inl (Invalid [Str ''Cast to StringArray'']))"
| "string_views arr = Inl (Invalid [Str ''Cast to StringArray''])"

fun array_type :: "'v arrow \<Rightarrow> value_type option" where
  "array_type (Values ty buf off n) = Some ty"
| "array_type arr = None"

definition ExtractBufferOrCopyValues :: "('t, 'v, 'a) access \<Rightarrow> 'v arrow \<Rightarrow> casa_dtype \<Rightarrow> 'a list result" where
  "ExtractBufferOrCopyValues A flat dt =
     (if IsPrimitiveType (numeric A) dt then
        rbind (ArrowDataType dt) (\<lambda>adt.
        if array_type flat = Some (Value_type adt) then
          rbind (value_buffer flat) (\<lambda>(ty, buf). Inr (casa_view A dt ty buf))
        else rbind (cast A flat adt) (\<lambda>arr. rbind (value_buffer arr) (\<lambda>(ty, buf). Inr (casa_view A dt ty buf))))
      else if dt = TpString then
        rbind (string_views flat) (\<lambda>views. Inr (casa_view A dt (Value_type utf8) views))
      else Inl (TypeError [Str ''Unhandled CASA type'']))"

section \<open>Writing a column\<close>

text \<open>
  The partition and the buffer of a write, from the shape of the data. The task of \<open>WriteImpl\<close>
  changes the table: it may reopen it, \<open>MakeWrite\<close> may give rows a shape, then the chunks are written.
\<close>

definition write_buffer ::
  "('t, 'v, 'a) access \<Rightarrow> selection \<Rightarrow> 'v arrow \<Rightarrow> ResultShapeData \<Rightarrow> (DataPartition \<times> 'a list) result" where
  "write_buffer A sel data d =
     rbind (Make (sizeof_String A) sel d no_split) (\<lambda>p.
     let casa_dtype = dp_dtype p;
         nelements = (if is_complex casa_dtype then 2 * PartitionElements p else PartitionElements p)
     in rbind (GetFlatArray False data) (\<lambda>flat.
        rbind (require (array_length flat = nelements)
          (Invalid [Str ''Partition elements '', Num (int nelements), Str '' don'', Str [CHR 0x27],
                    Str ''t match flat array elements '', Num (int (array_length flat))])) (\<lambda>_.
        rbind (ExtractBufferOrCopyValues A flat casa_dtype) (\<lambda>buffer. Inr (p, buffer)))))"

definition write_task ::
  "('t, 'v, 'a) access \<Rightarrow> string \<Rightarrow> 'v arrow option \<Rightarrow> selection \<Rightarrow> 't \<Rightarrow> bool result \<times> 't" where
  "write_task A column data sel t =
     (let t = (if is_writable A t then t else reopenRW A t)
      in case ColumnExists (column_names A t) column of
           Inl e \<Rightarrow> (Inl e, t)
         | Inr _ \<Rightarrow>
             (case MakeWrite (column_of A column) (set_cell_shape A column) t data sel of
                (Inl e, t') \<Rightarrow> (Inl e, t')
              | (Inr d, t') \<Rightarrow>
                  (case write_buffer A sel (the data) d of
                     Inl e \<Rightarrow> (Inl e, t')
                   | Inr (p, buffer) \<Rightarrow>
                       (case WriteChunks (sizeof_String A) (writer_of A column) (fresh_value A) (dp_dtype p)
                               (map Some (data_chunks p)) buffer (t', 0) of
                          Inl e \<Rightarrow> (Inl e, t')
                        | Inr (t'', nbytes) \<Rightarrow> (Inr True, t'')))))"

text \<open>\<open>WriteImpl\<close> dereferences the data for the cost of the task before the task checks them.\<close>

definition WriteImpl ::
  "('t, 'v, 'a) access \<Rightarrow> string \<Rightarrow> 'v arrow option \<Rightarrow> selection \<Rightarrow> 't \<Rightarrow> bool result \<times> 't" where
  "WriteImpl A column data sel t =
     (if data = None then (Inl (Undefined ''null pointer''), t) else write_task A column data sel t)"

section \<open>Reading a column\<close>

definition read_shape ::
  "('t, 'v, 'a) access \<Rightarrow> string \<Rightarrow> selection \<Rightarrow> 'v arrow option \<Rightarrow> 't \<Rightarrow> (selection \<times> ResultShapeData) result" where
  "read_shape A column sel result t =
     (let col = column_of A column t
      in if result \<noteq> None then rbind (FromArray col result) (\<lambda>d. NegateMissingSelectedRows d col sel)
         else rbind (MakeRead col sel False) (\<lambda>d. Inr (sel, d)))"

definition kMinSplitBytes :: nat where
  "kMinSplitBytes = 8 * 1024 * 1024"

definition read_partition ::
  "('t, 'v, 'a) access \<Rightarrow> nat \<Rightarrow> string \<Rightarrow> selection \<Rightarrow> 'v arrow option \<Rightarrow> 't \<Rightarrow> (DataPartition \<times> ResultShapeData) result" where
  "read_partition A ninstances column sel result t =
     rbind (ColumnExists (column_names A t) column) (\<lambda>_.
     rbind (read_shape A column sel result t) (\<lambda>(sel', d).
     let row_split = \<lparr>max_splits = ninstances, min_bytes = kMinSplitBytes,
                      unit_start = (if 1 < ninstances then MakeRowUnitStart (storage_of A column t) else None)\<rparr>
     in rbind (Make (sizeof_String A) sel' d row_split) (\<lambda>p. Inr (p, d))))"

definition array_of ::
  "('t, 'v, 'a) access \<Rightarrow> locator \<Rightarrow> ResultShapeData \<Rightarrow> 'a list \<Rightarrow> 'v arrow result \<times> locator" where
  "array_of A loc d buffer = MakeArray (fixed_lists_of A) (list_array_of A) (numeric A) (arrow_values A) loc d buffer"

text \<open>The tasks that read the groups of chunks, each with its cost in bytes.\<close>

definition read_tasks :: "DataChunk list \<Rightarrow> nat \<Rightarrow> nat \<Rightarrow> (int \<times> DataChunk list) list" where
  "read_tasks chunks ninstances dtype_size =
     map (\<lambda>group. (int (sum_list (map (\<lambda>ch. ChunkElements ch * dtype_size) group)), group)) (chunk_groups chunks ninstances)"

text \<open>
  The tasks run in any order: \<open>order n\<close> lists the numbers of \<open>n\<close> tasks, and \<open>table_at g\<close> is the table of the
  instance that runs task \<open>g\<close>. They share the buffer. A task that fails leaves it as it is in the
  model, since the result of the read is then the failure.
\<close>

fun run_reads ::
  "('t, 'v, 'a) access \<Rightarrow> string \<Rightarrow> casa_dtype \<Rightarrow> (int \<times> DataChunk list) list \<Rightarrow> (nat \<Rightarrow> 't) \<Rightarrow> nat list \<Rightarrow> 'a list \<Rightarrow>
   (nat \<Rightarrow> unit result) \<Rightarrow> 'a list \<times> (nat \<Rightarrow> unit result)" where
  "run_reads A column dt tasks table_at [] buffer reads = (buffer, reads)"
| "run_reads A column dt tasks table_at (g # gs) buffer reads =
     (case ReadChunks (sizeof_String A) (reader_of A column (table_at g)) dt (map Some (snd (tasks ! g))) (buffer, 0) of
        Inl e \<Rightarrow> run_reads A column dt tasks table_at gs buffer (reads(g := Inl e))
      | Inr (buffer', nbytes) \<Rightarrow> run_reads A column dt tasks table_at gs buffer' (reads(g := Inr ())))"

definition fan_out_read ::
  "('t, 'v, 'a) access \<Rightarrow> nat \<Rightarrow> string \<Rightarrow> 'v arrow option \<Rightarrow> (nat \<Rightarrow> 't) \<Rightarrow> (nat \<Rightarrow> nat list) \<Rightarrow> DataPartition \<Rightarrow> 'a list result" where
  "fan_out_read A ninstances column result table_at order p =
     rbind (GetResultBufferOrAllocate A (PartitionElements p) (dp_dtype p) result) (\<lambda>buffer.
     rbind (CasaDataTypeSize (sizeof_String A) (dp_dtype p)) (\<lambda>dtype_size.
     let tasks = read_tasks (data_chunks p) ninstances dtype_size
     in case run_reads A column (dp_dtype p) tasks table_at (order (length tasks)) buffer (\<lambda>g. Inr ()) of
          (buffer', reads) \<Rightarrow> rbind (rfor reads [0..<length tasks]) (\<lambda>_. Inr buffer')))"

definition single_read ::
  "('t, 'v, 'a) access \<Rightarrow> string \<Rightarrow> 'v arrow option \<Rightarrow> 't \<Rightarrow> DataPartition \<Rightarrow> 'a list result" where
  "single_read A column result t p =
     rbind (GetResultBufferOrAllocate A (PartitionElements p) (dp_dtype p) result) (\<lambda>buffer.
     rbind (ReadChunks (sizeof_String A) (reader_of A column t) (dp_dtype p) (map Some (data_chunks p)) (buffer, 0))
       (\<lambda>(buffer', nbytes). Inr buffer'))"

text \<open>\<open>t\<close> is the table of the instance that partitions the read, and reads it unless the read is spread.\<close>

definition ReadImpl ::
  "('t, 'v, 'a) access \<Rightarrow> nat \<Rightarrow> string \<Rightarrow> selection \<Rightarrow> 'v arrow option \<Rightarrow> 't \<Rightarrow> (nat \<Rightarrow> 't) \<Rightarrow> (nat \<Rightarrow> nat list) \<Rightarrow> locator \<Rightarrow>
   'v arrow result \<times> locator" where
  "ReadImpl A ninstances column sel result t table_at order loc =
     (case rbind (read_partition A ninstances column sel result t) (\<lambda>(p, d).
             rbind (if 1 < ninstances \<and> 1 < nChunks p then fan_out_read A ninstances column result table_at order p
                    else single_read A column result t p) (\<lambda>buffer. Inr (d, buffer))) of
        Inl e \<Rightarrow> (Inl e, loc)
      | Inr (d, buffer) \<Rightarrow> array_of A loc d buffer)"

end
