(* ===== verification/ArrowRoundTrip.thy ===== *)
theory ArrowRoundTrip
  imports ArrowArrays
begin

text \<open>
  The offsets of nested lists are the running sums of the dimensions, and the array made of a
  buffer and a shape has this shape and holds the values of the buffer in order.
\<close>

section \<open>Running offsets\<close>

text \<open>The lengths of the lists at dimension \<open>dim\<close>, over all rows.\<close>

definition level_lengths :: "nat \<Rightarrow> shape list \<Rightarrow> nat list" where
  "level_lengths dim S = concat (map (\<lambda>s. replicate (prod_list (drop (Suc dim) s)) (s ! dim)) S)"

definition offsets_of :: "nat list \<Rightarrow> int list" where
  "offsets_of lens = map (\<lambda>i. wrap_int32 (int (sum_list (take i lens)))) [0..<length lens + 1]"

lemma append_offsets_eq:
  "append_offsets p s running builder =
     (running + p * s, builder @ map (\<lambda>j. wrap_int32 (int (running + Suc j * s))) [0..<p])"
proof (induction p arbitrary: running builder)
  case (Suc p)
  have "map (\<lambda>j. wrap_int32 (int (running + s + Suc j * s))) [0..<p] = map (\<lambda>j. wrap_int32 (int (running + Suc j * s))) [1..<Suc p]"
    by (rule nth_equalityI) (simp_all add: algebra_simps del: upt_Suc)
  then have "wrap_int32 (int (running + s)) # map (\<lambda>j. wrap_int32 (int (running + s + Suc j * s))) [0..<p] =
      map (\<lambda>j. wrap_int32 (int (running + Suc j * s))) [0..<Suc p]"
    by (subst upt_conv_Cons) simp_all
  with Suc [of "running + s"] show ?case by (simp add: algebra_simps)
qed simp

lemma offsets_of_append:
  "offsets_of (xs @ replicate p s) = offsets_of xs @ map (\<lambda>j. wrap_int32 (int (sum_list xs + Suc j * s))) [0..<p]"
proof (rule nth_equalityI)
  fix i assume "i < length (offsets_of (xs @ replicate p s))"
  then have i: "i < length xs + p + 1" by (simp add: offsets_of_def)
  then show "offsets_of (xs @ replicate p s) ! i =
      (offsets_of xs @ map (\<lambda>j. wrap_int32 (int (sum_list xs + Suc j * s))) [0..<p]) ! i"
  proof (cases "i < length xs + 1")
    case False
    then obtain j where j: "i = length xs + 1 + j" by (metis le_Suc_ex linorder_not_less)
    with i have "j < p" by simp
    with j show ?thesis
      by (simp add: offsets_of_def nth_append sum_list_replicate min_def algebra_simps del: upt_Suc)
  qed (simp add: offsets_of_def nth_append del: upt_Suc)
qed (simp add: offsets_of_def)

definition row_offsets_added :: "shape \<Rightarrow> nat \<Rightarrow> nat list \<times> int list list \<Rightarrow> nat list \<times> int list list \<Rightarrow> bool" where
  "row_offsets_added s n st st' \<longleftrightarrow>
     length (fst st') = length (fst st) \<and> length (snd st') = length (snd st) \<and>
     (\<forall>dim < length (fst st).
        (fst st' ! dim, snd st' ! dim) =
        (if dim < n then append_offsets (prod_list (drop (Suc dim) s)) (s ! dim) (fst st ! dim) (snd st ! dim)
         else (fst st ! dim, snd st ! dim)))"

lemma offset_dims_eq:
  assumes "n \<le> length s" and "\<forall>dim < n. f dim = Inr (s ! dim)" and "n \<le> length (fst st)" and "length (snd st) = length (fst st)"
  shows "\<exists>st'. offset_dims f (rev [0..<n]) (prod_list (drop n s)) st = Inr st' \<and> row_offsets_added s n st st'"
  using assms
proof (induction n arbitrary: st)
  case 0
  then show ?case by (simp add: row_offsets_added_def)
next
  case (Suc n)
  obtain running builders where st: "st = (running, builders)" by (cases st)
  obtain r b where rb: "append_offsets (prod_list (drop (Suc n) s)) (s ! n) (running ! n) (builders ! n) = (r, b)" by fastforce
  let ?st = "(running[n := r], builders[n := b])"
  from Suc have "\<exists>st'. offset_dims f (rev [0..<n]) (prod_list (drop n s)) ?st = Inr st' \<and> row_offsets_added s n ?st st'"
    by (intro Suc.IH) (auto simp: st)
  then obtain st' where st': "offset_dims f (rev [0..<n]) (prod_list (drop n s)) ?st = Inr st'" "row_offsets_added s n ?st st'" by blast
  have "prod_list (drop n s) = prod_list (drop (Suc n) s) * s ! n"
    using Suc.prems(1) by (simp add: Cons_nth_drop_Suc [symmetric])
  then have "offset_dims f (rev [0..<Suc n]) (prod_list (drop (Suc n) s)) st = Inr st'"
    using st'(1) Suc.prems(2) rb by (simp add: st)
  moreover have "row_offsets_added s (Suc n) st st'"
    using st'(2) rb Suc.prems(3,4) by (auto simp: row_offsets_added_def st less_Suc_eq)
  ultimately show ?case by blast
qed

text \<open>The shapes of the rows as the loop sees them: a missing row has dimensions of zero.\<close>

definition running_inv :: "nat \<Rightarrow> shape list \<Rightarrow> nat list \<times> int list list \<Rightarrow> bool" where
  "running_inv k S st \<longleftrightarrow> length (fst st) = k \<and> length (snd st) = k \<and>
     (\<forall>dim < k. fst st ! dim = sum_list (level_lengths dim S) \<and> snd st ! dim = offsets_of (level_lengths dim S))"

lemma running_inv_add:
  assumes "running_inv k S st" and "row_offsets_added s k st st'"
  shows "running_inv k (S @ [s]) st'"
  using assms
  by (auto simp: running_inv_def row_offsets_added_def append_offsets_eq level_lengths_def offsets_of_append sum_list_replicate)

lemma offset_rows_eq:
  assumes "\<forall>i < length S'. length (S' ! i) = k \<and> (\<forall>dim < k. f (rows ! i) dim = Inr (S' ! i ! dim))" and "length rows = length S'"
    and "running_inv k S st"
  shows "\<exists>st'. offset_rows f k rows st = Inr st' \<and> running_inv k (S @ S') st'"
  using assms
proof (induction rows arbitrary: S S' st)
  case (Cons row rows)
  then obtain s S1 where S': "S' = s # S1" by (cases S') auto
  have s: "length s = k" "\<forall>dim < k. f row dim = Inr (s ! dim)" using Cons.prems(1) by (force simp: S')+
  have "\<exists>st1. offset_dims (f row) (rev [0..<k]) (prod_list (drop k s)) st = Inr st1 \<and> row_offsets_added s k st st1"
    using s Cons.prems(3) by (intro offset_dims_eq) (auto simp: running_inv_def)
  then obtain st1 where st1: "offset_dims (f row) (rev [0..<k]) 1 st = Inr st1" "row_offsets_added s k st st1" using s(1) by auto
  have "\<exists>st'. offset_rows f k rows st1 = Inr st' \<and> running_inv k ((S @ [s]) @ S1) st'"
    using Cons.prems(1,2) running_inv_add [OF Cons.prems(3) st1(2)] by (intro Cons.IH) (force simp: S')+
  with st1 show ?case by (simp add: S')
qed simp

text \<open>The shapes of the rows of a result, with missing rows as zeros.\<close>

definition padded_rows :: "nat \<Rightarrow> ResultShapeData \<Rightarrow> shape list" where
  "padded_rows k d = map (\<lambda>s. if s = [] then replicate k 0 else s) (rows_of d)"

lemma GetOffsets_eq:
  assumes "rs_ndim d = int k + 1" and "case rs_shape d of Some sh \<Rightarrow> length sh = Suc k | None \<Rightarrow> \<forall>s \<in> set (rows_of d). s = [] \<or> length s = k"
  shows "GetOffsets d = Inr (map (\<lambda>dim. offsets_of (level_lengths dim (padded_rows k d))) [0..<k])"
proof -
  let ?f = "case rs_shape d of
      None \<Rightarrow> (\<lambda>row dim. let sh = GetRowShape d row in if IsDegenerateShape sh then Inr 0 else at sh dim)
    | Some sh \<Rightarrow> (\<lambda>row dim. at sh dim)"
  let ?S = "padded_rows k d"
  have l: "length ?S = nRows d" by (simp add: padded_rows_def length_rows_of)
  have rows: "\<forall>i < length ?S. length (?S ! i) = k \<and> (\<forall>dim < k. ?f ([0..<nRows d] ! i) dim = Inr (?S ! i ! dim))"
  proof (cases "rs_shape d")
    case None
    with assms(2) show ?thesis
      by (auto simp: padded_rows_def rows_of_def nRows_def GetRowShape_def IsDegenerateShape_def Let_def)
  next
    case (Some sh)
    with assms(2) have "butlast sh = [] \<longrightarrow> k = 0" by (cases sh rule: rev_cases) auto
    with Some assms(2) show ?thesis by (auto simp: padded_rows_def rows_of_def nRows_def nth_butlast)
  qed
  have start: "running_inv k [] (replicate k 0, replicate k [0])"
    by (simp add: running_inv_def level_lengths_def offsets_of_def wrap_int32_def)
  have "length [0..<nRows d] = length ?S" using l by simp
  from offset_rows_eq [OF rows this start] obtain st' where
    "offset_rows ?f k [0..<nRows d] (replicate k 0, replicate k [0]) = Inr st'" "running_inv k ?S st'" by auto
  moreover from this(2) have "snd st' = map (\<lambda>dim. offsets_of (level_lengths dim ?S)) [0..<k]"
    by (intro nth_equalityI) (auto simp: running_inv_def)
  ultimately show ?thesis
    using assms(1) by (cases st') (simp add: GetOffsets_def ConsistentNDim_def nat_add_distrib)
qed

section \<open>Reading lists of offsets\<close>

text \<open>Where the blocks of row \<open>r\<close> start among those made of the dimensions from \<open>dim\<close> on.\<close>

definition base :: "nat \<Rightarrow> shape list \<Rightarrow> nat \<Rightarrow> nat" where
  "base dim S r = sum_list (map (\<lambda>s. prod_list (drop dim s)) (take r S))"

lemma base_Suc: "r < length S \<Longrightarrow> base dim S (Suc r) = base dim S r + prod_list (drop dim (S ! r))"
  by (simp add: base_def take_Suc_conv_app_nth)

lemma length_level_lengths: "length (level_lengths dim S) = base (Suc dim) S (length S)"
  by (induction S) (auto simp: level_lengths_def base_def)

lemma sum_level_lengths: "\<forall>s \<in> set S. dim < length s \<Longrightarrow> sum_list (level_lengths dim S) = base dim S (length S)"
  by (induction S) (auto simp: level_lengths_def base_def sum_list_replicate Cons_nth_drop_Suc [symmetric])

lemma base_mono: "r \<le> length S \<Longrightarrow> base dim S r \<le> base dim S (length S)"
proof -
  assume "r \<le> length S"
  have "base dim S (length S) = base dim S r + sum_list (map (\<lambda>s. prod_list (drop dim s)) (drop r S))"
    unfolding base_def take_all [OF order_refl] by (metis append_take_drop_id map_append sum_list_append)
  then show ?thesis by simp
qed

lemma take_level_lengths:
  assumes "r < length S" and "j \<le> prod_list (drop (Suc dim) (S ! r))" and "\<forall>s \<in> set S. dim < length s"
  shows "sum_list (take (base (Suc dim) S r + j) (level_lengths dim S)) = base dim S r + j * S ! r ! dim"
  using assms
proof (induction S arbitrary: r)
  case (Cons s S)
  show ?case
  proof (cases r)
    case 0
    with Cons.prems show ?thesis by (simp add: base_def level_lengths_def sum_list_replicate min_def)
  next
    case (Suc r')
    have "prod_list (drop dim s) = prod_list (drop (Suc dim) s) * s ! dim"
      using Cons.prems(3) by (simp add: Cons_nth_drop_Suc [symmetric])
    moreover have "base (Suc dim) (s # S) (Suc r') = prod_list (drop (Suc dim) s) + base (Suc dim) S r'"
      "base dim (s # S) (Suc r') = prod_list (drop dim s) + base dim S r'" by (simp_all add: base_def)
    moreover have "level_lengths dim (s # S) = replicate (prod_list (drop (Suc dim) s)) (s ! dim) @ level_lengths dim S"
      by (simp add: level_lengths_def)
    ultimately show ?thesis
      using Cons.IH [of r'] Cons.prems Suc by (simp add: sum_list_replicate add.assoc)
  qed
qed simp

text \<open>Rows whose dimensions are positive and whose elements can be counted in 31 bits.\<close>

definition small_rows :: "nat \<Rightarrow> shape list \<Rightarrow> bool" where
  "small_rows k S \<longleftrightarrow> S \<noteq> [] \<and> (\<forall>s \<in> set S. length s = k \<and> 0 \<notin> set s) \<and> sum_list (map prod_list S) < 2 ^ 31"

lemma drop_pos: "0 \<notin> set s \<Longrightarrow> 0 < prod_list (drop dim (s :: nat list))"
  by (metis in_set_dropD prod_list_pos)

lemma drop_le: "0 \<notin> set s \<Longrightarrow> prod_list (drop dim (s :: nat list)) \<le> prod_list s"
proof -
  assume "0 \<notin> set s"
  then have "1 \<le> prod_list (take dim s)" by (metis One_nat_def Suc_leI in_set_takeD prod_list_pos)
  then have "1 * prod_list (drop dim s) \<le> prod_list (take dim s) * prod_list (drop dim s)" by (rule mult_le_mono1)
  then show ?thesis by (metis append_take_drop_id mult_1 prod_list.append)
qed

lemma base_less:
  assumes "small_rows k S" and "r \<le> length S"
  shows "base dim S r < 2 ^ 31"
proof -
  have "base dim S (length S) \<le> sum_list (map prod_list S)"
    unfolding base_def take_all [OF order_refl] using assms(1)
    by (intro sum_list_mono) (auto simp: small_rows_def intro: drop_le)
  with base_mono [OF assms(2), of dim] assms(1) show ?thesis by (simp add: small_rows_def)
qed

lemma wrap_int32_nat: "n < 2 ^ 31 \<Longrightarrow> wrap_int32 (int n) = int n"
  by (rule wrap_int32_id) simp_all

lemma at_offsets:
  assumes "small_rows k S" and "dim < k" and "r < length S" and "j \<le> prod_list (drop (Suc dim) (S ! r))"
  shows "at_int (offsets_of (level_lengths dim S)) (int (base (Suc dim) S r + j)) = Inr (int (base dim S r + j * S ! r ! dim))"
proof -
  have lens: "\<forall>s \<in> set S. dim < length s" using assms(1,2) by (simp add: small_rows_def)
  note t = take_level_lengths [OF assms(3,4) lens]
  have "base (Suc dim) S r + j \<le> base (Suc dim) S (Suc r)" using assms(3,4) by (simp add: base_Suc)
  also have "\<dots> \<le> base (Suc dim) S (length S)" using assms(3) by (intro base_mono) simp
  finally have i: "base (Suc dim) S r + j < length (level_lengths dim S) + 1" by (simp add: length_level_lengths)
  have "j * S ! r ! dim \<le> prod_list (drop dim (S ! r))"
    using assms(3,4) lens by (simp add: Cons_nth_drop_Suc [symmetric] mult.commute)
  then have "base dim S r + j * S ! r ! dim \<le> base dim S (Suc r)" using assms(3) by (simp add: base_Suc)
  also have "\<dots> < 2 ^ 31" using assms(1,3) by (intro base_less) auto
  finally have b: "base dim S r + j * S ! r ! dim < 2 ^ 31" .
  have "offsets_of (level_lengths dim S) ! (base (Suc dim) S r + j) = wrap_int32 (int (base dim S r + j * S ! r ! dim))"
    using i t by (simp add: offsets_of_def del: upt_Suc)
  also have "\<dots> = int (base dim S r + j * S ! r ! dim)" by (rule wrap_int32_nat [OF b])
  finally show ?thesis using i by (simp add: at_int_def offsets_of_def nat_add_distrib)
qed

section \<open>Nested lists\<close>

definition nest_lists :: "nat \<Rightarrow> shape list \<Rightarrow> 'v arrow \<Rightarrow> 'v arrow" where
  "nest_lists n S leaf = fold (\<lambda>offsets. Lists List32 offsets None) (map (\<lambda>dim. offsets_of (level_lengths dim S)) [0..<n]) leaf"

lemma nest_lists_Suc: "nest_lists (Suc n) S leaf = Lists List32 (offsets_of (level_lengths n S)) None (nest_lists n S leaf)"
  by (simp add: nest_lists_def)

text \<open>What the innermost array, values or pairs, adds to a shape.\<close>

definition leaf_ok :: "'v arrow \<Rightarrow> shape list \<Rightarrow> shape \<Rightarrow> bool" where
  "leaf_ok leaf S tail \<longleftrightarrow>
     array_length leaf = base 0 S (length S) \<and>
     (\<forall>r dims. r < length S \<longrightarrow> row_shape_loop r leaf (int (base 0 S r)) (int (base 0 S (Suc r))) dims = Inr (dims @ tail)) \<and>
     (\<forall>fixed sh nd. arrow_shape_loop leaf (fixed, sh, nd) = Inr (fixed, if fixed then sh @ tail else sh, nd + length tail))"

lemma value_length_offsets:
  assumes "small_rows k S" and "dim < k" and "r < length S" and "j < prod_list (drop (Suc dim) (S ! r))"
  shows "value_length (Lists kind (offsets_of (level_lengths dim S)) valid vals) (int (base (Suc dim) S r + j)) = Inr (S ! r ! dim)"
proof -
  have "int (base (Suc dim) S r + j) + 1 = int (base (Suc dim) S r + Suc j)" by simp
  then show ?thesis
    using at_offsets [OF assms(1-3), of j] at_offsets [OF assms(1-3), of "Suc j"] assms(4)
    by (simp add: nonnegative_def algebra_simps)
qed

lemma SetRowShape_offsets:
  assumes "small_rows k S" and "dim < k" and "r < length S"
  shows "SetRowShape (Lists kind (offsets_of (level_lengths dim S)) None vals) r
      (int (base (Suc dim) S r)) (int (base (Suc dim) S (Suc r))) dims =
    Inr (dims @ [S ! r ! dim], int (base dim S r), int (base dim S (Suc r)))"
proof -
  let ?arr = "Lists kind (offsets_of (level_lengths dim S)) None vals"
  let ?p = "prod_list (drop (Suc dim) (S ! r))"
  have s: "length (S ! r) = k" "0 \<notin> set (S ! r)" using assms(1,3) by (auto simp: small_rows_def)
  have p: "0 < ?p" by (rule drop_pos [OF s(2)])
  have past: "base (Suc dim) S (Suc r) = base (Suc dim) S r + ?p" by (rule base_Suc [OF assms(3)])
  note vl = value_length_offsets [OF assms, of _ kind None vals]
  have "value_length ?arr (int (base (Suc dim) S r)) = Inr (S ! r ! dim)" using vl [of 0] p by simp
  moreover have "rfor (\<lambda>i. rbind (value_length ?arr i) (\<lambda>n. require (S ! r ! dim = n) e))
      [int (base (Suc dim) S r) + 1..int (base (Suc dim) S (Suc r)) - 1] = Inr ()" for e
    unfolding rfor_Inr_conv
  proof
    fix i assume "i \<in> set [int (base (Suc dim) S r) + 1..int (base (Suc dim) S (Suc r)) - 1]"
    then obtain j where "i = int (base (Suc dim) S r + j)" "j < ?p"
      using past by (intro that [of "nat (i - int (base (Suc dim) S r))"]) auto
    then show "rbind (value_length ?arr i) (\<lambda>n. require (S ! r ! dim = n) e) = Inr ()" using vl by simp
  qed
  moreover have "value_offset ?arr (int (base (Suc dim) S r)) = Inr (int (base dim S r))"
    using at_offsets [OF assms, of 0] by simp
  moreover have "?p * S ! r ! dim = prod_list (drop dim (S ! r))"
    using s assms(2) by (simp add: Cons_nth_drop_Suc [symmetric])
  then have "value_offset ?arr (int (base (Suc dim) S (Suc r))) = Inr (int (base dim S (Suc r)))"
    using at_offsets [OF assms, of ?p] assms(3) by (simp add: past base_Suc)
  ultimately show ?thesis by (simp add: SetRowShape_def)
qed

lemma row_shape_nest:
  assumes "small_rows k S" and "leaf_ok leaf S tail" and "r < length S" and "n \<le> k"
  shows "row_shape_loop r (nest_lists n S leaf) (int (base n S r)) (int (base n S (Suc r))) dims =
    Inr (dims @ rev (take n (S ! r)) @ tail)"
  using assms(4)
proof (induction n arbitrary: dims)
  case 0
  then show ?case using assms(2,3) by (simp add: nest_lists_def leaf_ok_def)
next
  case (Suc n)
  have "length (S ! r) = k" using assms(1,3) by (simp add: small_rows_def)
  then have "take (Suc n) (S ! r) = take n (S ! r) @ [S ! r ! n]" using Suc.prems by (simp add: take_Suc_conv_app_nth)
  with Suc SetRowShape_offsets [OF assms(1) _ assms(3), of n List32 "nest_lists n S leaf" dims]
  show ?case by (simp add: nest_lists_Suc)
qed

lemma lengths_agree_eq:
  "\<forall>i \<in> set is. \<exists>n. value_length arr (int i) = Inr n \<Longrightarrow>
     lengths_agree arr m is = Inr (\<forall>i \<in> set is. value_length arr (int i) = Inr m)"
  by (induction "is") (auto simp: rbind_Inr_conv)

lemma block_of:
  assumes "i < base dim S (length S)"
  shows "\<exists>r j. r < length S \<and> j < prod_list (drop dim (S ! r)) \<and> i = base dim S r + j"
  using assms
proof (induction S rule: rev_induct)
  case (snoc s S)
  show ?case
  proof (cases "i < base dim S (length S)")
    case True
    with snoc obtain r j where "r < length S" "j < prod_list (drop dim (S ! r))" "i = base dim S r + j" by blast
    then show ?thesis by (intro exI [of _ r] exI [of _ j]) (simp add: nth_append base_def)
  next
    case False
    with snoc.prems show ?thesis
      by (intro exI [of _ "length S"] exI [of _ "i - base dim S (length S)"]) (auto simp: base_def)
  qed
qed (simp add: base_def)

lemma arrow_shape_nest:
  assumes "small_rows k S" and "leaf_ok leaf S tail" and "n \<le> k"
  shows "\<exists>fixed' sh'. arrow_shape_loop (nest_lists n S leaf) (fixed, sh, nd) = Inr (fixed', sh', nd + n + length tail) \<and>
    (fixed' \<longrightarrow> fixed \<and> (\<exists>cs. length cs = n \<and> sh' = sh @ rev cs @ tail \<and> (\<forall>s \<in> set S. take n s = cs)))"
  using assms(3)
proof (induction n arbitrary: fixed sh nd)
  case 0
  then show ?case using assms(2) by (auto simp: nest_lists_def leaf_ok_def)
next
  case (Suc n)
  let ?arr = "Lists List32 (offsets_of (level_lengths n S)) None (nest_lists n S leaf)"
  have S: "S \<noteq> []" "\<forall>s \<in> set S. length s = k \<and> 0 \<notin> set s" using assms(1) by (auto simp: small_rows_def)
  note vl = value_length_offsets [OF assms(1), of n _ _ List32 None "nest_lists n S leaf"]
  have v0: "value_length ?arr 0 = Inr (S ! 0 ! n)"
    using vl [of 0 0] S Suc.prems drop_pos [of "S ! 0" "Suc n"] by (simp add: base_def)
  have alen: "array_length ?arr = base (Suc n) S (length S)" by (simp add: offsets_of_def length_level_lengths)
  have ex: "\<forall>i \<in> set [0..<array_length ?arr]. \<exists>m. value_length ?arr (int i) = Inr m"
  proof
    fix i assume "i \<in> set [0..<array_length ?arr]"
    then have "i < base (Suc n) S (length S)" unfolding alen by simp
    from block_of [OF this] vl Suc.prems show "\<exists>m. value_length ?arr (int i) = Inr m" by fastforce
  qed
  let ?agree = "\<forall>i \<in> set [0..<array_length ?arr]. value_length ?arr (int i) = Inr (S ! 0 ! n)"
  have upd: "MaybeUpdateShapeAndNdim ?arr (fixed, sh, nd) =
      Inr (if fixed \<and> ?agree then (True, sh @ [S ! 0 ! n], nd + 1) else (False, sh, nd + 1))"
    using lengths_agree_eq [OF ex, of "S ! 0 ! n"] v0 by (simp add: MaybeUpdateShapeAndNdim_def del: value_length.simps)
  have agree: "s ! n = S ! 0 ! n" if a: ?agree and s: "s \<in> set S" for s
  proof -
    obtain r where r: "r < length S" "s = S ! r" using s by (auto simp: in_set_conv_nth)
    have pos: "0 < prod_list (drop (Suc n) (S ! r))" using S r by (intro drop_pos) auto
    have "base (Suc n) S r < base (Suc n) S (Suc r)" using pos r by (simp add: base_Suc)
    also have "\<dots> \<le> array_length ?arr" unfolding alen using r by (intro base_mono) simp
    finally have "value_length ?arr (int (base (Suc n) S r)) = Inr (S ! 0 ! n)" using a by simp
    moreover have "value_length ?arr (int (base (Suc n) S r)) = Inr (S ! r ! n)" using vl [of r 0] pos r Suc.prems by simp
    ultimately show ?thesis using r by simp
  qed
  show ?case
  proof (cases "fixed \<and> ?agree")
    case True
    from Suc.IH [of True "sh @ [S ! 0 ! n]" "nd + 1"] Suc.prems obtain f' sh' where
      r: "arrow_shape_loop (nest_lists n S leaf) (True, sh @ [S ! 0 ! n], nd + 1) = Inr (f', sh', nd + 1 + n + length tail)"
      and cs: "f' \<longrightarrow> (\<exists>cs. length cs = n \<and> sh' = (sh @ [S ! 0 ! n]) @ rev cs @ tail \<and> (\<forall>s \<in> set S. take n s = cs))" by auto
    have take: "take (Suc n) s = cs @ [S ! 0 ! n]" if "s \<in> set S" "take n s = cs" for s cs
      using that agree [OF _ that(1)] True S Suc.prems by (simp add: take_Suc_conv_app_nth)
    have "\<exists>cs. length cs = Suc n \<and> sh' = sh @ rev cs @ tail \<and> (\<forall>s \<in> set S. take (Suc n) s = cs)" if f'
    proof -
      from cs that obtain cs where "length cs = n" "sh' = (sh @ [S ! 0 ! n]) @ rev cs @ tail" "\<forall>s \<in> set S. take n s = cs" by blast
      then show ?thesis using take by (intro exI [of _ "cs @ [S ! 0 ! n]"]) simp
    qed
    with True have "f' \<longrightarrow> fixed \<and> (\<exists>cs. length cs = Suc n \<and> sh' = sh @ rev cs @ tail \<and> (\<forall>s \<in> set S. take (Suc n) s = cs))"
      by blast
    with r upd True show ?thesis by (simp add: nest_lists_Suc)
  next
    case False
    from Suc.IH [of False sh "nd + 1"] Suc.prems obtain sh' where
      "arrow_shape_loop (nest_lists n S leaf) (False, sh, nd + 1) = Inr (False, sh', nd + 1 + n + length tail)" by auto
    with upd False show ?thesis by (auto simp: nest_lists_Suc)
  qed
qed

section \<open>The innermost arrays\<close>

lemma leaf_Values: "n = base 0 S (length S) \<Longrightarrow> leaf_ok (Values ty buf off n) S []"
  by (simp add: leaf_ok_def)

lemma base_strict: "small_rows k S \<Longrightarrow> r < length S \<Longrightarrow> base dim S r < base dim S (Suc r)"
  using drop_pos [of "S ! r" dim] by (auto simp: base_Suc small_rows_def)

lemma leaf_pairs:
  assumes "small_rows k S" and "null_count leaf = 0" and "array_length leaf = base 0 S (length S)"
    and "\<And>i. i < base 0 S (length S) \<Longrightarrow> value_length leaf (int i) = Inr 2"
    and "\<And>i. i \<le> base 0 S (length S) \<Longrightarrow> \<exists>x. value_offset leaf (int i) = Inr x"
    and "list_values leaf = Values ty buf off n"
    and "(\<exists>k offsets valid. leaf = Lists k offsets valid (Values ty buf off n)) \<or>
         (\<exists>l m o' valid. leaf = FixedLists l m o' valid (Values ty buf off n))"
  shows "leaf_ok leaf S [2]"
proof -
  have walk: "row_shape_loop r leaf (int (base 0 S r)) (int (base 0 S (Suc r))) dims = Inr (dims @ [2])" if r: "r < length S" for r dims
  proof -
    have le: "base 0 S r < base 0 S (Suc r)" "base 0 S (Suc r) \<le> base 0 S (length S)"
      using base_strict [OF assms(1) r] r by (auto intro: base_mono)
    have v: "value_length leaf (int (base 0 S r)) = Inr 2" using assms(4) [of "base 0 S r"] le by simp
    have loop: "rfor (\<lambda>i. rbind (value_length leaf i) (\<lambda>n. require (2 = n) e))
        [int (base 0 S r) + 1..int (base 0 S (Suc r)) - 1] = Inr ()" for e
      unfolding rfor_Inr_conv
    proof
      fix i assume "i \<in> set [int (base 0 S r) + 1..int (base 0 S (Suc r)) - 1]"
      then obtain j where "i = int j" "j < base 0 S (length S)" using le by (intro that [of "nat i"]) auto
      then show "rbind (value_length leaf i) (\<lambda>n. require (2 = n) e) = Inr ()" using assms(4) [of j] by simp
    qed
    obtain x y where xy: "value_offset leaf (int (base 0 S r)) = Inr x" "value_offset leaf (int (base 0 S (Suc r))) = Inr y"
      using assms(5) [of "base 0 S r"] assms(5) [of "base 0 S (Suc r)"] le by auto
    have "SetRowShape leaf r (int (base 0 S r)) (int (base 0 S (Suc r))) dims = Inr (dims @ [2], x, y)"
      using v loop xy assms(2) by (simp add: SetRowShape_def)
    with assms(7) show ?thesis by auto
  qed
  have "S \<noteq> []" using assms(1) by (simp add: small_rows_def)
  then have "0 < base 0 S (length S)" using base_strict [OF assms(1), of 0 0] base_mono [of "Suc 0" S 0] by (simp add: base_def Suc_le_eq)
  then have v0: "value_length leaf 0 = Inr 2" using assms(4) [of 0] by simp
  have all: "\<forall>i \<in> set [0..<array_length leaf]. value_length leaf (int i) = Inr 2" using assms(3,4) by simp
  have "lengths_agree leaf 2 [0..<array_length leaf] = Inr (\<forall>i \<in> set [0..<array_length leaf]. value_length leaf (int i) = Inr 2)"
    by (rule lengths_agree_eq) (use all in blast)
  also have "(\<forall>i \<in> set [0..<array_length leaf]. value_length leaf (int i) = Inr 2) = True" using all by blast
  finally have "lengths_agree leaf 2 [0..<array_length leaf] = Inr True" .
  then have "MaybeUpdateShapeAndNdim leaf (fixed, sh, nd) = Inr (fixed, if fixed then sh @ [2] else sh, nd + 1)" for fixed sh nd
    using v0 assms(2) by (simp add: MaybeUpdateShapeAndNdim_def)
  then have "arrow_shape_loop leaf (fixed, sh, nd) = Inr (fixed, if fixed then sh @ [2] else sh, nd + length [2 :: nat])" for fixed sh nd
    using assms(7) by auto
  with walk assms(3) show ?thesis by (simp add: leaf_ok_def)
qed

lemma wrap_int32_2: "wrap_int32 2 = 2"
  by (simp add: wrap_int32_def)

text \<open>The array of the values of a result: the leaf of its nesting, with the values in the order of the buffer.\<close>

context list_maker
begin

lemma base_array_leaf:
  assumes "small_rows k S" and "base 0 S (length S) = nElements d" and "2 * nElements d < 2 ^ 31" and "length buffer = nElements d"
    and "\<forall>b \<in> set buffer. length (vals b) = (if is_complex (rs_dtype d) then 2 else 1)"
    and "rs_dtype d = TpString \<or> is_complex (rs_dtype d) \<or> IsPrimitiveType isNumeric (rs_dtype d)"
  shows "\<exists>leaf ty. base_array fixed_lists list_array isNumeric vals strat adt d buffer = Inr leaf \<and>
    leaf_ok leaf S (if is_complex (rs_dtype d) then [2] else []) \<and>
    (\<forall>nulls. GetFlatArray nulls leaf = Inr (Values ty (concat (map vals buffer)) 0 (length (concat (map vals buffer)))))"
proof -
  let ?buf = "concat (map vals buffer)" and ?n = "nElements d"
  have len: "length ?buf = (if is_complex (rs_dtype d) then 2 else 1) * ?n"
    using assms(4,5) by (induction buffer arbitrary: d) (auto simp: length_concat comp_def sum_list_triv cong: map_cong)
  show ?thesis
  proof (cases "is_complex (rs_dtype d)")
    case False
    then have "leaf_ok (Values ty ?buf 0 ?n) S []" for ty using assms(2) by (intro leaf_Values) simp
    with False len assms(6) show ?thesis by (auto simp: base_array_def Let_def MakePrimitiveArray_def)
  next
    case True
    let ?base = "Values (Value_type adt) ?buf 0 (2 * ?n)"
    have notstr: "rs_dtype d \<noteq> TpString" using True by auto
    show ?thesis
    proof (cases strat)
      case FIXED
      let ?leaf = "FixedLists 2 ?n 0 None ?base"
      have mk: "fixed_lists ?base 2 = Inr ?leaf" by (rule fixed_lists) simp_all
      have "leaf_ok ?leaf S [2]"
        by (rule leaf_pairs [OF assms(1)]) (auto simp: assms(2) nonnegative_def)
      with mk True notstr FIXED len show ?thesis by (auto simp: base_array_def Let_def MakePrimitiveArray_def)
    next
      case LIST
      let ?offs = "map (\<lambda>i. wrap_int32 (2 * int i)) [0..<?n + 1]"
      let ?leaf = "Lists List32 ?offs None ?base"
      have at: "at_int ?offs (int i) = Inr (2 * int i)" if "i \<le> ?n" for i
      proof -
        have "wrap_int32 (int (2 * i)) = int (2 * i)" using that assms(3) by (intro wrap_int32_nat) simp
        with that show ?thesis by (simp add: at_int_def del: upt_Suc)
      qed
      have vl: "value_length ?leaf (int i) = Inr 2" if "i < ?n" for i
      proof -
        have e: "int (Suc i) = int i + 1" by simp
        show ?thesis using that at [of i] at [of "Suc i", unfolded e] by (simp add: nonnegative_def del: upt_Suc)
      qed
      have vo: "\<exists>x. value_offset ?leaf (int i) = Inr x" if "i \<le> ?n" for i using at [OF that] by simp
      have "leaf_ok ?leaf S [2]"
        by (rule leaf_pairs [OF assms(1)]) (use vl vo assms(2) in auto)
      with True notstr LIST len show ?thesis by (auto simp: base_array_def Let_def MakePrimitiveArray_def list_array)
    qed
  qed
qed

end

section \<open>The round trip\<close>

lemma base_top: "\<forall>s \<in> set S. length s = k \<Longrightarrow> r \<le> length S \<Longrightarrow> base k S r = r"
proof (induction r)
  case (Suc r)
  then show ?case by (simp add: base_Suc)
qed (simp add: base_def)

lemma array_length_nest:
  assumes "small_rows k S" and "leaf_ok leaf S tail"
  shows "array_length (nest_lists k S leaf) = length S"
proof (cases k)
  case 0
  with assms base_top [of S 0 "length S"] show ?thesis by (simp add: nest_lists_def leaf_ok_def small_rows_def)
next
  case (Suc n)
  with assms base_top [of S k "length S"] show ?thesis
    by (simp add: nest_lists_Suc offsets_of_def length_level_lengths small_rows_def)
qed

text \<open>What an array says of the rows it was made of, before and after pairs are removed.\<close>

definition describes :: "ResultShapeData \<Rightarrow> nat \<Rightarrow> shape list \<Rightarrow> string \<Rightarrow> casa_dtype \<Rightarrow> bool" where
  "describes d k S name dtype \<longleftrightarrow> rs_ndim d = int k + 1 \<and> rows_of d = S \<and> rs_name d = name \<and> rs_dtype d = dtype \<and>
     rs_cell_extents d = None \<and> (\<forall>sh. rs_shape d = Some sh \<longrightarrow> length sh = Suc k)"

lemma GetRowShapes_nest:
  assumes "small_rows k S" and "leaf_ok leaf S tail"
  shows "GetRowShapes (nest_lists k S leaf) = Inr (map (\<lambda>s. rev s @ tail) S)"
proof -
  have lens: "\<forall>s \<in> set S. length s = k" using assms(1) by (simp add: small_rows_def)
  have "row_shape_loop r (nest_lists k S leaf) (int r) (int r + 1) [] = Inr (rev (S ! r) @ tail)" if r: "r < length S" for r
  proof -
    have b: "base k S r = r" "base k S (Suc r) = Suc r" using base_top [OF lens] r by auto
    have e: "int (Suc r) = int r + 1" by simp
    show ?thesis using row_shape_nest [OF assms r order_refl, of "[]", unfolded b e] lens r by simp
  qed
  then have "rmapM (\<lambda>r. row_shape_loop r (nest_lists k S leaf) (int r) (int r + 1) []) [0..<length S] =
      Inr (map (\<lambda>r. rev (S ! r) @ tail) [0..<length S])" by (intro rmapM_map) simp
  moreover have "map (\<lambda>r. rev (S ! r) @ tail) [0..<length S] = map (\<lambda>s. rev s @ tail) S"
    by (rule nth_equalityI) simp_all
  ultimately show ?thesis by (simp add: GetRowShapes_def array_length_nest [OF assms])
qed

lemma GetArrow_nest:
  assumes "small_rows k S" and "leaf_ok leaf S (rev tail)"
  shows "\<exists>d. GetArrowResultShapeData name dtype (Some (nest_lists k S leaf)) = Inr d \<and>
    describes d (k + length tail) (map (\<lambda>s. tail @ s) S) name dtype"
proof -
  have S: "S \<noteq> []" "\<forall>s \<in> set S. length s = k" using assms(1) by (simp_all add: small_rows_def)
  from arrow_shape_nest [OF assms order_refl, of True "[length S]" 1] obtain fixed sh' where
    l: "arrow_shape_loop (nest_lists k S leaf) (True, [length S], 1) = Inr (fixed, sh', 1 + k + length (rev tail))"
    and f: "fixed \<longrightarrow> (\<exists>cs. length cs = k \<and> sh' = [length S] @ rev cs @ rev tail \<and> (\<forall>s \<in> set S. take k s = cs))" by auto
  show ?thesis
  proof (cases fixed)
    case True
    with f obtain cs where cs: "sh' = [length S] @ rev cs @ rev tail" "\<forall>s \<in> set S. take k s = cs" "length cs = k" by blast
    with S have "\<forall>s \<in> set S. s = cs" by auto
    then have "S = replicate (length S) cs" by (rule all_same_replicate)
    then have "map (\<lambda>s. tail @ s) S = replicate (length S) (tail @ cs)" by (metis map_replicate)
    moreover have "rev sh' = (tail @ cs) @ [length S]" using cs(1) by simp
    ultimately show ?thesis
      using l True cs(3) by (simp add: GetArrowResultShapeData_def array_length_nest [OF assms] describes_def rows_of_def butlast_append)
  next
    case False
    with l show ?thesis
      by (simp add: GetArrowResultShapeData_def array_length_nest [OF assms] GetRowShapes_nest [OF assms] describes_def rows_of_def
          comp_def)
  qed
qed

context list_maker
begin

lemma nest_fixed_array:
  assumes "0 \<notin> set dims" and "\<forall>d \<in> set dims. d < 2 ^ 31" and "array_length leaf = n * prod_list dims"
    and "\<forall>nulls. GetFlatArray nulls leaf = Inr flat"
    and "\<forall>sh nd. arrow_shape_loop leaf (True, sh, nd) = Inr (True, sh @ tail, nd + length tail)"
  shows "\<exists>arr. nest_fixed fixed_lists dims leaf = Inr arr \<and> array_length arr = n \<and> (\<forall>nulls. GetFlatArray nulls arr = Inr flat) \<and>
    (\<forall>sh nd. arrow_shape_loop arr (True, sh, nd) = Inr (True, sh @ rev dims @ tail, nd + length dims + length tail))"
  using assms
proof (induction dims arbitrary: leaf tail)
  case (Cons dim dims)
  let ?leaf = "FixedLists (int dim) (n * prod_list dims) 0 None leaf"
  have "wrap_int32 (int dim) = int dim" using Cons.prems(2) by (intro wrap_int32_nat) simp
  then have mk: "fixed_lists leaf (wrap_int32 (int dim)) = Inr ?leaf"
    using Cons.prems(1,3) by (simp add: fixed_lists)
  have shape: "\<forall>sh nd. arrow_shape_loop ?leaf (True, sh, nd) = Inr (True, sh @ (dim # tail), nd + length (dim # tail))"
    using Cons.prems(5) by (simp add: MaybeUpdateShapeAndNdim_def nonnegative_def)
  have "\<exists>arr. nest_fixed fixed_lists dims ?leaf = Inr arr \<and> array_length arr = n \<and> (\<forall>nulls. GetFlatArray nulls arr = Inr flat) \<and>
    (\<forall>sh nd. arrow_shape_loop arr (True, sh, nd) = Inr (True, sh @ rev dims @ (dim # tail), nd + length dims + length (dim # tail)))"
    by (rule Cons.IH [OF _ _ _ _ shape]) (use Cons.prems in auto)
  with mk show ?case by simp
qed simp

lemma nest_offsets_lists:
  "[] \<notin> set offsets \<Longrightarrow> nest_offsets list_array offsets leaf = Inr (fold (\<lambda>offset. Lists List32 offset None) offsets leaf)"
  by (induction offsets arbitrary: leaf) (auto simp: list_array)

end

lemma GetFlatArray_nest: "GetFlatArray nulls (nest_lists n S leaf) = GetFlatArray nulls leaf"
proof (induction n)
  case (Suc n)
  then show ?case by (simp add: nest_lists_Suc)
qed (simp add: nest_lists_def)

text \<open>The pairs of complex values are removed.\<close>

lemma GetResult_describes:
  assumes "GetArrowResultShapeData name dtype arr = Inr d" and "describes d (k + length tail) (map (\<lambda>s. tail @ s) S) name dtype"
    and "tail = (if is_complex dtype then [2] else [])" and "S \<noteq> []"
  shows "\<exists>d'. GetResultShapeData name dtype arr = Inr d' \<and> describes d' k S name dtype"
proof (cases "is_complex dtype")
  case False
  then have "dtype \<noteq> TpComplex \<and> dtype \<noteq> TpDComplex" by auto
  with assms False show ?thesis by (auto simp: GetResultShapeData_def describes_def)
next
  case True
  then have dt: "dtype = TpComplex \<or> dtype = TpDComplex" by (cases dtype) auto
  have tail: "tail = [2]" using assms(3) True by simp
  have d: "rs_ndim d = int k + 2" "rows_of d = map ((#) 2) S" "rs_name d = name" "rs_dtype d = dtype"
    using assms(2) by (simp_all add: describes_def tail)
  show ?thesis
  proof (cases "rs_shape d")
    case (Some sh)
    with d(2) assms(4) have "replicate (last sh) (butlast sh) = map ((#) 2) S" by (simp add: rows_of_def)
    then have n: "last sh = length S" "\<forall>s \<in> set S. butlast sh = 2 # s"
      by (metis length_map length_replicate, metis in_set_replicate image_eqI set_map)
    obtain s where s: "s \<in> set S" using assms(4) by (cases S) auto
    with n have b: "butlast sh = 2 # s" by blast
    then have sh: "sh = 2 # s @ [length S]" using n(1) by (metis append_Cons append_butlast_last_id butlast.simps(1) list.distinct(1))
    have "\<forall>s' \<in> set S. s' = s" using n(2) b by auto
    then have S: "S = replicate (length S) s" by (rule all_same_replicate)
    have "length sh = Suc (Suc k)" using assms(2) Some by (simp add: describes_def tail)
    then have k: "length s = k" by (simp add: sh)
    have "GetResultShapeData name dtype arr = Inr \<lparr>rs_name = name, rs_shape = Some (s @ [length S]), rs_ndim = int (length s) + 1,
        rs_dtype = dtype, rs_row_shapes = None, rs_cell_extents = None\<rparr>"
      using assms(1) d Some dt by (auto simp: GetResultShapeData_def drop_pairs_def sh IsDegenerateShape_def)
    then show ?thesis using S k by (simp add: describes_def rows_of_def)
  next
    case None
    then have "the (rs_row_shapes d) = map ((#) 2) S" using d(2) by (simp add: rows_of_def)
    moreover have "rmapM (drop_pairs name) (map ((#) 2) S) = Inr S"
      by (induction S) (simp_all add: drop_pairs_def IsDegenerateShape_def)
    ultimately show ?thesis
      using assms(1) d None dt by (auto simp: GetResultShapeData_def ConsistentNDim_def describes_def rows_of_def)
  qed
qed

definition full_shape :: "nat \<Rightarrow> ResultShapeData \<Rightarrow> bool" where
  "full_shape k d \<longleftrightarrow> rs_ndim d = int k + 1 \<and> rows_of d \<noteq> [] \<and>
     (\<forall>s \<in> set (rows_of d). length s = k \<and> 0 \<notin> set s) \<and> 2 * sum_list (map prod_list (rows_of d)) < 2 ^ 31 \<and>
     (case rs_shape d of Some sh \<Rightarrow> length sh = Suc k | None \<Rightarrow> 0 < k)"

lemma full_shape_elements: "full_shape k d \<Longrightarrow> nElements d = sum_list (map prod_list (rows_of d))"
proof (cases "rs_shape d")
  case (Some sh)
  assume "full_shape k d"
  with Some have "sh \<noteq> []" by (auto simp: full_shape_def)
  then have "prod_list sh = last sh * prod_list (butlast sh)"
    by (metis append_butlast_last_id mult.commute mult.right_neutral prod_list.Cons prod_list.Nil prod_list.append)
  with Some \<open>sh \<noteq> []\<close> show ?thesis by (simp add: nElements_def rows_of_def shape_product_def sum_list_replicate)
next
  case None
  assume f: "full_shape k d"
  then have "\<forall>s \<in> set (the (rs_row_shapes d)). s \<noteq> []" using None by (auto simp: full_shape_def rows_of_def)
  then have "map shape_product (the (rs_row_shapes d)) = map prod_list (the (rs_row_shapes d))"
    by (intro map_cong) (auto simp: shape_product_def)
  then have "sum_list (map shape_product (the (rs_row_shapes d))) = sum_list (map prod_list (the (rs_row_shapes d)))"
    by (rule arg_cong)
  with None show ?thesis by (simp add: nElements_def rows_of_def fold_elements')
qed

context list_maker
begin

lemma MakeArray_nested:
  assumes "full_shape k d" and "length buffer = nElements d"
    and "\<forall>b \<in> set buffer. length (vals b) = (if is_complex (rs_dtype d) then 2 else 1)"
    and "rs_dtype d = TpString \<or> is_complex (rs_dtype d) \<or> IsPrimitiveType isNumeric (rs_dtype d)"
  shows "\<exists>arr ty r. rbind (base_array fixed_lists list_array isNumeric vals strat adt d buffer) (nest_array fixed_lists list_array strat d) = Inr arr \<and>
    GetArrowResultShapeData name (rs_dtype d) (Some arr) = Inr r \<and>
    describes r (k + length (if is_complex (rs_dtype d) then [2 :: nat] else []))
      (map (\<lambda>s. (if is_complex (rs_dtype d) then [2] else []) @ s) (rows_of d)) name (rs_dtype d) \<and>
    (\<forall>nulls. GetFlatArray nulls arr = Inr (Values ty (concat (map vals buffer)) 0 (length (concat (map vals buffer)))))"
proof -
  let ?S = "rows_of d" and ?tail = "if is_complex (rs_dtype d) then [2 :: nat] else []"
  have S: "small_rows k ?S" and n: "2 * nElements d < 2 ^ 31"
    using assms(1) full_shape_elements [OF assms(1)] by (auto simp: full_shape_def small_rows_def)
  have b0: "base 0 ?S (length ?S) = nElements d" by (simp add: base_def full_shape_elements [OF assms(1)])
  from base_array_leaf [OF S b0 n assms(2-4)] obtain leaf ty where
    leaf: "base_array fixed_lists list_array isNumeric vals strat adt d buffer = Inr leaf" "leaf_ok leaf ?S ?tail"
    and flat: "\<forall>nulls. GetFlatArray nulls leaf = Inr (Values ty (concat (map vals buffer)) 0 (length (concat (map vals buffer))))" by blast
  have leaf': "leaf_ok leaf ?S (rev ?tail)" using leaf(2) by (simp split: if_splits)
  show ?thesis
  proof (cases "IsFixed d \<and> strat = FIXED")
    case False
    have "padded_rows k d = ?S"
      using assms(1) by (auto simp: padded_rows_def full_shape_def intro!: map_idI)
    moreover have "GetOffsets d = Inr (map (\<lambda>dim. offsets_of (level_lengths dim (padded_rows k d))) [0..<k])"
      using assms(1) by (intro GetOffsets_eq) (auto simp: full_shape_def split: option.splits)
    ultimately have "nest_array fixed_lists list_array strat d leaf = Inr (nest_lists k ?S leaf)"
      using False by (auto simp: nest_array_def nest_lists_def offsets_of_def intro!: nest_offsets_lists)
    moreover obtain r where "GetArrowResultShapeData name (rs_dtype d) (Some (nest_lists k ?S leaf)) = Inr r"
      "describes r (k + length ?tail) (map (\<lambda>s. ?tail @ s) ?S) name (rs_dtype d)"
      using GetArrow_nest [OF S leaf'] by blast
    moreover have "GetFlatArray nulls (nest_lists k ?S leaf) =
        Inr (Values ty (concat (map vals buffer)) 0 (length (concat (map vals buffer))))" for nulls
      using flat by (simp only: GetFlatArray_nest)
    ultimately show ?thesis unfolding leaf(1) rbind.simps by blast
  next
    case True
    then obtain sh where sh: "rs_shape d = Some sh" by (auto simp: IsFixed_def)
    obtain cs m where m: "sh = cs @ [m]" "length cs = k"
      using assms(1) sh by (cases sh rule: rev_cases) (auto simp: full_shape_def)
    have rows: "?S = replicate m cs" using sh m by (simp add: rows_of_def)
    with assms(1) have m0: "0 < m" "0 \<notin> set cs" by (auto simp: full_shape_def)
    have el: "nElements d = m * prod_list cs" using full_shape_elements [OF assms(1)] by (simp add: rows sum_list_replicate)
    have "dim < 2 ^ 31" if "dim \<in> set cs" for dim
    proof -
      have "dim dvd prod_list cs" by (rule prod_list_dvd [OF that])
      then have "dim \<le> prod_list cs" using prod_list_pos [OF m0(2)] by (intro dvd_imp_le) auto
      also have "\<dots> \<le> nElements d" using m0 el by simp
      finally show ?thesis using n by simp
    qed
    moreover have "array_length leaf = m * prod_list cs" using leaf(2) b0 el by (simp add: leaf_ok_def)
    moreover have "\<forall>sh nd. arrow_shape_loop leaf (True, sh, nd) = Inr (True, sh @ ?tail, nd + length ?tail)"
      using leaf(2) unfolding leaf_ok_def by simp
    ultimately obtain arr where arr: "nest_fixed fixed_lists cs leaf = Inr arr" "array_length arr = m"
      "\<forall>nulls. GetFlatArray nulls arr = Inr (Values ty (concat (map vals buffer)) 0 (length (concat (map vals buffer))))"
      "\<forall>sh nd. arrow_shape_loop arr (True, sh, nd) = Inr (True, sh @ rev cs @ ?tail, nd + length cs + length ?tail)"
      using nest_fixed_array [OF m0(2), of leaf m _ ?tail] flat by blast
    have "nest_array fixed_lists list_array strat d leaf = Inr arr"
      using True arr(1) sh m assms(1) by (simp add: nest_array_def ConsistentNDim_def full_shape_def GetShape_def nat_add_distrib)
    moreover have "GetArrowResultShapeData name (rs_dtype d) (Some arr) =
        Inr \<lparr>rs_name = name, rs_shape = Some (?tail @ cs @ [m]), rs_ndim = int (1 + k + length ?tail), rs_dtype = rs_dtype d,
             rs_row_shapes = None, rs_cell_extents = None\<rparr>"
      using arr(2,4) m(2) by (simp add: GetArrowResultShapeData_def)
    moreover have "describes \<lparr>rs_name = name, rs_shape = Some (?tail @ cs @ [m]), rs_ndim = int (1 + k + length ?tail), rs_dtype = rs_dtype d,
        rs_row_shapes = None, rs_cell_extents = None\<rparr> (k + length ?tail) (map (\<lambda>s. ?tail @ s) ?S) name (rs_dtype d)"
      unfolding rows using m(2) by (simp add: describes_def rows_of_def butlast_append)
    ultimately show ?thesis unfolding leaf(1) rbind.simps using arr(3) by blast
  qed
qed

end

section \<open>Properties\<close>

text \<open>
  C21. The round trip of an array. The array that \<open>MakeArray\<close> makes of a shape and a buffer describes
  that shape: read back as the data of a write to a column of the same type it has the same rows,
  whether the shape is fixed or varies, whatever the strategy for conversions, and for complex
  values as well as others; and flattening it gives the values of the buffer in order. This holds
  for rows without empty dimensions whose offsets fit 31 bits, whatever makes arrow's lists as the format says.
\<close>

theorem MakeArray_FromArray:
  assumes "full_shape k d" and "length buffer = nElements d"
    and "\<forall>b \<in> set buffer. length (vals b) = (if is_complex (rs_dtype d) then 2 else 1)"
    and "rs_dtype d = TpString \<or> is_complex (rs_dtype d) \<or> IsPrimitiveType isNumeric (rs_dtype d)"
    and "list_maker fixed_lists list_array"
    and "ArrowDataType (rs_dtype d) = Inr adt" and "GetConvertStrategy loc = (Inr strat, loc')"
    and "tc_dtype col = rs_dtype d"
  shows "\<exists>arr d' ty. MakeArray fixed_lists list_array isNumeric vals loc d buffer = (Inr arr, loc') \<and>
    FromArray col (Some arr) = Inr d' \<and> rows_of d' = rows_of d \<and> rs_ndim d' = rs_ndim d \<and> rs_dtype d' = rs_dtype d \<and>
    (\<forall>nulls. GetFlatArray nulls arr = Inr (Values ty (concat (map vals buffer)) 0 (length (concat (map vals buffer)))))"
proof -
  let ?tail = "if is_complex (rs_dtype d) then [2 :: nat] else []"
  from list_maker.MakeArray_nested [OF assms(5) assms(1-4), of strat adt "tc_name col"] obtain arr ty r where
    arr: "rbind (base_array fixed_lists list_array isNumeric vals strat adt d buffer) (nest_array fixed_lists list_array strat d) = Inr arr"
    and r: "GetArrowResultShapeData (tc_name col) (rs_dtype d) (Some arr) = Inr r"
      "describes r (k + length ?tail) (map (\<lambda>s. ?tail @ s) (rows_of d)) (tc_name col) (rs_dtype d)"
    and flat: "\<forall>nulls. GetFlatArray nulls arr = Inr (Values ty (concat (map vals buffer)) 0 (length (concat (map vals buffer))))"
    by blast
  have "rows_of d \<noteq> []" "rs_ndim d = int k + 1" using assms(1) by (simp_all add: full_shape_def)
  with GetResult_describes [OF r refl] obtain d' where
    "GetResultShapeData (tc_name col) (rs_dtype d) (Some arr) = Inr d'" "describes d' k (rows_of d) (tc_name col) (rs_dtype d)" by blast
  moreover have "MakeArray fixed_lists list_array isNumeric vals loc d buffer = (Inr arr, loc')" using arr assms(6,7) by (simp add: MakeArray_def)
  ultimately show ?thesis
    using flat assms(8) \<open>rs_ndim d = int k + 1\<close> by (auto simp: FromArray_def describes_def)
qed

text \<open>A varying result with rows of shapes 2 by 1 and 1 by 2, of complex values.\<close>

definition complex_rows :: ResultShapeData where
  "complex_rows = \<lparr>rs_name = ''DATA'', rs_shape = None, rs_ndim = 3, rs_dtype = TpComplex,
     rs_row_shapes = Some [[2, 1], [1, 2]], rs_cell_extents = None\<rparr>"

definition complex_column :: table_column where
  "complex_column = \<lparr>tc_name = ''DATA'', tc_dtype = TpComplex, tc_fixed = False, tc_shape = [], tc_ndim = -1,
     tc_nrow = 2, tc_defined = (\<lambda>r. True), tc_cell = (\<lambda>r. [1, 1])\<rparr>"

theorem MakeArray_FromArray_witness:
  "\<exists>arr d'. MakeArray format_fixed_lists format_list_array (\<lambda>dt. True) (\<lambda>(x, y). [x, y]) None complex_rows [(1, 2), (3, 4), (5, 6), (7, 8 :: int)] =
      (Inr arr, Some []) \<and>
    FromArray complex_column (Some arr) = Inr d' \<and> rows_of d' = [[2, 1], [1, 2]] \<and>
    (\<exists>ty. GetFlatArray False arr = Inr (Values ty [1, 2, 3, 4, 5, 6, 7, 8] 0 8))"
proof -
  have full: "full_shape 2 complex_rows" by (simp add: full_shape_def complex_rows_def rows_of_def)
  have len: "length [(1, 2), (3, 4), (5, 6), (7, 8 :: int)] = nElements complex_rows"
    by (simp add: complex_rows_def nElements_def shape_product_def)
  have strat: "GetConvertStrategy None = (Inr FIXED, Some [])" by code_simp
  have "\<forall>b \<in> set [(1, 2), (3, 4), (5, 6), (7, 8 :: int)]. length (case b of (x, y) \<Rightarrow> [x, y]) =
      (if is_complex (rs_dtype complex_rows) then 2 else 1)" by (simp add: complex_rows_def)
  moreover have "ArrowDataType (rs_dtype complex_rows) = Inr float32" "tc_dtype complex_column = rs_dtype complex_rows"
    "is_complex (rs_dtype complex_rows)" "rows_of complex_rows = [[2, 1], [1, 2]]"
    by (simp_all add: complex_rows_def complex_column_def rows_of_def)
  ultimately show ?thesis
    using MakeArray_FromArray [where d = complex_rows and vals = "\<lambda>(x, y). [x, y]" and isNumeric = "\<lambda>dt. True",
      OF full len _ _ columnar.list_maker_axioms _ strat, of float32 complex_column] by auto
qed

end
