(* ===== verification/ColumnAccess.thy ===== *)
theory ColumnAccess
  imports TableAccess ArrowRoundTrip WriteImpl
begin

text \<open>
  What reading and writing a whole column promise, from the array to the cells and back. The laws
  of casacore and arrow are the locale \<open>table_access\<close>, which extends the one of arrow's lists.
\<close>

unbundle bit_operations_syntax

section \<open>Alignments\<close>

lemma and_pred_nat: "0 < n \<Longrightarrow> n AND (n - 1) = 0 \<longleftrightarrow> (\<exists>k. n = 2 ^ k)" for n :: nat
proof (induction n rule: less_induct)
  case (less n)
  show ?case
  proof (cases "even n")
    case True
    then obtain m where m: "n = 2 * m" by blast
    with less.prems have pos: "0 < m" "m < n" by simp_all
    have half: "(n - 1) div 2 = m - 1" "odd (n - 1)" using m pos by (auto simp: elim: oddE)
    have "n AND (n - 1) = 2 * (m AND (m - 1))" by (subst and_rec) (use m half in simp)
    moreover have "(\<exists>k. n = 2 ^ k) \<longleftrightarrow> (\<exists>k. m = 2 ^ k)"
    proof
      assume "\<exists>k. n = 2 ^ k"
      then obtain k where "n = 2 ^ k" by blast
      with m pos have "k \<noteq> 0" by (cases k) auto
      with m \<open>n = 2 ^ k\<close> show "\<exists>k. m = 2 ^ k" by (cases k) auto
    qed (use m in \<open>metis power_Suc\<close>)
    ultimately show ?thesis using less.IH [OF pos(2,1)] by simp
  next
    case False
    then obtain m where m: "n = 2 * m + 1" by (blast elim: oddE)
    have "n AND (n - 1) = 2 * m" by (subst and_rec) (use m in simp)
    moreover have "(\<exists>k. n = 2 ^ k) \<longleftrightarrow> m = 0"
    proof
      assume "\<exists>k. n = 2 ^ k"
      then obtain k where "n = 2 ^ k" by blast
      with False show "m = 0" using m by (cases k) auto
    qed (use m in \<open>metis add_0 mult_zero_right power_0\<close>)
    ultimately show ?thesis by simp
  qed
qed

lemma of_nat_zero: "x < 2 ^ 64 \<Longrightarrow> (of_nat x :: 64 word) = 0 \<longleftrightarrow> x = 0"
  by (simp add: unsigned_of_nat take_bit_nat_eq_self flip: unat_eq_zero)

lemma power_of_two_word:
  assumes "0 < n" and "n < 2 ^ 64"
  shows "(of_nat n :: 64 word) AND (of_nat n - 1) = 0 \<longleftrightarrow> (\<exists>k. n = 2 ^ k)"
proof -
  have "(of_nat n :: 64 word) - 1 = of_nat (n - 1)" using assms(1) by (simp add: of_nat_diff)
  then have "(of_nat n :: 64 word) AND (of_nat n - 1) = of_nat (n AND (n - 1))" by (simp add: of_nat_and_eq)
  moreover have "n AND (n - 1) < 2 ^ 64"
    using assms(2) AND_upper1 [of "int n" "int (n - 1)"] by (simp flip: of_nat_and_eq)
  then have "(of_nat (n AND (n - 1)) :: 64 word) = 0 \<longleftrightarrow> n AND (n - 1) = 0" by (rule of_nat_zero)
  ultimately show ?thesis using and_pred_nat [OF assms(1)] by simp
qed

section \<open>The laws of casacore and arrow\<close>

text \<open>How many arrow values make a CASA value.\<close>

definition value_width :: "casa_dtype \<Rightarrow> nat" where
  "value_width dt = (if is_complex dt then 2 else 1)"

text \<open>
  \<open>cells c t\<close> are the values of column \<open>c\<close> of table \<open>t\<close>. Reads and writes act on them, reopening a
  table changes none, and giving a row a shape changes that row only. The bytes of a buffer of the
  arrow type of a CASA type are CASA values, one after the other.
\<close>

definition writer_keeps :: "('s, 'a) column_writer \<Rightarrow> ('s \<Rightarrow> 'b) \<Rightarrow> bool" where
  "writer_keeps wr f \<longleftrightarrow> (\<forall>rr vals s. f (put_scalar_cells wr rr vals s) = f s) \<and>
     (\<forall>rr sl vals s. f (put_array_cells wr rr sl vals s) = f s) \<and> (\<forall>r sl vals s. f (put_slice wr r sl vals s) = f s)"

locale table_access =
  list_maker "fixed_lists_of A" "list_array_of A"
  for A :: "('t, 'v, 'a) access" +
  fixes cells :: "string \<Rightarrow> 't \<Rightarrow> int \<Rightarrow> int list \<Rightarrow> 'a"
  assumes reads: "reads_cells (reader_of A c t) (cells c t)"
    and writes: "writes_cells (writer_of A c) (cells c)"
    and sets_shapes: "shape_setter (column_of A c) (set_cell_shape A c)"
    and set_shape_cells: "row < tc_nrow (column_of A c t) \<Longrightarrow> r \<noteq> int row \<Longrightarrow> cells c (set_cell_shape A c row sh t) r = cells c t r"
    and write_column: "writer_keeps (writer_of A c) (column_of A c')"
    and write_names: "writer_keeps (writer_of A c) (column_names A)"
    and set_shape_names: "column_names A (set_cell_shape A c row sh t) = column_names A t"
    and reopen_cells: "cells c (reopenRW A t) = cells c t"
    and reopen_column: "column_of A c (reopenRW A t) = column_of A c t"
    and reopen_names: "column_names A (reopenRW A t) = column_names A t"
    and primitive: "CasaDataTypeSize 0 dt = Inr n \<Longrightarrow> IsPrimitiveType (numeric A) dt \<longleftrightarrow> dt \<noteq> TpString"
    and allocated: "allocate A dt n align = Inr buffer \<Longrightarrow> length buffer = n \<and>
      (\<forall>x \<in> set buffer. length (arrow_values A x) = value_width dt)"
    and empty_values: "length (arrow_values A (empty_String A)) = 1"
    and view: "ArrowDataType dt = Inr adt \<Longrightarrow> value_width dt dvd length buf \<Longrightarrow>
      length buf = value_width dt * length (casa_view A dt (Value_type adt) buf) \<and>
      (\<forall>x \<in> set (casa_view A dt (Value_type adt) buf). length (arrow_values A x) = value_width dt) \<and>
      concat (map (arrow_values A) (casa_view A dt (Value_type adt) buf)) = buf"

section \<open>Tables in memory\<close>

text \<open>
  The laws can be met: a table with one column in memory, whose values are lists of one or two
  numbers. Nothing of arrow but its format is needed.
\<close>

type_synonym memory_table = "bool \<times> table_column \<times> (int \<Rightarrow> int list \<Rightarrow> int list)"

definition memory_access :: "(memory_table, int, int list) access" where
  "memory_access =
     \<lparr>column_names = (\<lambda>(rw, col, f). [tc_name col]),
      is_writable = (\<lambda>(rw, col, f). rw),
      reopenRW = (\<lambda>(rw, col, f). (True, col, f)),
      column_of = (\<lambda>c (rw, col, f). col),
      storage_of = (\<lambda>c t. \<lparr>isRootTable = False, dataManagerType = [], is_tiled = False, hypercube_of = (\<lambda>r. None),
                         cell_ndim = 0, rowsPerBlock = None, throws = False\<rparr>),
      set_cell_shape = (\<lambda>c row sh (rw, col, f). (rw, with_cell col row sh, f)),
      reader_of = (\<lambda>c (rw, col, f). cells_reader f),
      writer_of = (\<lambda>c. \<lparr>put_scalar_cells = \<lambda>rr vals (rw, col, f). (rw, col, put_scalar_cells cells_writer rr vals f),
                       put_array_cells = \<lambda>rr sl vals (rw, col, f). (rw, col, put_array_cells cells_writer rr sl vals f),
                       put_slice = \<lambda>r sl vals (rw, col, f). (rw, col, put_slice cells_writer r sl vals f)\<rparr>),
      numeric = (\<lambda>dt. dt \<noteq> TpString),
      sizeof_String = 32,
      default_alignment = 64,
      allocate = (\<lambda>dt n align. Inr (replicate n (replicate (value_width dt) 0))),
      empty_String = [0],
      fresh_value = [0],
      arrow_values = (\<lambda>x. x),
      casa_view = (\<lambda>dt ty buf. map (\<lambda>i. take (value_width dt) (drop (value_width dt * i) buf)) [0..<length buf div value_width dt]),
      cast = (\<lambda>arr adt. Inl (NotImplemented [Str ''cast''])),
      fixed_lists_of = format_fixed_lists,
      list_array_of = format_list_array\<rparr>"

lemma concat_pieces:
  "k * m = length buf \<Longrightarrow> concat (map (\<lambda>i. take k (drop (k * i) buf)) [0..<m]) = buf"
proof (induction m arbitrary: buf)
  case (Suc m)
  have "k * m = length (take (k * m) buf)" using Suc.prems by simp
  note ih = Suc.IH [OF this]
  have "map (\<lambda>i. take k (drop (k * i) (take (k * m) buf))) [0..<m] = map (\<lambda>i. take k (drop (k * i) buf)) [0..<m]"
  proof (rule map_cong [OF refl])
    fix i assume "i \<in> set [0..<m]"
    then have "k * Suc i \<le> k * m" by (intro mult_le_mono2) simp
    then have "k \<le> k * m - k * i" by simp
    then show "take k (drop (k * i) (take (k * m) buf)) = take k (drop (k * i) buf)" by (simp add: drop_take min_absorb1)
  qed
  with ih have "concat (map (\<lambda>i. take k (drop (k * i) buf)) [0..<m]) = take (k * m) buf" by simp
  moreover have "take k (drop (k * m) buf) = drop (k * m) buf" using Suc.prems by simp
  ultimately show ?case by simp
qed simp

interpretation memory: table_access memory_access "\<lambda>c t. snd (snd t)"
proof
  show "reads_cells (reader_of memory_access c t) (snd (snd t))" for c t
    by (cases t) (simp add: memory_access_def)
  show "writes_cells (writer_of memory_access c) (\<lambda>t. snd (snd t))" for c
    using writes_cells_writer [where 'a = "int list"] by (auto simp: memory_access_def writes_cells_def)
  show "column_of memory_access c (set_cell_shape memory_access c row sh t) = with_cell (column_of memory_access c t) row sh"
    for c row sh t by (cases t) (simp add: memory_access_def)
  show "snd (snd (set_cell_shape memory_access c row sh t)) r = snd (snd t) r" for c row sh t r
    by (cases t) (simp add: memory_access_def)
  show "writer_keeps (writer_of memory_access c) (column_of memory_access c')" for c c'
    by (auto simp: writer_keeps_def memory_access_def)
  show "writer_keeps (writer_of memory_access c) (column_names memory_access)" for c
    by (auto simp: writer_keeps_def memory_access_def)
  show "column_names memory_access (set_cell_shape memory_access c row sh t) = column_names memory_access t" for c row sh t
    by (cases t) (simp add: memory_access_def with_cell_def)
  show "snd (snd (reopenRW memory_access t)) = snd (snd t)" for t by (cases t) (simp add: memory_access_def)
  show "column_of memory_access c (reopenRW memory_access t) = column_of memory_access c t" for c t
    by (cases t) (simp add: memory_access_def)
  show "column_names memory_access (reopenRW memory_access t) = column_names memory_access t" for t
    by (cases t) (simp add: memory_access_def)
  show "IsPrimitiveType (numeric memory_access) dt \<longleftrightarrow> dt \<noteq> TpString" for dt
    by (auto simp: memory_access_def IsPrimitiveType_def)
  show "length buffer = n \<and> (\<forall>x \<in> set buffer. length (arrow_values memory_access x) = value_width dt)"
    if "allocate memory_access dt n align = Inr buffer" for dt n align buffer
    using that by (auto simp: memory_access_def)
  show "length (arrow_values memory_access (empty_String memory_access)) = 1" by (simp add: memory_access_def)
  show "length buf = value_width dt * length (casa_view memory_access dt (Value_type adt) buf) \<and>
      (\<forall>x \<in> set (casa_view memory_access dt (Value_type adt) buf). length (arrow_values memory_access x) = value_width dt) \<and>
      concat (map (arrow_values memory_access) (casa_view memory_access dt (Value_type adt) buf)) = buf"
    if "value_width dt dvd length buf" for dt adt buf
  proof -
    let ?k = "value_width dt" and ?m = "length buf div value_width dt"
    have m: "?k * ?m = length buf" using that by simp
    have "length (take ?k (drop (?k * i) buf)) = ?k" if "i < ?m" for i
    proof -
      have "?k * Suc i \<le> ?k * ?m" using that by (intro mult_le_mono2) simp
      with m show ?thesis by simp
    qed
    with m concat_pieces [OF m] show ?thesis by (auto simp: memory_access_def)
  qed
qed (auto simp: memory_access_def intro: columnar.fixed_lists columnar.list_array)

section \<open>What writing keeps\<close>

lemma chunk_loop_keeps:
  assumes "\<And>ch st st'. step ch st = Inr st' \<Longrightarrow> f st' = f st"
  shows "chunk_loop step chs st = Inr st' \<Longrightarrow> f st' = f st"
proof (induction chs arbitrary: st)
  case (Cons ch chs)
  then obtain x st1 where "step x st = Inr st1" "chunk_loop step chs st1 = Inr st'"
    by (cases ch) (auto simp: rbind_Inr_conv)
  with Cons.IH assms show ?case by metis
qed simp

lemma write_chunk_keeps:
  "writer_keeps wr f \<Longrightarrow> write_chunk sz wr fresh buffer ch st = Inr st' \<Longrightarrow> f (fst st') = f (fst st)"
  by (auto simp: write_chunk_def WriteContiguousChunk_def WriteChunkArray_def writer_keeps_def Let_def bind_eq_Some_conv
      split: if_splits option.splits)

lemma WriteChunks_keeps:
  assumes "writer_keeps wr f" and "WriteChunks ss wr fresh dt chunks buffer st = Inr st'"
  shows "f (fst st') = f (fst st)"
proof -
  from assms(2) obtain sz where "chunk_loop (write_chunk sz wr fresh buffer) chunks st = Inr st'"
    by (cases dt) (auto simp: WriteChunks_def)
  from chunk_loop_keeps [where f = "\<lambda>st. f (fst st)", OF write_chunk_keeps [OF assms(1)] this] show ?thesis .
qed

section \<open>The buffer of a read\<close>

text \<open>The selection of a read fits the shape that \<open>MakeRead\<close> gives it.\<close>

lemma MakeRead_sel_fits:
  assumes "MakeRead col sel False = Inr d" and "ranks_ok col" and "length (tc_shape col) < 2 ^ 64 - 1"
    and "rs_shape d = Some sh" and "0 \<notin> set sh"
  shows "sel_fits sel sh"
proof -
  note shape = MakeRead_cells [OF assms(1-3), THEN conjunct2, THEN conjunct2, THEN conjunct2, unfolded assms(4) option.case]
  then have sh: "sh \<noteq> []" "last sh = length (selected_rows col sel)" by blast+
  have "\<exists>cell. cell_fits sel cell (butlast sh)"
  proof (cases "tc_fixed col")
    case True
    with shape show ?thesis by auto
  next
    case False
    have "last sh \<noteq> 0" using last_in_set [OF sh(1)] assms(5) by metis
    then obtain r where r: "r \<in> set (selected_rows col sel)" using sh(2) by (cases "selected_rows col sel") auto
    from shape False have "\<forall>r \<in> set (selected_rows col sel).
        0 \<le> r \<and> tc_defined col (nat r) \<and> reads_row col sel False r (butlast sh)" by simp
    with r have "0 \<le> r" "tc_defined col (nat r)" "reads_row col sel False r (butlast sh)" by blast+
    then show ?thesis unfolding reads_row_def by auto
  qed
  then obtain cell where cell: "cell_fits sel cell (butlast sh)" by blast
  then have n: "length cell + 1 = length sh" using sh(1) by (cases sh rule: rev_cases) (auto simp: cell_fits_def)
  have "case MaybeFSpan sel dim (length sh) of Some span \<Rightarrow> length span = sh ! dim | None \<Rightarrow> True" if "dim < length sh" for dim
  proof (cases "dim < length cell")
    case True
    then have "butlast sh ! dim = sh ! dim" using n by (simp add: nth_butlast)
    with cell True n show ?thesis by (auto simp: cell_fits_def split: option.splits)
  next
    case False
    then have dim: "dim = length sh - 1" using that n by simp
    have "sh ! dim = length (selected_rows col sel)" using sh by (simp add: dim last_conv_nth)
    moreover have "MaybeFSpan sel dim (length sh) = (if HasRowSpan sel then Some (GetRowSpan sel) else None)"
      using MaybeFSpan_row [of sel "length sh"] MaybeFSpan_no_row [of sel "length sh"] sh(1) by (simp add: dim)
    ultimately show ?thesis by (simp add: selected_rows_def)
  qed
  then show ?thesis by (simp add: sel_fits_def)
qed

lemma dispatched: "CasaDataTypeSize ss dt = Inr sz \<Longrightarrow> \<exists>n. CasaDataTypeSize 0 dt = Inr n"
  by (cases dt) auto

text \<open>A fixed result is one of the shapes that arrays can be made of.\<close>

lemma full_shape_fixed:
  assumes "fixed_result d sh" and "2 * prod_list sh < 2 ^ 31"
  shows "full_shape (length sh - 1) d" and "nElements d = prod_list sh" and "rows_of d = replicate (last sh) (butlast sh)"
proof -
  have sh: "rs_shape d = Some sh" "sh \<noteq> []" "0 \<notin> set sh" "rs_ndim d = int (length sh)"
    using assms(1) by (auto simp: fixed_result_def)
  have last: "last sh \<noteq> 0" using last_in_set [OF sh(2)] sh(3) by metis
  have prod: "prod_list sh = last sh * prod_list (butlast sh)"
    using sh(2) by (metis append_butlast_last_id mult.commute mult.right_neutral prod_list.Cons prod_list.Nil prod_list.append)
  show rows: "rows_of d = replicate (last sh) (butlast sh)" using sh(1) by (simp add: rows_of_def)
  show "nElements d = prod_list sh" using sh by (simp add: nElements_def shape_product_def)
  let ?k = "length sh - 1"
  show "full_shape ?k d"
    unfolding full_shape_def
  proof (intro conjI)
    show "rs_ndim d = int ?k + 1" using sh(2,4) by (cases sh) auto
    show "rows_of d \<noteq> []" using last by (simp add: rows)
    show "\<forall>s \<in> set (rows_of d). length s = ?k \<and> 0 \<notin> set s" using sh(3) by (auto simp: rows dest: in_set_butlastD)
    show "2 * sum_list (map prod_list (rows_of d)) < 2 ^ 31" using assms(2) prod by (simp add: rows sum_list_replicate)
    show "case rs_shape d of Some sh \<Rightarrow> length sh = Suc ?k | None \<Rightarrow> 0 < ?k" using sh(1,2) by simp
  qed
qed

context table_access
begin

lemma GetResultBufferOrAllocate_new:
  assumes "CasaDataTypeSize (sizeof_String A) dt = Inr sz"
    and "allocate A dt n (GetSafeAlignment (default_alignment A) sz) = Inr fresh"
  shows "\<exists>buffer. GetResultBufferOrAllocate A n dt None = Inr buffer \<and> length buffer = n \<and>
    (dt \<noteq> TpString \<longrightarrow> buffer = fresh) \<and> (\<forall>x \<in> set buffer. length (arrow_values A x) = value_width dt)"
proof -
  obtain m where "CasaDataTypeSize 0 dt = Inr m" using dispatched [OF assms(1)] by blast
  from primitive [OF this] allocated [OF assms(2)] assms empty_values show ?thesis
    by (auto simp: GetResultBufferOrAllocate_def value_width_def)
qed

text \<open>The tasks of a read that is spread, in any order, leave what one task would.\<close>

lemma run_reads_values:
  assumes "\<forall>rd sz. reads_cells rd cell \<longrightarrow> (\<forall>g \<in> set gs. \<forall>ch \<in> set (snd (tasks ! g)). chunk_reads N sz rd f (pos ch) ch)"
    and "\<forall>g \<in> set gs. cells c (table_at g) = cell" and "length buffer = N"
    and "CasaDataTypeSize (sizeof_String A) dt = Inr sz"
  shows "run_reads A c dt tasks table_at gs buffer reads =
    (patched f (\<Union>g \<in> set gs. \<Union>ch \<in> set (snd (tasks ! g)). pos ch) buffer, \<lambda>g. if g \<in> set gs then Inr () else reads g)"
  using assms(1-3)
proof (induction gs arbitrary: buffer reads)
  case Nil
  then show ?case by (simp add: patched_none)
next
  case (Cons g gs)
  let ?rd = "reader_of A c (table_at g)" and ?chs = "snd (tasks ! g)"
  have "reads_cells ?rd cell" using reads [of c "table_at g"] Cons.prems(2) by simp
  then have "\<forall>ch \<in> set ?chs. chunk_reads N sz ?rd f (pos ch) ch" using Cons.prems(1) by simp
  from chunk_loop_reads [OF this Cons.prems(3), of 0]
  have step: "ReadChunks (sizeof_String A) ?rd dt (map Some ?chs) (buffer, 0) =
      Inr (patched f (\<Union>ch \<in> set ?chs. pos ch) buffer, sz * elements_in ?chs)"
    unfolding ReadChunks_def DispatchCasaType_size [OF assms(4)] using assms(4) by (simp add: elements_in_def)
  let ?b = "patched f (\<Union>ch \<in> set ?chs. pos ch) buffer"
  have "run_reads A c dt tasks table_at gs ?b (reads(g := Inr ())) =
      (patched f (\<Union>g \<in> set gs. \<Union>ch \<in> set (snd (tasks ! g)). pos ch) ?b,
       \<lambda>g'. if g' \<in> set gs then Inr () else (reads(g := Inr ())) g')"
    by (rule Cons.IH) (use Cons.prems in auto)
  with step show ?case by (auto simp: fun_eq_iff patched_patched)
qed

lemma run_reads_all:
  assumes "partition_reads N cell f P chunks" and "concat (map snd tasks) = chunks" and "mset gs = mset [0..<length tasks]"
    and "\<forall>g. cells c (table_at g) = cell" and "length buffer = N" and "CasaDataTypeSize (sizeof_String A) dt = Inr sz"
  shows "\<exists>reads'. run_reads A c dt tasks table_at gs buffer reads = (patched f P buffer, reads') \<and>
    (\<forall>g < length tasks. reads' g = Inr ())"
proof -
  from assms(1) obtain pos where
    pl: "\<forall>rd sz. reads_cells rd cell \<longrightarrow> (\<forall>ch \<in> set chunks. chunk_reads N sz rd f (pos ch) ch)"
      "\<forall>a < N. a \<in> (\<Union>ch \<in> set chunks. pos ch) \<longleftrightarrow> a \<in> P" unfolding partition_reads_def by blast
  have gs: "set gs = {0..<length tasks}" using mset_eq_setD [OF assms(3)] by simp
  have "set tasks = (!) tasks ` {0..<length tasks}" by (metis map_nth set_map set_upt)
  then have chs: "(\<Union>g \<in> set gs. set (snd (tasks ! g))) = set chunks"
    unfolding assms(2) [symmetric] by (simp add: gs)
  then have "\<forall>rd sz. reads_cells rd cell \<longrightarrow> (\<forall>g \<in> set gs. \<forall>ch \<in> set (snd (tasks ! g)). chunk_reads N sz rd f (pos ch) ch)"
    using pl(1) by blast
  from run_reads_values [OF this _ assms(5,6), of c table_at reads] assms(4)
  have "run_reads A c dt tasks table_at gs buffer reads =
      (patched f (\<Union>g \<in> set gs. \<Union>ch \<in> set (snd (tasks ! g)). pos ch) buffer, \<lambda>g. if g \<in> set gs then Inr () else reads g)"
    by simp
  moreover have "(\<Union>g \<in> set gs. \<Union>ch \<in> set (snd (tasks ! g)). pos ch) = (\<Union>ch \<in> set chunks. pos ch)"
    unfolding chs [symmetric] by simp
  then have "patched f (\<Union>g \<in> set gs. \<Union>ch \<in> set (snd (tasks ! g)). pos ch) buffer = patched f P buffer"
    using pl(2) assms(5) by (simp only:) (rule patched_cong, simp)
  ultimately show ?thesis using gs by auto
qed

text \<open>Both ways of reading a partition into a buffer.\<close>

lemma read_both_ways:
  assumes "partition_reads N (cells c t) f P (data_chunks p)" and "data_chunks p \<noteq> []" and "PartitionElements p = N"
    and "GetResultBufferOrAllocate A N (dp_dtype p) result = Inr b0" and "length b0 = N"
    and "CasaDataTypeSize (sizeof_String A) (dp_dtype p) = Inr sz"
    and "\<forall>g. cells c (table_at g) = cells c t" and "\<forall>n. mset (order n) = mset [0..<n]"
  shows "single_read A c result t p = Inr (patched f P b0)" and "fan_out_read A n c result table_at order p = Inr (patched f P b0)"
proof -
  have "reads_cells (reader_of A c t) (cells c t)" by (rule reads)
  from partition_reads_loop [OF assms(1) this refl assms(5), of sz 0]
  show "single_read A c result t p = Inr (patched f P b0)"
    using assms(4,6) by (simp add: single_read_def assms(3) ReadChunks_def DispatchCasaType_size [OF assms(6)])
  let ?tasks = "read_tasks (data_chunks p) n sz"
  have "concat (map snd ?tasks) = data_chunks p"
    using chunk_groups_concat [OF assms(2), of n] by (simp add: read_tasks_def comp_def)
  from run_reads_all [OF assms(1) this _ assms(7,5,6), of "order (length ?tasks)" "\<lambda>g. Inr ()"] assms(8)
  obtain reads' where r: "run_reads A c (dp_dtype p) ?tasks table_at (order (length ?tasks)) b0 (\<lambda>g. Inr ()) = (patched f P b0, reads')"
    "\<forall>g < length ?tasks. reads' g = Inr ()" by auto
  from r(2) have "rfor reads' [0..<length ?tasks] = Inr ()" by (simp add: rfor_Inr_conv)
  with r(1) assms(4,6) show "fan_out_read A n c result table_at order p = Inr (patched f P b0)"
    by (simp add: fan_out_read_def assms(3) Let_def)
qed

text \<open>A whole read, of a new result or into one that is given.\<close>

lemma ReadImpl_patched:
  assumes "read_partition A ninstances c sel result t = Inr (p, d)"
    and "partition_reads N (cells c t) f P (data_chunks p)" and "data_chunks p \<noteq> []" and "PartitionElements p = N"
    and "GetResultBufferOrAllocate A N (dp_dtype p) result = Inr b0" and "length b0 = N"
    and "CasaDataTypeSize (sizeof_String A) (dp_dtype p) = Inr sz"
    and "\<forall>g. cells c (table_at g) = cells c t" and "\<forall>n. mset (order n) = mset [0..<n]"
  shows "ReadImpl A ninstances c sel result t table_at order loc = array_of A loc d (patched f P b0)"
  using assms(1) read_both_ways(1) [OF assms(2-9)] read_both_ways(2) [OF assms(2-9), of ninstances] by (simp add: ReadImpl_def)

text \<open>The array made of a buffer shows its shape and its values.\<close>

lemma array_of_rows:
  assumes "full_shape k d" and "length buffer = nElements d"
    and "\<forall>x \<in> set buffer. length (arrow_values A x) = value_width (rs_dtype d)"
    and "CasaDataTypeSize (sizeof_String A) (rs_dtype d) = Inr sz" and "GetConvertStrategy loc = (Inr strat, loc')"
    and "tc_dtype col = rs_dtype d"
  shows "\<exists>arr d' ty. array_of A loc d buffer = (Inr arr, loc') \<and>
    GetFlatArray False arr = Inr (Values ty (concat (map (arrow_values A) buffer)) 0 (length (concat (map (arrow_values A) buffer)))) \<and>
    FromArray col (Some arr) = Inr d' \<and> rows_of d' = rows_of d \<and> rs_dtype d' = rs_dtype d"
proof -
  obtain m where "CasaDataTypeSize 0 (rs_dtype d) = Inr m" using dispatched [OF assms(4)] by blast
  then have prim: "rs_dtype d = TpString \<or> is_complex (rs_dtype d) \<or> IsPrimitiveType (numeric A) (rs_dtype d)"
    using primitive by blast
  obtain adt where adt: "ArrowDataType (rs_dtype d) = Inr adt" using assms(4) by (cases "rs_dtype d") auto
  have vals: "\<forall>b \<in> set buffer. length (arrow_values A b) = (if is_complex (rs_dtype d) then 2 else 1)"
    using assms(3) by (simp add: value_width_def)
  let ?tail = "if is_complex (rs_dtype d) then [2 :: nat] else []"
  from MakeArray_nested [OF assms(1,2) vals prim, of strat adt "tc_name col"] obtain arr ty r where
    arr: "rbind (base_array (fixed_lists_of A) (list_array_of A) (numeric A) (arrow_values A) strat adt d buffer)
        (nest_array (fixed_lists_of A) (list_array_of A) strat d) = Inr arr"
    and r: "GetArrowResultShapeData (tc_name col) (rs_dtype d) (Some arr) = Inr r"
      "describes r (k + length ?tail) (map (\<lambda>s. ?tail @ s) (rows_of d)) (tc_name col) (rs_dtype d)"
    and flat: "\<forall>nulls. GetFlatArray nulls arr =
        Inr (Values ty (concat (map (arrow_values A) buffer)) 0 (length (concat (map (arrow_values A) buffer))))"
    by blast
  have "rows_of d \<noteq> []" using assms(1) by (simp add: full_shape_def)
  from GetResult_describes [OF r refl this] obtain d' where
    "GetResultShapeData (tc_name col) (rs_dtype d) (Some arr) = Inr d'" "describes d' k (rows_of d) (tc_name col) (rs_dtype d)" by blast
  moreover have "array_of A loc d buffer = (Inr arr, loc')" using arr adt assms(5) by (simp add: array_of_def MakeArray_def)
  ultimately show ?thesis using flat assms(6) by (auto simp: FromArray_def describes_def)
qed

lemma array_of_buffer:
  assumes "fixed_result d sh" and "2 * prod_list sh < 2 ^ 31" and "length buffer = prod_list sh"
    and "\<forall>x \<in> set buffer. length (arrow_values A x) = value_width (rs_dtype d)"
    and "CasaDataTypeSize (sizeof_String A) (rs_dtype d) = Inr sz" and "GetConvertStrategy loc = (Inr strat, loc')"
    and "tc_dtype col = rs_dtype d"
  shows "\<exists>arr d' ty. array_of A loc d buffer = (Inr arr, loc') \<and>
    GetFlatArray False arr = Inr (Values ty (concat (map (arrow_values A) buffer)) 0 (length (concat (map (arrow_values A) buffer)))) \<and>
    FromArray col (Some arr) = Inr d' \<and> rows_of d' = replicate (last sh) (butlast sh) \<and> rs_dtype d' = rs_dtype d"
proof -
  note full = full_shape_fixed [OF assms(1,2)]
  from array_of_rows [OF full(1) _ assms(4-7)] full(2,3) assms(3) show ?thesis by simp
qed

end

end
