(* ===== verification/ColumnRoundTrip.thy ===== *)
theory ColumnRoundTrip
  imports ColumnAccess
begin

text \<open>
  Properties of whole reads and writes: \<open>ReadImpl\<close> returns the array of the cells selected,
  \<open>WriteImpl\<close> changes the cells selected to the values of the array, and a read gives back what a
  write has written. What is read of a slice of an array is stated too.
\<close>

context table_access
begin

lemma read_partition_new:
  assumes "column \<in> set (column_names A t)" and "MakeRead (column_of A column t) sel False = Inr d"
    and "fixed_result d sh" and "sel_fits sel sh" and "no_duplicates sel sh"
    and "CasaDataTypeSize (sizeof_String A) (rs_dtype d) = Inr sz"
  shows "\<exists>p opts. read_partition A ninstances column sel None t = Inr (p, d) \<and> Make (sizeof_String A) sel d opts = Inr p"
proof -
  let ?opts = "\<lparr>max_splits = ninstances, min_bytes = kMinSplitBytes,
     unit_start = (if 1 < ninstances then MakeRowUnitStart (storage_of A column t) else None)\<rparr>"
  from Make_fixed [OF assms(3,4), where string_size = "sizeof_String A" and opts = ?opts] assms(5,6)
  obtain p where p: "Make (sizeof_String A) sel d ?opts = Inr p" by (cases "Make (sizeof_String A) sel d ?opts") auto
  have "read_shape A column sel None t = Inr (sel, d)" using assms(2) by (simp add: read_shape_def)
  with p assms(1) show ?thesis by (auto simp: read_partition_def ColumnExists_def)
qed

lemma ReadImpl_buffer:
  assumes "column \<in> set (column_names A t)" and "MakeRead (column_of A column t) sel False = Inr d"
    and "fixed_result d sh" and "sel_fits sel sh" and "no_duplicates sel sh"
    and "CasaDataTypeSize (sizeof_String A) (rs_dtype d) = Inr sz"
    and "allocate A (rs_dtype d) (prod_list sh) (GetSafeAlignment (default_alignment A) sz) = Inr fresh"
    and "\<forall>g. cells column (table_at g) = cells column t" and "\<forall>n. mset (order n) = mset [0..<n]"
  shows "\<exists>b0. length b0 = prod_list sh \<and> (\<forall>x \<in> set b0. length (arrow_values A x) = value_width (rs_dtype d)) \<and>
    ReadImpl A ninstances column sel None t table_at order loc = array_of A loc d (read_buffer sel sh (cells column t) b0)"
proof -
  obtain p opts where p: "read_partition A ninstances column sel None t = Inr (p, d)" "Make (sizeof_String A) sel d opts = Inr p"
    using read_partition_new [OF assms(1-6)] by blast
  from Make_fixed [OF assms(3,4), where string_size = "sizeof_String A" and opts = opts] p(2) obtain L where
    dt: "dp_dtype p = rs_dtype d" and L: "chunks_of sel sh L (data_chunks p)" by auto
  have sh: "sh \<noteq> []" using assms(3) by (simp add: fixed_result_def)
  from GetResultBufferOrAllocate_new [OF assms(6,7)] obtain b0 where
    b0: "GetResultBufferOrAllocate A (prod_list sh) (rs_dtype d) None = Inr b0" "length b0 = prod_list sh"
    "\<forall>x \<in> set b0. length (arrow_values A x) = value_width (rs_dtype d)" by blast
  from ReadImpl_patched [OF p(1) chunks_of_reads [OF L assms(4) sh] chunks_of_ne [OF L] partition_elements [OF L assms(4)],
      unfolded dt, OF b0(1,2) assms(6,8,9)] b0 show ?thesis
    by (intro exI [of _ b0]) (simp add: read_buffer_patched)
qed

text \<open>What a read returns.\<close>

lemma ReadImpl_cells:
  assumes "column \<in> set (column_names A t)"
    and "MakeRead (column_of A column t) sel False = Inr d" and "ranks_ok (column_of A column t)"
    and "length (tc_shape (column_of A column t)) < 2 ^ 64 - 1"
    and "fixed_result d sh" and "2 * prod_list sh < 2 ^ 31" and "no_duplicates sel sh"
    and "CasaDataTypeSize (sizeof_String A) (rs_dtype d) = Inr sz"
    and "allocate A (rs_dtype d) (prod_list sh) (GetSafeAlignment (default_alignment A) sz) = Inr fresh"
    and "GetConvertStrategy loc = (Inr strat, loc')"
    and "\<forall>g. cells column (table_at g) = cells column t" and "\<forall>n. mset (order n) = mset [0..<n]"
    and "\<forall>r i. length (arrow_values A (cells column t r i)) = value_width (rs_dtype d)"
  shows "\<exists>arr buffer ty d'. ReadImpl A ninstances column sel None t table_at order loc = (Inr arr, loc') \<and>
    GetFlatArray False arr = Inr (Values ty (concat (map (arrow_values A) buffer)) 0 (length (concat (map (arrow_values A) buffer)))) \<and>
    length buffer = prod_list sh \<and>
    (\<forall>idx \<in> present sel sh. buffer ! lin sh idx = cells column t (last (disk_index sel sh idx)) (butlast (disk_index sel sh idx))) \<and>
    FromArray (column_of A column t) (Some arr) = Inr d' \<and> rows_of d' = replicate (last sh) (butlast sh) \<and> rs_dtype d' = rs_dtype d"
proof -
  have sh: "rs_shape d = Some sh" "0 \<notin> set sh" using assms(5) by (auto simp: fixed_result_def)
  note fits = MakeRead_sel_fits [OF assms(2-4) sh]
  have dt: "tc_dtype (column_of A column t) = rs_dtype d" using MakeRead_cells [OF assms(2-4)] by simp
  from ReadImpl_buffer [OF assms(1,2,5) fits assms(7-9,11,12), of ninstances loc] obtain b0 where
    b0: "length b0 = prod_list sh" "\<forall>x \<in> set b0. length (arrow_values A x) = value_width (rs_dtype d)"
    "ReadImpl A ninstances column sel None t table_at order loc = array_of A loc d (read_buffer sel sh (cells column t) b0)" by blast
  let ?b = "read_buffer sel sh (cells column t) b0"
  have len: "length ?b = prod_list sh" by (simp add: read_buffer_def)
  have typed: "\<forall>x \<in> set ?b. length (arrow_values A x) = value_width (rs_dtype d)"
    using assms(13) b0(1,2) lin_less [of sh] by (auto simp: read_buffer_def set_box cell_at_def)
  have "?b ! lin sh idx = cells column t (last (disk_index sel sh idx)) (butlast (disk_index sel sh idx))"
    if "idx \<in> present sel sh" for idx
    using that lin_less [of sh idx] box_nth_lin [of sh idx] by (auto simp: read_buffer_def present_def cell_at_def)
  with array_of_buffer [OF assms(5,6) len typed assms(8,10) dt] len b0(3) show ?thesis by auto
qed

text \<open>The buffer of a write holds the values of the array, if the array is no slice.\<close>

lemma write_buffer_casa:
  assumes "write_buffer A sel data d = Inr (p, buffer)"
    and "\<And>p. Make (sizeof_String A) sel d no_split = Inr p \<Longrightarrow> dp_dtype p = rs_dtype d \<and> PartitionElements p = N"
    and "GetFlatArray False data = Inr (Values (Value_type adt) buf 0 (length buf))"
    and "ArrowDataType (rs_dtype d) = Inr adt"
  shows "Make (sizeof_String A) sel d no_split = Inr p \<and> length buffer = N \<and>
    concat (map (arrow_values A) buffer) = buf \<and> (\<forall>x \<in> set buffer. length (arrow_values A x) = value_width (rs_dtype d))"
proof -
  have make: "Make (sizeof_String A) sel d no_split = Inr p" using assms(1) by (auto simp: write_buffer_def rbind_Inr_conv Let_def)
  from assms(2) [OF make] have dt: "dp_dtype p = rs_dtype d" and el: "PartitionElements p = N" by simp_all
  have len: "length buf = value_width (rs_dtype d) * N"
    and exb: "ExtractBufferOrCopyValues A (Values (Value_type adt) buf 0 (length buf)) (rs_dtype d) = Inr buffer"
    using assms(1,3) make by (auto simp: write_buffer_def rbind_Inr_conv require_Inr_conv Let_def dt el value_width_def)
  have "buffer = casa_view A (rs_dtype d) (Value_type adt) buf"
    using exb assms(4) by (auto simp: ExtractBufferOrCopyValues_def rbind_Inr_conv split: if_splits)
  with view [OF assms(4), of buf] len make show ?thesis by (auto simp: value_width_def split: if_splits)
qed

lemma write_buffer_values:
  assumes "write_buffer A sel data d = Inr (p, buffer)" and "fixed_result d sh" and "sel_fits sel sh"
    and "GetFlatArray False data = Inr (Values (Value_type adt) buf 0 (length buf))"
    and "ArrowDataType (rs_dtype d) = Inr adt"
  shows "Make (sizeof_String A) sel d no_split = Inr p \<and> length buffer = prod_list sh \<and>
    concat (map (arrow_values A) buffer) = buf \<and> (\<forall>x \<in> set buffer. length (arrow_values A x) = value_width (rs_dtype d))"
proof (rule write_buffer_casa [OF assms(1) _ assms(4,5)])
  fix q assume "Make (sizeof_String A) sel d no_split = Inr q"
  with Make_fixed [OF assms(2,3), where string_size = "sizeof_String A" and opts = no_split] obtain L where
    "dp_dtype q = rs_dtype d" "chunks_of sel sh L (data_chunks q)" by auto
  with partition_elements [OF _ assms(3)] show "dp_dtype q = rs_dtype d \<and> PartitionElements q = prod_list sh" by blast
qed

text \<open>The steps of a write that succeeds.\<close>

lemma WriteImpl_steps:
  assumes "WriteImpl A column (Some data) sel t = (Inr ok, t')"
    and "GetResultShapeData (tc_name (column_of A column t)) (tc_dtype (column_of A column t)) (Some data) = Inr d"
  obtains t1 t2 p buffer n where
    "MakeWrite (column_of A column) (set_cell_shape A column) t1 (Some data) sel = (Inr d, t2)"
    and "write_buffer A sel data d = Inr (p, buffer)"
    and "WriteChunks (sizeof_String A) (writer_of A column) (fresh_value A) (dp_dtype p) (map Some (data_chunks p)) buffer (t2, 0) = Inr (t', n)"
    and "ok" and "column_of A column t1 = column_of A column t"
    and "\<forall>row. tc_fixed (column_of A column t) \<or> tc_defined (column_of A column t) row \<longrightarrow> cells column t2 (int row) = cells column t (int row)"
proof -
  define t1 where "t1 = (if is_writable A t then t else reopenRW A t)"
  have t1: "column_of A column t1 = column_of A column t" "cells column t1 = cells column t"
    by (simp_all add: t1_def reopen_column reopen_cells)
  from assms(1) obtain d2 t2 p buffer n where
    make: "MakeWrite (column_of A column) (set_cell_shape A column) t1 (Some data) sel = (Inr d2, t2)"
    and wb: "write_buffer A sel data d2 = Inr (p, buffer)"
    and wr: "WriteChunks (sizeof_String A) (writer_of A column) (fresh_value A) (dp_dtype p) (map Some (data_chunks p)) buffer (t2, 0) = Inr (t', n)"
    and ok: "ok"
    by (auto simp: WriteImpl_def write_task_def t1_def [symmetric] Let_def split: sum.splits prod.splits)
  have d2: "d2 = d" using MakeWrite_sound [OF sets_shapes make] assms(2) t1(1) by simp
  have "cells column t2 (int row) = cells column t (int row)"
    if "tc_fixed (column_of A column t) \<or> tc_defined (column_of A column t) row" for row
    using MakeWrite_keeps [OF sets_shapes make, of row "\<lambda>t. cells column t (int row)"] set_shape_cells that t1 by auto
  with that [OF make [unfolded d2] wb [unfolded d2] wr ok t1(1)] show thesis by blast
qed

lemma WriteImpl_cells:
  assumes "WriteImpl A column (Some data) sel t = (Inr ok, t')"
    and "GetResultShapeData (tc_name (column_of A column t)) (tc_dtype (column_of A column t)) (Some data) = Inr d"
    and "fixed_result d sh"
    and "GetFlatArray False data = Inr (Values (Value_type adt) buf 0 (length buf))"
    and "ArrowDataType (rs_dtype d) = Inr adt" and "CasaDataTypeSize (sizeof_String A) (rs_dtype d) = Inr sz"
  shows "\<exists>buffer s. ok \<and> sel_fits sel sh \<and> no_duplicates sel sh \<and> length buffer = prod_list sh \<and>
    concat (map (arrow_values A) buffer) = buf \<and>
    (\<forall>x \<in> set buffer. length (arrow_values A x) = value_width (rs_dtype d)) \<and>
    written sel sh buffer (present sel sh) s (cells column t') \<and>
    (\<forall>row. tc_fixed (column_of A column t) \<or> tc_defined (column_of A column t) row \<longrightarrow> s (int row) = cells column t (int row))"
proof -
  have sh: "rs_shape d = Some sh" "sh \<noteq> []" using assms(3) by (auto simp: fixed_result_def)
  obtain t1 t2 p buffer n where
    make: "MakeWrite (column_of A column) (set_cell_shape A column) t1 (Some data) sel = (Inr d, t2)"
    and wb: "write_buffer A sel data d = Inr (p, buffer)"
    and wr: "WriteChunks (sizeof_String A) (writer_of A column) (fresh_value A) (dp_dtype p) (map Some (data_chunks p)) buffer (t2, 0) = Inr (t', n)"
    and ok: "ok"
    and keeps: "\<forall>row. tc_fixed (column_of A column t) \<or> tc_defined (column_of A column t) row \<longrightarrow> cells column t2 (int row) = cells column t (int row)"
    by (rule WriteImpl_steps [OF assms(1,2)])
  note fits = MakeWrite_sel_fits [OF make sh]
  from write_buffer_values [OF wb assms(3) fits assms(4,5)] have
    b: "Make (sizeof_String A) sel d no_split = Inr p" "length buffer = prod_list sh"
    "concat (map (arrow_values A) buffer) = buf" "\<forall>x \<in> set buffer. length (arrow_values A x) = value_width (rs_dtype d)"
    by simp_all
  from Make_fixed [OF assms(3) fits, where string_size = "sizeof_String A" and opts = no_split] b(1)
  have nd: "no_duplicates sel sh" by simp
  from WriteChunks_partition [OF assms(3) fits b(1) writes b(2) assms(6), of column "fresh_value A" t2 0] wr
  have w: "written sel sh buffer (present sel sh) (cells column t2) (cells column t')" by auto
  then show ?thesis using ok fits nd b keeps by blast
qed

lemma WriteImpl_keeps:
  assumes "WriteImpl A column (Some data) sel t = (Inr ok, t')"
  shows "column_names A t' = column_names A t \<and>
    (tc_fixed (column_of A column t) \<longrightarrow> column_of A column t' = column_of A column t)"
proof -
  define t1 where "t1 = (if is_writable A t then t else reopenRW A t)"
  have t1: "column_of A column t1 = column_of A column t" "column_names A t1 = column_names A t"
    by (simp_all add: t1_def reopen_column reopen_names)
  from assms obtain d t2 p buffer n where
    make: "MakeWrite (column_of A column) (set_cell_shape A column) t1 (Some data) sel = (Inr d, t2)"
    and "write_buffer A sel data d = Inr (p, buffer)"
    and wr: "WriteChunks (sizeof_String A) (writer_of A column) (fresh_value A) (dp_dtype p) (map Some (data_chunks p)) buffer (t2, 0) = Inr (t', n)"
    by (auto simp: WriteImpl_def write_task_def t1_def [symmetric] Let_def split: sum.splits prod.splits)
  have "column_names A t' = column_names A t2" "column_of A column t' = column_of A column t2"
    using WriteChunks_keeps [OF write_names wr] WriteChunks_keeps [OF write_column [of column column] wr] by simp_all
  moreover have "column_names A t2 = column_names A t1"
    by (rule MakeWrite_any [OF make]) (simp add: set_shape_names)
  moreover have "tc_fixed (column_of A column t1) \<longrightarrow> t2 = t1" using MakeWrite_fixed [OF _ make] by blast
  ultimately show ?thesis using t1 by auto
qed

end

section \<open>Properties\<close>

text \<open>
  An alignment is always a power of two, as allocators ask for, and a size that is one is used
  as it is.
\<close>

theorem GetSafeAlignment_power:
  assumes "type_size < 2 ^ 64" and "default_align = 2 ^ j"
  shows "(\<exists>k. GetSafeAlignment default_align type_size = 2 ^ k) \<and>
    ((\<exists>k. type_size = 2 ^ k) \<longrightarrow> GetSafeAlignment default_align type_size = type_size)"
proof (cases "type_size = 0")
  case True
  with assms(2) show ?thesis by (auto simp: GetSafeAlignment_def)
next
  case False
  with assms power_of_two_word [of type_size] show ?thesis by (auto simp: GetSafeAlignment_def Let_def)
qed

theorem GetSafeAlignment_power_witness:
  "(\<exists>k. GetSafeAlignment 64 12 = 2 ^ k) \<and> GetSafeAlignment 64 16 = 16"
proof -
  have "\<exists>k. (16 :: nat) = 2 ^ k" by (rule exI [of _ 4]) simp
  moreover have "(\<exists>k. (16 :: nat) = 2 ^ k) \<longrightarrow> GetSafeAlignment 64 16 = 16"
    by (rule GetSafeAlignment_power [of 16 64 6, THEN conjunct2]) simp_all
  moreover have "\<exists>k. GetSafeAlignment 64 12 = 2 ^ k"
    by (rule GetSafeAlignment_power [of 12 64 6, THEN conjunct1]) simp_all
  ultimately show ?thesis by blast
qed

text \<open>
  C2. A read returns the cells that are selected. For a result of a fixed shape without empty
  dimensions whose offsets fit 31 bits, and whatever the number of instances, the splitting of the
  rows, the tables of the instances that run the tasks and their order, \<open>ReadImpl\<close> returns an
  array; its shape is that of the selection, and its values, in order, are those of a buffer that
  holds for each index the element selected on disk.
\<close>

theorem ReadImpl_reads_cells:
  assumes "table_access A cells" and "column \<in> set (column_names A t)"
    and "MakeRead (column_of A column t) sel False = Inr d" and "ranks_ok (column_of A column t)"
    and "length (tc_shape (column_of A column t)) < 2 ^ 64 - 1"
    and "fixed_result d sh" and "2 * prod_list sh < 2 ^ 31" and "no_duplicates sel sh"
    and "CasaDataTypeSize (sizeof_String A) (rs_dtype d) = Inr sz"
    and "allocate A (rs_dtype d) (prod_list sh) (GetSafeAlignment (default_alignment A) sz) = Inr fresh"
    and "GetConvertStrategy loc = (Inr strat, loc')"
    and "\<forall>g. cells column (table_at g) = cells column t" and "\<forall>n. mset (order n) = mset [0..<n]"
    and "\<forall>r i. length (arrow_values A (cells column t r i)) = value_width (rs_dtype d)"
  shows "\<exists>arr buffer ty d'. ReadImpl A ninstances column sel None t table_at order loc = (Inr arr, loc') \<and>
    GetFlatArray False arr = Inr (Values ty (concat (map (arrow_values A) buffer)) 0 (length (concat (map (arrow_values A) buffer)))) \<and>
    length buffer = prod_list sh \<and>
    (\<forall>idx \<in> present sel sh. buffer ! lin sh idx = cells column t (last (disk_index sel sh idx)) (butlast (disk_index sel sh idx))) \<and>
    FromArray (column_of A column t) (Some arr) = Inr d' \<and> rows_of d' = replicate (last sh) (butlast sh) \<and> rs_dtype d' = rs_dtype d"
  by (rule table_access.ReadImpl_cells [OF assms])

text \<open>A table in memory with a column of vectors of two values in three rows, and two values of its rows 2 and 0.\<close>

definition vector_column :: table_column where
  "vector_column = \<lparr>tc_name = ''UVW'', tc_dtype = TpFloat, tc_fixed = True, tc_shape = [2], tc_ndim = 1,
     tc_nrow = 3, tc_defined = (\<lambda>row. True), tc_cell = (\<lambda>row. [2])\<rparr>"

definition vector_table :: memory_table where
  "vector_table = (True, vector_column, \<lambda>row i. [10 * row + hd i])"

definition vector_selection :: selection where
  "vector_selection = FromInit IndexElem [[2, 0], [1]]"

definition vector_result :: ResultShapeData where
  "vector_result = \<lparr>rs_name = ''UVW'', rs_shape = Some [1, 2], rs_ndim = 2, rs_dtype = TpFloat,
     rs_row_shapes = None, rs_cell_extents = None\<rparr>"

lemma vector_facts:
  "MakeRead vector_column vector_selection False = Inr vector_result" "fixed_result vector_result [1, 2]"
  "no_duplicates vector_selection [1, 2]" "ranks_ok vector_column" "length (tc_shape vector_column) < 2 ^ 64 - 1"
  "GetConvertStrategy None = (Inr FIXED, Some [])" "CasaDataTypeSize (sizeof_String memory_access) TpFloat = Inr 4"
  "allocate memory_access TpFloat n align = Inr (replicate n [0])"
proof -
  show "MakeRead vector_column vector_selection False = Inr vector_result" by code_simp
  show "fixed_result vector_result [1, 2]" by (simp add: fixed_result_def vector_result_def)
  have "distinct (filter (\<lambda>x. 0 \<le> x) (disk_ids vector_selection [1, 2] 0))"
    "distinct (filter (\<lambda>x. 0 \<le> x) (disk_ids vector_selection [1, 2] 1))" by code_simp+
  then show "no_duplicates vector_selection [1, 2]" by (simp add: no_duplicates_def All_less_Suc2 numeral_2_eq_2)
  show "ranks_ok vector_column" "length (tc_shape vector_column) < 2 ^ 64 - 1"
    by (simp_all add: ranks_ok_def vector_column_def)
  show "GetConvertStrategy None = (Inr FIXED, Some [])" by code_simp
  show "CasaDataTypeSize (sizeof_String memory_access) TpFloat = Inr 4" by simp
  show "allocate memory_access TpFloat n align = Inr (replicate n [0])" by (simp add: memory_access_def value_width_def)
qed

theorem ReadImpl_reads_cells_witness:
  "\<exists>arr ty. ReadImpl memory_access 2 ''UVW'' vector_selection None vector_table (\<lambda>g. vector_table) (\<lambda>n. rev [0..<n]) None =
      (Inr arr, Some []) \<and> GetFlatArray False arr = Inr (Values ty [21, 1] 0 2)"
proof -
  have col: "column_of memory_access ''UVW'' vector_table = vector_column" "''UVW'' \<in> set (column_names memory_access vector_table)"
    "snd (snd vector_table) = (\<lambda>row i. [10 * row + hd i])"
    by (simp_all add: memory_access_def vector_table_def vector_column_def)
  have typed: "\<forall>r i. length (arrow_values memory_access (snd (snd vector_table) r i)) = value_width (rs_dtype vector_result)"
    and dt: "rs_dtype vector_result = TpFloat"
    by (simp_all add: col(3) memory_access_def value_width_def vector_result_def)
  have two: "2 * prod_list [1, 2] < (2 :: nat) ^ 31" by simp
  note v = vector_facts
  from ReadImpl_reads_cells [OF memory.table_access_axioms col(2) v(1)[folded col(1)] v(4)[folded col(1)] v(5)[folded col(1)] v(2) two v(3)
      v(7)[folded dt] v(8)[folded dt] v(6) _ _ typed, of "\<lambda>g. vector_table" "\<lambda>n. rev [0..<n]" 2]
  obtain arr buffer ty where r: "ReadImpl memory_access 2 ''UVW'' vector_selection None vector_table (\<lambda>g. vector_table) (\<lambda>n. rev [0..<n]) None =
      (Inr arr, Some [])"
    "GetFlatArray False arr = Inr (Values ty (concat (map (arrow_values memory_access) buffer)) 0
        (length (concat (map (arrow_values memory_access) buffer))))"
    "length buffer = 2" "\<forall>idx \<in> present vector_selection [1, 2]. buffer ! lin [1, 2] idx =
      [10 * last (disk_index vector_selection [1, 2] idx) + hd (butlast (disk_index vector_selection [1, 2] idx))]"
    by (auto simp: col(3))
  have idx: "lin [1, 2] [0, 0] = 0" "lin [1, 2] [0, 1] = 1" "disk_index vector_selection [1, 2] [0, 0] = [1, 2]"
    "disk_index vector_selection [1, 2] [0, 1] = [1, 0]" by code_simp+
  then have "[0, 0] \<in> present vector_selection [1, 2]" "[0, 1] \<in> present vector_selection [1, 2]"
    by (auto simp: present_def in_box_Cons)
  with r(4) idx have "buffer ! 0 = [21]" "buffer ! 1 = [1]" by auto
  with r(3) have "buffer = [[21], [1]]" by (auto simp: length_Suc_conv numeral_2_eq_2)
  with r(1,2) show ?thesis by (auto simp: memory_access_def)
qed

text \<open>
  C3. A write changes the cells that are selected to the values of the array, and nothing else.
  When \<open>WriteImpl\<close> returns, for data of a fixed shape of the arrow type of the column and no slice,
  each element of the data whose indices on disk are all there is the value of its cell element;
  every other element keeps its value, in each row that had a cell before.
\<close>

theorem WriteImpl_writes_cells:
  assumes "table_access A cells" and "WriteImpl A column (Some data) sel t = (Inr ok, t')"
    and "GetResultShapeData (tc_name (column_of A column t)) (tc_dtype (column_of A column t)) (Some data) = Inr d"
    and "fixed_result d sh"
    and "GetFlatArray False data = Inr (Values (Value_type adt) buf 0 (length buf))"
    and "ArrowDataType (rs_dtype d) = Inr adt" and "CasaDataTypeSize (sizeof_String A) (rs_dtype d) = Inr sz"
  shows "\<exists>buffer. length buffer = prod_list sh \<and> concat (map (arrow_values A) buffer) = buf \<and>
    (\<forall>x \<in> set buffer. length (arrow_values A x) = value_width (rs_dtype d)) \<and>
    (\<forall>idx \<in> present sel sh. cells column t' (last (disk_index sel sh idx)) (butlast (disk_index sel sh idx)) = buffer ! lin sh idx) \<and>
    (\<forall>row c. (tc_fixed (column_of A column t) \<or> tc_defined (column_of A column t) row) \<and>
       (\<forall>idx \<in> present sel sh. disk_index sel sh idx \<noteq> c @ [int row]) \<longrightarrow>
       cells column t' (int row) c = cells column t (int row) c)"
proof -
  from table_access.WriteImpl_cells [OF assms] obtain buffer s where
    b: "length buffer = prod_list sh" "concat (map (arrow_values A) buffer) = buf"
      "\<forall>x \<in> set buffer. length (arrow_values A x) = value_width (rs_dtype d)"
    and w: "written sel sh buffer (present sel sh) s (cells column t')"
    and s: "\<forall>row. tc_fixed (column_of A column t) \<or> tc_defined (column_of A column t) row \<longrightarrow> s (int row) = cells column t (int row)"
    by blast
  have "cells column t' (int row) c = cells column t (int row) c"
    if "tc_fixed (column_of A column t) \<or> tc_defined (column_of A column t) row"
      "\<forall>idx \<in> present sel sh. disk_index sel sh idx \<noteq> c @ [int row]" for row c
  proof -
    have "s (int row) = cells column t (int row)" using s that(1) by blast
    with w that(2) show ?thesis by (simp add: written_def)
  qed
  with b w show ?thesis by (intro exI [of _ buffer]) (auto simp: written_def cell_at_def)
qed


text \<open>Two values, as a list of lists of one value, for rows 2 and 0 of the table.\<close>

definition vector_data :: "int arrow" where
  "vector_data = FixedLists 1 2 0 None (Values (Value_type float32) [7, 8] 0 2)"

lemma vector_column_of [simp]: "column_of memory_access ''UVW'' vector_table = vector_column"
  by (simp add: memory_access_def vector_table_def)

lemma vector_shape: "GetResultShapeData (tc_name vector_column) (tc_dtype vector_column) (Some vector_data) = Inr vector_result"
  by code_simp

lemma vector_fits: "sel_fits vector_selection [1, 2]"
  using MakeRead_sel_fits [OF vector_facts(1,4,5)] by (simp add: vector_result_def)

lemma vector_write:
  "\<exists>t'. WriteImpl memory_access ''UVW'' (Some vector_data) vector_selection vector_table = (Inr True, t')"
proof -
  have "fst (MakeWrite (column_of memory_access ''UVW'') (set_cell_shape memory_access ''UVW'') vector_table
      (Some vector_data) vector_selection) = Inr vector_result" by code_simp
  then obtain t where make: "MakeWrite (column_of memory_access ''UVW'') (set_cell_shape memory_access ''UVW'') vector_table
      (Some vector_data) vector_selection = (Inr vector_result, t)" by (metis prod.collapse)
  have "case write_buffer memory_access vector_selection vector_data vector_result of Inr _ \<Rightarrow> True | Inl e \<Rightarrow> False" by code_simp
  then obtain p buffer where b: "write_buffer memory_access vector_selection vector_data vector_result = Inr (p, buffer)"
    by (auto split: sum.splits)
  have flat: "GetFlatArray False vector_data = Inr (Values (Value_type float32) [7, 8] 0 (length [7, 8]))"
    and adt: "ArrowDataType (rs_dtype vector_result) = Inr float32"
    and sz: "CasaDataTypeSize (sizeof_String memory_access) (rs_dtype vector_result) = Inr 4"
    by (simp_all add: vector_data_def vector_result_def)
  note v = memory.write_buffer_values [OF b vector_facts(2) vector_fits flat adt]
  from WriteChunks_partition [OF vector_facts(2) vector_fits v[THEN conjunct1] memory.writes [of "''UVW''"] _ sz, of buffer "fresh_value memory_access" t 0] v
  obtain t' n where "WriteChunks (sizeof_String memory_access) (writer_of memory_access ''UVW'') (fresh_value memory_access) (dp_dtype p)
      (map Some (data_chunks p)) buffer (t, 0) = Inr (t', n)" by auto
  moreover have "is_writable memory_access vector_table" "ColumnExists (column_names memory_access vector_table) ''UVW'' = Inr ()"
    by (simp_all add: memory_access_def vector_table_def vector_column_def ColumnExists_def)
  ultimately show ?thesis using make b by (cases t') (simp add: WriteImpl_def write_task_def)
qed

lemma vector_index:
  "lin [1, 2] [0, 0] = 0" "lin [1, 2] [0, 1] = 1" "disk_index vector_selection [1, 2] [0, 0] = [1, 2]"
  "disk_index vector_selection [1, 2] [0, 1] = [1, 0]" "present vector_selection [1, 2] = {idx. in_box [1, 2] idx}"
proof -
  show "lin [1, 2] [0, 0] = 0" "lin [1, 2] [0, 1] = 1" "disk_index vector_selection [1, 2] [0, 0] = [1, 2]"
    "disk_index vector_selection [1, 2] [0, 1] = [1, 0]" by code_simp+
  have "list_all (\<lambda>idx. list_all (\<lambda>i. 0 \<le> i) (disk_index vector_selection [1, 2] idx)) (box [1, 2])" by code_simp
  then show "present vector_selection [1, 2] = {idx. in_box [1, 2] idx}"
    unfolding present_def list_all_iff set_box by blast
qed

theorem WriteImpl_writes_cells_witness:
  "\<exists>t'. WriteImpl memory_access ''UVW'' (Some vector_data) vector_selection vector_table = (Inr True, t') \<and>
     snd (snd t') 2 [1] = [7] \<and> snd (snd t') 0 [1] = [8] \<and> snd (snd t') 1 [1] = [11]"
proof -
  obtain t' where w: "WriteImpl memory_access ''UVW'' (Some vector_data) vector_selection vector_table = (Inr True, t')"
    using vector_write by blast
  have flat: "GetFlatArray False vector_data = Inr (Values (Value_type float32) [7, 8] 0 (length [7, 8]))"
    and adt: "ArrowDataType (rs_dtype vector_result) = Inr float32"
    and sz: "CasaDataTypeSize (sizeof_String memory_access) (rs_dtype vector_result) = Inr 4"
    by (simp_all add: vector_data_def vector_result_def)
  from WriteImpl_writes_cells [OF memory.table_access_axioms w vector_shape[folded vector_column_of] vector_facts(2) flat adt sz]
  obtain buffer where b: "length buffer = 2" "concat buffer = [7, 8]" "\<forall>x \<in> set buffer. length x = 1"
    "\<forall>idx. in_box [1, 2] idx \<longrightarrow> snd (snd t') (last (disk_index vector_selection [1, 2] idx)) (butlast (disk_index vector_selection [1, 2] idx)) = buffer ! lin [1, 2] idx"
    "\<forall>row c. (\<forall>idx. in_box [1, 2] idx \<longrightarrow> disk_index vector_selection [1, 2] idx \<noteq> c @ [int row]) \<longrightarrow>
       snd (snd t') (int row) c = snd (snd vector_table) (int row) c"
    by (auto simp: memory_access_def vector_column_def vector_result_def value_width_def vector_table_def vector_index(5) [unfolded One_nat_def])
  have "buffer = [[7], [8]]" using b(1-3) by (auto simp: length_Suc_conv numeral_2_eq_2)
  with b(4)[rule_format, of "[0, 0]"] b(4)[rule_format, of "[0, 1]"] vector_index
  have "snd (snd t') 2 [1] = [7]" "snd (snd t') 0 [1] = [8]" by (simp_all add: in_box_Cons)
  moreover have "list_all (\<lambda>idx. disk_index vector_selection [1, 2] idx \<noteq> [1] @ [1]) (box [1, 2])" by code_simp
  then have none: "disk_index vector_selection [1, 2] idx \<noteq> [1] @ [int 1]" if "in_box [1, 2] idx" for idx
    using that unfolding list_all_iff set_box by auto
  have "snd (snd t') (int 1) [1] = snd (snd vector_table) (int 1) [1]" by (rule b(5)[rule_format, OF none])
  then have "snd (snd t') 1 [1] = [11]" by (simp add: vector_table_def)
  ultimately show ?thesis using w by blast
qed

text \<open>
  C1. What is written can be read: after a write of whole cells, a read of the same selection, by
  however many instances and in whatever order of their tasks, returns an array that flattens to
  the values that were written, in their order.
\<close>

theorem WriteImpl_ReadImpl:
  assumes "table_access A cells" and "WriteImpl A column (Some data) sel t = (Inr ok, t')"
    and "GetResultShapeData (tc_name (column_of A column t)) (tc_dtype (column_of A column t)) (Some data) = Inr d"
    and "fixed_result d sh"
    and "GetFlatArray False data = Inr (Values (Value_type adt) buf 0 (length buf))"
    and "ArrowDataType (rs_dtype d) = Inr adt" and "CasaDataTypeSize (sizeof_String A) (rs_dtype d) = Inr sz"
    and "column \<in> set (column_names A t)" and "present sel sh = {idx. in_box sh idx}"
    and "MakeRead (column_of A column t') sel False = Inr d'" and "fixed_result d' sh" and "rs_dtype d' = rs_dtype d"
    and "tc_dtype (column_of A column t') = rs_dtype d" and "2 * prod_list sh < 2 ^ 31"
    and "allocate A (rs_dtype d) (prod_list sh) (GetSafeAlignment (default_alignment A) sz) = Inr fresh"
    and "GetConvertStrategy loc = (Inr strat, loc')"
    and "\<forall>g. cells column (table_at g) = cells column t'" and "\<forall>n. mset (order n) = mset [0..<n]"
  shows "\<exists>arr ty. ReadImpl A ninstances column sel None t' table_at order loc = (Inr arr, loc') \<and>
    GetFlatArray False arr = Inr (Values ty buf 0 (length buf))"
proof -
  from table_access.WriteImpl_cells [OF assms(1-7)] obtain buffer s where
    fits: "sel_fits sel sh" "no_duplicates sel sh"
    and b: "length buffer = prod_list sh" "concat (map (arrow_values A) buffer) = buf"
      "\<forall>x \<in> set buffer. length (arrow_values A x) = value_width (rs_dtype d)"
    and w: "written sel sh buffer (present sel sh) s (cells column t')" by blast
  have names: "column \<in> set (column_names A t')" using table_access.WriteImpl_keeps [OF assms(1,2)] assms(8) by simp
  from table_access.ReadImpl_buffer [OF assms(1) names assms(10,11) fits _ _ assms(17,18), of sz fresh ninstances loc] assms(7,12,15)
  obtain b0 where r: "ReadImpl A ninstances column sel None t' table_at order loc =
      array_of A loc d' (read_buffer sel sh (cells column t') b0)" by auto
  let ?b = "read_buffer sel sh (cells column t') b0"
  have "?b = buffer"
  proof (rule nth_equalityI)
    show len: "length ?b = length buffer" using b(1) by (simp add: read_buffer_def)
    fix a assume "a < length ?b"
    then have a: "a < prod_list sh" using len b(1) by simp
    have "box sh ! a \<in> present sel sh" using assms(9) box_nth_in_box [OF a] by simp
    then show "?b ! a = buffer ! a" using w a by (simp add: read_buffer_def written_def present_def lin_box_nth)
  qed
  with table_access.array_of_buffer [OF assms(1,11,14) b(1) _ _ assms(16), of sz "column_of A column t'"] b assms(7,12,13) r
  show ?thesis by auto
qed

theorem WriteImpl_ReadImpl_witness:
  "\<exists>t' arr ty. WriteImpl memory_access ''UVW'' (Some vector_data) vector_selection vector_table = (Inr True, t') \<and>
     ReadImpl memory_access 2 ''UVW'' vector_selection None t' (\<lambda>g. t') (\<lambda>n. rev [0..<n]) None = (Inr arr, Some []) \<and>
     GetFlatArray False arr = Inr (Values ty [7, 8] 0 2)"
proof -
  obtain t' where w: "WriteImpl memory_access ''UVW'' (Some vector_data) vector_selection vector_table = (Inr True, t')"
    using vector_write by blast
  have flat: "GetFlatArray False vector_data = Inr (Values (Value_type float32) [7, 8] 0 (length [7, 8]))"
    and adt: "ArrowDataType (rs_dtype vector_result) = Inr float32"
    and sz: "CasaDataTypeSize (sizeof_String memory_access) (rs_dtype vector_result) = Inr 4"
    and names: "''UVW'' \<in> set (column_names memory_access vector_table)"
    and dt: "tc_dtype vector_column = rs_dtype vector_result" and two: "2 * prod_list [1, 2] < (2 :: nat) ^ 31"
    by (simp_all add: vector_data_def vector_result_def memory_access_def vector_table_def vector_column_def)
  have col: "column_of memory_access ''UVW'' t' = vector_column"
    using memory.WriteImpl_keeps [OF w] by (simp add: vector_column_def)
  have alloc: "allocate memory_access (rs_dtype vector_result) (prod_list [1, 2]) al = Inr [[0], [0]]" for al
    by (simp add: memory_access_def vector_result_def value_width_def numeral_2_eq_2)
  from WriteImpl_ReadImpl [OF memory.table_access_axioms w vector_shape[folded vector_column_of] vector_facts(2) flat adt sz names
      vector_index(5) vector_facts(1)[folded col] vector_facts(2) refl dt[folded col] two alloc vector_facts(6),
      of "\<lambda>g. t'" "\<lambda>n. rev [0..<n]" 2] w
  show ?thesis by auto
qed

text \<open>
  C23. A slice of an array is written as the array from its start: for a column of primitive values,
  \<open>WriteImpl\<close> takes the buffer of the array and not the part of it that the slice shows, so that a
  write of a slice with an offset that succeeds stores the values from the start of the buffer.
\<close>

theorem WriteImpl_ignores_offset:
  assumes "table_access A cells" and "IsPrimitiveType (numeric A) (tc_dtype (column_of A column t))"
    and "ArrowDataType (tc_dtype (column_of A column t)) = Inr adt"
  shows "WriteImpl A column (Some (Values (Value_type adt) buf off n)) sel t =
    WriteImpl A column (Some (Values (Value_type adt) buf 0 n)) sel t"
proof -
  define t1 where "t1 = (if is_writable A t then t else reopenRW A t)"
  have col: "column_of A column t1 = column_of A column t"
    using table_access.reopen_column [OF assms(1)] by (simp add: t1_def)
  let ?a = "Values (Value_type adt) buf off n" and ?b = "Values (Value_type adt) buf 0 n"
  have shape: "GetResultShapeData name dt (Some ?a) = GetResultShapeData name dt (Some ?b)" for name dt
    by (simp add: GetResultShapeData_def GetArrowResultShapeData_def)
  then have make: "MakeWrite look setShape s (Some ?a) sel = MakeWrite look setShape s (Some ?b) sel" for look setShape s
    by (simp add: MakeWrite_def write_shape_def)
  have buffer: "write_buffer A sel ?a d = write_buffer A sel ?b d" if "rs_dtype d = tc_dtype (column_of A column t)" for d
  proof (cases "Make (sizeof_String A) sel d no_split")
    case (Inr p)
    have "dp_dtype p = rs_dtype d" using Inr by (auto simp: Make_def rbind_Inr_conv Let_def case_prod_unfold split: if_splits)
    with that assms(2,3) Inr show ?thesis by (simp add: write_buffer_def ExtractBufferOrCopyValues_def Let_def)
  qed (simp add: write_buffer_def)
  have dtype: "rs_dtype d = tc_dtype (column_of A column t)"
    if "MakeWrite (column_of A column) (set_cell_shape A column) t1 (Some ?b) sel = (Inr d, t2)" for d t2
    using MakeWrite_sound [OF table_access.sets_shapes [OF assms(1)] that]
    by (auto simp: col GetResultShapeData_def GetArrowResultShapeData_def rbind_Inr_conv split: if_splits option.splits)
  show ?thesis
    unfolding WriteImpl_def write_task_def t1_def [symmetric] Let_def
    using buffer [OF dtype] by (auto simp: make split: sum.splits prod.splits)
qed

text \<open>
  A column of single values. The second and third of three values, 2 and 3, written to its first two
  rows, are stored as 1 and 2.
\<close>

definition scalar_table :: memory_table where
  "scalar_table = (True, \<lparr>tc_name = ''TIME'', tc_dtype = TpFloat, tc_fixed = True, tc_shape = [], tc_ndim = 0,
     tc_nrow = 2, tc_defined = (\<lambda>row. True), tc_cell = (\<lambda>row. [])\<rparr>, \<lambda>row i. [10 * row])"

lemma scalar_write:
  "case WriteImpl memory_access ''TIME'' (Some (Values (Value_type float32) [1, 2, 3] 0 2)) empty_selection scalar_table of
     (r, t') \<Rightarrow> r = Inr True \<and> snd (snd t') 0 [] = [1] \<and> snd (snd t') 1 [] = [2]"
  by code_simp

theorem WriteImpl_ignores_offset_witness:
  "\<exists>t'. WriteImpl memory_access ''TIME'' (Some (Values (Value_type float32) [1, 2, 3] 1 2)) empty_selection scalar_table = (Inr True, t') \<and>
     snd (snd t') 0 [] = [1] \<and> snd (snd t') 1 [] = [2]"
proof -
  have "IsPrimitiveType (numeric memory_access) (tc_dtype (column_of memory_access ''TIME'' scalar_table))"
    "ArrowDataType (tc_dtype (column_of memory_access ''TIME'' scalar_table)) = Inr float32"
    by (simp_all add: IsPrimitiveType_def memory_access_def scalar_table_def)
  from WriteImpl_ignores_offset [OF memory.table_access_axioms this, of "[1, 2, 3]" 1 2 empty_selection] scalar_write
  show ?thesis by (auto split: prod.splits)
qed

end
