(* ===== verification/ReadTable.thy ===== *)
theory ReadTable
  imports ColumnRoundTrip
begin

text \<open>
  Reading the columns of a table into an arrow table: \<open>ReadTableImpl\<close> of \<open>cpp/arcae/read_impl.cc\<close>.
  One task collects the descriptors and the names of the columns, then every column is read by
  \<open>ReadImpl\<close>, and the columns whose read succeeded become the fields of the table.

  Descriptors are records of casacore (type \<open>'d\<close>), and writing one as JSON under a key is casacore's.
\<close>

section \<open>Tables of arrow\<close>

text \<open>The metadata of a schema or a field: pairs of a key and a value.\<close>

type_synonym key_values = "(string \<times> string) list"

record 'v table_field =
  field_name :: string
  field_array :: "'v arrow"
  field_metadata :: key_values

record 'v arrow_table =
  table_fields :: "'v table_field list"
  table_metadata :: key_values

record ('t, 'd) descriptions =
  getTableDescription :: "'t \<Rightarrow> 'd"
  getColumnDescription :: "string \<Rightarrow> 't \<Rightarrow> 'd"
  write_json :: "string \<Rightarrow> 'd \<Rightarrow> string"                                      \<comment> \<open>a \<open>JsonOut\<close> of one key\<close>

record 'd TableMetadata =
  md_table_desc :: 'd
  md_column_descs :: "'d list"
  md_columns :: "string list"

definition kArcaeMetadata :: string where
  "kArcaeMetadata = ''__arcae_metadata__''"

definition kCasaDescriptorKey :: string where
  "kCasaDescriptorKey = ''__casa_descriptor__''"

definition descriptor_metadata :: "('t, 'd) descriptions \<Rightarrow> 'd \<Rightarrow> key_values" where
  "descriptor_metadata D desc = [(kArcaeMetadata, write_json D kCasaDescriptorKey desc)]"

section \<open>The tasks\<close>

definition read_metadata ::
  "('t, 'v, 'a) access \<Rightarrow> ('t, 'd) descriptions \<Rightarrow> string list \<Rightarrow> 't \<Rightarrow> 'd TableMetadata result" where
  "read_metadata A D columns t =
     (let columns = (if columns = [] then column_names A t else columns)
      in rbind (rmapM (\<lambda>column. rbind (ColumnExists (column_names A t) column) (\<lambda>_.
           Inr (getColumnDescription D column t))) columns) (\<lambda>column_descs.
         Inr \<lparr>md_table_desc = getTableDescription D t, md_column_descs = column_descs, md_columns = columns\<rparr>))"

text \<open>
  The reads of the columns. Read \<open>k\<close> is partitioned on the table \<open>table_of k\<close>, its task \<open>g\<close> runs on
  \<open>table_at k g\<close>, and \<open>order k\<close> is the order of its tasks.
\<close>

fun read_columns ::
  "('t, 'v, 'a) access \<Rightarrow> nat \<Rightarrow> selection \<Rightarrow> (nat \<Rightarrow> 't) \<Rightarrow> (nat \<Rightarrow> nat \<Rightarrow> 't) \<Rightarrow> (nat \<Rightarrow> nat \<Rightarrow> nat list) \<Rightarrow> nat \<Rightarrow>
   string list \<Rightarrow> locator \<Rightarrow> 'v arrow result list \<times> locator" where
  "read_columns A ninstances sel table_of table_at order k [] loc = ([], loc)"
| "read_columns A ninstances sel table_of table_at order k (column # columns) loc =
     (case ReadImpl A ninstances column sel None (table_of k) (table_at k) (order k) loc of
        (array, loc1) \<Rightarrow>
          (case read_columns A ninstances sel table_of table_at order (Suc k) columns loc1 of
             (arrays, loc2) \<Rightarrow> (array # arrays, loc2)))"

definition make_fields ::
  "('t, 'd) descriptions \<Rightarrow> 'd TableMetadata \<Rightarrow> 'v arrow result list \<Rightarrow> 'v table_field list" where
  "make_fields D md array_results =
     concat (map (\<lambda>i. case array_results ! i of
         Inl e \<Rightarrow> []
       | Inr array \<Rightarrow> [\<lparr>field_name = md_columns md ! i, field_array = array,
                       field_metadata = descriptor_metadata D (md_column_descs md ! i)\<rparr>])
       [0..<length array_results])"

definition ReadTableImpl ::
  "('t, 'v, 'a) access \<Rightarrow> ('t, 'd) descriptions \<Rightarrow> nat \<Rightarrow> string list \<Rightarrow> selection \<Rightarrow> 't \<Rightarrow>
   (nat \<Rightarrow> 't) \<Rightarrow> (nat \<Rightarrow> nat \<Rightarrow> 't) \<Rightarrow> (nat \<Rightarrow> nat \<Rightarrow> nat list) \<Rightarrow> locator \<Rightarrow> 'v arrow_table result \<times> locator" where
  "ReadTableImpl A D ninstances columns sel t table_of table_at order loc =
     (if 1 < Size sel then
        (Inl (IndexError [Str ''Selection along secondary indices is '',
                          Str ''unsupported when converting to Arrow tables'']), loc)
      else case read_metadata A D columns t of
          Inl e \<Rightarrow> (Inl e, loc)
        | Inr md \<Rightarrow>
            (case read_columns A ninstances sel table_of table_at order 0 (md_columns md) loc of
               (array_results, loc') \<Rightarrow>
                 (Inr \<lparr>table_fields = make_fields D md array_results,
                       table_metadata = descriptor_metadata D (md_table_desc md)\<rparr>, loc')))"

section \<open>The reads of the columns\<close>

text \<open>The strategy for conversions is found on the first read, and is the same for the others.\<close>

lemma GetConvertStrategy_again:
  "GetConvertStrategy loc = (s, loc') \<Longrightarrow> GetConvertStrategy loc' = (s, loc')"
  by (auto simp: GetConvertStrategy_def locate_configuration_def split: option.splits)

lemma ReadImpl_locator:
  assumes "GetConvertStrategy loc = (s, loc')" and "l = loc \<or> l = loc'"
  shows "fst (ReadImpl A n c sel r t ta ord l) = fst (ReadImpl A n c sel r t ta ord loc) \<and>
    snd (ReadImpl A n c sel r t ta ord l) \<in> {l, loc'}"
proof -
  have "GetConvertStrategy l = (s, loc')" using assms GetConvertStrategy_again by blast
  with assms(1) show ?thesis
    by (auto simp: ReadImpl_def array_of_def MakeArray_def split: sum.splits prod.splits)
qed

lemma read_columns_each:
  assumes "GetConvertStrategy loc = (s, loc')" and "l = loc \<or> l = loc'"
  shows "fst (read_columns A n sel tof ta ord k cs l) =
    map (\<lambda>i. fst (ReadImpl A n (cs ! i) sel None (tof (k + i)) (ta (k + i)) (ord (k + i)) loc)) [0..<length cs]"
  using assms(2)
proof (induction cs arbitrary: k l)
  case (Cons c cs)
  obtain a l1 where a: "ReadImpl A n c sel None (tof k) (ta k) (ord k) l = (a, l1)" by force
  with ReadImpl_locator [OF assms(1) Cons.prems, of A n c sel None "tof k" "ta k" "ord k"] Cons.prems
  have "l1 = loc \<or> l1 = loc'" and "fst (ReadImpl A n c sel None (tof k) (ta k) (ord k) loc) = a" by auto
  moreover obtain as l2 where as: "read_columns A n sel tof ta ord (Suc k) cs l1 = (as, l2)" by force
  ultimately show ?case using Cons.IH [of l1 "Suc k"] a by (simp add: map_upt_Suc del: upt_Suc)
qed simp

lemma read_metadata_Inr_conv:
  "read_metadata A D columns t = Inr md \<longleftrightarrow>
    (let cs = (if columns = [] then column_names A t else columns)
     in set cs \<subseteq> set (column_names A t) \<and>
        md = \<lparr>md_table_desc = getTableDescription D t, md_column_descs = map (\<lambda>c. getColumnDescription D c t) cs, md_columns = cs\<rparr>)"
proof -
  have "rmapM (\<lambda>c. rbind (ColumnExists names c) (\<lambda>_. Inr (f c))) cs = Inr ds \<longleftrightarrow> set cs \<subseteq> set names \<and> ds = map f cs"
    for names and f :: "string \<Rightarrow> 'x" and cs ds
    by (induction cs arbitrary: ds) (auto simp: rbind_Inr_conv ColumnExists_def require_Inr_conv)
  then show ?thesis unfolding read_metadata_def Let_def rbind_Inr_conv by auto
qed

lemma read_metadata_Inl:
  assumes "read_metadata A D columns t = Inl e" and "cs = (if columns = [] then column_names A t else columns)"
  shows "\<exists>i < length cs. cs ! i \<notin> set (column_names A t) \<and> set (take i cs) \<subseteq> set (column_names A t) \<and>
    e = Invalid [Str ''Column '', Str (cs ! i), Str '' does not exist'']"
proof -
  let ?N = "set (column_names A t)"
  have "\<exists>i < length cs. cs ! i \<notin> ?N \<and> set (take i cs) \<subseteq> ?N \<and> e = Invalid [Str ''Column '', Str (cs ! i), Str '' does not exist'']"
    if "rmapM (\<lambda>c. rbind (ColumnExists (column_names A t) c) (\<lambda>_. Inr (f c))) cs = Inl e" for cs and f :: "string \<Rightarrow> 'x"
    using that
  proof (induction cs)
    case (Cons c cs)
    show ?case
    proof (cases "c \<in> ?N")
      case True
      with Cons obtain i where "i < length cs" "cs ! i \<notin> ?N" "set (take i cs) \<subseteq> ?N"
        "e = Invalid [Str ''Column '', Str (cs ! i), Str '' does not exist'']"
        by (auto simp: rbind_Inl_conv ColumnExists_def)
      with True show ?thesis by (intro exI [of _ "Suc i"]) auto
    next
      case False
      with Cons.prems show ?thesis by (intro exI [of _ 0]) (auto simp: ColumnExists_def)
    qed
  qed simp
  with assms show ?thesis by (auto simp: read_metadata_def Let_def rbind_Inl_conv split: if_splits)
qed

section \<open>Properties\<close>

text \<open>
  C25. Reading into a table drops the columns that cannot be read. \<open>ReadTableImpl\<close> fails only for a
  selection of more than the rows, or on the first column asked for that does not exist. Else it
  returns a table, whose fields are the columns whose read succeeds, in order, each with the array
  that \<open>ReadImpl\<close> returns; a read that fails is not reported.
\<close>

theorem ReadTableImpl_outcome:
  assumes "cs = (if columns = [] then column_names A t else columns)" and "GetConvertStrategy loc = (strat, loc')"
  shows "case fst (ReadTableImpl A D n columns sel t table_of table_at order loc) of
      Inl e \<Rightarrow> (1 < Size sel \<and> (\<exists>m. e = IndexError m)) \<or>
        (Size sel \<le> 1 \<and> (\<exists>i < length cs. cs ! i \<notin> set (column_names A t) \<and> set (take i cs) \<subseteq> set (column_names A t) \<and>
           e = Invalid [Str ''Column '', Str (cs ! i), Str '' does not exist'']))
    | Inr tbl \<Rightarrow> Size sel \<le> 1 \<and> set cs \<subseteq> set (column_names A t) \<and>
        map (\<lambda>f. (field_name f, field_array f)) (table_fields tbl) =
          concat (map (\<lambda>i. case fst (ReadImpl A n (cs ! i) sel None (table_of i) (table_at i) (order i) loc) of
              Inl e \<Rightarrow> [] | Inr array \<Rightarrow> [(cs ! i, array)]) [0..<length cs])"
proof (cases "1 < Size sel")
  case False
  show ?thesis
  proof (cases "read_metadata A D columns t")
    case (Inl e)
    from read_metadata_Inl [OF Inl assms(1)] False Inl show ?thesis by (simp add: ReadTableImpl_def)
  next
    case (Inr md)
    then have md: "set cs \<subseteq> set (column_names A t)" "md_columns md = cs"
      using assms(1) by (auto simp: read_metadata_Inr_conv Let_def)
    obtain rs l where rs: "read_columns A n sel table_of table_at order 0 cs loc = (rs, l)" by force
    with read_columns_each [OF assms(2), of loc A n sel table_of table_at order 0 cs] have
      "rs = map (\<lambda>i. fst (ReadImpl A n (cs ! i) sel None (table_of i) (table_at i) (order i) loc)) [0..<length cs]" by simp
    then have "map (\<lambda>f. (field_name f, field_array f)) (make_fields D md rs) =
        concat (map (\<lambda>i. case fst (ReadImpl A n (cs ! i) sel None (table_of i) (table_at i) (order i) loc) of
            Inl e \<Rightarrow> [] | Inr array \<Rightarrow> [(cs ! i, array)]) [0..<length cs])"
      by (auto simp: make_fields_def map_concat comp_def md(2) intro!: arg_cong [where f = concat] split: sum.splits)
    with False Inr md rs show ?thesis by (simp add: ReadTableImpl_def)
  qed
qed (simp add: ReadTableImpl_def)

text \<open>A row asked for twice makes the read of the column fail, and the table that is returned has no columns.\<close>

definition descriptions_of :: "(memory_table, string) descriptions" where
  "descriptions_of = \<lparr>getTableDescription = (\<lambda>t. ''table''), getColumnDescription = (\<lambda>c t. c), write_json = (\<lambda>k d. k @ d)\<rparr>"

definition repeated_row :: selection where
  "repeated_row = FromInit IndexElem [[1, 1]]"

definition two_rows_result :: ResultShapeData where
  "two_rows_result = \<lparr>rs_name = ''UVW'', rs_shape = Some [2, 2], rs_ndim = 2, rs_dtype = TpFloat,
     rs_row_shapes = None, rs_cell_extents = None\<rparr>"

lemma vector_columns:
  "column_of memory_access c vector_table = vector_column" "column_names memory_access vector_table = [''UVW'']"
  by (simp_all add: memory_access_def vector_table_def vector_column_def)

lemma repeated_row_fails:
  "\<exists>e. ReadImpl memory_access n ''UVW'' repeated_row None vector_table table_at order loc = (Inl e, loc)"
proof -
  have make: "MakeRead vector_column repeated_row False = Inr two_rows_result" by code_simp
  have fixed: "fixed_result two_rows_result [2, 2]" by (simp add: fixed_result_def two_rows_result_def)
  have "sel_fits repeated_row [2, 2]"
    by (rule MakeRead_sel_fits [OF make vector_facts(4,5)]) (simp_all add: two_rows_result_def)
  note m = Make_fixed [OF fixed this, where string_size = "sizeof_String memory_access"]
  have "\<not> distinct (filter (\<lambda>x. 0 \<le> x) (disk_ids repeated_row [2, 2] 1))" by code_simp
  then have "\<not> no_duplicates repeated_row [2, 2]" by (auto simp: no_duplicates_def intro!: exI [of _ 1])
  with m have "\<exists>e. Make (sizeof_String memory_access) repeated_row two_rows_result opts = Inl e" for opts
    by (cases "Make (sizeof_String memory_access) repeated_row two_rows_result opts") (use m [of opts] in auto)
  with make show ?thesis
    by (simp add: ReadImpl_def read_partition_def read_shape_def vector_columns ColumnExists_def)
      (metis (no_types, lifting) rbind.simps(1) sum.case(1))
qed

theorem ReadTableImpl_outcome_witness:
  "\<exists>tbl loc. ReadTableImpl memory_access descriptions_of 2 [''UVW''] repeated_row vector_table (\<lambda>k. vector_table)
      (\<lambda>k g. vector_table) (\<lambda>k n. [0..<n]) None = (Inr tbl, loc) \<and> table_fields tbl = []"
proof -
  let ?r = "ReadTableImpl memory_access descriptions_of 2 [''UVW''] repeated_row vector_table (\<lambda>k. vector_table)
      (\<lambda>k g. vector_table) (\<lambda>k n. [0..<n]) None"
  have "Size repeated_row = 1" by code_simp
  with ReadTableImpl_outcome [where A = memory_access and cs = "[''UVW'']" and columns = "[''UVW'']" and t = vector_table
      and D = descriptions_of and n = 2 and sel = repeated_row and table_of = "\<lambda>k. vector_table"
      and table_at = "\<lambda>k g. vector_table" and order = "\<lambda>k n. [0..<n]", OF _ vector_facts(6)]
    repeated_row_fails [of 2 "\<lambda>g. vector_table" "\<lambda>n. [0..<n]" None]
  have "\<exists>tbl. fst ?r = Inr tbl \<and> table_fields tbl = []"
    by (cases "fst ?r") (auto simp: vector_columns)
  then show ?thesis by (metis prod.collapse)
qed

text \<open>
  C7. A column that can be read is in the table with the cells selected. Under the hypotheses of
  \<open>ReadImpl_reads_cells\<close> for one of the columns, whatever becomes of the others, \<open>ReadTableImpl\<close>
  returns a table with a field of its name and descriptor, whose values are the elements that the
  selection names.
\<close>

theorem ReadTableImpl_reads_cells:
  assumes "table_access A cells" and "Size sel \<le> 1" and "set cs \<subseteq> set (column_names A t)" and "i < length cs"
    and "MakeRead (column_of A (cs ! i) t) sel False = Inr d" and "ranks_ok (column_of A (cs ! i) t)"
    and "length (tc_shape (column_of A (cs ! i) t)) < 2 ^ 64 - 1"
    and "fixed_result d sh" and "2 * prod_list sh < 2 ^ 31" and "no_duplicates sel sh"
    and "CasaDataTypeSize (sizeof_String A) (rs_dtype d) = Inr sz"
    and "allocate A (rs_dtype d) (prod_list sh) (GetSafeAlignment (default_alignment A) sz) = Inr fresh"
    and "GetConvertStrategy loc = (Inr strat, loc')" and "table_of i = t"
    and "\<forall>g. cells (cs ! i) (table_at i g) = cells (cs ! i) t" and "\<forall>n. mset (order i n) = mset [0..<n]"
    and "\<forall>r j. length (arrow_values A (cells (cs ! i) t r j)) = value_width (rs_dtype d)"
  shows "\<exists>tbl l field buffer ty. ReadTableImpl A D n cs sel t table_of table_at order loc = (Inr tbl, l) \<and>
    field \<in> set (table_fields tbl) \<and> field_name field = cs ! i \<and>
    field_metadata field = descriptor_metadata D (getColumnDescription D (cs ! i) t) \<and>
    GetFlatArray False (field_array field) =
      Inr (Values ty (concat (map (arrow_values A) buffer)) 0 (length (concat (map (arrow_values A) buffer)))) \<and>
    length buffer = prod_list sh \<and>
    (\<forall>idx \<in> present sel sh.
       buffer ! lin sh idx = cells (cs ! i) t (last (disk_index sel sh idx)) (butlast (disk_index sel sh idx)))"
proof -
  have name: "cs ! i \<in> set (column_names A t)" using assms(3,4) by auto
  from table_access.ReadImpl_cells [OF assms(1) name assms(5-13,15-17), of n] obtain arr buffer ty where
    r: "ReadImpl A n (cs ! i) sel None t (table_at i) (order i) loc = (Inr arr, loc')" and
    b: "GetFlatArray False arr =
      Inr (Values ty (concat (map (arrow_values A) buffer)) 0 (length (concat (map (arrow_values A) buffer))))"
    "length buffer = prod_list sh" "\<forall>idx \<in> present sel sh.
       buffer ! lin sh idx = cells (cs ! i) t (last (disk_index sel sh idx)) (butlast (disk_index sel sh idx))" by blast
  let ?md = "\<lparr>md_table_desc = getTableDescription D t, md_column_descs = map (\<lambda>c. getColumnDescription D c t) cs, md_columns = cs\<rparr>"
  have md: "read_metadata A D cs t = Inr ?md" using assms(3,4) by (auto simp: read_metadata_Inr_conv Let_def)
  obtain rs l where rs: "read_columns A n sel table_of table_at order 0 cs loc = (rs, l)" by force
  with read_columns_each [OF assms(13), of loc A n sel table_of table_at order 0 cs] r assms(4,14) have
    "i < length rs" "rs ! i = Inr arr" by auto
  then have "\<lparr>field_name = cs ! i, field_array = arr, field_metadata = descriptor_metadata D (getColumnDescription D (cs ! i) t)\<rparr>
      \<in> set (make_fields D ?md rs)"
    using assms(4) by (force simp: make_fields_def intro!: bexI [of _ i])
  then have "\<exists>field \<in> set (make_fields D ?md rs). field_name field = cs ! i \<and> field_array field = arr \<and>
      field_metadata field = descriptor_metadata D (getColumnDescription D (cs ! i) t)"
    by (rule bexI [rotated]) simp
  with md rs assms(2) b show ?thesis by (simp add: ReadTableImpl_def) blast
qed

text \<open>The rows 2 and 0 of a column of vectors, in a table with all columns.\<close>

definition two_rows :: selection where
  "two_rows = FromInit IndexElem [[2, 0]]"

lemma two_rows_facts:
  "MakeRead vector_column two_rows False = Inr two_rows_result" "fixed_result two_rows_result [2, 2]"
  "no_duplicates two_rows [2, 2]" "Size two_rows \<le> 1" "2 * prod_list [2, 2] < (2 :: nat) ^ 31"
  "CasaDataTypeSize (sizeof_String memory_access) (rs_dtype two_rows_result) = Inr 4"
  "allocate memory_access (rs_dtype two_rows_result) (prod_list [2, 2]) al = Inr (replicate 4 [0])"
  "length (arrow_values memory_access (snd (snd vector_table) r i)) = value_width (rs_dtype two_rows_result)"
proof -
  show "MakeRead vector_column two_rows False = Inr two_rows_result" by code_simp
  show "Size two_rows \<le> 1" by code_simp
  have "distinct (filter (\<lambda>x. 0 \<le> x) (disk_ids two_rows [2, 2] 0))"
    "distinct (filter (\<lambda>x. 0 \<le> x) (disk_ids two_rows [2, 2] 1))" by code_simp+
  then show "no_duplicates two_rows [2, 2]" by (simp add: no_duplicates_def All_less_Suc2 numeral_2_eq_2)
qed (simp_all add: fixed_result_def two_rows_result_def memory_access_def value_width_def vector_table_def)

lemma two_rows_buffer:
  assumes "length buffer = 4" and "\<forall>idx \<in> present two_rows [2, 2]. buffer ! lin [2, 2] idx =
      snd (snd vector_table) (last (disk_index two_rows [2, 2] idx)) (butlast (disk_index two_rows [2, 2] idx))"
  shows "buffer = [[20], [21], [0], [1]]"
proof -
  have idx: "list_all (\<lambda>idx. list_all (\<lambda>i. 0 \<le> i) (disk_index two_rows [2, 2] idx)) (box [2, 2])"
    "map (\<lambda>idx. (lin [2, 2] idx, 10 * last (disk_index two_rows [2, 2] idx) + hd (butlast (disk_index two_rows [2, 2] idx)))) (box [2, 2]) =
      [(0, 20), (1, 21), (2, 0), (3, 1)]" by code_simp+
  have "buffer ! lin [2, 2] idx = [10 * last (disk_index two_rows [2, 2] idx) + hd (butlast (disk_index two_rows [2, 2] idx))]"
    if "idx \<in> set (box [2, 2])" for idx
    using that assms(2) idx(1) unfolding present_def list_all_iff set_box vector_table_def snd_conv by blast
  then have "\<forall>p \<in> set (map (\<lambda>idx. (lin [2, 2] idx, 10 * last (disk_index two_rows [2, 2] idx) +
      hd (butlast (disk_index two_rows [2, 2] idx)))) (box [2, 2])). buffer ! fst p = [snd p]" by auto
  then have "buffer ! 0 = [20]" "buffer ! 1 = [21]" "buffer ! 2 = [0]" "buffer ! 3 = [1]" unfolding idx(2) by simp_all
  with assms(1) show ?thesis by (auto simp: length_Suc_conv eval_nat_numeral)
qed

theorem ReadTableImpl_reads_cells_witness:
  "\<exists>tbl l field ty. ReadTableImpl memory_access descriptions_of 2 [''UVW''] two_rows vector_table (\<lambda>k. vector_table)
      (\<lambda>k g. vector_table) (\<lambda>k n. rev [0..<n]) None = (Inr tbl, l) \<and> field \<in> set (table_fields tbl) \<and>
    field_name field = ''UVW'' \<and> GetFlatArray False (field_array field) = Inr (Values ty [20, 21, 0, 1] 0 4)"
proof -
  note two = two_rows_facts
  have "column_of memory_access ([''UVW''] ! 0) vector_table = vector_column" by (rule vector_columns)
  note v = two(1) [folded this] vector_facts(4,5) [folded this]
  note r = ReadTableImpl_reads_cells [where cs = "[''UVW'']" and i = 0 and t = vector_table, OF memory.table_access_axioms two(4) _ _ v
      two(2,5,3,6,7) vector_facts(6) refl, where table_at = "\<lambda>k g. vector_table" and order = "\<lambda>k n. rev [0..<n]" and n = 2
      and D = descriptions_of]
  obtain tbl l field buffer ty where f: "ReadTableImpl memory_access descriptions_of 2 [''UVW''] two_rows vector_table
      (\<lambda>k. vector_table) (\<lambda>k g. vector_table) (\<lambda>k n. rev [0..<n]) None = (Inr tbl, l)" "field \<in> set (table_fields tbl)"
    "field_name field = ''UVW''" "GetFlatArray False (field_array field) =
      Inr (Values ty (concat (map (arrow_values memory_access) buffer)) 0 (length (concat (map (arrow_values memory_access) buffer))))"
    "length buffer = 4" "\<forall>idx \<in> present two_rows [2, 2]. buffer ! lin [2, 2] idx =
      snd (snd vector_table) (last (disk_index two_rows [2, 2] idx)) (butlast (disk_index two_rows [2, 2] idx))"
    using r two(8) by (auto simp: vector_columns)
  with two_rows_buffer [OF f(5,6)] show ?thesis by (auto simp: memory_access_def)
qed

end
