(* ===== verification/TableProxy.thy ===== *)
theory TableProxy
  imports ReadTable IsolatedTable
begin

text \<open>
  The public class \<open>NewTableProxy\<close> of \<open>cpp/arcae/new_table_proxy.h\<close> and \<open>new_table_proxy.cc\<close>. Its state is
  that of its isolated proxy: the tables of the instances and the flag that it is closed. A method
  runs a task on one instance, the least loaded when it is called, and waits for its end, so that here
  a method is one operation on the state; how tasks interleave is the matter of \<open>IsolatedTable\<close>.

  What a task calls of casacore returns a value or throws, and may leave the table changed in both
  cases. Records and their text as JSON are casacore's (type \<open>'d\<close>).
\<close>

section \<open>Calls of casacore\<close>

text \<open>An \<open>AipsError\<close> or another \<open>std::exception\<close>, each with its text.\<close>

datatype exn = Aips string | Std string

type_synonym ('t, 'a) call = "'t \<Rightarrow> (exn + 'a) \<times> 't"

record ('t, 'v, 'a, 'd) table_calls =
  access_of :: "('t, 'v, 'a) access"
  descriptions_of_table :: "('t, 'd) descriptions"
  tableName :: "'t \<Rightarrow> string"
  nrow :: "'t \<Rightarrow> nat"
  getDataManagerInfo :: "'t \<Rightarrow> 'd"
  lockOptions :: "'t \<Rightarrow> 'd"
  getKeywordSet :: "string \<Rightarrow> 't \<Rightarrow> 'd"
  put_json :: "'d \<Rightarrow> string"                                     \<comment> \<open>\<open>JsonOut::put\<close>\<close>
  parse_json :: "string \<Rightarrow> exn + 'd"                              \<comment> \<open>\<open>JsonParser::parse(json).toRecord()\<close>\<close>
  reopen_error :: "'t \<Rightarrow> exn option"                             \<comment> \<open>what \<open>reopenRW\<close> throws\<close>
  putKeywordSet :: "string \<Rightarrow> 'd \<Rightarrow> ('t, unit) call"
  removeKeyword :: "string \<Rightarrow> string \<Rightarrow> ('t, unit) call"
  addRow :: "nat \<Rightarrow> ('t, unit) call"
  addColumns :: "'d \<Rightarrow> 'd \<Rightarrow> ('t, unit) call"
  close_error :: "'t \<Rightarrow> exn option"                              \<comment> \<open>what \<open>close\<close> throws\<close>

text \<open>A task ends with a result, or the exception that leaves it.\<close>

type_synonym ('t, 'v) task_body = "('t, 'v result) call"

fun then_call :: "('t, 'a) call \<Rightarrow> ('a \<Rightarrow> ('t, 'b) call) \<Rightarrow> ('t, 'b) call" where
  "then_call m f t = (case m t of (Inl e, t') \<Rightarrow> (Inl e, t') | (Inr x, t') \<Rightarrow> f x t')"

fun after_status :: "unit result \<Rightarrow> ('t, 'v) task_body \<Rightarrow> ('t, 'v) task_body" where
  "after_status (Inl e) k t = (Inr (Inl e), t)"
| "after_status (Inr u) k t = k t"

fun return_value :: "'v \<Rightarrow> ('t, 'v) task_body" where
  "return_value v t = (Inr (Inr v), t)"

fun lift_exn :: "exn + 'a \<Rightarrow> ('t, 'a) call" where
  "lift_exn r t = (r, t)"

section \<open>Tasks on instances\<close>

record 't NewTableProxy =
  itp_tables :: "'t list"
  itp_closed :: bool

definition table_instances :: "'t NewTableProxy \<Rightarrow> nat" where
  "table_instances ntp = length (itp_tables ntp)"

text \<open>How the wrapper of a task ends: \<open>Invoke\<close> of \<open>IsolatedTable\<close> gives a status for an exception.\<close>

fun outcome_of :: "exn + 'v result \<Rightarrow> 'v outcome" where
  "outcome_of (Inl (Aips what)) = AipsError what"
| "outcome_of (Inl (Std what)) = StdException what"
| "outcome_of (Inr r) = Returns r"

definition awaited :: "exn + 'v result \<Rightarrow> 'v result" where
  "awaited r = Invoke (outcome_of r)"

definition closed_error :: status where
  "closed_error = Invalid [Str ''TableProxy is closed'']"

text \<open>\<open>loads\<close> are the outstanding costs of the instances when the task is dispatched.\<close>

definition RunTask :: "int64 list \<Rightarrow> ('t, 'v) task_body \<Rightarrow> 't NewTableProxy \<Rightarrow> 'v result \<times> 't NewTableProxy" where
  "RunTask loads body ntp =
     (if itp_closed ntp then (Inl closed_error, ntp)
      else let i = choose_instance loads
        in case body (itp_tables ntp ! i) of
             (r, t) \<Rightarrow> (awaited r, ntp\<lparr>itp_tables := (itp_tables ntp)[i := t]\<rparr>))"

text \<open>A task that reads a table and returns.\<close>

definition RunRead :: "int64 list \<Rightarrow> ('t \<Rightarrow> 'v result) \<Rightarrow> 't NewTableProxy \<Rightarrow> 'v result \<times> 't NewTableProxy" where
  "RunRead loads f = RunTask loads (\<lambda>t. (Inr (f t), t))"

definition SafeMultithreadedWrites :: "'t NewTableProxy \<Rightarrow> unit result" where
  "SafeMultithreadedWrites ntp =
     (if table_instances ntp = 1 then Inr ()
      else Inl (NotImplemented [Str ''Write support when number of table instances '', Num (int (table_instances ntp)),
                                Str '' is greater than one'']))"

text \<open>A method that writes: the guard, then the task.\<close>

definition RunWrite :: "int64 list \<Rightarrow> ('t, 'v) task_body \<Rightarrow> 't NewTableProxy \<Rightarrow> 'v result \<times> 't NewTableProxy" where
  "RunWrite loads body ntp =
     (case SafeMultithreadedWrites ntp of Inl e \<Rightarrow> (Inl e, ntp) | Inr u \<Rightarrow> RunTask loads body ntp)"

definition reopen_if_needed :: "('t, 'v, 'a, 'd) table_calls \<Rightarrow> ('t, unit) call" where
  "reopen_if_needed C t =
     (if is_writable (access_of C) t then (Inr (), t)
      else case reopen_error C t of
             Some e \<Rightarrow> (Inl e, t)
           | None \<Rightarrow> (Inr (), reopenRW (access_of C) t))"

section \<open>Methods that read\<close>

type_synonym ('t, 'v) operation = "int64 list \<Rightarrow> 't NewTableProxy \<Rightarrow> 'v result \<times> 't NewTableProxy"

definition check_column :: "('t, 'v, 'a, 'd) table_calls \<Rightarrow> string \<Rightarrow> 't \<Rightarrow> unit result" where
  "check_column C column t = ColumnExists (column_names (access_of C) t) column"

text \<open>Keywords belong to the table if the name of the column is empty.\<close>

definition check_keyword_column :: "('t, 'v, 'a, 'd) table_calls \<Rightarrow> string \<Rightarrow> 't \<Rightarrow> unit result" where
  "check_keyword_column C column t = (if column \<noteq> [] then check_column C column t else Inr ())"

definition GetTableDescriptor :: "('t, 'v, 'a, 'd) table_calls \<Rightarrow> ('t, string) operation" where
  "GetTableDescriptor C loads = RunRead loads (\<lambda>t. Inr (put_json C (getTableDescription (descriptions_of_table C) t)))"

definition GetColumnDescriptor :: "('t, 'v, 'a, 'd) table_calls \<Rightarrow> string \<Rightarrow> ('t, string) operation" where
  "GetColumnDescriptor C column loads =
     RunRead loads (\<lambda>t. rbind (check_column C column t) (\<lambda>_.
       Inr (write_json (descriptions_of_table C) column (getColumnDescription (descriptions_of_table C) column t))))"

definition GetDataManagerInfo :: "('t, 'v, 'a, 'd) table_calls \<Rightarrow> ('t, string) operation" where
  "GetDataManagerInfo C loads = RunRead loads (\<lambda>t. Inr (put_json C (getDataManagerInfo C t)))"

definition GetLockOptions :: "('t, 'v, 'a, 'd) table_calls \<Rightarrow> ('t, string) operation" where
  "GetLockOptions C loads = RunRead loads (\<lambda>t. Inr (put_json C (lockOptions C t)))"

definition GetRowShapesOf :: "('t, 'v, 'a, 'd) table_calls \<Rightarrow> string \<Rightarrow> selection \<Rightarrow> ('t, int arrow) operation" where
  "GetRowShapesOf C column sel loads ntp =
     (if 1 < Size sel then
        (Inl (NotImplemented [Str ''GetRowShapes with selection of secondary dimensions. '', Str ''Select on row only'']), ntp)
      else RunRead loads (\<lambda>t. rbind (check_column C column t) (\<lambda>_.
             rbind (MakeRead (column_of (access_of C) column t) sel True) GetShapeArray)) ntp)"

definition Name :: "('t, 'v, 'a, 'd) table_calls \<Rightarrow> ('t, string) operation" where
  "Name C loads = RunRead loads (\<lambda>t. Inr (tableName C t))"

definition Columns :: "('t, 'v, 'a, 'd) table_calls \<Rightarrow> ('t, string list) operation" where
  "Columns C loads = RunRead loads (\<lambda>t. Inr (column_names (access_of C) t))"

definition nColumns :: "('t, 'v, 'a, 'd) table_calls \<Rightarrow> ('t, nat) operation" where
  "nColumns C loads = RunRead loads (\<lambda>t. Inr (length (column_names (access_of C) t)))"

definition nRowsOf :: "('t, 'v, 'a, 'd) table_calls \<Rightarrow> ('t, nat) operation" where
  "nRowsOf C loads = RunRead loads (\<lambda>t. Inr (nrow C t))"

definition IsWritable :: "('t, 'v, 'a, 'd) table_calls \<Rightarrow> ('t, bool) operation" where
  "IsWritable C loads = RunRead loads (\<lambda>t. Inr (is_writable (access_of C) t))"

definition GetKeywords :: "('t, 'v, 'a, 'd) table_calls \<Rightarrow> string \<Rightarrow> ('t, string) operation" where
  "GetKeywords C column loads =
     RunRead loads (\<lambda>t. rbind (check_keyword_column C column t) (\<lambda>_. Inr (put_json C (getKeywordSet C column t))))"

text \<open>
  Reads of columns run several tasks: the first on the instance least loaded, task \<open>g\<close> of those that
  read groups of chunks on instance \<open>worker g\<close>, in the order \<open>order\<close>. They use the configuration \<open>loc\<close>.
  A task of \<open>ReadTableImpl\<close> collects the metadata, and each column has its own tasks.
\<close>

definition GetColumn ::
  "('t, 'v, 'a, 'd) table_calls \<Rightarrow> string \<Rightarrow> selection \<Rightarrow> 'v arrow option \<Rightarrow> int64 list \<Rightarrow> (nat \<Rightarrow> nat) \<Rightarrow> (nat \<Rightarrow> nat list) \<Rightarrow>
   locator \<Rightarrow> 't NewTableProxy \<Rightarrow> 'v arrow result \<times> locator" where
  "GetColumn C column sel result loads worker order loc ntp =
     (if itp_closed ntp then (Inl closed_error, loc)
      else ReadImpl (access_of C) (table_instances ntp) column sel result (itp_tables ntp ! choose_instance loads)
             (\<lambda>g. itp_tables ntp ! worker g) order loc)"

definition ToArrow ::
  "('t, 'v, 'a, 'd) table_calls \<Rightarrow> selection \<Rightarrow> string list \<Rightarrow> int64 list \<Rightarrow> (nat \<Rightarrow> int64 list) \<Rightarrow> (nat \<Rightarrow> nat \<Rightarrow> nat) \<Rightarrow>
   (nat \<Rightarrow> nat \<Rightarrow> nat list) \<Rightarrow> locator \<Rightarrow> 't NewTableProxy \<Rightarrow> 'v arrow_table result \<times> locator" where
  "ToArrow C sel columns loads column_loads worker order loc ntp =
     (if Size sel \<le> 1 \<and> itp_closed ntp then (Inl closed_error, loc)
      else ReadTableImpl (access_of C) (descriptions_of_table C) (table_instances ntp) columns sel
             (itp_tables ntp ! choose_instance loads) (\<lambda>k. itp_tables ntp ! choose_instance (column_loads k))
             (\<lambda>k g. itp_tables ntp ! worker k g) order loc)"

section \<open>Methods that write\<close>

definition PutColumn ::
  "('t, 'v, 'a, 'd) table_calls \<Rightarrow> string \<Rightarrow> 'v arrow option \<Rightarrow> selection \<Rightarrow> ('t, bool) operation" where
  "PutColumn C column data sel loads ntp =
     (case SafeMultithreadedWrites ntp of
        Inl e \<Rightarrow> (Inl e, ntp)
      | Inr u \<Rightarrow> if data = None then (Inl (Undefined ''null pointer''), ntp)
                else RunTask loads (\<lambda>t. case write_task (access_of C) column data sel t of (r, t') \<Rightarrow> (Inr r, t')) ntp)"

definition PutKeywords :: "('t, 'v, 'a, 'd) table_calls \<Rightarrow> string \<Rightarrow> string \<Rightarrow> ('t, bool) operation" where
  "PutKeywords C json_keywords column loads =
     RunWrite loads (\<lambda>t. after_status (check_keyword_column C column t)
       (then_call (reopen_if_needed C) (\<lambda>_.
        then_call (lift_exn (parse_json C json_keywords)) (\<lambda>keywords.
        then_call (putKeywordSet C column keywords) (\<lambda>_. return_value True)))) t)"

definition RemoveKeyword :: "('t, 'v, 'a, 'd) table_calls \<Rightarrow> string \<Rightarrow> string \<Rightarrow> ('t, bool) operation" where
  "RemoveKeyword C keyword column loads =
     RunWrite loads (\<lambda>t. after_status (check_keyword_column C column t)
       (then_call (reopen_if_needed C) (\<lambda>_.
        then_call (removeKeyword C column keyword) (\<lambda>_. return_value True))) t)"

definition AddRows :: "('t, 'v, 'a, 'd) table_calls \<Rightarrow> nat \<Rightarrow> ('t, bool) operation" where
  "AddRows C nrows loads =
     RunWrite loads (then_call (reopen_if_needed C) (\<lambda>_. then_call (addRow C nrows) (\<lambda>_. return_value True)))"

definition AddColumns :: "('t, 'v, 'a, 'd) table_calls \<Rightarrow> string \<Rightarrow> string \<Rightarrow> ('t, bool) operation" where
  "AddColumns C json_columndescs json_dminfo loads =
     RunWrite loads (then_call (reopen_if_needed C) (\<lambda>_.
       then_call (lift_exn (parse_json C json_columndescs)) (\<lambda>columndescs.
       then_call (lift_exn (parse_json C json_dminfo)) (\<lambda>dminfo.
       then_call (addColumns C columndescs dminfo) (\<lambda>_. return_value True)))))"

text \<open>\<open>Close\<close> closes the tables of all instances, and reports the first that could not be closed.\<close>

definition exn_text :: "exn \<Rightarrow> string" where
  "exn_text e = (case e of Aips what \<Rightarrow> what | Std what \<Rightarrow> what)"

definition CloseProxy :: "('t, 'v, 'a, 'd) table_calls \<Rightarrow> 't NewTableProxy \<Rightarrow> bool result \<times> 't NewTableProxy" where
  "CloseProxy C ntp =
     (if itp_closed ntp then (Inr False, ntp)
      else (rbind (rfor (\<lambda>t. case close_error C t of
                      Some e \<Rightarrow> Inl (Invalid [Str ''Error closing table: '', Str (exn_text e)])
                    | None \<Rightarrow> Inr ()) (itp_tables ntp)) (\<lambda>_. Inr True),
            ntp\<lparr>itp_closed := True\<rparr>))"

section \<open>Sequences of calls\<close>

text \<open>The methods that change the state; the others only read it.\<close>

datatype 'v write_call =
    Put_column string "'v arrow option" selection
  | Put_keywords string string
  | Remove_keyword string string
  | Add_rows nat
  | Add_columns string string
  | Close_proxy

fun perform :: "('t, 'v, 'a, 'd) table_calls \<Rightarrow> 'v write_call \<Rightarrow> ('t, bool) operation" where
  "perform C (Put_column column data sel) loads ntp = PutColumn C column data sel loads ntp"
| "perform C (Put_keywords json column) loads ntp = PutKeywords C json column loads ntp"
| "perform C (Remove_keyword keyword column) loads ntp = RemoveKeyword C keyword column loads ntp"
| "perform C (Add_rows n) loads ntp = AddRows C n loads ntp"
| "perform C (Add_columns descs dminfo) loads ntp = AddColumns C descs dminfo loads ntp"
| "perform C Close_proxy loads ntp = CloseProxy C ntp"

text \<open>A sequence of calls, each with the loads when it is made: the results in order, and the state.\<close>

fun perform_all ::
  "('t, 'v, 'a, 'd) table_calls \<Rightarrow> ('v write_call \<times> int64 list) list \<Rightarrow> 't NewTableProxy \<Rightarrow> bool result list \<times> 't NewTableProxy" where
  "perform_all C [] ntp = ([], ntp)"
| "perform_all C ((c, loads) # cs) ntp =
     (case perform C c loads ntp of (r, ntp1) \<Rightarrow>
        case perform_all C cs ntp1 of (rs, ntp2) \<Rightarrow> (r # rs, ntp2))"

section \<open>Tasks\<close>

lemma awaited_Inr [simp]: "awaited (Inr r) = r"
  by (cases r) (simp_all add: awaited_def)

lemma awaited_exn [simp]:
  "awaited (Inl (Aips what)) = Inl (Invalid [Str ''Unhandled casacore exception: '', Str what])"
  "awaited (Inl (Std what)) = Inl (Invalid [Str ''Unhandled exception: '', Str what])"
  by (simp_all add: awaited_def)

lemma awaited_Inr_conv: "awaited r = Inr x \<longleftrightarrow> r = Inr (Inr x)"
  by (cases r rule: outcome_of.cases) simp_all

lemma RunRead_conv:
  "RunRead loads f ntp = (if itp_closed ntp then Inl closed_error else f (itp_tables ntp ! choose_instance loads), ntp)"
  by (simp add: RunRead_def RunTask_def Let_def)

lemma guarded:
  assumes "table_instances ntp \<noteq> 1"
  shows "c \<noteq> Close_proxy \<Longrightarrow> \<exists>m. perform C c loads ntp = (Inl (NotImplemented m), ntp)"
  using assms
  by (cases c) (simp_all add: PutColumn_def PutKeywords_def RemoveKeyword_def AddRows_def AddColumns_def RunWrite_def
      SafeMultithreadedWrites_def)

lemma perform_all_guarded:
  assumes "table_instances ntp \<noteq> 1" and "perform_all C cs ntp = (rs, ntp')"
  shows "itp_tables ntp' = itp_tables ntp \<and> length rs = length cs \<and>
    (\<forall>i < length cs. fst (cs ! i) \<noteq> Close_proxy \<longrightarrow> (\<exists>m. rs ! i = Inl (NotImplemented m)))"
  using assms
proof (induction cs arbitrary: ntp rs)
  case (Cons cl cs)
  obtain c loads where cl: "cl = (c, loads)" by force
  obtain r ntp1 where one: "perform C c loads ntp = (r, ntp1)" by force
  obtain rs' where more: "perform_all C cs ntp1 = (rs', ntp')" and rs: "rs = r # rs'"
    using Cons.prems(2) one by (auto simp: cl split: prod.splits)
  have t: "itp_tables ntp1 = itp_tables ntp"
  proof (cases "c = Close_proxy")
    case True
    with one show ?thesis by (auto simp: CloseProxy_def split: if_splits)
  qed (use guarded [OF Cons.prems(1), of c C loads] one in auto)
  have "table_instances ntp1 \<noteq> 1" using Cons.prems(1) t by (simp add: table_instances_def)
  note ih = Cons.IH [OF this more]
  have "\<exists>m. r = Inl (NotImplemented m)" if "c \<noteq> Close_proxy"
    using guarded [OF Cons.prems(1) that, of C loads] one by auto
  with ih t show ?case by (auto simp: rs cl nth_Cons' less_Suc_eq_0_disj)
qed simp

section \<open>The view of a table\<close>

text \<open>
  What a proxy shows of a table beside the values of its cells: the names of its columns, the number
  of rows, and the keywords of the table (under the empty name) and of its columns.
\<close>

record 'k table_view =
  view_names :: "string set"
  view_nrow :: nat
  view_keywords :: "string \<Rightarrow> (string \<rightharpoonup> 'k)"

text \<open>The specification of the calls that succeed.\<close>

fun edit_view ::
  "('t, 'v, 'a, 'd) table_calls \<Rightarrow> ('d \<Rightarrow> (string \<rightharpoonup> 'k)) \<Rightarrow> ('d \<Rightarrow> (string \<rightharpoonup> (string \<rightharpoonup> 'k))) \<Rightarrow>
   'v write_call \<Rightarrow> 'k table_view \<Rightarrow> 'k table_view" where
  "edit_view C record_fields described (Put_column column data sel) v = v"
| "edit_view C record_fields described (Put_keywords json column) v =
     (case parse_json C json of
        Inr d \<Rightarrow> v\<lparr>view_keywords := (view_keywords v)(column := view_keywords v column ++ record_fields d)\<rparr>
      | Inl e \<Rightarrow> v)"
| "edit_view C record_fields described (Remove_keyword keyword column) v =
     v\<lparr>view_keywords := (view_keywords v)(column := (view_keywords v column)(keyword := None))\<rparr>"
| "edit_view C record_fields described (Add_rows n) v = v\<lparr>view_nrow := view_nrow v + n\<rparr>"
| "edit_view C record_fields described (Add_columns json dminfo) v =
     (case parse_json C json of
        Inr d \<Rightarrow> v\<lparr>view_names := view_names v \<union> dom (described d),
                  view_keywords := (\<lambda>c. case described d c of Some kw \<Rightarrow> kw | None \<Rightarrow> view_keywords v c)\<rparr>
      | Inl e \<Rightarrow> v)"
| "edit_view C record_fields described Close_proxy v = v"

text \<open>
  What casacore documents of its calls: reading, reopening and writing cells leave this view alone,
  and the others change it as their names say when they return. \<open>record_fields\<close> are the fields of a
  record, \<open>described\<close> the columns of a record of column descriptions, with their keywords.
\<close>

definition view_of ::
  "('t, 'v, 'a, 'd) table_calls \<Rightarrow> (string \<Rightarrow> 't \<Rightarrow> (string \<rightharpoonup> 'k)) \<Rightarrow> 't \<Rightarrow> 'k table_view" where
  "view_of C kws t =
     \<lparr>view_names = set (column_names (access_of C) t), view_nrow = nrow C t, view_keywords = (\<lambda>c. kws c t)\<rparr>"

locale table_metadata =
  fixes C :: "('t, 'v, 'a, 'd) table_calls"
    and kws :: "string \<Rightarrow> 't \<Rightarrow> (string \<rightharpoonup> 'k)"
    and record_fields :: "'d \<Rightarrow> (string \<rightharpoonup> 'k)"
    and described :: "'d \<Rightarrow> (string \<rightharpoonup> (string \<rightharpoonup> 'k))"
  assumes keyword_record: "record_fields (getKeywordSet C c t) = kws c t"
    and reopen: "view_of C kws (reopenRW (access_of C) t) = view_of C kws t"
    and set_shape: "view_of C kws (set_cell_shape (access_of C) c row sh t) = view_of C kws t"
    and cells_written: "writer_keeps (writer_of (access_of C) c) (view_of C kws)"
    and put_keywords: "putKeywordSet C c d t = (Inr (), t') \<Longrightarrow> view_of C kws t' = (view_of C kws t)
      \<lparr>view_keywords := (\<lambda>c. kws c t)(c := kws c t ++ record_fields d)\<rparr>"
    and remove_keyword: "removeKeyword C c k t = (Inr (), t') \<Longrightarrow> view_of C kws t' = (view_of C kws t)
      \<lparr>view_keywords := (\<lambda>c. kws c t)(c := (kws c t)(k := None))\<rparr>"
    and add_row: "addRow C n t = (Inr (), t') \<Longrightarrow> view_of C kws t' = (view_of C kws t)\<lparr>view_nrow := nrow C t + n\<rparr>"
    and add_columns: "addColumns C d dm t = (Inr (), t') \<Longrightarrow> view_of C kws t' = (view_of C kws t)
      \<lparr>view_names := set (column_names (access_of C) t) \<union> dom (described d),
       view_keywords := (\<lambda>c. case described d c of Some kw \<Rightarrow> kw | None \<Rightarrow> kws c t)\<rparr>"
begin

abbreviation view :: "'t \<Rightarrow> 'k table_view" where
  "view \<equiv> view_of C kws"

lemma kws_view: "view t' = view t \<Longrightarrow> kws c t' = kws c t"
  by (simp add: view_of_def fun_eq_iff)

lemma reopen_if_needed_view: "reopen_if_needed C t = (r, t') \<Longrightarrow> view t' = view t"
  using reopen by (auto simp: reopen_if_needed_def split: if_splits option.splits)

lemma write_task_view:
  assumes "write_task (access_of C) column data sel t = (r, t')"
  shows "view t' = view t"
proof -
  let ?A = "access_of C"
  define t1 where "t1 = (if is_writable ?A t then t else reopenRW ?A t)"
  have t1: "view t1 = view t" by (simp add: t1_def reopen)
  have make: "view t2 = view t1" if "MakeWrite (column_of ?A column) (set_cell_shape ?A column) t1 data sel = (d, t2)" for d t2
    by (rule MakeWrite_any [where f = view, OF that set_shape])
  show ?thesis
    using assms t1 make WriteChunks_keeps [OF cells_written]
    unfolding write_task_def t1_def [symmetric] Let_def
    by (auto split: sum.splits prod.splits)
qed

lemma perform_view:
  assumes "table_instances ntp = 1" and "length loads = 1" and "perform C c loads ntp = (Inr True, ntp')"
  shows "\<exists>t t'. itp_tables ntp = [t] \<and> itp_tables ntp' = [t'] \<and> view t' = edit_view C record_fields described c (view t)"
proof -
  obtain t where t: "itp_tables ntp = [t]" using assms(1) by (auto simp: table_instances_def length_Suc_conv)
  have i: "choose_instance loads = 0" using choose_instance_least(1) [of loads] assms(2) by force
  have safe: "SafeMultithreadedWrites ntp = Inr ()" using assms(1) by (simp add: SafeMultithreadedWrites_def)
  note ops = PutColumn_def PutKeywords_def RemoveKeyword_def AddRows_def AddColumns_def CloseProxy_def RunWrite_def RunTask_def
    safe Let_def i t awaited_Inr_conv
  show ?thesis
  proof (cases c)
    case (Put_column column data sel)
    with assms(3) write_task_view [of column data sel t] t show ?thesis
      by (auto simp: ops split: if_splits prod.splits)
  next
    case (Put_keywords json column)
    with assms(3) obtain t1 d t2 where "reopen_if_needed C t = (Inr (), t1)" "parse_json C json = Inr d"
      "putKeywordSet C column d t1 = (Inr (), t2)" "itp_tables ntp' = [t2]"
      by (cases "check_keyword_column C column t") (auto simp: ops split: if_splits prod.splits sum.splits)
    with reopen_if_needed_view [of t "Inr ()" t1] kws_view [of t1 t column] put_keywords [of column d t1 t2] Put_keywords t
    show ?thesis by (simp add: view_of_def)
  next
    case (Remove_keyword keyword column)
    with assms(3) obtain t1 t2 where "reopen_if_needed C t = (Inr (), t1)"
      "removeKeyword C column keyword t1 = (Inr (), t2)" "itp_tables ntp' = [t2]"
      by (cases "check_keyword_column C column t") (auto simp: ops split: if_splits prod.splits sum.splits)
    with reopen_if_needed_view [of t "Inr ()" t1] kws_view [of t1 t column] remove_keyword [of column keyword t1 t2] Remove_keyword t
    show ?thesis by (simp add: view_of_def)
  next
    case (Add_rows n)
    with assms(3) obtain t1 t2 where "reopen_if_needed C t = (Inr (), t1)" "addRow C n t1 = (Inr (), t2)" "itp_tables ntp' = [t2]"
      by (auto simp: ops split: if_splits prod.splits sum.splits)
    with reopen_if_needed_view add_row [of n t1 t2] Add_rows t show ?thesis by (simp add: view_of_def)
  next
    case (Add_columns json dminfo)
    with assms(3) obtain t1 d dm t2 where "reopen_if_needed C t = (Inr (), t1)" "parse_json C json = Inr d"
      "addColumns C d dm t1 = (Inr (), t2)" "itp_tables ntp' = [t2]"
      by (auto simp: ops split: if_splits prod.splits sum.splits)
    with reopen_if_needed_view [of t "Inr ()" t1] kws_view [of t1 t] add_columns [of d dm t1 t2] Add_columns t
    show ?thesis by (simp add: view_of_def cong: option.case_cong)
  next
    case Close_proxy
    with assms(3) t show ?thesis by (auto simp: ops split: if_splits)
  qed
qed

lemma perform_all_view:
  assumes "itp_tables ntp = [t]" and "\<forall>c \<in> set cs. length (snd c) = 1"
    and "perform_all C cs ntp = (rs, ntp')" and "set rs \<subseteq> {Inr True}"
  shows "\<exists>t'. itp_tables ntp' = [t'] \<and> view t' = fold (\<lambda>c. edit_view C record_fields described (fst c)) cs (view t)"
  using assms
proof (induction cs arbitrary: ntp rs t)
  case (Cons cl cs)
  obtain c loads where cl: "cl = (c, loads)" by force
  obtain r ntp1 rs' where one: "perform C c loads ntp = (r, ntp1)" "perform_all C cs ntp1 = (rs', ntp')" and rs: "rs = r # rs'"
    using Cons.prems(3) by (auto simp: cl split: prod.splits)
  have "perform C c loads ntp = (Inr True, ntp1)" "length loads = 1" "table_instances ntp = 1"
    using Cons.prems(1,2,4) one by (simp_all add: rs cl table_instances_def)
  from perform_view [OF this(3,2,1)] Cons.prems(1) obtain t1 where
    "itp_tables ntp1 = [t1]" "view t1 = edit_view C record_fields described c (view t)" by auto
  with Cons.IH [of ntp1 t1 rs'] one(2) Cons.prems(2,4) show ?case by (simp add: rs cl)
qed simp

end

section \<open>Tables in memory with metadata\<close>

record metadata =
  m_names :: "string list"
  m_nrow :: nat
  m_keywords :: "string \<Rightarrow> (string \<times> string) list"

type_synonym described_table = "memory_table \<times> metadata"

definition on_table :: "(memory_table, int list) column_writer \<Rightarrow> (described_table, int list) column_writer" where
  "on_table wr =
     \<lparr>put_scalar_cells = \<lambda>rr vals (t, m). (put_scalar_cells wr rr vals t, m),
      put_array_cells = \<lambda>rr sl vals (t, m). (put_array_cells wr rr sl vals t, m),
      put_slice = \<lambda>r sl vals (t, m). (put_slice wr r sl vals t, m)\<rparr>"

definition described_access :: "(described_table, int, int list) access" where
  "described_access = (let A = memory_access in
     \<lparr>column_names = (\<lambda>(t, m). m_names m),
      is_writable = (\<lambda>(t, m). is_writable A t),
      reopenRW = (\<lambda>(t, m). (reopenRW A t, m)),
      column_of = (\<lambda>c (t, m). column_of A c t),
      storage_of = (\<lambda>c (t, m). storage_of A c t),
      set_cell_shape = (\<lambda>c row sh (t, m). (set_cell_shape A c row sh t, m)),
      reader_of = (\<lambda>c (t, m). reader_of A c t),
      writer_of = (\<lambda>c. on_table (writer_of A c)),
      numeric = numeric A, sizeof_String = sizeof_String A, default_alignment = default_alignment A,
      allocate = allocate A, empty_String = empty_String A, fresh_value = fresh_value A,
      arrow_values = arrow_values A, casa_view = casa_view A, cast = cast A,
      fixed_lists_of = fixed_lists_of A, list_array_of = list_array_of A\<rparr>)"

text \<open>A record is a list of named strings, and its text is read as a record of one field of that name.\<close>

definition described_calls :: "(described_table, int, int list, (string \<times> string) list) table_calls" where
  "described_calls =
     \<lparr>access_of = described_access,
      descriptions_of_table = \<lparr>getTableDescription = (\<lambda>(t, m). []), getColumnDescription = (\<lambda>c (t, m). [(c, [])]),
                               write_json = (\<lambda>k d. k @ concat (map fst d))\<rparr>,
      tableName = (\<lambda>t. ''table''), nrow = (\<lambda>(t, m). m_nrow m),
      getDataManagerInfo = (\<lambda>t. []), lockOptions = (\<lambda>t. []),
      getKeywordSet = (\<lambda>c (t, m). m_keywords m c),
      put_json = (\<lambda>d. concat (map fst d)),
      parse_json = (\<lambda>s. if s = [] then Inl (Aips ''no record'') else Inr [(s, s)]),
      reopen_error = (\<lambda>t. None),
      putKeywordSet = (\<lambda>c d (t, m). (Inr (), (t, m\<lparr>m_keywords := (m_keywords m)(c := d @ m_keywords m c)\<rparr>))),
      removeKeyword = (\<lambda>c k (t, m). (Inr (), (t, m\<lparr>m_keywords := (m_keywords m)(c := filter (\<lambda>(k', v). k' \<noteq> k) (m_keywords m c))\<rparr>))),
      addRow = (\<lambda>n (t, m). (Inr (), (t, m\<lparr>m_nrow := m_nrow m + n\<rparr>))),
      addColumns = (\<lambda>d dm (t, m). (Inr (), (t, m\<lparr>m_names := m_names m @ map fst d,
         m_keywords := (\<lambda>c. if c \<in> set (map fst d) then [] else m_keywords m c)\<rparr>))),
      close_error = (\<lambda>t. None)\<rparr>"

definition keywords_of :: "string \<Rightarrow> described_table \<Rightarrow> (string \<rightharpoonup> string)" where
  "keywords_of c t = map_of (m_keywords (snd t) c)"

definition columns_described :: "(string \<times> string) list \<Rightarrow> (string \<rightharpoonup> (string \<rightharpoonup> string))" where
  "columns_described d = (\<lambda>c. if c \<in> set (map fst d) then Some Map.empty else None)"

lemma columns_described_simps:
  "dom (columns_described d) = fst ` set d"
  "(case columns_described d c of Some kw \<Rightarrow> kw | None \<Rightarrow> m) = (if c \<in> fst ` set d then Map.empty else m)"
  by (simp_all add: columns_described_def dom_def)

lemma described_view:
  "view_of described_calls keywords_of t =
     \<lparr>view_names = set (m_names (snd t)), view_nrow = m_nrow (snd t), view_keywords = (\<lambda>c. map_of (m_keywords (snd t) c))\<rparr>"
  by (cases t) (simp add: view_of_def described_calls_def described_access_def keywords_of_def Let_def)

lemma map_of_other_keys: "map_of (filter (\<lambda>(k', v). k' \<noteq> k) kvs) = (map_of kvs)(k := None)"
  by (induction kvs) (auto simp: fun_eq_iff)

interpretation described: table_metadata described_calls keywords_of map_of columns_described
proof
  fix c t row sh d t' k n dm
  show "map_of (getKeywordSet described_calls c t) = keywords_of c t"
    by (cases t) (simp add: described_calls_def keywords_of_def)
  show "view_of described_calls keywords_of (reopenRW (access_of described_calls) t) = view_of described_calls keywords_of t"
    unfolding described_view by (cases t) (simp add: described_calls_def described_access_def Let_def)
  show "view_of described_calls keywords_of (set_cell_shape (access_of described_calls) c row sh t) = view_of described_calls keywords_of t"
    unfolding described_view by (cases t) (simp add: described_calls_def described_access_def Let_def)
  show "writer_keeps (writer_of (access_of described_calls) c) (view_of described_calls keywords_of)"
    unfolding writer_keeps_def described_view by (auto simp: described_calls_def described_access_def Let_def on_table_def)
  show "view_of described_calls keywords_of t' = (view_of described_calls keywords_of t)
      \<lparr>view_keywords := (\<lambda>c. keywords_of c t)(c := keywords_of c t ++ map_of d)\<rparr>"
    if "putKeywordSet described_calls c d t = (Inr (), t')"
    using that unfolding described_view by (cases t) (auto simp: described_calls_def keywords_of_def)
  show "view_of described_calls keywords_of t' = (view_of described_calls keywords_of t)
      \<lparr>view_keywords := (\<lambda>c. keywords_of c t)(c := (keywords_of c t)(k := None))\<rparr>"
    if "removeKeyword described_calls c k t = (Inr (), t')"
    using that unfolding described_view by (cases t) (auto simp: described_calls_def keywords_of_def map_of_other_keys)
  show "view_of described_calls keywords_of t' = (view_of described_calls keywords_of t)\<lparr>view_nrow := nrow described_calls t + n\<rparr>"
    if "addRow described_calls n t = (Inr (), t')"
    using that unfolding described_view by (cases t) (auto simp: described_calls_def)
  show "view_of described_calls keywords_of t' = (view_of described_calls keywords_of t)
      \<lparr>view_names := set (column_names (access_of described_calls) t) \<union> dom (columns_described d),
       view_keywords := (\<lambda>c. case columns_described d c of Some kw \<Rightarrow> kw | None \<Rightarrow> keywords_of c t)\<rparr>"
    if "addColumns described_calls d dm t = (Inr (), t')"
    using that unfolding described_view
    by (cases t) (simp add: described_calls_def described_access_def Let_def keywords_of_def columns_described_simps fun_eq_iff;
        hypsubst; simp)
qed

text \<open>The cells of such a table are those of the table in memory.\<close>

lemma described_simps [simp]:
  "column_names described_access t = m_names (snd t)" "reopenRW described_access t = (reopenRW memory_access (fst t), snd t)"
  "column_of described_access c t = column_of memory_access c (fst t)"
  "set_cell_shape described_access c row sh t = (set_cell_shape memory_access c row sh (fst t), snd t)"
  "reader_of described_access c t = reader_of memory_access c (fst t)"
  "writer_of described_access c = on_table (writer_of memory_access c)"
  "numeric described_access = numeric memory_access" "allocate described_access = allocate memory_access"
  "sizeof_String described_access = sizeof_String memory_access" "default_alignment described_access = default_alignment memory_access"
  "empty_String described_access = empty_String memory_access" "arrow_values described_access = arrow_values memory_access"
  "casa_view described_access = casa_view memory_access"
  "fixed_lists_of described_access = fixed_lists_of memory_access" "list_array_of described_access = list_array_of memory_access"
  by (simp_all add: described_access_def Let_def case_prod_unfold)

interpretation described_cells: table_access described_access "\<lambda>c t. snd (snd (fst t))"
proof
  fix c c' row sh r and t :: described_table
  show "reads_cells (reader_of described_access c t) (snd (snd (fst t)))" using memory.reads by simp
  show "writes_cells (writer_of described_access c) (\<lambda>t. snd (snd (fst t)))"
    using memory.writes [of c] unfolding writes_cells_def by (simp add: on_table_def case_prod_unfold)
  show "column_of described_access c (set_cell_shape described_access c row sh t) = with_cell (column_of described_access c t) row sh"
    if "row < tc_nrow (column_of described_access c t)"
    using shape_setter.setShape [OF memory.sets_shapes] that by simp
  show "snd (snd (fst (set_cell_shape described_access c row sh t))) r = snd (snd (fst t)) r"
    if "row < tc_nrow (column_of described_access c t)" "r \<noteq> int row"
    using memory.set_shape_cells that by simp
  show "writer_keeps (writer_of described_access c) (column_of described_access c')"
    using memory.write_column [of c c'] unfolding writer_keeps_def by (simp add: on_table_def case_prod_unfold)
  show "writer_keeps (writer_of described_access c) (column_names described_access)"
    unfolding writer_keeps_def by (simp add: on_table_def case_prod_unfold)
qed (use memory.fixed_lists memory.list_array memory.primitive memory.allocated memory.empty_values memory.view
      memory.reopen_cells memory.reopen_column in simp_all)

section \<open>Properties\<close>

text \<open>
  C8. A sequence of calls on a proxy of one instance that all succeed does what is specified.
  Whatever is put, removed or added, in whatever order, afterwards \<open>nRows\<close>, \<open>Columns\<close> and \<open>GetKeywords\<close>
  show the table that the specification of the calls gives: keywords that are put are defined and
  others stay, a keyword removed is gone, rows and columns are added, and writing a column changes
  none of this. Asking for the keywords of another column is an error.
\<close>

theorem perform_all_refines:
  assumes "table_metadata C kws record_fields described" and "itp_tables ntp = [t]"
    and "\<forall>c \<in> set cs. length (snd c) = 1" and "perform_all C cs ntp = (rs, ntp')" and "set rs \<subseteq> {Inr True}"
    and "\<not> itp_closed ntp'" and "length loads = 1"
    and "v = fold (\<lambda>c. edit_view C record_fields described (fst c)) cs (view_of C kws t)"
  shows "fst (nRowsOf C loads ntp') = Inr (view_nrow v) \<and>
    (\<exists>names. fst (Columns C loads ntp') = Inr names \<and> set names = view_names v) \<and>
    (case fst (GetKeywords C column loads ntp') of
       Inr json \<Rightarrow> (column = [] \<or> column \<in> view_names v) \<and>
         (\<exists>d. json = put_json C d \<and> record_fields d = view_keywords v column)
     | Inl e \<Rightarrow> column \<noteq> [] \<and> column \<notin> view_names v \<and> e = Invalid [Str ''Column '', Str column, Str '' does not exist''])"
proof -
  from table_metadata.perform_all_view [OF assms(1-5)] assms(8) obtain t' where
    t': "itp_tables ntp' = [t']" "view_of C kws t' = v" by blast
  have "choose_instance loads = 0" using choose_instance_least(1) [of loads] assms(7) by force
  with t' assms(6) table_metadata.keyword_record [OF assms(1), of column t'] show ?thesis
    by (auto simp: nRowsOf_def Columns_def GetKeywords_def RunRead_conv check_keyword_column_def check_column_def
        ColumnExists_def require_def view_of_def split: sum.splits)
qed

definition start_table :: described_table where
  "start_table = (vector_table, \<lparr>m_names = [''UVW''], m_nrow = 3, m_keywords = (\<lambda>c. [(''UNIT'', ''m''), (''REF'', ''x'')])\<rparr>)"

definition start_proxy :: "described_table NewTableProxy" where
  "start_proxy = \<lparr>itp_tables = [start_table], itp_closed = False\<rparr>"

definition some_calls :: "(int write_call \<times> int64 list) list" where
  "some_calls = [(Put_keywords ''A'' ''UVW'', [0]), (Add_rows 2, [0]), (Remove_keyword ''UNIT'' ''UVW'', [0]),
     (Add_columns ''W'' ''{}'', [0]), (Put_keywords ''B'' ''W'', [0])]"

theorem perform_all_refines_witness:
  "\<exists>ntp'. perform_all described_calls some_calls start_proxy = (replicate 5 (Inr True), ntp') \<and>
     fst (nRowsOf described_calls [0] ntp') = Inr 5 \<and>
     (\<exists>d. fst (GetKeywords described_calls ''UVW'' [0] ntp') = Inr (put_json described_calls d) \<and>
        map_of d = [''A'' \<mapsto> ''A'', ''REF'' \<mapsto> ''x''])"
proof -
  let ?C = described_calls
  obtain rs ntp' where p: "perform_all ?C some_calls start_proxy = (rs, ntp')" by force
  have one: "choose_instance [0] = 0" using choose_instance_least(1) [of "[0]"] by simp
  have rs: "rs = replicate 5 (Inr True)" "\<not> itp_closed ntp'"
  proof -
    have "fst (perform_all ?C some_calls start_proxy) = replicate 5 (Inr True)"
      "\<not> itp_closed (snd (perform_all ?C some_calls start_proxy))" by code_simp+
    with p show "rs = replicate 5 (Inr True)" "\<not> itp_closed ntp'" by simp_all
  qed
  have ok: "itp_tables start_proxy = [start_table]" "\<forall>c \<in> set some_calls. length (snd c) = 1" "set rs \<subseteq> {Inr True}"
    "length [0 :: int64] = 1" by (auto simp: start_proxy_def some_calls_def rs(1))
  have parse: "parse_json ?C s = (if s = [] then Inl (Aips ''no record'') else Inr [(s, s)])" for s
    by (simp add: described_calls_def)
  let ?v = "fold (\<lambda>c. edit_view ?C map_of columns_described (fst c)) some_calls (view_of ?C keywords_of start_table)"
  have v: "view_nrow ?v = 5" "view_keywords ?v ''UVW'' = [''A'' \<mapsto> ''A'', ''REF'' \<mapsto> ''x'']" "''UVW'' \<in> view_names ?v"
    by (simp_all add: some_calls_def described_view start_table_def columns_described_def parse fun_eq_iff)
  from perform_all_refines [OF described.table_metadata_axioms ok(1,2) p ok(3) rs(2) ok(4) refl, of "''UVW''"] v
  show ?thesis using p rs(1) by (auto split: sum.splits)
qed

text \<open>
  C9. With several instances, no call changes a table. After any sequence of calls, all that would
  write having been refused, a read returns the cells as they were when the tables were opened, on
  whichever instances it runs.
\<close>

theorem GetColumn_after_calls:
  assumes "table_access (access_of C) cells" and "1 < table_instances ntp"
    and "perform_all C cs ntp = (rs, ntp')" and "\<not> itp_closed ntp'" and "length loads = table_instances ntp"
    and "\<forall>t \<in> set (itp_tables ntp). column \<in> set (column_names (access_of C) t) \<and> column_of (access_of C) column t = col \<and>
      cells column t = cell"
    and "MakeRead col sel False = Inr d" and "ranks_ok col" and "length (tc_shape col) < 2 ^ 64 - 1"
    and "fixed_result d sh" and "2 * prod_list sh < 2 ^ 31" and "no_duplicates sel sh"
    and "CasaDataTypeSize (sizeof_String (access_of C)) (rs_dtype d) = Inr sz"
    and "allocate (access_of C) (rs_dtype d) (prod_list sh) (GetSafeAlignment (default_alignment (access_of C)) sz) = Inr fresh"
    and "GetConvertStrategy loc = (Inr strat, loc')"
    and "\<forall>g. worker g < table_instances ntp" and "\<forall>n. mset (order n) = mset [0..<n]"
    and "\<forall>r i. length (arrow_values (access_of C) (cell r i)) = value_width (rs_dtype d)"
  shows "(\<forall>i < length cs. fst (cs ! i) \<noteq> Close_proxy \<longrightarrow> (\<exists>m. rs ! i = Inl (NotImplemented m))) \<and>
    (\<exists>arr buffer ty. GetColumn C column sel None loads worker order loc ntp' = (Inr arr, loc') \<and>
      GetFlatArray False arr = Inr (Values ty (concat (map (arrow_values (access_of C)) buffer)) 0
        (length (concat (map (arrow_values (access_of C)) buffer)))) \<and>
      length buffer = prod_list sh \<and>
      (\<forall>idx \<in> present sel sh. buffer ! lin sh idx = cell (last (disk_index sel sh idx)) (butlast (disk_index sel sh idx))))"
proof -
  let ?A = "access_of C" and ?ts = "itp_tables ntp"
  from perform_all_guarded [of ntp C cs rs ntp'] assms(2,3) have
    same: "itp_tables ntp' = ?ts" and refused: "\<forall>i < length cs. fst (cs ! i) \<noteq> Close_proxy \<longrightarrow> (\<exists>m. rs ! i = Inl (NotImplemented m))"
    by auto
  have "choose_instance loads < length ?ts"
    using choose_instance_least(1) [of loads] assms(2,5) by (cases loads) (simp_all add: table_instances_def)
  then have t: "?ts ! choose_instance loads \<in> set ?ts" by simp
  define t0 where "t0 = ?ts ! choose_instance loads"
  have t0: "column \<in> set (column_names ?A t0)" "column_of ?A column t0 = col" "cells column t0 = cell"
    using assms(6) t by (simp_all add: t0_def)
  have at: "\<forall>g. cells column (?ts ! worker g) = cells column t0"
    using assms(6,16) t0(3) nth_mem [of _ ?ts] by (simp add: table_instances_def)
  from table_access.ReadImpl_cells [OF assms(1) t0(1), unfolded t0(2,3), OF assms(7-15) at [unfolded t0(3)] assms(17,18)]
  show ?thesis using refused assms(4) same by (force simp: GetColumn_def t0_def)
qed

text \<open>Two instances of a table: the calls are refused, and the rows 2 and 0 are read.\<close>

definition two_instances :: "described_table NewTableProxy" where
  "two_instances = \<lparr>itp_tables = [start_table, start_table], itp_closed = False\<rparr>"

theorem GetColumn_after_calls_witness:
  "\<exists>rs ntp' arr ty. perform_all described_calls some_calls two_instances = (rs, ntp') \<and> (\<exists>m. rs ! 1 = Inl (NotImplemented m)) \<and>
     GetColumn described_calls ''UVW'' two_rows None [5, 3] (\<lambda>g. 0) (\<lambda>n. [0..<n]) None ntp' = (Inr arr, Some []) \<and>
     GetFlatArray False arr = Inr (Values ty [20, 21, 0, 1] 0 4)"
proof -
  have A: "access_of described_calls = described_access" by (simp add: described_calls_def)
  have t: "fst start_table = vector_table" "m_names (snd start_table) = [''UVW'']" by (simp_all add: start_table_def)
  obtain rs ntp' where p: "perform_all described_calls some_calls two_instances = (rs, ntp')" by force
  have "\<not> itp_closed (snd (perform_all described_calls some_calls two_instances))" by code_simp
  then have o: "\<not> itp_closed ntp'" using p by simp
  note two = two_rows_facts
  have vals: "arrow_values described_access = (\<lambda>x. x)" by (simp add: memory_access_def)
  have g: "table_access (access_of described_calls) (\<lambda>c t. snd (snd (fst t)))" "1 < table_instances two_instances"
    "length [5, 3 :: int64] = table_instances two_instances"
    "\<forall>t \<in> set (itp_tables two_instances). ''UVW'' \<in> set (column_names (access_of described_calls) t) \<and>
       column_of (access_of described_calls) ''UVW'' t = vector_column \<and> snd (snd (fst t)) = snd (snd vector_table)"
    using described_cells.table_access_axioms by (simp_all add: A two_instances_def table_instances_def t vector_columns)
  have al: "allocate (access_of described_calls) (rs_dtype two_rows_result) (prod_list [2, 2])
      (GetSafeAlignment (default_alignment (access_of described_calls)) 4) = Inr (replicate 4 [0])"
    and sz: "CasaDataTypeSize (sizeof_String (access_of described_calls)) (rs_dtype two_rows_result) = Inr 4"
    using two(6,7) by (simp_all add: A)
  have typed: "\<forall>r i. length (arrow_values (access_of described_calls) (snd (snd vector_table) r i)) = value_width (rs_dtype two_rows_result)"
    using two(8) by (simp add: A)
  have zero: "\<forall>i. (0 :: nat) < table_instances two_instances" and order: "\<forall>n. mset [0..<n] = mset [0..<n]" using g(2) by simp_all
  note r = GetColumn_after_calls [OF g(1,2) p o g(3,4) two(1) vector_facts(4,5) two(2,5,3) sz al vector_facts(6) zero order typed]
  have "\<exists>m. rs ! 1 = Inl (NotImplemented m)"
    using r [THEN conjunct1, rule_format, of 1] by (simp add: some_calls_def)
  moreover obtain arr buffer ty where f: "GetColumn described_calls ''UVW'' two_rows None [5, 3] (\<lambda>g. 0) (\<lambda>n. [0..<n]) None ntp' = (Inr arr, Some [])"
    "GetFlatArray False arr = Inr (Values ty (concat buffer) 0 (length (concat buffer)))" and b: "length buffer = 4"
      "\<forall>idx \<in> present two_rows [2, 2]. buffer ! lin [2, 2] idx =
         snd (snd vector_table) (last (disk_index two_rows [2, 2] idx)) (butlast (disk_index two_rows [2, 2] idx))"
    using r [THEN conjunct2, unfolded A vals map_ident] by auto
  ultimately show ?thesis using f two_rows_buffer [OF b] p by auto
qed

end
