(* ===== verification/TableDescriptors.thy ===== *)
theory TableDescriptors
  imports TableProxy "HOL-Library.Char_ord"
begin

text \<open>
  Descriptions of Measurement Set tables: \<open>cpp/arcae/descriptor.cc\<close>. It looks up the description that
  a table of a Measurement Set must have, merges it with that of the user, and sets up a new table.

  A \<open>TableDesc\<close> is a value of casacore (type \<open>'d\<close>), as are its column descriptions (\<open>'c\<close>), the values
  of keywords (\<open>'k\<close>), records (\<open>'r\<close>) and set-ups of tables (\<open>'s\<close>). Their operations are the record
  \<open>desc_calls\<close>, with the laws in the locale \<open>table_desc\<close>. A call may throw; an exception that is not
  caught leaves the function.
\<close>

section \<open>Exceptions\<close>

fun abind :: "exn + 'a \<Rightarrow> ('a \<Rightarrow> exn + 'b) \<Rightarrow> exn + 'b" where
  "abind (Inl e) f = Inl e"
| "abind (Inr x) f = f x"

fun afold :: "('b \<Rightarrow> 'a \<Rightarrow> exn + 'a) \<Rightarrow> 'b list \<Rightarrow> 'a \<Rightarrow> exn + 'a" where
  "afold f [] a = Inr a"
| "afold f (x # xs) a = abind (f x a) (afold f xs)"

text \<open>Functions that return a result, or throw.\<close>

fun then_result :: "exn + 'a result \<Rightarrow> ('a \<Rightarrow> exn + 'b result) \<Rightarrow> exn + 'b result" where
  "then_result (Inl e) f = Inl e"
| "then_result (Inr (Inl s)) f = Inr (Inl s)"
| "then_result (Inr (Inr x)) f = f x"

definition uncaught :: "exn + 'a \<Rightarrow> exn + 'a result" where
  "uncaught r = (case r of Inl e \<Rightarrow> Inl e | Inr x \<Rightarrow> Inr (Inr x))"

text \<open>A handler of \<open>casacore::AipsError\<close>.\<close>

fun catching :: "(string \<Rightarrow> status) \<Rightarrow> exn + 'a result \<Rightarrow> exn + 'a result" where
  "catching handler (Inl (Aips what)) = Inr (Inl (handler what))"
| "catching handler (Inl (Std what)) = Inl (Std what)"
| "catching handler (Inr r) = Inr r"

section \<open>Names\<close>

definition toupper :: "char \<Rightarrow> char" where
  "toupper c = (let n = of_char c :: nat in if 97 \<le> n \<and> n \<le> 122 then char_of (n - 32) else c)"

definition upcase :: "string \<Rightarrow> string" where
  "upcase s = map toupper s"

text \<open>The subtables that are classes of casacore.\<close>

datatype ms_table =
    MSAntenna | MSDataDescription | MSDoppler | MSFeed | MSField | MSFlagCmd | MSFreqOffset | MSHistory
  | MSObservation | MSPointing | MSPolarization | MSProcessor | MSSource | MSSpectralWindow | MSState
  | MSSysCal | MSWeather

definition kMain :: string where
  "kMain = ''MAIN''"

definition kMSV3PhasedArray :: string where
  "kMSV3PhasedArray = ''MSV3_PHASED_ARRAY''"

definition subtable_names :: "(string \<times> ms_table) list" where
  "subtable_names =
     [(''ANTENNA'', MSAntenna), (''DATA_DESCRIPTION'', MSDataDescription), (''DOPPLER'', MSDoppler), (''FEED'', MSFeed),
      (''FIELD'', MSField), (''FLAG_CMD'', MSFlagCmd), (''FREQ_OFFSET'', MSFreqOffset), (''HISTORY'', MSHistory),
      (''OBSERVATION'', MSObservation), (''POINTING'', MSPointing), (''POLARIZATION'', MSPolarization),
      (''PROCESSOR'', MSProcessor), (''SOURCE'', MSSource), (''SPECTRAL_WINDOW'', MSSpectralWindow), (''STATE'', MSState),
      (''SYSCAL'', MSSysCal), (''WEATHER'', MSWeather)]"

section \<open>Calls of casacore\<close>

datatype column_desc =
    ScalarColumnDesc casa_dtype string string
  | FixedArrayColumnDesc casa_dtype string string shape
  | ArrayColumnDesc casa_dtype string string nat

datatype keyword_value = Strings "string list" | Record_of "(string \<times> string) list"

record hypercolumn =
  hc_ndims :: nat
  hc_data :: "string list"
  hc_coord :: "string list"
  hc_id :: "string list"

record 'd ms_class =
  requiredTableDesc :: 'd
  NUMBER_REQUIRED_COLUMNS :: nat
  NUMBER_PREDEFINED_COLUMNS :: nat
  addColumnToDesc :: "nat \<Rightarrow> 'd \<Rightarrow> exn + 'd"

record ('d, 'c, 'k, 'r, 's) desc_calls =
  empty_desc :: 'd
  casa_column :: "column_desc \<Rightarrow> 'c"
  casa_value :: "keyword_value \<Rightarrow> 'k"
  column_name :: "'c \<Rightarrow> string"
  desc_columns :: "'d \<Rightarrow> 'c list"                                          \<comment> \<open>\<open>td[i]\<close>\<close>
  isColumn :: "string \<Rightarrow> 'd \<Rightarrow> bool"
  removeColumn :: "string \<Rightarrow> 'd \<Rightarrow> exn + 'd"
  addColumn :: "'c \<Rightarrow> 'd \<Rightarrow> exn + 'd"
  removeColumnKeyword :: "string \<Rightarrow> string \<Rightarrow> 'd \<Rightarrow> exn + 'd"           \<comment> \<open>\<open>rwColumnDesc(c).rwKeywordSet().removeField\<close>\<close>
  defineColumnKeyword :: "string \<Rightarrow> string \<Rightarrow> 'k \<Rightarrow> 'd \<Rightarrow> exn + 'd"     \<comment> \<open>\<open>define\<close> and \<open>defineRecord\<close>\<close>
  hypercolumnNames :: "'d \<Rightarrow> string list"
  isHypercolumn :: "string \<Rightarrow> 'd \<Rightarrow> bool"
  removeHypercolumnDesc :: "string \<Rightarrow> 'd \<Rightarrow> exn + 'd"
  hypercolumnDesc :: "string \<Rightarrow> 'd \<Rightarrow> exn + hypercolumn"
  defineHypercolumn :: "string \<Rightarrow> hypercolumn \<Rightarrow> 'd \<Rightarrow> exn + 'd"
  mergeKeywords :: "'d \<Rightarrow> 'd \<Rightarrow> 'd"                                       \<comment> \<open>\<open>merge(..., OverwriteDuplicates)\<close>\<close>
  MS_class :: "'d ms_class"                                                \<comment> \<open>\<open>MeasurementSet\<close>\<close>
  NUMBER_REQUIRED_KEYWORDS :: nat
  NUMBER_PREDEFINED_KEYWORDS :: nat
  addKeyToDesc :: "nat \<Rightarrow> 'd \<Rightarrow> exn + 'd"
  subtable_class :: "ms_table \<Rightarrow> 'd ms_class"
  parseRecord :: "string \<Rightarrow> exn + 'r"
  makeTableDesc :: "'r \<Rightarrow> exn + (bool \<times> 'd \<times> string)"
  getTableDesc :: "'d \<Rightarrow> 'r"
  record_items :: "'r \<Rightarrow> (string \<times> 'k) list"                                \<comment> \<open>\<open>name(i)\<close> and \<open>asValueHolder(i)\<close>\<close>
  json_object :: "(string \<times> 'k) list \<Rightarrow> string"                            \<comment> \<open>a \<open>JsonOut\<close>\<close>
  setupNewTable :: "string \<Rightarrow> 'd \<Rightarrow> exn + 's"
  bindCreate :: "'r \<Rightarrow> 's \<Rightarrow> exn + 's"

section \<open>Descriptions\<close>

definition kFlagCategory :: string where
  "kFlagCategory = ''FLAG_CATEGORY''"

definition kCategory :: string where
  "kCategory = ''CATEGORY''"

definition MainMSDesc :: "('d, 'c, 'k, 'r, 's) desc_calls \<Rightarrow> bool \<Rightarrow> exn + 'd" where
  "MainMSDesc T complete =
     (let MS = MS_class T
      in abind (removeColumnKeyword T kFlagCategory kCategory (requiredTableDesc MS)) (\<lambda>td.
         if \<not> complete then Inr td
         else abind (afold (addColumnToDesc MS) [NUMBER_REQUIRED_COLUMNS MS + 1..<NUMBER_PREDEFINED_COLUMNS MS + 1] td) (\<lambda>td.
              afold (addKeyToDesc T) [NUMBER_REQUIRED_KEYWORDS T + 1..<NUMBER_PREDEFINED_KEYWORDS T + 1] td)))"

definition MSSubtableDesc :: "'d ms_class \<Rightarrow> bool \<Rightarrow> exn + 'd" where
  "MSSubtableDesc cls complete =
     (if \<not> complete then Inr (requiredTableDesc cls)
      else afold (addColumnToDesc cls) [NUMBER_REQUIRED_COLUMNS cls + 1..<NUMBER_PREDEFINED_COLUMNS cls + 1] (requiredTableDesc cls))"

definition AddMeasureMetadata ::
  "('d, 'c, 'k, 'r, 's) desc_calls \<Rightarrow> string \<Rightarrow> string \<Rightarrow> string \<Rightarrow> string \<Rightarrow> 'd \<Rightarrow> exn + 'd" where
  "AddMeasureMetadata T column type ref unit td =
     abind (defineColumnKeyword T column ''QuantumUnits'' (casa_value T (Strings (replicate 3 unit))) td) (\<lambda>td.
     defineColumnKeyword T column ''MEASINFO'' (casa_value T (Record_of [(''type'', type), (''Ref'', ref)])) td)"

definition phased_array_columns :: "column_desc list" where
  "phased_array_columns =
     [ScalarColumnDesc TpInt ''ANTENNA_ID'' ''Antenna ID'',
      FixedArrayColumnDesc TpDouble ''POSITION'' ''Position of antenna field'' [3],
      FixedArrayColumnDesc TpDouble ''COORDINATE_AXES'' ''Local coordinate system'' [3, 3],
      ArrayColumnDesc TpDouble ''ELEMENT_OFFSET'' ''Offset per element'' 2,
      ArrayColumnDesc TpBool ''ELEMENT_FLAG'' ''Flag of elements in array'' 2]"

definition PhasedArrayMSDesc :: "('d, 'c, 'k, 'r, 's) desc_calls \<Rightarrow> bool \<Rightarrow> exn + 'd" where
  "PhasedArrayMSDesc T complete =
     abind (afold (\<lambda>c. addColumn T (casa_column T c)) phased_array_columns (empty_desc T)) (\<lambda>td.
     abind (AddMeasureMetadata T ''POSITION'' ''position'' ''ITRF'' ''m'' td) (\<lambda>td.
     abind (AddMeasureMetadata T ''ELEMENT_OFFSET'' ''position'' ''ITRF'' ''m'' td) (\<lambda>td.
     if complete then addColumn T (casa_column T (ScalarColumnDesc TpInt ''BEAM_ID'' ''Beam ID'')) td else Inr td)))"

definition RecordToJson :: "('d, 'c, 'k, 'r, 's) desc_calls \<Rightarrow> 'r \<Rightarrow> string" where
  "RecordToJson T rec = json_object T (map (\<lambda>i. record_items T rec ! i) [0..<length (record_items T rec)])"

definition MSTableDescriptor :: "('d, 'c, 'k, 'r, 's) desc_calls \<Rightarrow> string \<Rightarrow> bool \<Rightarrow> exn + 'd result" where
  "MSTableDescriptor T table complete =
     (let utable = upcase table
      in if table = [] \<or> utable = kMain then uncaught (MainMSDesc T complete)
         else case map_of subtable_names utable of
                Some cls \<Rightarrow> uncaught (MSSubtableDesc (subtable_class T cls) complete)
              | None \<Rightarrow>
                  if utable = kMSV3PhasedArray then uncaught (PhasedArrayMSDesc T complete)
                  else Inr (Inl (Invalid [Str ''Unknown table type '', Str utable])))"

section \<open>Merging\<close>

definition merge_column :: "('d, 'c, 'k, 'r, 's) desc_calls \<Rightarrow> 'c \<Rightarrow> 'd \<Rightarrow> exn + 'd" where
  "merge_column T col res =
     abind (if isColumn T (column_name T col) res then removeColumn T (column_name T col) res else Inr res) (addColumn T col)"

definition merge_hypercolumn :: "('d, 'c, 'k, 'r, 's) desc_calls \<Rightarrow> 'd \<Rightarrow> string \<Rightarrow> 'd \<Rightarrow> exn + 'd" where
  "merge_hypercolumn T user_td name res =
     abind (if isHypercolumn T name res then removeHypercolumnDesc T name res else Inr res) (\<lambda>res.
     abind (hypercolumnDesc T name user_td) (\<lambda>hc. defineHypercolumn T name hc res))"

definition MergeRequiredAndUserTableDescs :: "('d, 'c, 'k, 'r, 's) desc_calls \<Rightarrow> 'd \<Rightarrow> 'd \<Rightarrow> exn + 'd" where
  "MergeRequiredAndUserTableDescs T required_td user_td =
     abind (afold (merge_column T) (desc_columns T user_td) required_td) (\<lambda>res.
     abind (afold (merge_hypercolumn T user_td) (hypercolumnNames T user_td) res) (\<lambda>res.
     Inr (mergeKeywords T res user_td)))"

section \<open>Setting up tables\<close>

definition ParseRecord :: "('d, 'c, 'k, 'r, 's) desc_calls \<Rightarrow> string \<Rightarrow> string \<Rightarrow> exn + 'r result" where
  "ParseRecord T json what =
     catching (\<lambda>error. Invalid [Str ''Unable to parse '', Str what, Str '': '', Str error]) (uncaught (parseRecord T json))"

definition MakeSetupNewTable :: "('d, 'c, 'k, 'r, 's) desc_calls \<Rightarrow> string \<Rightarrow> 'd \<Rightarrow> 'r \<Rightarrow> exn + 's result" where
  "MakeSetupNewTable T name desc dminfo =
     catching (\<lambda>error. Invalid [Str ''Unable to set up table '', Str name, Str '': '', Str error])
       (uncaught (abind (setupNewTable T name desc) (bindCreate T dminfo)))"

definition MSDescriptor :: "('d, 'c, 'k, 'r, 's) desc_calls \<Rightarrow> string \<Rightarrow> bool \<Rightarrow> exn + string result" where
  "MSDescriptor T table complete =
     then_result (MSTableDescriptor T table complete) (\<lambda>td. Inr (Inr (RecordToJson T (getTableDesc T td))))"

text \<open>The description of the user, from the text of a record.\<close>

definition user_desc :: "('d, 'c, 'k, 'r, 's) desc_calls \<Rightarrow> string \<Rightarrow> exn + 'd result" where
  "user_desc T json_table_desc =
     then_result (ParseRecord T json_table_desc ''table_desc'') (\<lambda>table_desc.
     then_result (uncaught (makeTableDesc T table_desc)) (\<lambda>(made, user_td, message).
     if \<not> made then Inr (Inl (Invalid [Str ''Failed to create Table Description'', Str message])) else Inr (Inr user_td)))"

definition DefaultMSFactory ::
  "('d, 'c, 'k, 'r, 's) desc_calls \<Rightarrow> string \<Rightarrow> string \<Rightarrow> string \<Rightarrow> string \<Rightarrow> exn + 's result" where
  "DefaultMSFactory T name subtable json_table_desc json_dminfo =
     then_result (user_desc T json_table_desc) (\<lambda>user_td.
     then_result (MSTableDescriptor T subtable False) (\<lambda>required_desc.
     then_result (uncaught (MergeRequiredAndUserTableDescs T required_desc user_td)) (\<lambda>final_desc.
     then_result (ParseRecord T json_dminfo ''dminfo'') (\<lambda>dminfo.
     MakeSetupNewTable T name final_desc dminfo))))"

definition TableFactory :: "('d, 'c, 'k, 'r, 's) desc_calls \<Rightarrow> string \<Rightarrow> string \<Rightarrow> string \<Rightarrow> exn + 's result" where
  "TableFactory T name json_table_desc json_dminfo =
     then_result (user_desc T json_table_desc) (\<lambda>user_td.
     then_result (ParseRecord T json_dminfo ''dminfo'') (\<lambda>dminfo.
     MakeSetupNewTable T name user_td dminfo))"

section \<open>The laws of descriptions\<close>

text \<open>
  A description maps names to columns, to hypercolumns and to the values of keywords. Adding what is
  not there and removing what is there succeed and change no other entry. A hypercolumn can be
  defined if the columns it names are as it needs them (\<open>hyper_ok\<close>, which looks at those columns only).
  In a well-formed description, the names of the columns differ.
\<close>

lemma map_of_rev_distinct: "distinct (map fst xs) \<Longrightarrow> map_of (rev xs) = map_of xs"
  by (subst map_of_inject_set) (simp_all add: rev_map [symmetric])

definition hc_columns :: "hypercolumn \<Rightarrow> string set" where
  "hc_columns hc = set (hc_data hc) \<union> set (hc_coord hc) \<union> set (hc_id hc)"

locale table_desc =
  fixes T :: "('d, 'c, 'k, 'r, 's) desc_calls"
    and col_of :: "'d \<Rightarrow> (string \<rightharpoonup> 'c)" and hyper_of :: "'d \<Rightarrow> (string \<rightharpoonup> hypercolumn)" and key_of :: "'d \<Rightarrow> (string \<rightharpoonup> 'k)"
    and well_formed :: "'d \<Rightarrow> bool" and hyper_ok :: "(string \<rightharpoonup> 'c) \<Rightarrow> hypercolumn \<Rightarrow> bool"
  assumes columns: "col_of d = map_of (map (\<lambda>c. (column_name T c, c)) (desc_columns T d))"
    and columns_distinct: "well_formed d \<Longrightarrow> distinct (map (column_name T) (desc_columns T d))"
    and has_column: "isColumn T n d \<longleftrightarrow> n \<in> dom (col_of d)"
    and remove_column: "n \<in> dom (col_of d) \<Longrightarrow> \<exists>d'. removeColumn T n d = Inr d' \<and> col_of d' = (col_of d)(n := None) \<and>
      hyper_of d' = hyper_of d \<and> key_of d' = key_of d"
    and add_column: "column_name T c \<notin> dom (col_of d) \<Longrightarrow> \<exists>d'. addColumn T c d = Inr d' \<and>
      col_of d' = (col_of d)(column_name T c \<mapsto> c) \<and> hyper_of d' = hyper_of d \<and> key_of d' = key_of d"
    and hypercolumns: "set (hypercolumnNames T d) = dom (hyper_of d)"
    and has_hypercolumn: "isHypercolumn T n d \<longleftrightarrow> n \<in> dom (hyper_of d)"
    and remove_hypercolumn: "n \<in> dom (hyper_of d) \<Longrightarrow> \<exists>d'. removeHypercolumnDesc T n d = Inr d' \<and>
      hyper_of d' = (hyper_of d)(n := None) \<and> col_of d' = col_of d \<and> key_of d' = key_of d"
    and hypercolumn: "hyper_of d n = Some hc \<Longrightarrow> hypercolumnDesc T n d = Inr hc"
    and define_hypercolumn: "n \<notin> dom (hyper_of d) \<Longrightarrow> hyper_ok (col_of d) hc \<Longrightarrow> \<exists>d'. defineHypercolumn T n hc d = Inr d' \<and>
      hyper_of d' = (hyper_of d)(n \<mapsto> hc) \<and> col_of d' = col_of d \<and> key_of d' = key_of d"
    and hyper_ok_columns: "hyper_ok m hc \<Longrightarrow> (\<forall>n \<in> hc_columns hc. m n = m' n) \<Longrightarrow> hyper_ok m' hc"
    and merge_keywords: "key_of (mergeKeywords T d u) = key_of d ++ key_of u" "col_of (mergeKeywords T d u) = col_of d"
      "hyper_of (mergeKeywords T d u) = hyper_of d"
begin

lemma merge_column_result:
  "\<exists>d'. merge_column T c d = Inr d' \<and> col_of d' = (col_of d)(column_name T c \<mapsto> c) \<and> hyper_of d' = hyper_of d \<and> key_of d' = key_of d"
proof (cases "column_name T c \<in> dom (col_of d)")
  case True
  from remove_column [OF True] obtain d1 where d1: "removeColumn T (column_name T c) d = Inr d1"
    "col_of d1 = (col_of d)(column_name T c := None)" "hyper_of d1 = hyper_of d" "key_of d1 = key_of d" by blast
  with add_column [of c d1] True show ?thesis by (auto simp: merge_column_def has_column)
next
  case False
  with add_column [of c d] show ?thesis by (auto simp: merge_column_def has_column)
qed

lemma merge_columns_result:
  "\<exists>d'. afold (merge_column T) cs d = Inr d' \<and>
    col_of d' = col_of d ++ map_of (rev (map (\<lambda>c. (column_name T c, c)) cs)) \<and> hyper_of d' = hyper_of d \<and> key_of d' = key_of d"
proof (induction cs arbitrary: d)
  case (Cons c cs)
  from merge_column_result [of c d] obtain d1 where
    d1: "merge_column T c d = Inr d1" "col_of d1 = (col_of d)(column_name T c \<mapsto> c)" "hyper_of d1 = hyper_of d" "key_of d1 = key_of d" by blast
  from Cons.IH [of d1] obtain d2 where "afold (merge_column T) cs d1 = Inr d2"
    "col_of d2 = col_of d1 ++ map_of (rev (map (\<lambda>c. (column_name T c, c)) cs))" "hyper_of d2 = hyper_of d1" "key_of d2 = key_of d1" by blast
  with d1 show ?case by (intro exI [of _ d2]) simp
qed simp

lemma merge_hypercolumn_result:
  assumes "hyper_of u n = Some hc" and "hyper_ok (col_of d) hc"
  shows "\<exists>d'. merge_hypercolumn T u n d = Inr d' \<and> hyper_of d' = (hyper_of d)(n \<mapsto> hc) \<and> col_of d' = col_of d \<and> key_of d' = key_of d"
proof -
  note hc = hypercolumn [OF assms(1)]
  show ?thesis
  proof (cases "n \<in> dom (hyper_of d)")
    case True
    from remove_hypercolumn [OF True] obtain d1 where d1: "removeHypercolumnDesc T n d = Inr d1"
      "hyper_of d1 = (hyper_of d)(n := None)" "col_of d1 = col_of d" "key_of d1 = key_of d" by blast
    with define_hypercolumn [of n d1 hc] True assms(2) hc show ?thesis by (auto simp: merge_hypercolumn_def has_hypercolumn)
  next
    case False
    with define_hypercolumn [of n d hc] assms(2) hc show ?thesis by (auto simp: merge_hypercolumn_def has_hypercolumn)
  qed
qed

lemma merge_hypercolumns_result:
  assumes "\<forall>n \<in> set ns. \<exists>hc. hyper_of u n = Some hc \<and> hyper_ok (col_of d) hc"
  shows "\<exists>d'. afold (merge_hypercolumn T u) ns d = Inr d' \<and>
    hyper_of d' = (\<lambda>n. if n \<in> set ns then hyper_of u n else hyper_of d n) \<and> col_of d' = col_of d \<and> key_of d' = key_of d"
  using assms
proof (induction ns arbitrary: d)
  case (Cons n ns)
  then obtain hc where hc: "hyper_of u n = Some hc" "hyper_ok (col_of d) hc" by auto
  from merge_hypercolumn_result [OF hc] obtain d1 where
    d1: "merge_hypercolumn T u n d = Inr d1" "hyper_of d1 = (hyper_of d)(n \<mapsto> hc)" "col_of d1 = col_of d" "key_of d1 = key_of d" by blast
  with Cons.IH [of d1] Cons.prems hc(1) show ?case by (auto simp: fun_eq_iff)
qed simp

text \<open>The entries of the user replace those that are required, and merging never throws.\<close>

lemma merge_result:
  assumes "well_formed u" and "\<forall>n hc. hyper_of u n = Some hc \<longrightarrow> hyper_ok (col_of u) hc \<and> hc_columns hc \<subseteq> dom (col_of u)"
  shows "\<exists>d. MergeRequiredAndUserTableDescs T r u = Inr d \<and> col_of d = col_of r ++ col_of u \<and>
    hyper_of d = hyper_of r ++ hyper_of u \<and> key_of d = key_of r ++ key_of u"
proof -
  let ?cs = "map (\<lambda>c. (column_name T c, c)) (desc_columns T u)"
  have "distinct (map fst ?cs)" using columns_distinct [OF assms(1)] by (simp add: comp_def)
  then have cols: "map_of (rev ?cs) = col_of u"
    unfolding columns [of u] by (rule map_of_rev_distinct)
  from merge_columns_result [of "desc_columns T u" r] obtain d1 where
    d1: "afold (merge_column T) (desc_columns T u) r = Inr d1" "col_of d1 = col_of r ++ col_of u"
    "hyper_of d1 = hyper_of r" "key_of d1 = key_of r" unfolding cols by blast
  have "\<forall>n \<in> set (hypercolumnNames T u). \<exists>hc. hyper_of u n = Some hc \<and> hyper_ok (col_of d1) hc"
  proof
    fix n assume "n \<in> set (hypercolumnNames T u)"
    then obtain hc where hc: "hyper_of u n = Some hc" by (auto simp: hypercolumns)
    with assms(2) have ok: "hyper_ok (col_of u) hc" "hc_columns hc \<subseteq> dom (col_of u)" by auto
    have "\<forall>m \<in> hc_columns hc. col_of u m = col_of d1 m" using ok(2) unfolding d1(2) by (auto simp: map_add_def)
    with hyper_ok_columns [OF ok(1)] hc show "\<exists>hc. hyper_of u n = Some hc \<and> hyper_ok (col_of d1) hc" by blast
  qed
  from merge_hypercolumns_result [OF this] obtain d2 where
    d2: "afold (merge_hypercolumn T u) (hypercolumnNames T u) d1 = Inr d2"
    "hyper_of d2 = (\<lambda>n. if n \<in> set (hypercolumnNames T u) then hyper_of u n else hyper_of d1 n)"
    "col_of d2 = col_of d1" "key_of d2 = key_of d1" by blast
  have "hyper_of d2 = hyper_of r ++ hyper_of u" unfolding d2(2) d1(3) hypercolumns by (auto simp: map_add_def fun_eq_iff split: option.splits)
  with d1 d2 show ?thesis by (simp add: MergeRequiredAndUserTableDescs_def merge_keywords)
qed

end

section \<open>Descriptions in memory\<close>

text \<open>
  Descriptions as lists of columns and entries. A description is written as a list of names, of which
  its columns are the ones that are not empty; a set-up is the name and the description.
\<close>

record memory_column =
  mc_desc :: column_desc
  mc_keywords :: "(string \<times> keyword_value) list"

record memory_desc =
  md_cols :: "memory_column list"
  md_hypers :: "(string \<times> hypercolumn) list"
  md_keys :: "(string \<times> keyword_value) list"

fun desc_name :: "column_desc \<Rightarrow> string" where
  "desc_name (ScalarColumnDesc dt name comment) = name"
| "desc_name (FixedArrayColumnDesc dt name comment sh) = name"
| "desc_name (ArrayColumnDesc dt name comment ndim) = name"

definition mc_name :: "memory_column \<Rightarrow> string" where
  "mc_name c = desc_name (mc_desc c)"

definition memory_col :: "memory_desc \<Rightarrow> (string \<rightharpoonup> memory_column)" where
  "memory_col d = map_of (map (\<lambda>c. (mc_name c, c)) (md_cols d))"

definition edit_column :: "string \<Rightarrow> (memory_column \<Rightarrow> memory_column) \<Rightarrow> memory_desc \<Rightarrow> exn + memory_desc" where
  "edit_column n f d =
     (if n \<notin> set (map mc_name (md_cols d)) then Inl (Aips n)
      else Inr (d\<lparr>md_cols := map (\<lambda>c. if mc_name c = n then f c else c) (md_cols d)\<rparr>))"

definition memory_class :: "column_desc list \<Rightarrow> column_desc list \<Rightarrow> memory_desc ms_class" where
  "memory_class required optional =
     \<lparr>requiredTableDesc = \<lparr>md_cols = map (\<lambda>c. \<lparr>mc_desc = c, mc_keywords = [(''CATEGORY'', Strings [])]\<rparr>) required, md_hypers = [], md_keys = []\<rparr>,
      NUMBER_REQUIRED_COLUMNS = length required, NUMBER_PREDEFINED_COLUMNS = length required + length optional,
      addColumnToDesc = (\<lambda>i d. Inr (d\<lparr>md_cols := md_cols d @ [\<lparr>mc_desc = optional ! (i - length required - 1), mc_keywords = []\<rparr>]\<rparr>))\<rparr>"

definition memory_descs :: "(memory_desc, memory_column, keyword_value, string list, string \<times> memory_desc) desc_calls" where
  "memory_descs =
     \<lparr>empty_desc = \<lparr>md_cols = [], md_hypers = [], md_keys = []\<rparr>,
      casa_column = (\<lambda>c. \<lparr>mc_desc = c, mc_keywords = []\<rparr>), casa_value = (\<lambda>v. v), column_name = mc_name, desc_columns = md_cols,
      isColumn = (\<lambda>n d. n \<in> set (map mc_name (md_cols d))),
      removeColumn = (\<lambda>n d. if n \<in> set (map mc_name (md_cols d)) then Inr (d\<lparr>md_cols := filter (\<lambda>c. mc_name c \<noteq> n) (md_cols d)\<rparr>)
                            else Inl (Aips n)),
      addColumn = (\<lambda>c d. if mc_name c \<in> set (map mc_name (md_cols d)) then Inl (Aips (mc_name c)) else Inr (d\<lparr>md_cols := md_cols d @ [c]\<rparr>)),
      removeColumnKeyword = (\<lambda>n k. edit_column n (\<lambda>c. c\<lparr>mc_keywords := filter (\<lambda>(k', v). k' \<noteq> k) (mc_keywords c)\<rparr>)),
      defineColumnKeyword = (\<lambda>n k v. edit_column n (\<lambda>c. c\<lparr>mc_keywords := (k, v) # mc_keywords c\<rparr>)),
      hypercolumnNames = (\<lambda>d. map fst (md_hypers d)), isHypercolumn = (\<lambda>n d. n \<in> fst ` set (md_hypers d)),
      removeHypercolumnDesc = (\<lambda>n d. Inr (d\<lparr>md_hypers := filter (\<lambda>(n', h). n' \<noteq> n) (md_hypers d)\<rparr>)),
      hypercolumnDesc = (\<lambda>n d. case map_of (md_hypers d) n of Some h \<Rightarrow> Inr h | None \<Rightarrow> Inl (Aips n)),
      defineHypercolumn = (\<lambda>n h d. Inr (d\<lparr>md_hypers := (n, h) # md_hypers d\<rparr>)),
      mergeKeywords = (\<lambda>d u. d\<lparr>md_keys := md_keys u @ md_keys d\<rparr>),
      MS_class = memory_class [ScalarColumnDesc TpDouble ''TIME'' [], ArrayColumnDesc TpBool ''FLAG_CATEGORY'' [] 3] [ArrayColumnDesc TpComplex ''DATA'' [] 2],
      NUMBER_REQUIRED_KEYWORDS = 0, NUMBER_PREDEFINED_KEYWORDS = 0, addKeyToDesc = (\<lambda>i d. Inr d),
      subtable_class = (\<lambda>cls. memory_class [ScalarColumnDesc TpString ''NAME'' ''name'', ScalarColumnDesc TpInt ''ID'' []] []),
      parseRecord = (\<lambda>s. if s = [] then Inl (Aips ''no record'') else Inr [s]),
      makeTableDesc = (\<lambda>r. Inr (True, \<lparr>md_cols = map (\<lambda>n. \<lparr>mc_desc = ScalarColumnDesc TpInt n [], mc_keywords = []\<rparr>) (remdups r),
                                      md_hypers = [], md_keys = []\<rparr>, [])),
      getTableDesc = (\<lambda>d. map mc_name (md_cols d)), record_items = map (\<lambda>n. (n, Strings [])),
      json_object = (\<lambda>items. concat (map fst items)),
      setupNewTable = (\<lambda>n d. Inr (n, d)), bindCreate = (\<lambda>r s. Inr s)\<rparr>"

lemma map_of_remove: "map_of (map (\<lambda>c. (f c, c)) (filter (\<lambda>c. f c \<noteq> n) cs)) = (map_of (map (\<lambda>c. (f c, c)) cs))(n := None)"
  by (induction cs) (auto simp: fun_eq_iff)

lemma dom_named: "dom (map_of (map (\<lambda>c. (f c, c)) cs)) = f ` set cs"
  by (simp add: dom_map_of_conv_image_fst image_image)

interpretation memory_descs: table_desc memory_descs memory_col "\<lambda>d. map_of (md_hypers d)" "\<lambda>d. map_of (md_keys d)"
  "\<lambda>d. distinct (map mc_name (md_cols d))" "\<lambda>m hc. hc_columns hc \<subseteq> dom m"
proof
  fix d u :: memory_desc and n c hc
  show "\<exists>d'. removeColumn memory_descs n d = Inr d' \<and> memory_col d' = (memory_col d)(n := None) \<and>
      map_of (md_hypers d') = map_of (md_hypers d) \<and> map_of (md_keys d') = map_of (md_keys d)" if "n \<in> dom (memory_col d)"
    using that unfolding memory_col_def dom_named by (simp add: memory_descs_def map_of_remove)
  show "\<exists>d'. addColumn memory_descs c d = Inr d' \<and> memory_col d' = (memory_col d)(column_name memory_descs c \<mapsto> c) \<and>
      map_of (md_hypers d') = map_of (md_hypers d) \<and> map_of (md_keys d') = map_of (md_keys d)"
    if "column_name memory_descs c \<notin> dom (memory_col d)"
    using that unfolding memory_col_def dom_named by (simp add: memory_descs_def map_add_comm dom_named)
      (subst map_add_comm; simp add: dom_named)
  show "\<exists>d'. removeHypercolumnDesc memory_descs n d = Inr d' \<and> map_of (md_hypers d') = (map_of (md_hypers d))(n := None) \<and>
      memory_col d' = memory_col d \<and> map_of (md_keys d') = map_of (md_keys d)"
    by (simp add: memory_descs_def memory_col_def map_of_other_keys)
  show "set (hypercolumnNames memory_descs d) = dom (map_of (md_hypers d))"
    by (simp add: memory_descs_def dom_map_of_conv_image_fst)
  show "isColumn memory_descs n d \<longleftrightarrow> n \<in> dom (memory_col d)"
    unfolding memory_col_def dom_named by (simp add: memory_descs_def)
qed (auto simp: memory_descs_def memory_col_def dom_map_of_conv_image_fst domIff map_of_eq_None_iff)

section \<open>Properties\<close>

text \<open>
  C11. The table set up for a Measurement Set table has what is required and what the user describes.
  If the record of the user and that of the data managers can be read, \<open>DefaultMSFactory\<close> sets up a
  table under the name given, with a description in which each column, hypercolumn and keyword is
  that of the user where the user gives one, and that of the required description otherwise; merging
  throws nothing. \<open>TableFactory\<close>, for the same record, sets up the user's description alone.
\<close>

theorem DefaultMSFactory_merges:
  assumes "table_desc T col_of hyper_of key_of well_formed hyper_ok"
    and "parseRecord T json_table_desc = Inr rec" and "makeTableDesc T rec = Inr (True, u, message)"
    and "well_formed u" and "\<forall>n hc. hyper_of u n = Some hc \<longrightarrow> hyper_ok (col_of u) hc \<and> hc_columns hc \<subseteq> dom (col_of u)"
    and "MSTableDescriptor T subtable False = Inr (Inr r)" and "parseRecord T json_dminfo = Inr dminfo"
  shows "(\<exists>d. DefaultMSFactory T name subtable json_table_desc json_dminfo = MakeSetupNewTable T name d dminfo \<and>
      col_of d = col_of r ++ col_of u \<and> hyper_of d = hyper_of r ++ hyper_of u \<and> key_of d = key_of r ++ key_of u) \<and>
    TableFactory T name json_table_desc json_dminfo = MakeSetupNewTable T name u dminfo"
proof -
  have "user_desc T json_table_desc = Inr (Inr u)" "ParseRecord T json_dminfo ''dminfo'' = Inr (Inr dminfo)"
    using assms(2,3,7) by (simp_all add: user_desc_def ParseRecord_def uncaught_def)
  with table_desc.merge_result [OF assms(1,4,5), of r] assms(6) show ?thesis
    by (auto simp: DefaultMSFactory_def TableFactory_def uncaught_def)
qed

theorem DefaultMSFactory_merges_witness:
  "\<exists>d. DefaultMSFactory memory_descs ''a.ms/ANTENNA'' ''antenna'' ''NAME'' ''{}'' = Inr (Inr (''a.ms/ANTENNA'', d)) \<and>
     memory_col d ''NAME'' = Some \<lparr>mc_desc = ScalarColumnDesc TpInt ''NAME'' [], mc_keywords = []\<rparr> \<and>
     memory_col d ''ID'' = Some \<lparr>mc_desc = ScalarColumnDesc TpInt ''ID'' [], mc_keywords = [(''CATEGORY'', Strings [])]\<rparr>"
proof -
  let ?u = "\<lparr>md_cols = [\<lparr>mc_desc = ScalarColumnDesc TpInt ''NAME'' [], mc_keywords = []\<rparr>], md_hypers = [], md_keys = []\<rparr>"
  let ?r = "requiredTableDesc (memory_class [ScalarColumnDesc TpString ''NAME'' ''name'', ScalarColumnDesc TpInt ''ID'' []] [])"
  have u: "parseRecord memory_descs ''NAME'' = Inr [''NAME'']" "makeTableDesc memory_descs [''NAME''] = Inr (True, ?u, [])"
    "distinct (map mc_name (md_cols ?u))" "\<forall>n hc. map_of (md_hypers ?u) n = Some hc \<longrightarrow>
      hc_columns hc \<subseteq> dom (memory_col ?u) \<and> hc_columns hc \<subseteq> dom (memory_col ?u)"
    "parseRecord memory_descs ''{}'' = Inr [''{}'']"
    by (simp_all add: memory_descs_def)
  have name: "map_of subtable_names (upcase ''antenna'') = Some MSAntenna" "upcase ''antenna'' \<noteq> kMain" by code_simp+
  have r: "MSTableDescriptor memory_descs ''antenna'' False = Inr (Inr ?r)"
    by (simp add: MSTableDescriptor_def name uncaught_def MSSubtableDesc_def) (simp add: memory_descs_def)
  from DefaultMSFactory_merges [OF memory_descs.table_desc_axioms u(1-4) r u(5), of "''a.ms/ANTENNA''"]
  obtain d where d: "DefaultMSFactory memory_descs ''a.ms/ANTENNA'' ''antenna'' ''NAME'' ''{}'' =
      MakeSetupNewTable memory_descs ''a.ms/ANTENNA'' d [''{}'']" "memory_col d = memory_col ?r ++ memory_col ?u" by auto
  then show ?thesis
    by (intro exI [of _ d])
      (simp add: memory_col_def mc_name_def memory_class_def MakeSetupNewTable_def uncaught_def, simp add: memory_descs_def)
qed

end
