(* ===== verification/Factory.thy ===== *)
theory Factory
  imports TableDescriptors
begin

text \<open>
  Opening and creating tables: \<open>cpp/arcae/table_factory.cc\<close>, with the two ways of making a
  \<open>NewTableProxy\<close> (\<open>Make\<close>, \<open>Spawn\<close>) of \<open>new_table_proxy.h\<close>. What the functions do to the files is a
  change of a state \<open>'w\<close>; tables are handles of type \<open>'t\<close>. The calls of casacore that they make are the
  record \<open>factory_calls\<close>, the laws that the theorems use the locale \<open>disk_laws\<close>.
\<close>

section \<open>Calls of casacore\<close>

record ('w, 't, 'd, 'c, 'k, 'r, 's) factory_calls =
  desc_calls_of :: "('d, 'c, 'k, 'r, 's) desc_calls"
  parse_sizes :: "string \<Rightarrow> string + (string \<times> int option) list"      \<comment> \<open>the fields of a cache size record\<close>
  manager_info :: "'t \<Rightarrow> dm_info"
  setMaximumCacheSizes :: "size_calls \<Rightarrow> 't \<Rightarrow> ('w, unit) call"
  keywordName :: "ms_table \<Rightarrow> string"                               \<comment> \<open>\<open>MS::keywordName\<close>\<close>
  openProxy :: "string \<Rightarrow> 'r \<Rightarrow> ('w, 't) call"                        \<comment> \<open>\<open>TableProxy(name, locks, Old)\<close>\<close>
  reopenProxy :: "'t \<Rightarrow> ('w, unit) call"
  newMeasurementSet :: "'s \<Rightarrow> ('w, 't) call"
  createDefaultSubtables :: "'t \<Rightarrow> ('w, unit) call"
  openForUpdate :: "string \<Rightarrow> ('w, 't) call"                         \<comment> \<open>\<open>Table(name, Update)\<close>\<close>
  newSubtable :: "ms_table \<Rightarrow> 's \<Rightarrow> ('w, 't) call"                    \<comment> \<open>\<open>MSAntenna(setup)\<close> and so on\<close>
  newTable :: "'s \<Rightarrow> nat \<Rightarrow> ('w, 't) call"                            \<comment> \<open>\<open>Table(setup, nrow)\<close>\<close>
  defineTable :: "'t \<Rightarrow> string \<Rightarrow> 't \<Rightarrow> ('w, unit) call"               \<comment> \<open>\<open>rwKeywordSet().defineTable\<close>\<close>
  runTaql :: "string \<Rightarrow> 't list \<Rightarrow> ('w, 't) call"

fun then_ok :: "('w, 'a result) call \<Rightarrow> ('a \<Rightarrow> ('w, 'b result) call) \<Rightarrow> ('w, 'b result) call" where
  "then_ok m f w =
     (case m w of
        (Inl e, w') \<Rightarrow> (Inl e, w')
      | (Inr (Inl s), w') \<Rightarrow> (Inr (Inl s), w')
      | (Inr (Inr x), w') \<Rightarrow> f x w')"

definition without_effect :: "exn + 'a result \<Rightarrow> ('w, 'a result) call" where
  "without_effect r w = (r, w)"

definition calling :: "('w, 'a) call \<Rightarrow> ('w, 'a result) call" where
  "calling m w = (case m w of (r, w') \<Rightarrow> (uncaught r, w'))"

text \<open>Handlers of \<open>casacore::AipsError\<close> and of \<open>std::exception\<close>.\<close>

definition try_call :: "(string \<Rightarrow> status) \<Rightarrow> ('w, 'a result) call \<Rightarrow> ('w, 'a result) call" where
  "try_call handler m w = (case m w of (r, w') \<Rightarrow> (catching handler r, w'))"

definition try_any :: "(string \<Rightarrow> status) \<Rightarrow> ('w, 'a result) call \<Rightarrow> ('w, 'a result) call" where
  "try_any handler m w =
     (case m w of (Inl e, w') \<Rightarrow> (Inr (Inl (handler (exn_text e))), w') | (Inr r, w') \<Rightarrow> (Inr r, w'))"

section \<open>Making proxies\<close>

text \<open>The instances are opened one after the other, until one fails.\<close>

fun open_instances :: "(nat \<Rightarrow> ('w, 't result) call) \<Rightarrow> nat \<Rightarrow> nat \<Rightarrow> 'w \<Rightarrow> 't list result \<times> 'w" where
  "open_instances functor i 0 w = (Inr [], w)"
| "open_instances functor i (Suc k) w =
     (case functor i w of (r, w1) \<Rightarrow> (
        case awaited r of
          Inl e \<Rightarrow> (Inl e, w1)
        | Inr t \<Rightarrow> (case open_instances functor (Suc i) k w1 of (ts, w2) \<Rightarrow> (rbind ts (\<lambda>ts. Inr (t # ts)), w2))))"

definition proxy_of :: "'t list \<Rightarrow> 't NewTableProxy" where
  "proxy_of ts = \<lparr>itp_tables = ts, itp_closed = False\<rparr>"

definition MakeNewTableProxy :: "('w, 't result) call \<Rightarrow> nat \<Rightarrow> ('w, 't NewTableProxy result) call" where
  "MakeNewTableProxy functor ninstances w =
     (if ninstances < 1 then (Inr (Inl (Invalid [Str ''Number of instances must at least be 1''])), w)
      else case open_instances (\<lambda>i. functor) 0 ninstances w of (ts, w') \<Rightarrow> (Inr (rbind ts (\<lambda>ts. Inr (proxy_of ts))), w'))"

definition SpawnNewTableProxy :: "('t \<Rightarrow> ('w, 't result) call) \<Rightarrow> 't NewTableProxy \<Rightarrow> ('w, 't NewTableProxy result) call" where
  "SpawnNewTableProxy functor ntp w =
     (case open_instances (\<lambda>i. functor (itp_tables ntp ! i)) 0 (table_instances ntp) w of
        (ts, w') \<Rightarrow> (Inr (rbind ts (\<lambda>ts. Inr (proxy_of ts))), w'))"

section \<open>Opening and creating tables\<close>

text \<open>\<open>ApplyCacheSizes\<close> on a table that is returned.\<close>

definition with_caches :: "('w, 't, 'd, 'c, 'k, 'r, 's) factory_calls \<Rightarrow> CacheSizeSpec \<Rightarrow> 't \<Rightarrow> ('w, 't result) call" where
  "with_caches F spec t =
     then_ok (without_effect (Inr (ApplyCacheSizes (manager_info F t) spec))) (\<lambda>calls.
     then_ok (calling (setMaximumCacheSizes F calls t)) (\<lambda>_. without_effect (Inr (Inr t))))"

definition OpenTable ::
  "('w, 't, 'd, 'c, 'k, 'r, 's) factory_calls \<Rightarrow> string \<Rightarrow> nat \<Rightarrow> bool \<Rightarrow> string \<Rightarrow> string \<Rightarrow> ('w, 't NewTableProxy result) call" where
  "OpenTable F filename ninstances readonly json_lockoptions json_cache_size =
     then_ok (without_effect (Inr (ParseCacheSizeSpec (parse_sizes F) json_cache_size))) (\<lambda>cache_spec.
     then_ok (without_effect (catching (\<lambda>error. Invalid [Str ''Unable to parse lockoptions: '', Str error])
                (uncaught (parseRecord (desc_calls_of F) json_lockoptions)))) (\<lambda>lock_record.
     MakeNewTableProxy
       (try_any (\<lambda>error. Invalid [Str error])
          (then_ok (calling (openProxy F filename lock_record)) (\<lambda>proxy.
           then_ok (if \<not> readonly then calling (reopenProxy F proxy) else without_effect (Inr (Inr ()))) (\<lambda>_.
           with_caches F cache_spec proxy))))
       ninstances))"

definition kPhasedArray :: string where
  "kPhasedArray = ''PHASED_ARRAY''"

definition physical_subtable :: "string \<Rightarrow> string" where
  "physical_subtable usubtable = (if usubtable = kMSV3PhasedArray then kPhasedArray else usubtable)"

definition ms_path :: "string \<Rightarrow> string \<Rightarrow> string" where
  "ms_path name physical =
     (let modname = (if name = [] then ''measurementset.ms'' else name)
      in if physical \<noteq> kMain then modname @ ''/'' @ physical else modname)"

text \<open>The chain of comparisons: a class of casacore, or a plain table (\<open>None\<close>) for phased arrays.\<close>

definition chained :: "('w, 't, 'd, 'c, 'k, 'r, 's) factory_calls \<Rightarrow> string \<Rightarrow> ms_table list \<Rightarrow> ms_table option" where
  "chained F usubtable classes = List.find (\<lambda>cls. usubtable = keywordName F cls) classes"

definition subtable_chain :: "('w, 't, 'd, 'c, 'k, 'r, 's) factory_calls \<Rightarrow> string \<Rightarrow> ms_table option option" where
  "subtable_chain F usubtable =
     (case chained F usubtable
             [MSAntenna, MSDataDescription, MSDoppler, MSFeed, MSField, MSFlagCmd, MSFreqOffset, MSHistory, MSObservation] of
        Some cls \<Rightarrow> Some (Some cls)
      | None \<Rightarrow>
          if usubtable = kMSV3PhasedArray then Some None
          else map_option Some (chained F usubtable
             [MSPointing, MSPolarization, MSProcessor, MSSource, MSSpectralWindow, MSState, MSSysCal, MSWeather]))"

definition create_subtable ::
  "('w, 't, 'd, 'c, 'k, 'r, 's) factory_calls \<Rightarrow> string \<Rightarrow> 's \<Rightarrow> ('w, 't option result) call" where
  "create_subtable F usubtable setup_new_table =
     (case subtable_chain F usubtable of
        None \<Rightarrow> without_effect (Inr (Inr None))
      | Some None \<Rightarrow> then_ok (calling (newTable F setup_new_table 0)) (\<lambda>t. without_effect (Inr (Inr (Some t))))
      | Some (Some cls) \<Rightarrow> then_ok (calling (newSubtable F cls setup_new_table)) (\<lambda>t. without_effect (Inr (Inr (Some t)))))"

definition make_main :: "('w, 't, 'd, 'c, 'k, 'r, 's) factory_calls \<Rightarrow> string \<Rightarrow> 's \<Rightarrow> CacheSizeSpec \<Rightarrow> ('w, 't result) call" where
  "make_main F modname setup_new_table cache_spec =
     try_call (\<lambda>error. Invalid [Str ''Error creating Measurement Set '', Str modname, Str '': '', Str error])
       (then_ok (calling (newMeasurementSet F setup_new_table)) (\<lambda>ms.
        then_ok (calling (createDefaultSubtables F ms)) (\<lambda>_. with_caches F cache_spec ms)))"

definition make_subtable ::
  "('w, 't, 'd, 'c, 'k, 'r, 's) factory_calls \<Rightarrow> string \<Rightarrow> string \<Rightarrow> 's \<Rightarrow> CacheSizeSpec \<Rightarrow> ('w, 't result) call" where
  "make_subtable F name usubtable setup_new_table cache_spec =
     then_ok (try_call (\<lambda>error. IOError [Str ''Error opening Measurement Set '', Str name, Str '' for linking against subtable '',
                                        Str usubtable, Str '': '', Str error]) (calling (openForUpdate F name))) (\<lambda>ms.
     then_ok (try_call (\<lambda>error. Invalid [Str ''Error creating subtable '', Str usubtable, Str '': '', Str error])
                (create_subtable F usubtable setup_new_table)) (\<lambda>subtable.
     case subtable of
       None \<Rightarrow> without_effect (Inr (Inl (Invalid [Str ''Unknown table type: '', Str usubtable])))
     | Some subtable \<Rightarrow>
         then_ok (try_call (\<lambda>error. Invalid [Str ''Error linking subtable '', Str usubtable, Str '' against '', Str name, Str '': '', Str error])
                    (calling (defineTable F ms (physical_subtable usubtable) subtable))) (\<lambda>_.
         with_caches F cache_spec subtable)))"

definition DefaultMS ::
  "('w, 't, 'd, 'c, 'k, 'r, 's) factory_calls \<Rightarrow> string \<Rightarrow> string \<Rightarrow> string \<Rightarrow> string \<Rightarrow> string \<Rightarrow> ('w, 't NewTableProxy result) call" where
  "DefaultMS F name subtable json_table_desc json_dminfo json_cache_size =
     (let usubtable = upcase subtable; modname = ms_path name (physical_subtable usubtable)
      in then_ok (without_effect (DefaultMSFactory (desc_calls_of F) modname usubtable json_table_desc json_dminfo)) (\<lambda>setup_new_table.
         then_ok (without_effect (Inr (ParseCacheSizeSpec (parse_sizes F) json_cache_size))) (\<lambda>cache_spec.
         MakeNewTableProxy
           (if usubtable = [] \<or> usubtable = kMain then make_main F modname setup_new_table cache_spec
            else make_subtable F name usubtable setup_new_table cache_spec) 1)))"

definition CreateTable ::
  "('w, 't, 'd, 'c, 'k, 'r, 's) factory_calls \<Rightarrow> string \<Rightarrow> nat \<Rightarrow> string \<Rightarrow> string \<Rightarrow> nat \<Rightarrow> string \<Rightarrow> ('w, 't NewTableProxy result) call" where
  "CreateTable F name ninstances json_table_desc json_dminfo nrows json_cache_size =
     (if name = [] then without_effect (Inr (Inl (Invalid [Str ''Table name must not be empty''])))
      else then_ok (without_effect (Inr (ParseCacheSizeSpec (parse_sizes F) json_cache_size))) (\<lambda>cache_spec.
        MakeNewTableProxy
          (then_ok (without_effect (TableFactory (desc_calls_of F) name json_table_desc json_dminfo)) (\<lambda>setup_new_table.
             try_call (\<lambda>error. Invalid [Str ''Error creating table '', Str name, Str '': '', Str error])
               (then_ok (calling (newTable F setup_new_table nrows)) (\<lambda>t. with_caches F cache_spec t))))
          ninstances))"

definition Taql ::
  "('w, 't, 'd, 'c, 'k, 'r, 's) factory_calls \<Rightarrow> string \<Rightarrow> 't NewTableProxy list \<Rightarrow> ('w, 't NewTableProxy result) call" where
  "Taql F taql tables =
     (let query = (\<lambda>ts. try_call (\<lambda>error. Invalid [Str error]) (calling (runTaql F taql ts)))
      in case tables of
           [] \<Rightarrow> MakeNewTableProxy (query []) 1
         | [table] \<Rightarrow> SpawnNewTableProxy (\<lambda>tp. query [tp]) table
         | table # table2 # rest \<Rightarrow> without_effect (Inr (Inl (NotImplemented [Str ''Taql queries with more than one table argument'']))))"

section \<open>Calls that succeed\<close>

named_theorems ok_conv \<open>when a call returns a value\<close>

lemma then_ok_conv [ok_conv]:
  "then_ok m f w = (Inr (Inr x), w') \<longleftrightarrow> (\<exists>y w1. m w = (Inr (Inr y), w1) \<and> f y w1 = (Inr (Inr x), w'))"
  by (auto split: prod.splits sum.splits)

declare then_ok.simps [simp del]

lemma without_effect_conv [ok_conv]: "without_effect r w = (Inr (Inr x), w') \<longleftrightarrow> r = Inr (Inr x) \<and> w' = w"
  by (auto simp: without_effect_def)

lemma calling_conv [ok_conv]: "calling m w = (Inr (Inr x), w') \<longleftrightarrow> m w = (Inr x, w')"
  by (auto simp: calling_def uncaught_def split: prod.splits sum.splits)

lemma catching_conv [ok_conv]: "catching h r = Inr (Inr x) \<longleftrightarrow> r = Inr (Inr x)"
  by (cases "(h, r)" rule: catching.cases) auto

lemma try_call_conv [ok_conv]: "try_call h m w = (Inr (Inr x), w') \<longleftrightarrow> m w = (Inr (Inr x), w')"
  by (auto simp: try_call_def ok_conv split: prod.splits)

lemma try_any_conv [ok_conv]: "try_any h m w = (Inr (Inr x), w') \<longleftrightarrow> m w = (Inr (Inr x), w')"
  by (auto simp: try_any_def split: prod.splits sum.splits)

lemma uncaught_conv [ok_conv]: "uncaught r = Inr (Inr x) \<longleftrightarrow> r = Inr x"
  by (auto simp: uncaught_def split: sum.splits)

lemma then_result_conv [ok_conv]: "then_result r f = Inr (Inr x) \<longleftrightarrow> (\<exists>y. r = Inr (Inr y) \<and> f y = Inr (Inr x))"
  by (cases "(r, f)" rule: then_result.cases) auto

lemma abind_conv [ok_conv]: "abind r f = Inr x \<longleftrightarrow> (\<exists>y. r = Inr y \<and> f y = Inr x)"
  by (cases r) auto

lemma make_one_conv [ok_conv]:
  "MakeNewTableProxy functor 1 w = (Inr (Inr ntp), w') \<longleftrightarrow> (\<exists>t. functor w = (Inr (Inr t), w') \<and> ntp = proxy_of [t])"
  by (auto simp: MakeNewTableProxy_def awaited_Inr_conv split: prod.splits sum.splits; metis awaited_Inr_conv)

lemma open_instances_ok:
  assumes "open_instances functor i k w = (Inr ts, w')"
  shows "length ts = k \<and> (\<forall>j < k. \<exists>w1 w2. functor (i + j) w1 = (Inr (Inr (ts ! j)), w2))"
  using assms
proof (induction k arbitrary: i w ts)
  case (Suc k)
  from Suc.prems obtain r w1 t ts1 where f: "functor i w = (r, w1)" "awaited r = Inr t"
    and more: "open_instances functor (Suc i) k w1 = (Inr ts1, w')" and ts: "ts = t # ts1"
    by (auto simp: rbind_Inr_conv split: prod.splits sum.splits)
  from f have "functor i w = (Inr (Inr t), w1)" by (simp add: awaited_Inr_conv)
  with Suc.IH [OF more] show ?case by (auto simp: ts nth_Cons' less_Suc_eq_0_disj)
qed simp

lemma MakeNewTableProxy_ok:
  assumes "MakeNewTableProxy functor n w = (Inr (Inr ntp), w')"
  shows "0 < n \<and> table_instances ntp = n \<and> \<not> itp_closed ntp \<and> (\<forall>t \<in> set (itp_tables ntp). \<exists>w1 w2. functor w1 = (Inr (Inr t), w2))"
proof -
  from assms obtain ts where ts: "open_instances (\<lambda>i. functor) 0 n w = (Inr ts, w')" "ntp = proxy_of ts" "0 < n"
    by (auto simp: MakeNewTableProxy_def rbind_Inr_conv split: if_splits prod.splits)
  from open_instances_ok [OF ts(1)] ts(2,3) show ?thesis by (auto simp: proxy_of_def table_instances_def in_set_conv_nth)
qed

section \<open>The laws of tables on disk\<close>

text \<open>
  Tables on disk have a path and a description (\<open>files\<close>), and link keywords to the paths of other tables
  (\<open>links\<close>). A set-up has the path and the description it was made of; creating its table puts it on
  files without links. The names of the subtables of a Measurement Set are those of the standard.
\<close>

locale disk_laws =
  fixes F :: "('w, 't, 'd, 'c, 'k, 'r, 's) factory_calls"
    and path_of :: "'t \<Rightarrow> string" and files :: "'w \<Rightarrow> (string \<rightharpoonup> 'd)" and links :: "'w \<Rightarrow> string \<Rightarrow> (string \<rightharpoonup> string)"
    and setup_of :: "'s \<Rightarrow> string \<times> 'd"
  assumes keyword_names: "(n, cls) \<in> set subtable_names \<Longrightarrow> keywordName F cls = n"
    and set_up: "setupNewTable (desc_calls_of F) n d = Inr s \<Longrightarrow> setup_of s = (n, d)"
    and bind: "bindCreate (desc_calls_of F) dm s = Inr s' \<Longrightarrow> setup_of s' = setup_of s"
    and open_proxy: "openProxy F n r w = (Inr t, w') \<Longrightarrow> path_of t = n \<and> n \<in> dom (files w)"
    and open_update: "openForUpdate F n w = (Inr t, w') \<Longrightarrow>
      path_of t = n \<and> n \<in> dom (files w) \<and> files w' = files w \<and> links w' = links w"
    and new_subtable: "newSubtable F cls s w = (Inr t, w') \<Longrightarrow> path_of t = fst (setup_of s) \<and>
      files w' = (files w)(fst (setup_of s) \<mapsto> snd (setup_of s)) \<and> links w' = (links w)(fst (setup_of s) := Map.empty)"
    and new_table: "newTable F s nrows w = (Inr t, w') \<Longrightarrow> path_of t = fst (setup_of s) \<and>
      files w' = (files w)(fst (setup_of s) \<mapsto> snd (setup_of s)) \<and> links w' = (links w)(fst (setup_of s) := Map.empty)"
    and define_table: "defineTable F ms k t w = (Inr (), w') \<Longrightarrow> files w' = files w \<and>
      links w' = (links w)(path_of ms := (links w (path_of ms))(k \<mapsto> path_of t))"
    and set_caches: "setMaximumCacheSizes F calls t w = (Inr (), w') \<Longrightarrow> files w' = files w \<and> links w' = links w"
begin

lemma with_caches_ok: "with_caches F spec t w = (Inr (Inr t'), w') \<Longrightarrow> t' = t \<and> files w' = files w \<and> links w' = links w"
  using set_caches by (auto simp: with_caches_def ok_conv)

lemma DefaultMSFactory_ok:
  assumes "DefaultMSFactory (desc_calls_of F) n subtable jd jm = Inr (Inr s)"
  shows "\<exists>r u d. MSTableDescriptor (desc_calls_of F) subtable False = Inr (Inr r) \<and> user_desc (desc_calls_of F) jd = Inr (Inr u) \<and>
    MergeRequiredAndUserTableDescs (desc_calls_of F) r u = Inr d \<and> setup_of s = (n, d)"
proof -
  from assms obtain r u d dm s0 where "user_desc (desc_calls_of F) jd = Inr (Inr u)" "MSTableDescriptor (desc_calls_of F) subtable False = Inr (Inr r)"
    "MergeRequiredAndUserTableDescs (desc_calls_of F) r u = Inr d" "setupNewTable (desc_calls_of F) n d = Inr s0"
    "bindCreate (desc_calls_of F) dm s0 = Inr s"
    unfolding DefaultMSFactory_def MakeSetupNewTable_def ok_conv by blast
  with set_up bind show ?thesis by auto
qed

lemma create_subtable_ok:
  assumes "create_subtable F sub s w = (Inr (Inr (Some t)), w')"
  shows "path_of t = fst (setup_of s) \<and>
      files w' = (files w)(fst (setup_of s) \<mapsto> snd (setup_of s)) \<and> links w' = (links w)(fst (setup_of s) := Map.empty)"
  using assms new_subtable new_table by (auto simp: create_subtable_def ok_conv split: option.splits)

lemma make_subtable_ok:
  assumes "make_subtable F name sub s spec w = (Inr (Inr t), w')" and "fst (setup_of s) \<noteq> name"
  shows "path_of t = fst (setup_of s) \<and> name \<in> dom (files w) \<and> files w' = (files w)(fst (setup_of s) \<mapsto> snd (setup_of s)) \<and>
    links w' = (links w)(fst (setup_of s) := Map.empty, name := (links w name)(physical_subtable sub \<mapsto> fst (setup_of s)))"
proof -
  from assms(1) obtain ms w1 sub' w2 w3 where
    ms: "openForUpdate F name w = (Inr ms, w1)" and sub: "create_subtable F sub s w1 = (Inr (Inr (Some sub')), w2)"
    and link: "defineTable F ms (physical_subtable sub) sub' w2 = (Inr (), w3)" and caches: "with_caches F spec sub' w3 = (Inr (Inr t), w')"
    unfolding make_subtable_def ok_conv by (auto simp: ok_conv split: option.splits)
  with open_update [OF ms] create_subtable_ok [OF sub] define_table [OF link] with_caches_ok [OF caches] assms(2)
  show ?thesis by simp
qed

text \<open>Both places that know the subtables agree.\<close>

lemma keyword_name: "keywordName F MSAntenna = ''ANTENNA''" "keywordName F MSDataDescription = ''DATA_DESCRIPTION''"
  "keywordName F MSDoppler = ''DOPPLER''" "keywordName F MSFeed = ''FEED''" "keywordName F MSField = ''FIELD''"
  "keywordName F MSFlagCmd = ''FLAG_CMD''" "keywordName F MSFreqOffset = ''FREQ_OFFSET''" "keywordName F MSHistory = ''HISTORY''"
  "keywordName F MSObservation = ''OBSERVATION''" "keywordName F MSPointing = ''POINTING''"
  "keywordName F MSPolarization = ''POLARIZATION''" "keywordName F MSProcessor = ''PROCESSOR''" "keywordName F MSSource = ''SOURCE''"
  "keywordName F MSSpectralWindow = ''SPECTRAL_WINDOW''" "keywordName F MSState = ''STATE''" "keywordName F MSSysCal = ''SYSCAL''"
  "keywordName F MSWeather = ''WEATHER''"
  by (rule keyword_names, simp add: subtable_names_def)+

lemma chained_conv: "(\<exists>c. chained F n classes = Some c) \<longleftrightarrow> n \<in> set (map (keywordName F) classes)"
  unfolding chained_def not_None_eq [symmetric] by (auto simp: find_None_iff)

lemma chain_names: "(\<exists>c. subtable_chain F n = Some c) \<longleftrightarrow> n \<in> fst ` set subtable_names \<or> n = kMSV3PhasedArray"
proof -
  let ?cs = "[MSAntenna, MSDataDescription, MSDoppler, MSFeed, MSField, MSFlagCmd, MSFreqOffset, MSHistory, MSObservation]"
  let ?ds = "[MSPointing, MSPolarization, MSProcessor, MSSource, MSSpectralWindow, MSState, MSSysCal, MSWeather]"
  have "(\<exists>c. subtable_chain F n = Some c) \<longleftrightarrow>
      (\<exists>c. chained F n ?cs = Some c) \<or> n = kMSV3PhasedArray \<or> (\<exists>c. chained F n ?ds = Some c)"
    by (auto simp: subtable_chain_def split: option.splits)
  also have "\<dots> \<longleftrightarrow> n \<in> set (map (keywordName F) ?cs @ map (keywordName F) ?ds) \<or> n = kMSV3PhasedArray"
    unfolding chained_conv set_append by blast
  also have "map (keywordName F) ?cs @ map (keywordName F) ?ds = map fst subtable_names"
    by (simp add: keyword_name subtable_names_def)
  finally show ?thesis by simp
qed

end

section \<open>A disk in memory\<close>

record disk_world =
  dw_tables :: "(string \<times> memory_desc) list"
  dw_links :: "((string \<times> string) \<times> string) list"

definition open_path :: "string \<Rightarrow> (disk_world, string) call" where
  "open_path n w = (if n \<in> fst ` set (dw_tables w) then Inr n else Inl (Aips n), w)"

definition create_path :: "string \<times> memory_desc \<Rightarrow> (disk_world, string) call" where
  "create_path s w =
     (Inr (fst s), w\<lparr>dw_tables := s # dw_tables w, dw_links := filter (\<lambda>((p, k), q). p \<noteq> fst s) (dw_links w)\<rparr>)"

definition memory_factory ::
  "(disk_world, string, memory_desc, memory_column, keyword_value, string list, string \<times> memory_desc) factory_calls" where
  "memory_factory =
     \<lparr>desc_calls_of = memory_descs, parse_sizes = (\<lambda>s. Inr []), manager_info = (\<lambda>t. []),
      setMaximumCacheSizes = (\<lambda>calls t w. (Inr (), w)),
      keywordName = (\<lambda>cls. case List.find (\<lambda>p. snd p = cls) subtable_names of Some p \<Rightarrow> fst p | None \<Rightarrow> []),
      openProxy = (\<lambda>n r. open_path n), reopenProxy = (\<lambda>t w. (Inr (), w)),
      newMeasurementSet = create_path, createDefaultSubtables = (\<lambda>t w. (Inr (), w)), openForUpdate = open_path,
      newSubtable = (\<lambda>cls. create_path), newTable = (\<lambda>s nrows. create_path s),
      defineTable = (\<lambda>ms k t w. (Inr (), w\<lparr>dw_links := ((ms, k), t) # dw_links w\<rparr>)),
      runTaql = (\<lambda>q ts w. (Inr q, w))\<rparr>"

definition linked_paths :: "disk_world \<Rightarrow> string \<Rightarrow> (string \<rightharpoonup> string)" where
  "linked_paths w p = (\<lambda>k. map_of (dw_links w) (p, k))"

lemma map_of_unlinked:
  "map_of (filter (\<lambda>((p, k), q). p \<noteq> p0) ls) (p, k) = (if p = p0 then None else map_of ls (p, k))"
  by (induction ls) auto

interpretation memory_factory: disk_laws memory_factory "\<lambda>t. t" "\<lambda>w. map_of (dw_tables w)" linked_paths "\<lambda>s. s"
proof
  fix n d s s' dm cls w t w' nrows ms k calls r
  show "keywordName memory_factory cls = n" if "(n, cls) \<in> set subtable_names"
    using that by (auto simp: subtable_names_def memory_factory_def)
  show "s = (n, d)" if "setupNewTable (desc_calls_of memory_factory) n d = Inr s"
    using that by (simp add: memory_factory_def memory_descs_def)
  show "s' = s" if "bindCreate (desc_calls_of memory_factory) dm s = Inr s'"
    using that by (simp add: memory_factory_def memory_descs_def)
  show "t = n \<and> n \<in> dom (map_of (dw_tables w))" if "openProxy memory_factory n r w = (Inr t, w')"
    using that by (auto simp: memory_factory_def open_path_def dom_map_of_conv_image_fst split: if_splits)
  show "t = n \<and> n \<in> dom (map_of (dw_tables w)) \<and> map_of (dw_tables w') = map_of (dw_tables w) \<and> linked_paths w' = linked_paths w"
    if "openForUpdate memory_factory n w = (Inr t, w')"
    using that by (auto simp: memory_factory_def open_path_def dom_map_of_conv_image_fst split: if_splits)
  have create: "t = fst s \<and> map_of (dw_tables w') = (map_of (dw_tables w))(fst s \<mapsto> snd s) \<and>
      linked_paths w' = (linked_paths w)(fst s := Map.empty)" if "create_path s w = (Inr t, w')"
    using that by (cases s) (auto simp: create_path_def linked_paths_def map_of_unlinked fun_eq_iff)
  show "t = fst s \<and> map_of (dw_tables w') = (map_of (dw_tables w))(fst s \<mapsto> snd s) \<and>
      linked_paths w' = (linked_paths w)(fst s := Map.empty)" if "newSubtable memory_factory cls s w = (Inr t, w')"
    by (rule create) (use that in \<open>simp add: memory_factory_def\<close>)
  show "t = fst s \<and> map_of (dw_tables w') = (map_of (dw_tables w))(fst s \<mapsto> snd s) \<and>
      linked_paths w' = (linked_paths w)(fst s := Map.empty)" if "newTable memory_factory s nrows w = (Inr t, w')"
    by (rule create) (use that in \<open>simp add: memory_factory_def\<close>)
  show "map_of (dw_tables w') = map_of (dw_tables w) \<and> linked_paths w' = (linked_paths w)(ms := (linked_paths w ms)(k \<mapsto> t))"
    if "defineTable memory_factory ms k t w = (Inr (), w')"
    using that by (auto simp: memory_factory_def linked_paths_def fun_eq_iff)
  show "map_of (dw_tables w') = map_of (dw_tables w) \<and> linked_paths w' = linked_paths w"
    if "setMaximumCacheSizes memory_factory calls t w = (Inr (), w')"
    using that by (simp add: memory_factory_def)
qed

section \<open>Properties\<close>

text \<open>
  C10. A subtable is created under the Measurement Set and linked with it. If \<open>DefaultMS\<close> succeeds for a
  table that is not the main one, the disk gets one table more: at the path of the Measurement Set (by
  default \<open>measurementset.ms\<close>), a slash and the name of the subtable, with the required description
  merged with that of the user, and the proxy has this table. The table of the name that was given
  existed, and it gets one link more: from the name of the subtable to that path. So with an empty
  name, the link is looked for in the table without a name, not in \<open>measurementset.ms\<close>.
\<close>

theorem DefaultMS_subtable:
  assumes "disk_laws F path_of files links setup_of" and "usubtable = upcase subtable" and "usubtable \<noteq> []" and "usubtable \<noteq> kMain"
    and "DefaultMS F name subtable json_table_desc json_dminfo json_cache_size w = (Inr (Inr ntp), w')"
    and "path = (if name = [] then ''measurementset.ms'' else name) @ ''/'' @ physical_subtable usubtable"
  shows "\<exists>t r u d. itp_tables ntp = [t] \<and> \<not> itp_closed ntp \<and> path_of t = path \<and>
    MSTableDescriptor (desc_calls_of F) usubtable False = Inr (Inr r) \<and> user_desc (desc_calls_of F) json_table_desc = Inr (Inr u) \<and>
    MergeRequiredAndUserTableDescs (desc_calls_of F) r u = Inr d \<and> files w' = (files w)(path \<mapsto> d) \<and>
    name \<in> dom (files w) \<and> links w' = (links w)(path := Map.empty, name := (links w name)(physical_subtable usubtable \<mapsto> path))"
proof -
  have "kPhasedArray \<noteq> kMain" by (simp add: kPhasedArray_def kMain_def)
  then have path: "ms_path name (physical_subtable usubtable) = path"
    using assms(4,6) by (simp add: ms_path_def physical_subtable_def)
  have ne: "path \<noteq> name" using assms(6) by auto
  from assms(5) obtain s spec t where s: "DefaultMSFactory (desc_calls_of F) path usubtable json_table_desc json_dminfo = Inr (Inr s)"
    and t: "make_subtable F name usubtable s spec w = (Inr (Inr t), w')" and ntp: "ntp = proxy_of [t]"
    unfolding DefaultMS_def Let_def assms(2) [symmetric] path ok_conv using assms(3,4) by auto
  from disk_laws.DefaultMSFactory_ok [OF assms(1) s] obtain r u d where
    d: "MSTableDescriptor (desc_calls_of F) usubtable False = Inr (Inr r)" "user_desc (desc_calls_of F) json_table_desc = Inr (Inr u)"
    "MergeRequiredAndUserTableDescs (desc_calls_of F) r u = Inr d" "setup_of s = (path, d)" by blast
  with disk_laws.make_subtable_ok [OF assms(1) t] ne ntp show ?thesis by (auto simp: proxy_of_def)
qed

definition one_ms :: disk_world where
  "one_ms = \<lparr>dw_tables = [(''a.ms'', \<lparr>md_cols = [], md_hypers = [], md_keys = []\<rparr>)], dw_links = []\<rparr>"

theorem DefaultMS_subtable_witness:
  "\<exists>ntp w'. DefaultMS memory_factory ''a.ms'' ''MSv3_Phased_Array'' ''X'' ''{}'' ''{}'' one_ms = (Inr (Inr ntp), w') \<and>
     itp_tables ntp = [''a.ms/PHASED_ARRAY''] \<and> linked_paths w' ''a.ms'' ''PHASED_ARRAY'' = Some ''a.ms/PHASED_ARRAY''"
proof -
  let ?m = "DefaultMS memory_factory ''a.ms'' ''MSv3_Phased_Array'' ''X'' ''{}'' ''{}'' one_ms"
  have "case ?m of (Inr (Inr ntp), w') \<Rightarrow> True | _ \<Rightarrow> False" by code_simp
  then obtain ntp w' where m: "?m = (Inr (Inr ntp), w')" by (auto split: prod.splits sum.splits)
  have u: "upcase ''MSv3_Phased_Array'' = kMSV3PhasedArray" by code_simp
  have p: "physical_subtable ''MSV3_PHASED_ARRAY'' = ''PHASED_ARRAY''"
    by (simp add: physical_subtable_def kPhasedArray_def kMSV3PhasedArray_def)
  from DefaultMS_subtable [OF memory_factory.disk_laws_axioms u [symmetric] _ _ m refl] obtain t where
    "itp_tables ntp = [''a.ms/PHASED_ARRAY'']" "linked_paths w' = (linked_paths one_ms)(''a.ms/PHASED_ARRAY'' := Map.empty,
       ''a.ms'' := (linked_paths one_ms ''a.ms'')(''PHASED_ARRAY'' \<mapsto> ''a.ms/PHASED_ARRAY''))"
    by (auto simp: p kMSV3PhasedArray_def kMain_def)
  with m show ?thesis by simp
qed

text \<open>
  The two places that know the subtables of a Measurement Set agree. \<open>MSTableDescriptor\<close> refuses
  exactly the names, in upper case, for which the chain of \<open>DefaultMS\<close> has no class of table; so the
  error for an unknown table at the end of that chain is never reached.
\<close>

theorem subtables_agree:
  assumes "disk_laws F path_of files links setup_of"
  shows "(\<exists>e. MSTableDescriptor (desc_calls_of F) (upcase subtable) complete = Inr (Inl e)) \<longleftrightarrow>
    upcase subtable \<noteq> [] \<and> upcase subtable \<noteq> kMain \<and> subtable_chain F (upcase subtable) = None"
proof -
  have up: "upcase (upcase s) = upcase s" for s
  proof -
    have "toupper (toupper c) = toupper c" for c by (auto simp: toupper_def Let_def)
    then show ?thesis by (simp add: upcase_def)
  qed
  let ?u = "upcase subtable"
  have "subtable_chain F ?u = None \<longleftrightarrow> \<not> (\<exists>c. subtable_chain F ?u = Some c)" by simp
  then have none: "subtable_chain F ?u = None \<longleftrightarrow> map_of subtable_names ?u = None \<and> ?u \<noteq> kMSV3PhasedArray"
    unfolding disk_laws.chain_names [OF assms] map_of_eq_None_iff by blast
  have no: "\<not> (\<exists>e. uncaught r = Inr (Inl e))" for r :: "exn + 'c" by (auto simp: uncaught_def split: sum.splits)
  show ?thesis
    unfolding none MSTableDescriptor_def Let_def up
    by (cases "map_of subtable_names ?u") (auto simp: uncaught_def split: sum.splits)
qed

theorem subtables_agree_witness:
  "\<exists>e. MSTableDescriptor memory_descs (upcase ''spectral_windows'') False = Inr (Inl e)"
proof -
  have "upcase ''spectral_windows'' \<noteq> [] \<and> upcase ''spectral_windows'' \<noteq> kMain \<and>
      subtable_chain memory_factory (upcase ''spectral_windows'') = None" by code_simp
  with subtables_agree [OF memory_factory.disk_laws_axioms, of "''spectral_windows''" False]
  show ?thesis by (simp add: memory_factory_def)
qed

text \<open>
  C36. A plain table is what the user describes. If \<open>CreateTable\<close> succeeds, the name is not empty, every
  instance has the table of that name, and the disk has it with exactly the description that the record
  of the user makes, however many instances created it.
\<close>

theorem CreateTable_describes:
  assumes "disk_laws F path_of files links setup_of"
    and "CreateTable F name n json_table_desc json_dminfo nrows json_cache_size w = (Inr (Inr ntp), w')"
  shows "name \<noteq> [] \<and> table_instances ntp = n \<and> 0 < n \<and> \<not> itp_closed ntp \<and> (\<forall>t \<in> set (itp_tables ntp). path_of t = name) \<and>
    (\<exists>u. user_desc (desc_calls_of F) json_table_desc = Inr (Inr u) \<and> files w' = (files w)(name \<mapsto> u))"
proof -
  let ?T = "desc_calls_of F"
  from assms(2) obtain spec fn where name: "name \<noteq> []"
    and make: "MakeNewTableProxy fn n w = (Inr (Inr ntp), w')"
    and fn_def: "fn = then_ok (without_effect (TableFactory ?T name json_table_desc json_dminfo)) (\<lambda>setup_new_table.
             try_call (\<lambda>error. Invalid [Str ''Error creating table '', Str name, Str '': '', Str error])
               (then_ok (calling (newTable F setup_new_table nrows)) (\<lambda>t. with_caches F spec t)))"
    unfolding CreateTable_def by (auto simp: ok_conv split: if_splits)
  have step: "path_of t = name \<and> (\<exists>u. user_desc ?T json_table_desc = Inr (Inr u) \<and> files w2 = (files w1)(name \<mapsto> u))"
    if "fn w1 = (Inr (Inr t), w2)" for t w1 w2
  proof -
    from that obtain u dm s0 s t0 w3 where "user_desc ?T json_table_desc = Inr (Inr u)" "setupNewTable ?T name u = Inr s0"
      "bindCreate ?T dm s0 = Inr s" "newTable F s nrows w1 = (Inr t0, w3)" "with_caches F spec t0 w3 = (Inr (Inr t), w2)"
      unfolding fn_def TableFactory_def MakeSetupNewTable_def ok_conv by blast
    with disk_laws.set_up [OF assms(1)] disk_laws.bind [OF assms(1)] disk_laws.new_table [OF assms(1)]
      disk_laws.with_caches_ok [OF assms(1)] show ?thesis by (metis fst_conv snd_conv)
  qed
  note ok = MakeNewTableProxy_ok [OF make]
  from make obtain ts where ts: "open_instances (\<lambda>i. fn) 0 n w = (Inr ts, w')"
    by (auto simp: MakeNewTableProxy_def rbind_Inr_conv split: if_splits prod.splits)
  have all: "0 < k \<longrightarrow> (\<exists>u. user_desc ?T json_table_desc = Inr (Inr u) \<and> files v' = (files v)(name \<mapsto> u))"
    if "open_instances (\<lambda>i. fn) i k v = (Inr ts, v')" for i k v v' ts
    using that
  proof (induction k arbitrary: i v ts)
    case (Suc k)
    from Suc.prems obtain t w1 ts1 where f: "fn v = (Inr (Inr t), w1)"
      and more: "open_instances (\<lambda>i. fn) (Suc i) k w1 = (Inr ts1, v')"
      by (auto simp: rbind_Inr_conv awaited_Inr_conv split: prod.splits sum.splits)
    from step [OF f] obtain u where u: "user_desc ?T json_table_desc = Inr (Inr u)" "files w1 = (files v)(name \<mapsto> u)" by blast
    show ?case
    proof (cases k)
      case 0
      with u more show ?thesis by simp
    next
      case (Suc m)
      with Suc.IH [OF more] u(1) have "files v' = (files w1)(name \<mapsto> u)" by auto
      then have "files v' = (files v)(name \<mapsto> u)" unfolding u(2) fun_upd_upd .
      with u(1) show ?thesis by blast
    qed
  qed simp
  from all [OF ts] ok step name show ?thesis by blast
qed

theorem CreateTable_describes_witness:
  "\<exists>ntp w'. CreateTable memory_factory ''t.tab'' 2 ''X'' ''{}'' 10 ''{}'' one_ms = (Inr (Inr ntp), w') \<and>
     itp_tables ntp = [''t.tab'', ''t.tab''] \<and>
     map_of (dw_tables w') ''t.tab'' = Some \<lparr>md_cols = [\<lparr>mc_desc = ScalarColumnDesc TpInt ''X'' [], mc_keywords = []\<rparr>], md_hypers = [], md_keys = []\<rparr>"
proof -
  let ?c = "CreateTable memory_factory ''t.tab'' 2 ''X'' ''{}'' 10 ''{}'' one_ms"
  have "case ?c of (Inr (Inr ntp), w') \<Rightarrow> True | _ \<Rightarrow> False" by code_simp
  then obtain ntp w' where c: "?c = (Inr (Inr ntp), w')" by (auto split: prod.splits sum.splits)
  have "user_desc (desc_calls_of memory_factory) ''X'' =
      Inr (Inr \<lparr>md_cols = [\<lparr>mc_desc = ScalarColumnDesc TpInt ''X'' [], mc_keywords = []\<rparr>], md_hypers = [], md_keys = []\<rparr>)"
    by (simp add: memory_factory_def memory_descs_def user_desc_def ParseRecord_def uncaught_def)
  with CreateTable_describes [OF memory_factory.disk_laws_axioms c] c show ?thesis
    by (auto simp: table_instances_def length_Suc_conv numeral_2_eq_2)
qed

end
