(* ===== verification/RowPartition.thy ===== *)
theory RowPartition
  imports ReadImpl
begin

text \<open>
  The partition of a result whose rows vary, or whose cells are smaller than the rows they are read
  into: the second case of \<open>DataPartition::Make\<close>. Each row is cut into chunks of its own. A chunk of a
  row is the chunk of a fixed result of that one row, moved to where the row starts in the buffer; so
  reads rest on what is known of fixed results.
\<close>

section \<open>The spans of a row\<close>

text \<open>The table rows read, and the indices selected in the dimensions of a row and its extents.\<close>

definition row_ids :: "selection \<Rightarrow> nat \<Rightarrow> nat \<Rightarrow> index list" where
  "row_ids sel k n = (case MaybeFSpan sel k (Suc k) of Some span \<Rightarrow> span | None \<Rightarrow> map int [0..<n])"

definition dim_ids :: "selection \<Rightarrow> shape \<Rightarrow> shape option \<Rightarrow> nat \<Rightarrow> index list" where
  "dim_ids sel sh extents dim =
     (case MaybeFSpan sel dim (length sh + 1) of
        Some span \<Rightarrow> span
      | None \<Rightarrow> (case extents of Some es \<Rightarrow> padded_ids (sh ! dim) (es ! dim) | None \<Rightarrow> map int [0..<sh ! dim]))"

abbreviation extents_of :: "ResultShapeData \<Rightarrow> nat \<Rightarrow> shape option" where
  "extents_of d i \<equiv> map_option (\<lambda>es. es ! i) (rs_cell_extents d)"

lemma row_dim_ids_eq: "row_dim_ids sel d sh i dim = dim_ids sel sh (extents_of d i) dim"
  by (simp add: row_dim_ids_def dim_ids_def split: option.split)

text \<open>Extents cover no more than the row, and all of a selected dimension.\<close>

definition extents_ok :: "selection \<Rightarrow> shape \<Rightarrow> shape option \<Rightarrow> bool" where
  "extents_ok sel sh extents \<longleftrightarrow>
     (case extents of
        Some es \<Rightarrow> length es = length sh \<and> (\<forall>dim < length sh. es ! dim \<le> sh ! dim \<and>
          (MaybeFSpan sel dim (length sh + 1) \<noteq> None \<longrightarrow> es ! dim = sh ! dim))
      | None \<Rightarrow> True)"

text \<open>The padded spans kept for rows of shape \<open>sh\<close>.\<close>

definition padded_ok :: "shape \<Rightarrow> padded_cache \<Rightarrow> bool" where
  "padded_ok sh cache \<longleftrightarrow> (\<forall>dim e sp. cache (dim, e) = Some sp \<longrightarrow> sp = MakeSortedIndices (padded_ids (sh ! dim) e))"

lemma padded_ok_empty [simp]: "padded_ok sh Map.empty"
  by (simp add: padded_ok_def)

lemma GetPadded_ok:
  assumes "padded_ok sh cache"
  shows "fst (GetPaddedSpanPair dim (sh ! dim) e cache) = MakeSortedIndices (padded_ids (sh ! dim) e)"
    and "padded_ok sh (snd (GetPaddedSpanPair dim (sh ! dim) e cache))"
  using assms by (auto simp: GetPaddedSpanPair_def padded_ok_def Let_def split: option.splits)

lemma GetSpanPair_dim:
  "dim < length sh \<Longrightarrow> sh ! dim \<le> m \<Longrightarrow>
   GetSpanPair sel (Suc (length sh)) [0..<m] dim (sh ! dim) = MakeSortedIndices (dim_ids sel sh None dim)"
  using GetSpanPair_eq [of "sh @ [0]" dim m sel] by (simp add: nth_append disk_ids_def dim_ids_def cong: option.case_cong)

lemma dim_ids_covered:
  "extents_ok sel sh (Some es) \<Longrightarrow> dim < length sh \<Longrightarrow> \<not> es ! dim < sh ! dim \<Longrightarrow>
   dim_ids sel sh (Some es) dim = dim_ids sel sh None dim"
  by (auto simp: extents_ok_def dim_ids_def not_less dest!: spec [of _ dim] split: option.splits)

lemma dim_ids_padded:
  "extents_ok sel sh (Some es) \<Longrightarrow> dim < length sh \<Longrightarrow> es ! dim < sh ! dim \<Longrightarrow>
   dim_ids sel sh (Some es) dim = padded_ids (sh ! dim) (es ! dim)"
  by (auto simp: extents_ok_def dim_ids_def dest!: spec [of _ dim] split: option.splits)

text \<open>The spans of one dimension of a row.\<close>

definition row_dim_pair ::
  "selection \<Rightarrow> nat \<Rightarrow> nat list \<Rightarrow> shape \<Rightarrow> shape option \<Rightarrow> nat \<Rightarrow> padded_cache \<Rightarrow> span_pair \<times> padded_cache" where
  "row_dim_pair sel result_ndim ids sh extents dim cache =
     (case extents of
        Some es \<Rightarrow> if es ! dim < sh ! dim then GetPaddedSpanPair dim (sh ! dim) (es ! dim) cache
                   else (GetSpanPair sel result_ndim ids dim (sh ! dim), cache)
      | None \<Rightarrow> (GetSpanPair sel result_ndim ids dim (sh ! dim), cache))"

declare row_dim_spans.simps(2) [simp del]

lemma row_dim_spans_step:
  assumes "extents_ok sel sh extents" and "dim < length sh"
  shows "row_dim_spans sel n ids sh extents (dim # dims) cache =
    (case row_dim_pair sel n ids sh extents dim cache of (sp, cache') \<Rightarrow>
       rbind (MakeSubSpans (disk sp) (mem sp) False) (\<lambda>spans.
       rbind (row_dim_spans sel n ids sh extents dims cache') (\<lambda>(rest, cache''). Inr (spans # rest, cache''))))"
  using assms by (cases extents) (auto simp: row_dim_pair_def extents_ok_def row_dim_spans.simps(2))

lemma row_dim_pair_ids:
  assumes "extents_ok sel sh extents" and "dim < length sh" and "sh ! dim \<le> m" and "padded_ok sh cache"
  shows "fst (row_dim_pair sel (Suc (length sh)) [0..<m] sh extents dim cache) = MakeSortedIndices (dim_ids sel sh extents dim)"
    and "padded_ok sh (snd (row_dim_pair sel (Suc (length sh)) [0..<m] sh extents dim cache))"
    and "extents = None \<Longrightarrow> snd (row_dim_pair sel (Suc (length sh)) [0..<m] sh extents dim cache) = cache"
  using assms GetPadded_ok [OF assms(4)]
  by (cases extents; simp add: row_dim_pair_def GetSpanPair_dim dim_ids_covered dim_ids_padded)+

lemma row_dim_spans_ok:
  assumes "extents_ok sel sh extents" and "\<forall>dim \<in> set dims. dim < length sh \<and> sh ! dim \<le> m" and "padded_ok sh cache"
  shows "(case row_dim_spans sel (Suc (length sh)) [0..<m] sh extents dims cache of
            Inr (L, cache') \<Rightarrow> (\<forall>dim \<in> set dims. distinct (filter (\<lambda>x. 0 \<le> x) (dim_ids sel sh extents dim))) \<and>
              list_all2 (\<lambda>dim. decomposes False (dim_ids sel sh extents dim)) dims L \<and>
              padded_ok sh cache' \<and> (extents = None \<longrightarrow> cache' = cache)
          | Inl e \<Rightarrow> \<not> (\<forall>dim \<in> set dims. distinct (filter (\<lambda>x. 0 \<le> x) (dim_ids sel sh extents dim))))"
  using assms(2,3)
proof (induction dims arbitrary: cache)
  case (Cons dim dims)
  have dim: "dim < length sh" "sh ! dim \<le> m" using Cons.prems(1) by auto
  obtain sp cache1 where pair: "row_dim_pair sel (Suc (length sh)) [0..<m] sh extents dim cache = (sp, cache1)" by fastforce
  note ids = row_dim_pair_ids [OF assms(1) dim Cons.prems(2), unfolded pair fst_conv snd_conv]
  note step = row_dim_spans_step [OF assms(1) dim(1), of "Suc (length sh)" "[0..<m]" dims cache, unfolded pair prod.case ids(1)]
  note sub = MakeSubSpans_decomposes [of "dim_ids sel sh extents dim" False]
  have ih: "\<forall>dim \<in> set dims. dim < length sh \<and> sh ! dim \<le> m" using Cons.prems(1) by simp
  show ?case
  proof (cases "MakeSubSpans (disk (MakeSortedIndices (dim_ids sel sh extents dim)))
      (mem (MakeSortedIndices (dim_ids sel sh extents dim))) False")
    case (Inl e)
    with sub show ?thesis by (simp add: step)
  next
    case (Inr spans)
    with sub Cons.IH [OF ih ids(2)] ids(3) show ?thesis
      by (cases "row_dim_spans sel (Suc (length sh)) [0..<m] sh extents dims cache1") (auto simp: step)
  qed
qed simp

section \<open>The spans of all rows\<close>

text \<open>
  A result that is partitioned row by row: of \<open>k\<close> dimensions in a cell, none of them empty, with
  rows that fit the arithmetic of \<open>FlatOffset\<close>.
\<close>

definition varying_result :: "selection \<Rightarrow> ResultShapeData \<Rightarrow> nat \<Rightarrow> bool" where
  "varying_result sel d k \<longleftrightarrow> (rs_shape d = None \<or> rs_cell_extents d \<noteq> None) \<and> rs_ndim d = int k + 1 \<and>
     rows_of d \<noteq> [] \<and>
     (\<forall>sh \<in> set (rows_of d). length sh = k \<and> 0 \<notin> set sh \<and> prod_list (butlast sh) < 2 ^ 31 \<and> prod_list sh < 2 ^ 63) \<and>
     (case rs_shape d of
        Some sh \<Rightarrow> length sh = Suc k \<and> prod_list (butlast sh) < 2 ^ 31 \<and> prod_list sh < 2 ^ 63
      | None \<Rightarrow> rs_row_shapes d \<noteq> None \<and> rs_cell_extents d = None \<and> 0 < k) \<and>
     (case rs_cell_extents d of Some es \<Rightarrow> length es = nRows d | None \<Rightarrow> True) \<and>
     (\<forall>i < nRows d. extents_ok sel (rows_of d ! i) (extents_of d i))"

lemma varying_resultD:
  assumes "varying_result sel d k"
  shows "rs_ndim d = int k + 1" and "rs_shape d = None \<Longrightarrow> 0 < k" and "0 < nRows d"
    and "i < nRows d \<Longrightarrow> length (rows_of d ! i) = k" and "i < nRows d \<Longrightarrow> 0 \<notin> set (rows_of d ! i)"
    and "i < nRows d \<Longrightarrow> prod_list (butlast (rows_of d ! i)) < 2 ^ 31" and "i < nRows d \<Longrightarrow> prod_list (rows_of d ! i) < 2 ^ 63"
    and "i < nRows d \<Longrightarrow> extents_ok sel (rows_of d ! i) (extents_of d i)"
    and "\<not> (IsFixed d \<and> \<not> HasCellExtents d)"
  using assms unfolding varying_result_def length_rows_of [symmetric]
  by (auto simp: IsFixed_def HasCellExtents_def)

lemma varying_result_sizes:
  assumes "varying_result sel d k"
  shows "\<exists>m. MaxDimensionSize d = Inr m \<and> nRows d \<le> m \<and> (\<forall>i < nRows d. \<forall>dim < k. rows_of d ! i ! dim \<le> m)"
proof (cases "rs_shape d")
  case (Some sh)
  then have len: "length sh = Suc k" using assms by (simp add: varying_result_def)
  then have sh: "sh \<noteq> []" by auto
  have "rows_of d ! i ! dim \<le> Max (set sh)" if "i < nRows d" "dim < k" for i dim
  proof -
    have "rows_of d ! i = butlast sh" using Some that(1) by (simp add: rows_of_def nRows_def)
    then have "rows_of d ! i ! dim = sh ! dim" using that(2) len by (simp add: nth_butlast)
    then show ?thesis using that(2) len by simp
  qed
  moreover have "nRows d \<le> Max (set sh)" using Some sh by (simp add: nRows_def)
  ultimately show ?thesis using Some sh by (auto simp: MaxDimensionSize_def max_element_def)
next
  case None
  have max: "\<exists>m. max_row_sizes shs m0 = Inr m \<and> m0 \<le> m \<and> (\<forall>sh \<in> set shs. \<forall>x \<in> set sh. x \<le> m)"
    if "\<forall>sh \<in> set shs. sh \<noteq> []" for shs m0
    using that
  proof (induction shs arbitrary: m0)
    case (Cons sh shs)
    from Cons.prems have "\<forall>sh \<in> set shs. sh \<noteq> []" by simp
    from Cons.IH [OF this, of "max m0 (Max (set sh))"] obtain m where
      m: "max_row_sizes shs (max m0 (Max (set sh))) = Inr m" "max m0 (Max (set sh)) \<le> m"
      "\<forall>sh \<in> set shs. \<forall>x \<in> set sh. x \<le> m" by blast
    have "x \<le> m" if "x \<in> set sh" for x
      by (rule order_trans [OF Max_ge [of "set sh" x]]) (use m(2) that in simp_all)
    with m Cons.prems show ?case by (auto simp: max_element_def)
  qed simp
  have rows: "rows_of d = the (rs_row_shapes d)" using None by (simp add: rows_of_def)
  have ne: "\<forall>sh \<in> set (rows_of d). sh \<noteq> [] \<and> length sh = k" using assms None by (auto simp: varying_result_def)
  with max [of "rows_of d" "nRows d"] obtain m where m: "max_row_sizes (rows_of d) (nRows d) = Inr m" "nRows d \<le> m"
    "\<forall>sh \<in> set (rows_of d). \<forall>x \<in> set sh. x \<le> m" by blast
  have "rows_of d ! i ! dim \<le> m" if "i < nRows d" "dim < k" for i dim
  proof -
    have "rows_of d ! i \<in> set (rows_of d)" using that(1) by (simp add: length_rows_of flip: length_rows_of)
    moreover from this have "rows_of d ! i ! dim \<in> set (rows_of d ! i)" using ne that(2) by simp
    ultimately show ?thesis using m(3) by blast
  qed
  with m(1,2) None rows show ?thesis by (simp add: MaxDimensionSize_def)
qed

text \<open>The decompositions of row \<open>m\<close> of the result.\<close>

definition row_distinct :: "selection \<Rightarrow> ResultShapeData \<Rightarrow> nat \<Rightarrow> nat \<Rightarrow> bool" where
  "row_distinct sel d k m \<longleftrightarrow> (\<forall>dim < k. distinct (filter (\<lambda>x. 0 \<le> x) (row_dim_ids sel d (rows_of d ! m) m dim)))"

definition row_decomposition :: "selection \<Rightarrow> ResultShapeData \<Rightarrow> nat \<Rightarrow> nat \<Rightarrow> span_pairs list \<Rightarrow> bool" where
  "row_decomposition sel d k m L \<longleftrightarrow>
     list_all2 (\<lambda>dim. decomposes False (row_dim_ids sel d (rows_of d ! m) m dim)) [0..<k] L"

text \<open>The spans of row \<open>r\<close> of the sorted rows, the last of them that of the row itself.\<close>

definition row_spans :: "span_pair \<Rightarrow> nat \<Rightarrow> span_pairs list \<Rightarrow> span_pairs list" where
  "row_spans rows r L = L @ [[\<lparr>disk = [disk rows ! r], mem = [mem rows ! r]\<rparr>]]"

lemma varying_rows_ok:
  assumes "varying_result sel d k" and "\<forall>i < nRows d. \<forall>dim < k. rows_of d ! i ! dim \<le> m"
    and "length (disk rows) = nRows d" and "length (mem rows) = nRows d" and "\<forall>i \<in> set (mem rows). i < nRows d"
    and "\<forall>r \<in> set rs. r < nRows d"
    and "rs_cell_extents d = None \<and> cache = Map.empty \<or> padded_ok (butlast (GetShape d)) cache \<and> rs_shape d \<noteq> None"
  shows "(case varying_rows d sel (Suc k) [0..<m] rows rs cache of
            Inr (tuples, flags) \<Rightarrow> (\<forall>r \<in> set rs. row_distinct sel d k (mem rows ! r)) \<and>
              (\<exists>Ls. list_all2 (\<lambda>r. row_decomposition sel d k (mem rows ! r)) rs Ls \<and>
                tuples = concat (map2 (\<lambda>r L. product_lists (row_spans rows r L)) rs Ls) \<and>
                flags = concat (map2 (\<lambda>r L. snd (CartesianProduct (row_spans rows r L))) rs Ls))
          | Inl e \<Rightarrow> \<not> (\<forall>r \<in> set rs. row_distinct sel d k (mem rows ! r)))"
  using assms(6,7)
proof (induction rs arbitrary: cache)
  case (Cons r rs)
  let ?i = "mem rows ! r"
  let ?sh = "rows_of d ! ?i" and ?e = "extents_of d ?i"
  have r: "r < nRows d" and rs: "\<forall>r \<in> set rs. r < nRows d" using Cons.prems(1) by auto
  have i: "?i < nRows d" using r assms(4,5) by simp
  note D = varying_resultD [OF assms(1)]
  note len = D(4) [OF i]
  have shape: "(case rs_shape d of Some sh \<Rightarrow> Inr (take k sh) | None \<Rightarrow> at (the (rs_row_shapes d)) ?i) = Inr ?sh"
  proof (cases "rs_shape d")
    case (Some sh)
    then have "length sh = Suc k" using assms(1) by (simp add: varying_result_def)
    with Some i show ?thesis by (simp add: rows_of_def nRows_def butlast_conv_take)
  next
    case None
    with i show ?thesis by (simp add: rows_of_def nRows_def)
  qed
  have ext: "(case rs_cell_extents d of Some es \<Rightarrow> rbind (at es ?i) (\<lambda>e. Inr (Some e)) | None \<Rightarrow> Inr None) = Inr ?e"
    using assms(1) i by (auto simp: varying_result_def split: option.split)
  have pair: "\<lparr>disk = subspan r 1 (disk rows), mem = subspan r 1 (mem rows)\<rparr> = \<lparr>disk = [disk rows ! r], mem = [?i]\<rparr>"
    using r assms(3,4) by (simp add: subspan_def take_Suc_conv_app_nth Cons_nth_drop_Suc [symmetric])
  have cache: "padded_ok ?sh cache"
  proof (cases "rs_cell_extents d = None \<and> cache = Map.empty")
    case False
    with Cons.prems(2) obtain sh where sh: "rs_shape d = Some sh" "padded_ok (butlast (GetShape d)) cache" by blast
    then have "?sh = butlast (GetShape d)" using i by (simp add: rows_of_def nRows_def GetShape_def)
    with sh show ?thesis by simp
  qed simp
  have dims: "\<forall>dim \<in> set [0..<k]. dim < length ?sh \<and> ?sh ! dim \<le> m" using assms(2) i len by simp
  note spans = row_dim_spans_ok [OF D(8) [OF i] dims cache, unfolded len, folded row_dim_ids_eq]
  have at: "at (mem rows) r = Inr ?i" using r assms(4) by simp
  have one: "varying_rows d sel (Suc k) [0..<m] rows (r # rs) cache =
      rbind (row_dim_spans sel (Suc k) [0..<m] ?sh ?e [0..<k] cache) (\<lambda>(L, cache').
        rbind (varying_rows d sel (Suc k) [0..<m] rows rs cache') (\<lambda>(tuples, flags).
          Inr (product_lists (row_spans rows r L) @ tuples, snd (CartesianProduct (row_spans rows r L)) @ flags)))"
    by (simp only: varying_rows.simps at rbind.simps diff_Suc_1 shape ext pair row_spans_def)
      (simp add: case_prod_beta fst_CartesianProduct Let_def)
  show ?case
  proof (cases "row_dim_spans sel (Suc k) [0..<m] ?sh ?e [0..<k] cache")
    case (Inl e)
    with spans have "\<not> row_distinct sel d k ?i" by (auto simp: row_distinct_def)
    with Inl show ?thesis by (simp add: one del: varying_rows.simps)
  next
    case (Inr z)
    then obtain L cache' where z: "row_dim_spans sel (Suc k) [0..<m] ?sh ?e [0..<k] cache = Inr (L, cache')" by (cases z) auto
    have L: "row_distinct sel d k ?i" "row_decomposition sel d k ?i L" "padded_ok ?sh cache'" "?e = None \<Longrightarrow> cache' = cache"
      using spans z by (auto simp: row_distinct_def row_decomposition_def)
    have "rs_cell_extents d = None \<and> cache' = Map.empty \<or> padded_ok (butlast (GetShape d)) cache' \<and> rs_shape d \<noteq> None"
      using Cons.prems(2) L(3,4) i by (auto simp: rows_of_def nRows_def GetShape_def)
    note ih = Cons.IH [OF rs this]
    show ?thesis
    proof (cases "varying_rows d sel (Suc k) [0..<m] rows rs cache'")
      case (Inl e)
      with ih z show ?thesis by (simp add: one del: varying_rows.simps)
    next
      case (Inr y)
      with ih obtain Ls where Ls: "\<forall>r \<in> set rs. row_distinct sel d k (mem rows ! r)"
        "list_all2 (\<lambda>r. row_decomposition sel d k (mem rows ! r)) rs Ls"
        "y = (concat (map2 (\<lambda>r L. product_lists (row_spans rows r L)) rs Ls),
              concat (map2 (\<lambda>r L. snd (CartesianProduct (row_spans rows r L))) rs Ls))" by auto
      show ?thesis
        using Inr L(1,2) z Ls by (simp add: one del: varying_rows.simps) (intro exI [of _ "L # Ls"], simp)
    qed
  qed
qed simp

section \<open>Moving a chunk to its row\<close>

text \<open>
  A chunk of one row, seen as a chunk of a result that holds this row only: its place in the row is 0
  and its offset counts from \<open>base\<close>, where the row starts.
\<close>

definition local_spans :: "span_pairs \<Rightarrow> span_pairs" where
  "local_spans t = butlast t @ [\<lparr>disk = disk (last t), mem = [0]\<rparr>]"

definition local_chunk :: "nat \<Rightarrow> DataChunk \<Rightarrow> DataChunk" where
  "local_chunk base ch =
     \<lparr>chunk_id = 0,
      shared = \<lparr>nchunks = 1, sc_ndim = nDim ch, casa_dtype_of = CasaDataType ch,
                dim_spans = [local_spans (DimensionSpans ch)], min_mem_index = butlast (MinMemIndex ch) @ [0],
                flat_offsets = [ChunkOffset ch - base], buffer_strides = BufferStrides ch,
                chunk_strides = ChunkStrides ch, scratch_position = [], contiguous_flags = [IsContiguous ch]\<rparr>\<rparr>"

definition in_row :: "nat \<Rightarrow> nat \<Rightarrow> DataChunk \<Rightarrow> bool" where
  "in_row base m ch \<longleftrightarrow> nDim ch = length (DimensionSpans ch) \<and> DimensionSpans ch \<noteq> [] \<and>
     mem (last (DimensionSpans ch)) = [m] \<and> length (disk (last (DimensionSpans ch))) = 1 \<and>
     length (MinMemIndex ch) = nDim ch \<and> last (MinMemIndex ch) = m \<and> length (BufferStrides ch) = nDim ch \<and>
     length (ChunkStrides ch) = nDim ch \<and> base \<le> ChunkOffset ch"

lemma local_chunk_simps:
  assumes "in_row base m ch"
  shows "DimensionSpans (local_chunk base ch) = local_spans (DimensionSpans ch)"
    and "nDim (local_chunk base ch) = nDim ch"
    and "MinMemIndex (local_chunk base ch) = butlast (MinMemIndex ch) @ [0]"
    and "ChunkStrides (local_chunk base ch) = ChunkStrides ch"
    and "BufferStrides (local_chunk base ch) = BufferStrides ch"
    and "ChunkOffset (local_chunk base ch) = ChunkOffset ch - base"
    and "IsContiguous (local_chunk base ch) = IsContiguous ch"
proof -
  let ?sh = "\<lparr>nchunks = 1, sc_ndim = nDim ch, casa_dtype_of = CasaDataType ch,
      dim_spans = [local_spans (DimensionSpans ch)], min_mem_index = butlast (MinMemIndex ch) @ [0],
      flat_offsets = [ChunkOffset ch - base], buffer_strides = BufferStrides ch,
      chunk_strides = ChunkStrides ch, scratch_position = [], contiguous_flags = [IsContiguous ch]\<rparr>"
  have len: "length (butlast (MinMemIndex ch) @ [0 :: nat]) = nDim ch" "length (ChunkStrides ch) = nDim ch"
    "length (BufferStrides ch) = nDim ch"
    using assms by (auto simp: in_row_def)
  have l: "chunk_id (local_chunk base ch) = 0" "shared (local_chunk base ch) = ?sh" by (simp_all add: local_chunk_def)
  show nd: "nDim (local_chunk base ch) = nDim ch" by (simp add: nDim_def [of "local_chunk base ch"] l)
  show "DimensionSpans (local_chunk base ch) = local_spans (DimensionSpans ch)"
    "IsContiguous (local_chunk base ch) = IsContiguous ch" "ChunkOffset (local_chunk base ch) = ChunkOffset ch - base"
    by (simp_all add: DimensionSpans_def [of "local_chunk base ch"] IsContiguous_def [of "local_chunk base ch"]
        ChunkOffset_def [of "local_chunk base ch"] l)
  have all: "subspan (0 * length xs) (length xs) xs = xs" for xs :: "nat list" by simp
  show "MinMemIndex (local_chunk base ch) = butlast (MinMemIndex ch) @ [0]"
    using all [of "butlast (MinMemIndex ch) @ [0]", unfolded len(1)]
    by (simp only: MinMemIndex_def [of "local_chunk base ch"] l nd SharedChunkData.select_convs)
  show "ChunkStrides (local_chunk base ch) = ChunkStrides ch"
    using all [of "ChunkStrides ch", unfolded len(2)]
    by (simp only: ChunkStrides_def [of "local_chunk base ch"] l nd SharedChunkData.select_convs)
  show "BufferStrides (local_chunk base ch) = BufferStrides ch"
    using all [of "BufferStrides ch", unfolded len(3)]
    by (simp only: BufferStrides_def [of "local_chunk base ch"] l nd SharedChunkData.select_convs)
qed

lemma local_disks:
  assumes "in_row base m ch"
  shows "map disk (DimensionSpans (local_chunk base ch)) = map disk (DimensionSpans ch)"
proof -
  have "DimensionSpans ch \<noteq> []" using assms by (simp add: in_row_def)
  then have "map disk (butlast (DimensionSpans ch)) @ [disk (last (DimensionSpans ch))] = map disk (DimensionSpans ch)"
    by (metis append_butlast_last_id list.simps(8,9) map_append)
  then show ?thesis by (simp add: local_chunk_simps [OF assms] local_spans_def)
qed

text \<open>What casacore is asked for depends on the disk indices only.\<close>

lemma disks_determine:
  assumes "map disk (DimensionSpans ch) = map disk (DimensionSpans ch')" and "nDim ch = nDim ch'" and "nDim ch' = length (DimensionSpans ch')"
    and "DimensionSpans ch' \<noteq> []"
  shows "ChunkElements ch = ChunkElements ch'" and "ChunkShape ch = ChunkShape ch'" and "IsEmpty ch = IsEmpty ch'"
    and "ReferenceRows ch = ReferenceRows ch'" and "SectionSlicer ch = SectionSlicer ch'"
proof -
  let ?f = "\<lambda>ds. fold (\<lambda>v i. i * length v) ds (1 :: nat)"
  have el: "ChunkElements c = ?f (map disk (DimensionSpans c))" for c
    by (simp add: ChunkElements_def fold_map comp_def)
  show e: "ChunkElements ch = ChunkElements ch'" unfolding el assms(1) ..
  have "ChunkShape c = map length (map disk (DimensionSpans c))" for c by (simp add: ChunkShape_def)
  then show "ChunkShape ch = ChunkShape ch'" by (simp only: assms(1))
  have "list_ex (\<lambda>sp. list_ex (\<lambda>i. i < 0) (disk sp)) sps = list_ex (list_ex (\<lambda>i. i < 0)) (map disk sps)" for sps :: span_pairs
    by (simp add: list_ex_iff)
  then show "IsEmpty ch = IsEmpty ch'" by (simp only: IsEmpty_def e assms(1))
  have len: "length (DimensionSpans ch) = length (DimensionSpans ch')" using arg_cong [OF assms(1), of length] by simp
  have nth: "disk (DimensionSpans ch ! i) = disk (DimensionSpans ch' ! i)" if "i < length (DimensionSpans ch')" for i
    using arg_cong [OF assms(1), of "\<lambda>xs. xs ! i"] that len by simp
  show "ReferenceRows ch = ReferenceRows ch'"
    using nth [of "nDim ch' - 1"] assms(2-4) by (simp add: ReferenceRows_def)
  have "SectionSlicer c =
      (let ds = take (nDim c - 1) (map disk (DimensionSpans c))
       in \<lparr>slice_start = map (\<lambda>d. d ! 0) ds, slice_end = map (\<lambda>d. d ! (length d - 1)) ds\<rparr>)" for c
    by (simp add: SectionSlicer_def Let_def take_map comp_def)
  then show "SectionSlicer ch = SectionSlicer ch'" by (simp only: assms(1,2))
qed

lemma local_pos:
  assumes "length ms = length ts" and "length bs = Suc (length ts)"
  shows "pos_ok (ts @ [\<lparr>disk = r, mem = [a]\<rparr>]) (ms @ [a]) pos = pos_ok (ts @ [\<lparr>disk = r, mem = [b]\<rparr>]) (ms @ [b]) pos"
    and "pos_ok (ts @ [\<lparr>disk = r, mem = [a]\<rparr>]) (ms @ [a]) pos \<Longrightarrow>
      buffer_index (ts @ [\<lparr>disk = r, mem = [a]\<rparr>]) (ms @ [a]) bs pos = buffer_index (ts @ [\<lparr>disk = r, mem = [b]\<rparr>]) (ms @ [b]) bs pos"
proof -
  have "length pos = Suc (length ts)" if "pos_ok (ts @ [\<lparr>disk = r, mem = [x]\<rparr>]) (ms @ [x]) pos" for x
    using that by (auto simp: pos_ok_def dest!: list_all2_lengthD)
  then have rev: "\<exists>ps p. pos = ps @ [p] \<and> length ps = length ts" if "pos_ok (ts @ [\<lparr>disk = r, mem = [x]\<rparr>]) (ms @ [x]) pos" for x
    using that by (cases pos rule: rev_cases) auto
  have both: "pos_ok (ts @ [\<lparr>disk = r, mem = [y]\<rparr>]) (ms @ [y]) pos \<and>
      buffer_index (ts @ [\<lparr>disk = r, mem = [x]\<rparr>]) (ms @ [x]) bs pos = buffer_index (ts @ [\<lparr>disk = r, mem = [y]\<rparr>]) (ms @ [y]) bs pos"
    if ok: "pos_ok (ts @ [\<lparr>disk = r, mem = [x]\<rparr>]) (ms @ [x]) pos" for x y
  proof -
    obtain ps p where pos: "pos = ps @ [p]" "length ps = length ts" using rev [OF ok] by blast
    then have "p = 0" using ok by (auto simp: pos_ok_def list_all2_append)
    with ok pos assms show ?thesis
      by (auto simp: pos_ok_def list_all2_append buffer_index_def)
  qed
  then show "pos_ok (ts @ [\<lparr>disk = r, mem = [a]\<rparr>]) (ms @ [a]) pos = pos_ok (ts @ [\<lparr>disk = r, mem = [b]\<rparr>]) (ms @ [b]) pos"
    by blast
  show "buffer_index (ts @ [\<lparr>disk = r, mem = [a]\<rparr>]) (ms @ [a]) bs pos = buffer_index (ts @ [\<lparr>disk = r, mem = [b]\<rparr>]) (ms @ [b]) bs pos"
    if "pos_ok (ts @ [\<lparr>disk = r, mem = [a]\<rparr>]) (ms @ [a]) pos" using both [OF that] by simp
qed

lemma copy_loop_local:
  assumes "length ms = length ts" and "length bs = Suc (length ts)"
    and "copy_loop (ts @ [\<lparr>disk = r, mem = [b]\<rparr>]) (ms @ [b]) cs bs offset data pos out = Some out'"
  shows "copy_loop (ts @ [\<lparr>disk = r, mem = [a]\<rparr>]) (ms @ [a]) cs bs (length pre + offset) data pos (pre @ out @ post) =
    Some (pre @ out' @ post)"
proof -
  let ?t = "\<lambda>x. ts @ [\<lparr>disk = r, mem = [x]\<rparr>]" and ?m = "\<lambda>x. ms @ [x]"
  let ?P = "\<lambda>sps mins cs' bs' offset' data' pos out out'. sps = ?t b \<and> mins = ?m b \<and> cs' = cs \<and> bs' = bs \<and>
      offset' = offset \<and> data' = data \<longrightarrow>
    copy_loop (?t a) (?m a) cs bs (length pre + offset) data pos (pre @ out @ post) = Some (pre @ out' @ post)"
  have sizes: "map (\<lambda>sp. length (mem sp)) (?t x) = map (\<lambda>sp. length (mem sp)) ts @ [1]" for x by simp
  have "?P (?t b) (?m b) cs bs offset data pos out out'"
  proof (rule copy_loop.raw_induct [where P = ?P, OF _ assms(3)], intro impI, elim conjE)
    fix loop sps mins cs' bs' offset' data' pos and out out' :: "'a list"
    assume ih: "\<And>sps mins cs bs offset data pos out y. loop sps mins cs bs offset data pos out = Some y \<Longrightarrow> ?P sps mins cs bs offset data pos out y"
      and step: "(if pos_ok sps mins pos \<and> dot pos cs' < length data' \<and> offset' + buffer_index sps mins bs' pos < length out
          then let out' = out[offset' + buffer_index sps mins bs' pos := data' ! dot pos cs'];
                   step = advance (map (\<lambda>sp. length (mem sp)) sps) pos
               in if snd step then Some out' else loop sps mins cs' bs' offset' data' (fst step) out'
          else None) = Some out'"
      and eqs: "sps = ?t b" "mins = ?m b" "cs' = cs" "bs' = bs" "offset' = offset" "data' = data"
    let ?i = "buffer_index (?t b) (?m b) bs pos"
    from step have ok: "pos_ok (?t b) (?m b) pos" "dot pos cs < length data" "offset + ?i < length out"
      unfolding eqs by (simp_all split: if_splits)
    have ok_a: "pos_ok (?t a) (?m a) pos" "buffer_index (?t a) (?m a) bs pos = ?i"
      using local_pos [OF assms(1,2)] ok(1) by metis+
    have upd: "(pre @ out @ post)[length pre + offset + ?i := v] = pre @ out[offset + ?i := v] @ post" for v
      using ok(3) by (simp add: list_update_append add.assoc)
    show "copy_loop (?t a) (?m a) cs bs (length pre + offset) data pos (pre @ out @ post) = Some (pre @ out' @ post)"
      using step ih [of "?t b" "?m b" cs bs offset data] ok ok_a upd
      by (subst copy_loop.simps) (auto simp: eqs Let_def sizes split: if_splits)
  qed
  then show ?thesis by blast
qed

text \<open>The spans of a chunk of row \<open>m\<close> end in the row.\<close>

lemma in_row_ends:
  assumes "in_row base m ch"
  shows "DimensionSpans ch = butlast (DimensionSpans ch) @ [\<lparr>disk = disk (last (DimensionSpans ch)), mem = [m]\<rparr>]"
    and "MinMemIndex ch = butlast (MinMemIndex ch) @ [m]"
proof -
  have "last (DimensionSpans ch) = \<lparr>disk = disk (last (DimensionSpans ch)), mem = [m]\<rparr>"
    using assms by (intro span_pair.equality) (simp_all add: in_row_def)
  moreover have "DimensionSpans ch \<noteq> []" "MinMemIndex ch \<noteq> []" using assms by (auto simp: in_row_def)
  ultimately show "DimensionSpans ch = butlast (DimensionSpans ch) @ [\<lparr>disk = disk (last (DimensionSpans ch)), mem = [m]\<rparr>]"
    "MinMemIndex ch = butlast (MinMemIndex ch) @ [m]"
    using assms by (metis append_butlast_last_id, metis append_butlast_last_id in_row_def)
qed

lemma read_chunk_local:
  assumes "in_row (length pre) m ch" and "read_chunk sz rd (local_chunk (length pre) ch) (sub, n) = Inr (sub', n')"
  shows "read_chunk sz rd ch (pre @ sub @ post, n) = Inr (pre @ sub' @ post, n')"
proof -
  let ?l = "local_chunk (length pre) ch"
  note simps = local_chunk_simps [OF assms(1)]
  have row: "nDim ch = length (DimensionSpans ch)" "DimensionSpans ch \<noteq> []" "length pre \<le> ChunkOffset ch"
    using assms(1) by (simp_all add: in_row_def)
  note same = disks_determine [OF local_disks [OF assms(1)] simps(2) row(1,2)]
  show ?thesis
  proof (cases "IsEmpty ch")
    case True
    with assms(2) show ?thesis by (simp add: read_chunk_def same)
  next
    case False
    have contig: "ReadContiguousChunk rd ch (pre @ sub @ post) = Some (pre @ b @ post)"
      if "ReadContiguousChunk rd ?l sub = Some b" for b
    proof -
      have "blit (ChunkOffset ch) k vals (pre @ sub @ post) = Some (pre @ b @ post)"
        if "blit (ChunkOffset ch - length pre) k vals sub = Some b" for k vals b
        using that row(3) by (auto simp: blit_def split: if_splits)
      with that show ?thesis
        by (simp add: ReadContiguousChunk_def same simps Let_def split: if_splits)
    qed
    have copy: "CopyChunkArray ch vals (pre @ sub @ post) = Some (pre @ b @ post)"
      if "CopyChunkArray ?l vals sub = Some b" for vals b
    proof -
      let ?t = "DimensionSpans ch" and ?ms = "MinMemIndex ch"
      have lens: "length (butlast ?ms) = length (butlast ?t)" "length (BufferStrides ch) = Suc (length (butlast ?t))"
        using assms(1) by (auto simp: in_row_def)
      have "copy_loop (butlast ?t @ [\<lparr>disk = disk (last ?t), mem = [m]\<rparr>]) (butlast ?ms @ [m]) (ChunkStrides ch) (BufferStrides ch)
          (length pre + (ChunkOffset ch - length pre)) vals (replicate (nDim ch) 0) (pre @ sub @ post) = Some (pre @ b @ post)"
        by (rule copy_loop_local [OF lens]) (use that in \<open>simp add: CopyChunkArray_def simps local_spans_def\<close>)
      then show ?thesis using row(3) by (simp only: CopyChunkArray_def flip: in_row_ends [OF assms(1)]) simp
    qed
    have vals: "ReadChunkArray rd ?l = ReadChunkArray rd ch" by (simp add: ReadChunkArray_def same simps Let_def)
    from assms(2) False show ?thesis
      by (cases "IsContiguous ch") (auto simp: read_chunk_def same simps vals contig copy split: option.splits)
  qed
qed

section \<open>The chunks of the rows\<close>

text \<open>Where a row starts in the buffer, and the selection of the one row.\<close>

definition row_start :: "ResultShapeData \<Rightarrow> nat \<Rightarrow> nat" where
  "row_start d m = sum_list (map prod_list (take m (rows_of d)))"

definition row_sel :: "selection \<Rightarrow> ResultShapeData \<Rightarrow> nat \<Rightarrow> nat \<Rightarrow> selection" where
  "row_sel sel d k m =
     \<lparr>indices = [], spans = map (row_dim_ids sel d (rows_of d ! m) m) [0..<k] @ [[row_ids sel k (nRows d) ! m]]\<rparr>"

definition rows_fit :: "selection \<Rightarrow> ResultShapeData \<Rightarrow> nat \<Rightarrow> bool" where
  "rows_fit sel d k \<longleftrightarrow> length (row_ids sel k (nRows d)) = nRows d \<and>
     (\<forall>m < nRows d. \<forall>dim < k. length (row_dim_ids sel d (rows_of d ! m) m dim) = rows_of d ! m ! dim)"

lemma MaybeFSpan_explicit:
  "dim < length idss \<Longrightarrow> idss ! dim \<noteq> [] \<Longrightarrow> MaybeFSpan \<lparr>indices = is, spans = idss\<rparr> dim (length idss) = Some (idss ! dim)"
  by (simp add: MaybeFSpan_nat Size_def)

text \<open>The shape of a result of one row, and what holds of the rows of a result that varies.\<close>

definition one_row :: "shape \<Rightarrow> shape" where
  "one_row sh = sh @ [1]"

lemma one_row_simps [simp]:
  "length (one_row sh) = Suc (length sh)" "one_row sh \<noteq> []" "prod_list (one_row sh) = prod_list sh"
  "0 \<in> set (one_row sh) \<longleftrightarrow> 0 \<in> set sh" "butlast (one_row sh) = sh"
  by (auto simp: one_row_def)

lemma one_row_nth: "dim < length sh \<Longrightarrow> one_row sh ! dim = sh ! dim" "one_row sh ! length sh = 1"
  by (simp_all add: one_row_def nth_append)

definition is_row :: "selection \<Rightarrow> ResultShapeData \<Rightarrow> nat \<Rightarrow> nat \<Rightarrow> bool" where
  "is_row sel d k m \<longleftrightarrow> varying_result sel d k \<and> rows_fit sel d k \<and> m < nRows d"

lemma is_row_shape:
  "is_row sel d k m \<Longrightarrow> length (rows_of d ! m) = k" "is_row sel d k m \<Longrightarrow> 0 \<notin> set (rows_of d ! m)"
  "is_row sel d k m \<Longrightarrow> rs_shape d = None \<Longrightarrow> 0 < k" "is_row sel d k m \<Longrightarrow> m < nRows d" "is_row sel d k m \<Longrightarrow> varying_result sel d k"
  using varying_resultD [of sel d k] by (auto simp: is_row_def)

lemma row_dim_ids_length: "is_row sel d k m \<Longrightarrow> dim < k \<Longrightarrow> length (row_dim_ids sel d (rows_of d ! m) m dim) = rows_of d ! m ! dim"
  by (simp add: is_row_def rows_fit_def)

lemma row_dim_ids_ne:
  assumes "is_row sel d k m" and "dim < k"
  shows "row_dim_ids sel d (rows_of d ! m) m dim \<noteq> []"
proof
  assume "row_dim_ids sel d (rows_of d ! m) m dim = []"
  then have "rows_of d ! m ! dim = 0" using row_dim_ids_length [OF assms] by simp
  moreover have "rows_of d ! m ! dim \<in> set (rows_of d ! m)" using assms(2) is_row_shape(1) [OF assms(1)] by simp
  ultimately show False using is_row_shape(2) [OF assms(1)] by simp
qed

lemma row_sel_span:
  assumes "is_row sel d k m" and "dim < Suc k"
  shows "MaybeFSpan (row_sel sel d k m) dim (Suc k) =
    Some (if dim < k then row_dim_ids sel d (rows_of d ! m) m dim else [row_ids sel k (nRows d) ! m])"
  using MaybeFSpan_explicit [of dim "map (row_dim_ids sel d (rows_of d ! m) m) [0..<k] @ [[row_ids sel k (nRows d) ! m]]"]
    row_dim_ids_ne [OF assms(1), of dim] assms(2)
  by (auto simp: row_sel_def nth_append)

lemma disk_ids_row:
  assumes "is_row sel d k m" and "dim < Suc k"
  shows "disk_ids (row_sel sel d k m) (one_row (rows_of d ! m)) dim =
    (if dim < k then row_dim_ids sel d (rows_of d ! m) m dim else [row_ids sel k (nRows d) ! m])"
  using row_sel_span [OF assms] is_row_shape(1) [OF assms(1)] by (simp add: disk_ids_def)

lemma sel_fits_row:
  assumes "is_row sel d k m"
  shows "sel_fits (row_sel sel d k m) (one_row (rows_of d ! m))"
  unfolding sel_fits_def
proof (intro allI impI)
  note k = is_row_shape(1) [OF assms]
  fix dim assume "dim < length (one_row (rows_of d ! m))"
  then have dim: "dim < Suc k" by (simp add: k)
  show "case MaybeFSpan (row_sel sel d k m) dim (length (one_row (rows_of d ! m))) of
      Some span \<Rightarrow> length span = one_row (rows_of d ! m) ! dim | None \<Rightarrow> True"
    using row_sel_span [OF assms dim] dim row_dim_ids_length [OF assms, of dim] one_row_nth(1) [of _ "rows_of d ! m"] one_row_nth(2) [of "rows_of d ! m"]
    by (auto simp: k less_Suc_eq)
qed

text \<open>The spans of the row, with the row itself at place 0.\<close>

definition local_row :: "selection \<Rightarrow> ResultShapeData \<Rightarrow> nat \<Rightarrow> nat \<Rightarrow> span_pairs list \<Rightarrow> span_pairs list" where
  "local_row sel d k m L = L @ [[\<lparr>disk = [row_ids sel k (nRows d) ! m], mem = [0]\<rparr>]]"

lemma decomposition_row:
  assumes "is_row sel d k m" and "row_decomposition sel d k m L"
  shows "decomposition (row_sel sel d k m) (one_row (rows_of d ! m)) (local_row sel d k m L)"
proof -
  have L: "length L = k" "\<And>dim. dim < k \<Longrightarrow> decomposes False (row_dim_ids sel d (rows_of d ! m) m dim) (L ! dim)"
    using assms(2) by (auto simp: row_decomposition_def list_all2_conv_all_nth)
  have one: "decomposes True [x] [\<lparr>disk = [x], mem = [0]\<rparr>]" for x
    by (auto simp: decomposes_def range_ok_def)
  have "decomposes (dim = k) (disk_ids (row_sel sel d k m) (one_row (rows_of d ! m)) dim) (local_row sel d k m L ! dim)"
    if "dim < Suc k" for dim
    unfolding disk_ids_row [OF assms(1) that]
    using that L one by (cases "dim < k") (auto simp: local_row_def nth_append less_Suc_eq)
  then show ?thesis by (simp add: decomposition_def local_row_def L(1) is_row_shape(1) [OF assms(1)])
qed

lemma FlatOffset_cell:
  assumes "is_row sel d k m" and "in_box (rows_of d ! m) ix"
  shows "FlatOffset d (map int (ix @ [m])) (if IsFixed d then None else Some (RowOffsets d)) =
    Inr (row_start d m + lin (rows_of d ! m) ix)"
proof -
  note row = is_row_shape [OF assms(1)]
  note D = varying_resultD [OF row(5)]
  show ?thesis
  proof (cases "rs_shape d")
    case (Some sh)
    then have sh: "length sh = Suc k" "prod_list (butlast sh) < 2 ^ 31" "prod_list sh < 2 ^ 63"
      using row(5) by (auto simp: varying_result_def)
    then have ne: "sh \<noteq> []" by auto
    have rows: "rows_of d ! m = butlast sh" "m < last sh" using Some row(4) by (simp_all add: rows_of_def nRows_def)
    have sh_eq: "sh = butlast sh @ [last sh]" using ne by simp
    have "in_box (butlast sh @ [last sh]) (ix @ [m])" using assms(2) rows by (auto simp: in_box_snoc)
    then have "in_box sh (ix @ [m])" by (simp only: sh_eq [symmetric])
    then have "FlatOffset d (map int (ix @ [m])) None = Inr (lin sh (ix @ [m]))"
      using Some D(1) sh ne by (intro FlatOffset_lin) simp_all
    moreover have "lin sh (ix @ [m]) = prod_list (butlast sh) * m + lin (butlast sh) ix"
      using lin_snoc [of ix "butlast sh" "last sh" m] in_box_length [OF assms(2)] ne rows(1) by simp
    moreover have "row_start d m = prod_list (butlast sh) * m"
      using Some rows(2) by (simp add: row_start_def rows_of_def sum_list_replicate)
    ultimately show ?thesis using Some rows(1) by (simp add: IsFixed_def)
  next
    case None
    then obtain shs where shs: "rs_row_shapes d = Some shs" "rows_of d = shs"
      using row(5) by (auto simp: varying_result_def rows_of_def)
    have m: "m < length shs" using row(4) None shs by (simp add: nRows_def)
    have "\<forall>s \<in> set shs. s \<noteq> []" using row(3) [OF None] row(5) shs(2) by (auto simp: varying_result_def)
    then have "map shape_product (take m shs) = map prod_list (take m shs)"
      by (intro map_cong [OF refl]) (auto simp: shape_product_def dest: in_set_takeD)
    then have before: "elements_before shs m = row_start d m" by (simp only: elements_before_def row_start_def shs(2))
    have "shs ! m \<noteq> []" using row(1) row(3) [OF None] shs(2) by auto
    from FlatOffset_row_lin [OF None shs(1) m assms(2) [unfolded shs(2)] this] D(1,6,7) row(1,4) shs(2) before None
    show ?thesis by (simp add: IsFixed_def)
  qed
qed

definition row_geometry :: "ResultShapeData \<Rightarrow> nat \<Rightarrow> span_pairs \<Rightarrow> chunk_geometry" where
  "row_geometry d m t =
     \<lparr>g_buffer = strides_from 1 (one_row (rows_of d ! m)), g_chunk = strides_from 1 (map (\<lambda>sp. length (mem sp)) t),
      g_min = map min_mem t, g_offset = row_start d m + lin (rows_of d ! m) (map min_mem (butlast t))\<rparr>"

lemma make_geometry_row:
  assumes "is_row sel d k m" and "tuple_ok (row_sel sel d k m) (one_row (rows_of d ! m)) (ts @ [\<lparr>disk = [x], mem = [0]\<rparr>])"
  shows "make_geometry d (if IsFixed d then None else Some (RowOffsets d)) (ts @ [\<lparr>disk = [x], mem = [m]\<rparr>]) =
    Inr (row_geometry d m (ts @ [\<lparr>disk = [x], mem = [m]\<rparr>]))"
proof -
  let ?t = "ts @ [\<lparr>disk = [x], mem = [m]\<rparr>]"
  note row = is_row_shape [OF assms(1)]
  have len: "length ts = k" using tuple_ok_length [OF assms(2)] row(1) by simp
  have "in_box (rows_of d ! m @ [1]) (map min_mem ts @ [min_mem \<lparr>disk = [x], mem = [0]\<rparr>])"
    using min_mem_in_box [OF assms(2)] by (simp add: one_row_def)
  then have box: "in_box (rows_of d ! m) (map min_mem ts)" unfolding in_box_snoc by auto
  have mins: "map min_mem ?t = map min_mem ts @ [m]" by (simp add: min_mem_def)
  have offset: "FlatOffset d (map int (map min_mem ?t)) (if IsFixed d then None else Some (RowOffsets d)) =
      Inr (row_start d m + lin (rows_of d ! m) (map min_mem ts))"
    unfolding mins by (rule FlatOffset_cell [OF assms(1) box])
  have buffer: "(case rs_shape d of Some sh \<Rightarrow> make_strides sh (Suc k)
      | None \<Rightarrow> make_strides (rows_of d ! m) (Suc k)) = Inr (strides_from 1 (one_row (rows_of d ! m)))"
  proof (cases "rs_shape d")
    case (Some sh)
    then have sh: "length sh = Suc k" "rows_of d ! m = butlast sh" using row(4,5) by (auto simp: varying_result_def rows_of_def nRows_def)
    then have "sh = butlast sh @ [last sh]" by (metis append_butlast_last_id length_0_conv nat.distinct(1))
    then show ?thesis using Some make_strides_eq [of "butlast sh" "[last sh]" 1] sh by (simp add: one_row_def)
  next
    case None
    with make_strides_eq [of "rows_of d ! m" "[]" 1] row(1) show ?thesis by (simp add: one_row_def)
  qed
  have chunk: "make_strides (map (\<lambda>sp. length (mem sp)) ?t) (Suc k) = Inr (strides_from 1 (map (\<lambda>sp. length (mem sp)) ?t))"
    using make_strides_full [of "map (\<lambda>sp. length (mem sp)) ?t"] len by simp
  show ?thesis
  proof (cases "rs_shape d")
    case (Some sh)
    with buffer chunk offset len show ?thesis
      by (simp add: make_geometry_def Let_def row_geometry_def del: map_append)
  next
    case None
    then have "at (the (rs_row_shapes d)) m = Inr (rows_of d ! m)" using row(4) by (simp add: rows_of_def nRows_def)
    with None buffer chunk offset len show ?thesis
      by (simp add: make_geometry_def Let_def row_geometry_def nth_append del: map_append)
  qed
qed

text \<open>The chunks of row \<open>m\<close>: moved to place 0, they are the partition of a result of this row.\<close>

definition row_chunks :: "selection \<Rightarrow> ResultShapeData \<Rightarrow> nat \<Rightarrow> nat \<Rightarrow> DataChunk list \<Rightarrow> bool" where
  "row_chunks sel d k m chs \<longleftrightarrow> (\<forall>ch \<in> set chs. in_row (row_start d m) m ch) \<and>
     (\<exists>L. chunks_of (row_sel sel d k m) (one_row (rows_of d ! m)) L (map (local_chunk (row_start d m)) chs))"

lemma chunk_in_row:
  assumes "chunk_is ch (ts @ [\<lparr>disk = [x], mem = [m]\<rparr>]) (row_geometry d m (ts @ [\<lparr>disk = [x], mem = [m]\<rparr>])) flag"
    and "length (rows_of d ! m) = length ts"
  shows "in_row (row_start d m) m ch"
    and "chunk_is (local_chunk (row_start d m) ch) (ts @ [\<lparr>disk = [x], mem = [0]\<rparr>])
      (fixed_geometry (one_row (rows_of d ! m)) (ts @ [\<lparr>disk = [x], mem = [0]\<rparr>])) flag"
proof -
  have ch: "DimensionSpans ch = ts @ [\<lparr>disk = [x], mem = [m]\<rparr>]" "nDim ch = Suc (length ts)"
    "MinMemIndex ch = map min_mem ts @ [m]" "BufferStrides ch = strides_from 1 (one_row (rows_of d ! m))"
    "ChunkStrides ch = strides_from 1 (map (\<lambda>sp. length (mem sp)) (ts @ [\<lparr>disk = [x], mem = [m]\<rparr>]))"
    "ChunkOffset ch = row_start d m + lin (rows_of d ! m) (map min_mem ts)" "IsContiguous ch = flag"
    using assms(1) by (auto simp: chunk_is_def row_geometry_def min_mem_def)
  show row: "in_row (row_start d m) m ch" using ch assms(2) by (simp add: in_row_def)
  have "lin (rows_of d ! m @ [1]) (map min_mem ts @ [0]) = lin (rows_of d ! m) (map min_mem ts)"
    using assms(2) by (subst lin_snoc) simp_all
  then show "chunk_is (local_chunk (row_start d m) ch) (ts @ [\<lparr>disk = [x], mem = [0]\<rparr>])
      (fixed_geometry (one_row (rows_of d ! m)) (ts @ [\<lparr>disk = [x], mem = [0]\<rparr>])) flag"
    using ch by (simp add: chunk_is_def local_chunk_simps [OF row] local_spans_def fixed_geometry_def min_mem_def one_row_def)
qed

lemma product_lists_snoc: "product_lists (L @ [[x]]) = map (\<lambda>t. t @ [x]) (product_lists L)"
  by (induction L) (simp_all add: map_concat comp_def)

lemma row_chunks_intro:
  assumes "is_row sel d k m" and "row_decomposition sel d k m L" and "disk rows ! r = row_ids sel k (nRows d) ! m"
    and "mem rows ! r = m" and "length chs = length (product_lists (row_spans rows r L))"
    and "\<forall>c < length chs. chunk_is (chs ! c) (product_lists (row_spans rows r L) ! c)
      (row_geometry d m (product_lists (row_spans rows r L) ! c)) (snd (CartesianProduct (row_spans rows r L)) ! c)"
  shows "row_chunks sel d k m chs"
proof -
  let ?x = "row_ids sel k (nRows d) ! m" and ?sh = "one_row (rows_of d ! m)" and ?sel = "row_sel sel d k m"
  note dec = decomposition_row [OF assms(1,2)]
  note row = is_row_shape [OF assms(1)]
  have len: "length L = k" using assms(2) by (auto simp: row_decomposition_def dest: list_all2_lengthD)
  have spans: "row_spans rows r L = L @ [[\<lparr>disk = [?x], mem = [m]\<rparr>]]" by (simp add: row_spans_def assms(3,4))
  have prods: "product_lists (row_spans rows r L) = map (\<lambda>t. t @ [\<lparr>disk = [?x], mem = [m]\<rparr>]) (product_lists L)"
    "product_lists (local_row sel d k m L) = map (\<lambda>t. t @ [\<lparr>disk = [?x], mem = [0]\<rparr>]) (product_lists L)"
    by (simp_all add: spans local_row_def product_lists_snoc)
  have "\<forall>sps \<in> set L. sps \<noteq> []"
    using assms(2) by (auto simp: row_decomposition_def decomposes_def list_all2_conv_all_nth in_set_conv_nth)
  then have ne: "\<forall>sps \<in> set (row_spans rows r L). sps \<noteq> []" "row_spans rows r L \<noteq> []" by (auto simp: spans)
  have each: "in_row (row_start d m) m (chs ! c) \<and> tuple_ok ?sel ?sh (product_lists (local_row sel d k m L) ! c) \<and>
      chunk_is (local_chunk (row_start d m) (chs ! c)) (product_lists (local_row sel d k m L) ! c)
        (fixed_geometry ?sh (product_lists (local_row sel d k m L) ! c))
        (SecondaryDimensionsContiguous (local_row sel d k m L) \<and> IsMemoryContiguous (last (product_lists (local_row sel d k m L) ! c)))"
    if c: "c < length chs" for c
  proof -
    have cl: "c < length (product_lists L)" "c < length (product_lists (row_spans rows r L))" using c assms(5) prods by auto
    let ?ts = "product_lists L ! c"
    have "?ts \<in> set (product_lists L)" using cl by simp
    then have lts: "length ?ts = k" using len by (auto simp: in_product_lists dest: list_all2_lengthD)
    have ch: "chunk_is (chs ! c) (?ts @ [\<lparr>disk = [?x], mem = [m]\<rparr>]) (row_geometry d m (?ts @ [\<lparr>disk = [?x], mem = [m]\<rparr>]))
        (SecondaryDimensionsContiguous (row_spans rows r L) \<and> IsMemoryContiguous \<lparr>disk = [?x], mem = [m]\<rparr>)"
      using assms(6) [rule_format, OF c] flags_CartesianProduct(2) [OF ne(2,1) cl(2)] cl(1) by (simp only: prods nth_map last_snoc)
    have flag: "SecondaryDimensionsContiguous (row_spans rows r L) = SecondaryDimensionsContiguous (local_row sel d k m L)"
      "IsMemoryContiguous \<lparr>disk = [?x], mem = [m]\<rparr> = IsMemoryContiguous \<lparr>disk = [?x], mem = [0]\<rparr>"
      by (simp_all add: spans local_row_def SecondaryDimensionsContiguous_def IsMemoryContiguous_def)
    have "tuple_ok ?sel ?sh (product_lists (local_row sel d k m L) ! c)"
      using cl(1) by (intro tuple_ok_product [OF dec sel_fits_row [OF assms(1)]]) (simp_all add: row prods)
    then show ?thesis using chunk_in_row [OF ch] lts row(1) cl(1) by (simp add: prods flag)
  qed
  then have "chunks_of ?sel ?sh (local_row sel d k m L) (map (local_chunk (row_start d m)) chs)"
    using dec assms(5) by (simp add: chunks_of_def prods)
  with each show ?thesis by (auto simp: row_chunks_def in_set_conv_nth)
qed

lemma list_all2_concat:
  "list_all2 Q cs (concat xss) \<Longrightarrow> \<exists>css. cs = concat css \<and> list_all2 (list_all2 Q) css xss"
proof (induction xss arbitrary: cs)
  case (Cons xs xss)
  then obtain c1 c2 where c: "cs = c1 @ c2" "list_all2 Q c1 xs" "list_all2 Q c2 (concat xss)"
    by (auto simp: list_all2_append2)
  from Cons.IH [OF c(3)] obtain css where "c2 = concat css" "list_all2 (list_all2 Q) css xss" by blast
  with c show ?case by (intro exI [of _ "c1 # css"]) simp
qed simp

lemma zip_concat_map2:
  "list_all2 (\<lambda>x y. length x = length y) xss yss \<Longrightarrow> zip (concat xss) (concat yss) = concat (map2 zip xss yss)"
  by (induction xss yss rule: list_all2_induct) simp_all

text \<open>The tuples of all rows, and the chunks made of them.\<close>

lemma row_tuple:
  assumes "is_row sel d k m" and "row_decomposition sel d k m L" and "disk rows ! r = row_ids sel k (nRows d) ! m"
    and "mem rows ! r = m" and "t \<in> set (product_lists (row_spans rows r L))"
  shows "length t = Suc k" and "hd (mem (last t)) = m"
    and "make_geometry d (if IsFixed d then None else Some (RowOffsets d)) t = Inr (row_geometry d m t)"
proof -
  let ?x = "row_ids sel k (nRows d) ! m"
  have len: "length L = k" using assms(2) by (auto simp: row_decomposition_def dest: list_all2_lengthD)
  obtain ts where t: "t = ts @ [\<lparr>disk = [?x], mem = [m]\<rparr>]" and ts: "ts \<in> set (product_lists L)"
    using assms(3-5) by (auto simp: row_spans_def product_lists_snoc)
  then show "length t = Suc k" "hd (mem (last t)) = m" using len by (auto simp: in_product_lists dest: list_all2_lengthD)
  have "ts @ [\<lparr>disk = [?x], mem = [0]\<rparr>] \<in> set (product_lists (local_row sel d k m L))"
    using ts by (simp add: local_row_def product_lists_snoc)
  then have "tuple_ok (row_sel sel d k m) (one_row (rows_of d ! m)) (ts @ [\<lparr>disk = [?x], mem = [0]\<rparr>])"
    using is_row_shape(2) [OF assms(1)]
    by (intro tuple_ok_product [OF decomposition_row [OF assms(1,2)] sel_fits_row [OF assms(1)]]) simp_all
  from make_geometry_row [OF assms(1) this]
  show "make_geometry d (if IsFixed d then None else Some (RowOffsets d)) t = Inr (row_geometry d m t)" by (simp only: t)
qed

lemma MakeDataChunks_rows:
  assumes "\<forall>r \<in> set rs. is_row sel d k (mem rows ! r) \<and> disk rows ! r = row_ids sel k (nRows d) ! (mem rows ! r)"
    and "list_all2 (\<lambda>r. row_decomposition sel d k (mem rows ! r)) rs Ls" and "rs \<noteq> []"
    and "tuples = concat (map2 (\<lambda>r L. product_lists (row_spans rows r L)) rs Ls)"
    and "flags = concat (map2 (\<lambda>r L. snd (CartesianProduct (row_spans rows r L))) rs Ls)"
  shows "tuples \<noteq> [] \<and> (\<exists>css. MakeDataChunks tuples flags d = Inr (concat css) \<and>
    list_all2 (\<lambda>r chs. row_chunks sel d k (mem rows ! r) chs \<and> chs \<noteq> []) rs css)"
proof -
  let ?Ps = "map2 (\<lambda>r L. product_lists (row_spans rows r L)) rs Ls"
    and ?Fs = "map2 (\<lambda>r L. snd (CartesianProduct (row_spans rows r L))) rs Ls"
    and ?g = "\<lambda>t. row_geometry d (hd (mem (last t))) t"
  have len: "length Ls = length rs" using assms(2) by (simp add: list_all2_lengthD)
  have row: "is_row sel d k (mem rows ! (rs ! j))" "disk rows ! (rs ! j) = row_ids sel k (nRows d) ! (mem rows ! (rs ! j))"
    "row_decomposition sel d k (mem rows ! (rs ! j)) (Ls ! j)" if "j < length rs" for j
    using assms(1,2) that by (auto simp: list_all2_conv_all_nth)
  have spans: "\<forall>sps \<in> set (row_spans rows (rs ! j) (Ls ! j)). sps \<noteq> []" "row_spans rows (rs ! j) (Ls ! j) \<noteq> []" if "j < length rs" for j
    using row(3) [OF that] by (auto simp: row_spans_def row_decomposition_def decomposes_def list_all2_conv_all_nth in_set_conv_nth)
  have pj: "?Ps ! j = product_lists (row_spans rows (rs ! j) (Ls ! j))" "?Fs ! j = snd (CartesianProduct (row_spans rows (rs ! j) (Ls ! j)))"
    if "j < length rs" for j
    using that len by simp_all
  have ne: "?Ps ! j \<noteq> []" "length (?Ps ! j) = length (?Fs ! j)" if "j < length rs" for j
    unfolding pj [OF that] using product_lists_ne [OF spans(1) [OF that]] flags_CartesianProduct(1) [OF spans(2,1) [OF that]] by simp_all
  have "?Ps ! 0 \<in> set ?Ps" by (rule nth_mem) (use assms(3) len in simp)
  moreover have "?Ps ! 0 \<noteq> []" by (rule ne(1)) (use assms(3) in simp)
  ultimately have tuples: "tuples \<noteq> []" unfolding assms(4) concat_eq_Nil_conv by blast
  have tup: "length t = Suc k \<and> make_geometry d (if IsFixed d then None else Some (RowOffsets d)) t = Inr (?g t)" if "t \<in> set tuples" for t
  proof -
    from that obtain P where "P \<in> set ?Ps" "t \<in> set P" unfolding assms(4) by auto
    then obtain j where "j < length ?Ps" "P = ?Ps ! j" by (metis in_set_conv_nth)
    with \<open>t \<in> set P\<close> have j: "j < length rs" "t \<in> set (?Ps ! j)" using len by simp_all
    from row_tuple [OF row(1,3,2) [OF j(1)] refl j(2) [unfolded pj [OF j(1)]]] show ?thesis by simp
  qed
  have "rmapM (make_geometry d (if IsFixed d then None else Some (RowOffsets d))) tuples = Inr (map ?g tuples)"
    using tup by (intro rmapM_map) simp
  from MakeDataChunks_Inr [OF this tuples, of "Suc k" flags] tup obtain chunks where
    chunks: "MakeDataChunks tuples flags d = Inr chunks" "length chunks = length tuples"
    "\<forall>c < length tuples. chunk_is (chunks ! c) (tuples ! c) (map ?g tuples ! c) (flags ! c)" by blast
  have lens: "list_all2 (\<lambda>x y. length x = length y) ?Ps ?Fs" using len ne(2) by (simp add: list_all2_conv_all_nth)
  then have "length tuples = length flags"
    unfolding assms(4,5) length_concat by (intro arg_cong [of _ _ sum_list]) (simp add: list_eq_iff_nth_eq list_all2_conv_all_nth)
  then have "list_all2 (\<lambda>ch (t, f). chunk_is ch t (?g t) f) chunks (zip tuples flags)"
    using chunks(2,3) by (simp add: list_all2_conv_all_nth)
  then have "list_all2 (\<lambda>ch (t, f). chunk_is ch t (?g t) f) chunks (concat (map2 zip ?Ps ?Fs))"
    unfolding assms(4,5) zip_concat_map2 [OF lens] .
  from list_all2_concat [OF this] obtain css where css: "chunks = concat css"
    "list_all2 (list_all2 (\<lambda>ch (t, f). chunk_is ch t (?g t) f)) css (map2 zip ?Ps ?Fs)" by blast
  have lc: "length css = length rs" using css(2) len by (auto dest: list_all2_lengthD)
  have "row_chunks sel d k (mem rows ! (rs ! j)) (css ! j) \<and> css ! j \<noteq> []" if j: "j < length rs" for j
  proof -
    have "map2 zip ?Ps ?Fs ! j = zip (?Ps ! j) (?Fs ! j)" using j len by simp
    moreover have "j < length (map2 zip ?Ps ?Fs)" using j len by simp
    ultimately have "list_all2 (\<lambda>ch (t, f). chunk_is ch t (?g t) f) (css ! j) (zip (?Ps ! j) (?Fs ! j))"
      using list_all2_nthD2 [OF css(2), of j] by (simp only:)
    then have cj: "length (css ! j) = length (?Ps ! j)"
      "\<forall>c < length (css ! j). chunk_is (css ! j ! c) (?Ps ! j ! c) (?g (?Ps ! j ! c)) (?Fs ! j ! c)"
      using ne(2) [OF j] by (auto simp: list_all2_conv_all_nth)
    have "row_chunks sel d k (mem rows ! (rs ! j)) (css ! j)"
    proof (rule row_chunks_intro [OF row(1,3,2) [OF j] refl])
      show "length (css ! j) = length (product_lists (row_spans rows (rs ! j) (Ls ! j)))" using cj(1) pj [OF j] by simp
      show "\<forall>c < length (css ! j). chunk_is (css ! j ! c) (product_lists (row_spans rows (rs ! j) (Ls ! j)) ! c)
          (row_geometry d (mem rows ! (rs ! j)) (product_lists (row_spans rows (rs ! j) (Ls ! j)) ! c))
          (snd (CartesianProduct (row_spans rows (rs ! j) (Ls ! j))) ! c)"
        using cj row_tuple(2) [OF row(1,3,2) [OF j] refl] unfolding pj [OF j] by simp
    qed
    with cj(1) ne(1) [OF j] show ?thesis by auto
  qed
  then have "list_all2 (\<lambda>r chs. row_chunks sel d k (mem rows ! r) chs \<and> chs \<noteq> []) rs css"
    using lc by (simp add: list_all2_conv_all_nth)
  with tuples chunks(1) css(1) show ?thesis by blast
qed

text \<open>The partition, row after row in the order of the table rows.\<close>

definition no_row_duplicates :: "selection \<Rightarrow> ResultShapeData \<Rightarrow> nat \<Rightarrow> bool" where
  "no_row_duplicates sel d k \<longleftrightarrow> (\<forall>m < nRows d. row_distinct sel d k m)"

definition rows_partition :: "selection \<Rightarrow> ResultShapeData \<Rightarrow> nat \<Rightarrow> DataChunk list \<Rightarrow> bool" where
  "rows_partition sel d k chunks \<longleftrightarrow>
     (\<exists>ms css. mset ms = mset [0..<nRows d] \<and> chunks = concat css \<and>
        list_all2 (\<lambda>m chs. row_chunks sel d k m chs \<and> chs \<noteq> []) ms css)"

lemma Make_varying:
  assumes "varying_result sel d k" and "rows_fit sel d k"
  shows "(case Make string_size sel d opts of
            Inr p \<Rightarrow> no_row_duplicates sel d k \<and> dp_dtype p = rs_dtype d \<and> rows_partition sel d k (data_chunks p)
          | Inl e \<Rightarrow> \<not> no_row_duplicates sel d k)"
proof -
  let ?n = "nRows d" and ?rows = "MakeSortedIndices (row_ids sel k (nRows d))"
  note D = varying_resultD [OF assms(1)]
  obtain m where m: "MaxDimensionSize d = Inr m" "?n \<le> m" "\<forall>i < ?n. \<forall>dim < k. rows_of d ! i ! dim \<le> m"
    using varying_result_sizes [OF assms(1)] by blast
  have nd: "ConsistentNDim d = Inr (Suc k)" using D(1) by (simp add: ConsistentNDim_def nat_add_distrib)
  have ids: "length (row_ids sel k ?n) = ?n" using assms(2) by (simp add: rows_fit_def)
  have rows: "GetSpanPair sel (Suc k) [0..<m] k ?n = ?rows"
    using GetSpanPair_eq [of "replicate k 0 @ [?n]" k m sel] m(2)
    by (simp add: nth_append disk_ids_def row_ids_def cong: option.case_cong)
  have perm: "\<forall>i \<in> set (mem ?rows). i < ?n" "length (disk ?rows) = ?n" "length (mem ?rows) = ?n"
    using ids by (auto simp: sorted_ids.set_mem)
  have cache: "rs_cell_extents d = None \<and> Map.empty = (Map.empty :: padded_cache) \<or>
      padded_ok (butlast (GetShape d)) Map.empty \<and> rs_shape d \<noteq> None"
    using assms(1) by (cases "rs_shape d") (auto simp: varying_result_def)
  note vr = varying_rows_ok [OF assms(1) m(3) perm(2,3,1), of "[0..<?n]", OF _ cache]
  have make: "Make string_size sel d opts =
      rbind (varying_rows d sel (Suc k) [0..<m] ?rows [0..<?n] Map.empty) (\<lambda>(spans, contiguous).
        if spans = [] then Inl (Invalid [Str ''Data partition produced no chunks!''])
        else rbind (MakeDataChunks spans contiguous d) (\<lambda>chunks. Inr \<lparr>data_chunks = chunks, dp_dtype = rs_dtype d\<rparr>))"
    using D(9) by (simp only: Make_def m(1) nd rbind.simps Let_def if_False diff_Suc_1 rows)
  have all: "(\<forall>r \<in> set [0..<?n]. row_distinct sel d k (mem ?rows ! r)) \<longleftrightarrow> no_row_duplicates sel d k"
  proof -
    have "(\<lambda>r. mem ?rows ! r) ` {0..<?n} = {0..<?n}"
      using sorted_ids.set_mem [of "row_ids sel k ?n"] ids perm(3) by (metis map_nth set_map set_upt)
    then have "(\<forall>m \<in> {0..<?n}. row_distinct sel d k m) \<longleftrightarrow> (\<forall>m \<in> (\<lambda>r. mem ?rows ! r) ` {0..<?n}. row_distinct sel d k m)"
      by (simp only:)
    moreover have "no_row_duplicates sel d k \<longleftrightarrow> (\<forall>m \<in> {0..<?n}. row_distinct sel d k m)"
      by (auto simp: no_row_duplicates_def)
    ultimately show ?thesis by (simp only: set_upt ball_simps)
  qed
  show ?thesis
  proof (cases "varying_rows d sel (Suc k) [0..<m] ?rows [0..<?n] Map.empty")
    case (Inl e)
    then have "\<not> no_row_duplicates sel d k" using vr all by (simp only: sum.case set_upt) simp
    with Inl show ?thesis by (simp add: make)
  next
    case (Inr z)
    obtain spans flags where z: "z = (spans, flags)" by (cases z) auto
    from vr Inr z obtain Ls where distinct: "no_row_duplicates sel d k"
      and Ls: "list_all2 (\<lambda>r. row_decomposition sel d k (mem ?rows ! r)) [0..<?n] Ls"
        "spans = concat (map2 (\<lambda>r L. product_lists (row_spans ?rows r L)) [0..<?n] Ls)"
        "flags = concat (map2 (\<lambda>r L. snd (CartesianProduct (row_spans ?rows r L))) [0..<?n] Ls)"
      using all by auto
    have "\<forall>r \<in> set [0..<?n]. is_row sel d k (mem ?rows ! r) \<and> disk ?rows ! r = row_ids sel k ?n ! (mem ?rows ! r)"
      using perm ids assms by (auto simp: is_row_def sorted_ids.disk_nth)
    from MakeDataChunks_rows [OF this Ls(1) _ Ls(2,3)] D(3) obtain css where
      css: "spans \<noteq> []" "MakeDataChunks spans flags d = Inr (concat css)"
      "list_all2 (\<lambda>r chs. row_chunks sel d k (mem ?rows ! r) chs \<and> chs \<noteq> []) [0..<?n] css" by auto
    from css(3) have "list_all2 (\<lambda>m chs. row_chunks sel d k m chs \<and> chs \<noteq> []) (map ((!) (mem ?rows)) [0..<?n]) css"
      by (simp only: list_all2_map1)
    then have "list_all2 (\<lambda>m chs. row_chunks sel d k m chs \<and> chs \<noteq> []) (mem ?rows) css"
      using map_nth [of "mem ?rows"] perm(3) by (simp only:)
    moreover have "mset (mem ?rows) = mset [0..<?n]" using sorted_ids.perm [of "row_ids sel k ?n"] ids by simp
    ultimately have "rows_partition sel d k (concat css)" unfolding rows_partition_def by blast
    with Inr z css(1,2) distinct show ?thesis by (simp add: make)
  qed
qed

end
