(* ===== verification/RowRead.thy ===== *)
theory RowRead
  imports RowPartition
begin

text \<open>
  Reading a result that is partitioned row by row: what \<open>ReadChunks\<close> leaves in the buffer, in
  whatever order the chunks are read. The chunks of a row are those of a fixed result of this
  row, so the lemmas of \<open>ColumnRead\<close> apply to the part of the buffer where the row lies.
\<close>

section \<open>Positions in the buffer\<close>

text \<open>The indices of a result, the row last, in the order of the buffer.\<close>

definition row_positions :: "ResultShapeData \<Rightarrow> nat list list" where
  "row_positions d = concat (map (\<lambda>m. map (\<lambda>idx. idx @ [m]) (box (rows_of d ! m))) [0..<nRows d])"

text \<open>The index on disk of the element at an index of the result.\<close>

definition row_disk_index :: "selection \<Rightarrow> ResultShapeData \<Rightarrow> nat list \<Rightarrow> index list" where
  "row_disk_index sel d pos =
     (let m = last pos; k = length pos - 1
      in map (\<lambda>dim. row_dim_ids sel d (rows_of d ! m) m dim ! (pos ! dim)) [0..<k] @ [row_ids sel k (nRows d) ! m])"

text \<open>The buffer a read should leave, and the number of elements it should read.\<close>

definition rows_buffer :: "selection \<Rightarrow> ResultShapeData \<Rightarrow> (int \<Rightarrow> int list \<Rightarrow> 'a) \<Rightarrow> 'a list \<Rightarrow> 'a list" where
  "rows_buffer sel d cell buffer =
     map2 (\<lambda>pos x. if \<forall>i \<in> set (row_disk_index sel d pos). 0 \<le> i then cell_at cell (row_disk_index sel d pos) else x)
       (row_positions d) buffer"

lemma nth_concat_block:
  "m < length xss \<Longrightarrow> a < length (xss ! m) \<Longrightarrow>
   concat xss ! (sum_list (map length (take m xss)) + a) = xss ! m ! a \<and>
   sum_list (map length (take m xss)) + length (xss ! m) \<le> length (concat xss)"
proof (induction xss arbitrary: m)
  case (Cons xs xss)
  then show ?case by (cases m) (auto simp: nth_append)
qed simp

lemma concat_block:
  "a < length (concat xss) \<Longrightarrow>
   \<exists>m b. m < length xss \<and> b < length (xss ! m) \<and> a = sum_list (map length (take m xss)) + b"
proof (induction xss arbitrary: a)
  case (Cons xs xss)
  show ?case
  proof (cases "a < length xs")
    case True
    then show ?thesis by (intro exI [of _ 0] exI [of _ a]) auto
  next
    case False
    with Cons.prems have "a - length xs < length (concat xss)" by simp
    from Cons.IH [OF this] obtain m b where "m < length xss" "b < length (xss ! m)"
      "a - length xs = sum_list (map length (take m xss)) + b" by blast
    with False show ?thesis by (intro exI [of _ "Suc m"] exI [of _ b]) simp
  qed
qed simp

lemma row_blocks:
  assumes "m \<le> nRows d"
  shows "sum_list (map length (take m (map (\<lambda>m. map (\<lambda>idx. idx @ [m]) (box (rows_of d ! m))) [0..<nRows d]))) = row_start d m"
proof -
  have "map length (take m (map (\<lambda>m. map (\<lambda>idx. idx @ [m]) (box (rows_of d ! m))) [0..<nRows d])) =
      map prod_list (take m (rows_of d))"
    using assms by (intro nth_equalityI) (simp_all add: length_rows_of)
  then show ?thesis by (simp only: row_start_def)
qed

lemma row_positions_nth:
  assumes "m < nRows d" and "a < prod_list (rows_of d ! m)"
  shows "row_positions d ! (row_start d m + a) = box (rows_of d ! m) ! a @ [m]"
    and "row_start d m + prod_list (rows_of d ! m) \<le> length (row_positions d)"
proof -
  let ?xss = "map (\<lambda>m. map (\<lambda>idx. idx @ [m]) (box (rows_of d ! m))) [0..<nRows d]"
  have m: "m < length ?xss" "a < length (?xss ! m)" using assms by simp_all
  note block = nth_concat_block [OF m, unfolded row_blocks [OF less_imp_le [OF assms(1)]], folded row_positions_def]
  from block show "row_positions d ! (row_start d m + a) = box (rows_of d ! m) ! a @ [m]"
    using assms by simp
  from block show "row_start d m + prod_list (rows_of d ! m) \<le> length (row_positions d)" using assms by simp
qed

lemma row_positions_split:
  assumes "a < length (row_positions d)"
  obtains m b where "m < nRows d" and "b < prod_list (rows_of d ! m)" and "a = row_start d m + b"
proof -
  let ?xss = "map (\<lambda>m. map (\<lambda>idx. idx @ [m]) (box (rows_of d ! m))) [0..<nRows d]"
  from concat_block [of a ?xss] assms obtain m b where
    "m < length ?xss" "b < length (?xss ! m)" "a = sum_list (map length (take m ?xss)) + b" by (auto simp: row_positions_def)
  then show thesis using that [of m b] row_blocks [of m d] by simp
qed

lemma length_row_positions: "length (row_positions d) = sum_list (map prod_list (rows_of d))"
proof -
  have "length (row_positions d) = row_start d (nRows d)"
    using row_blocks [of "nRows d" d] by (simp add: row_positions_def length_concat)
  then show ?thesis by (simp add: row_start_def flip: length_rows_of)
qed

lemma box_one_row:
  assumes "a < prod_list sh"
  shows "box (one_row sh) ! a = box sh ! a @ [0]"
  using assms by (simp add: one_row_def box_snoc)

lemma disk_index_row:
  assumes "is_row sel d k m" and "length idx = k"
  shows "disk_index (row_sel sel d k m) (one_row (rows_of d ! m)) (idx @ [0]) = row_disk_index sel d (idx @ [m])"
proof (rule nth_equalityI)
  note k = is_row_shape(1) [OF assms(1)]
  show "length (disk_index (row_sel sel d k m) (one_row (rows_of d ! m)) (idx @ [0])) = length (row_disk_index sel d (idx @ [m]))"
    by (simp add: disk_index_def row_disk_index_def Let_def assms(2) k)
  fix dim assume "dim < length (disk_index (row_sel sel d k m) (one_row (rows_of d ! m)) (idx @ [0]))"
  then have dim: "dim < Suc k" by (simp add: disk_index_def k)
  show "disk_index (row_sel sel d k m) (one_row (rows_of d ! m)) (idx @ [0]) ! dim = row_disk_index sel d (idx @ [m]) ! dim"
    using dim disk_ids_row [OF assms(1) dim]
    by (auto simp: disk_index_def row_disk_index_def Let_def assms(2) k nth_append less_Suc_eq simp del: upt_Suc)
qed

section \<open>Reading the rows\<close>

lemma chunk_reads_local:
  assumes "in_row base m ch" and "chunk_reads n sz rd f P (local_chunk base ch)" and "base + n \<le> N"
    and "\<forall>a < n. g (base + a) = f a"
  shows "chunk_reads N sz rd g {base + a | a. a < n \<and> a \<in> P} ch"
  unfolding chunk_reads_def
proof (intro allI impI)
  fix buffer :: "'a list" and k assume len: "length buffer = N"
  let ?pre = "take base buffer" and ?sub = "subspan base n buffer" and ?post = "drop (base + n) buffer"
  let ?Q = "{base + a | a. a < n \<and> a \<in> P}"
  have split: "buffer = ?pre @ ?sub @ ?post"
    unfolding subspan_def by (metis add.commute append_take_drop_id drop_drop)
  have lens: "length ?pre = base" "length ?sub = n" using len assms(3) by simp_all
  have l: "read_chunk sz rd (local_chunk (length ?pre) ch) (?sub, k) =
      Inr (patched f P ?sub, k + (if IsEmpty (local_chunk base ch) then 0 else ChunkElements (local_chunk base ch) * sz))"
    using chunk_readsD [OF assms(2) lens(2)] lens(1) by simp
  have row: "nDim ch = length (DimensionSpans ch)" "DimensionSpans ch \<noteq> []"
    using assms(1) by (simp_all add: in_row_def)
  note same = disks_determine [OF local_disks [OF assms(1)] local_chunk_simps(2) [OF assms(1)] row]
  have "in_row (length ?pre) m ch" using assms(1) lens(1) by simp
  from read_chunk_local [OF this l, of ?post] have
    "read_chunk sz rd ch (buffer, k) = Inr (?pre @ patched f P ?sub @ ?post, k + (if IsEmpty ch then 0 else ChunkElements ch * sz))"
    using split by (simp only: same)
  moreover have "(?pre @ patched f P ?sub @ ?post) ! a = (if a \<in> ?Q then g a else buffer ! a)" if a: "a < N" for a
  proof -
    consider "a < base" | "base \<le> a" "a < base + n" | "base + n \<le> a" by linarith
    then show ?thesis
    proof cases
      case 1
      with lens len assms(3) show ?thesis by (auto simp: nth_append)
    next
      case 2
      then obtain b where b: "a = base + b" "b < n" by (metis add_less_cancel_left le_Suc_ex)
      with lens len assms(3,4) show ?thesis by (auto simp: nth_append nth_patched)
    next
      case 3
      with lens len assms(3) a show ?thesis by (auto simp: nth_append)
    qed
  qed
  moreover have "length (?pre @ patched f P ?sub @ ?post) = N" using len assms(3) lens by simp
  ultimately show "\<exists>buffer'. read_chunk sz rd ch (buffer, k) = Inr (buffer', k + (if IsEmpty ch then 0 else ChunkElements ch * sz)) \<and>
      length buffer' = N \<and> (\<forall>a < N. buffer' ! a = (if a \<in> ?Q then g a else buffer ! a))" by blast
qed

text \<open>The places a chunk sets in the whole buffer, and the values it puts there.\<close>

definition row_of_chunk :: "DataChunk \<Rightarrow> nat" where
  "row_of_chunk ch = hd (mem (last (DimensionSpans ch)))"

definition row_places :: "ResultShapeData \<Rightarrow> DataChunk \<Rightarrow> nat set" where
  "row_places d ch =
     (let m = row_of_chunk ch; sh = rows_of d ! m
      in {row_start d m + a | a. a < prod_list sh \<and> box (one_row sh) ! a \<in> mems_read [local_chunk (row_start d m) ch]})"

abbreviation row_value :: "selection \<Rightarrow> ResultShapeData \<Rightarrow> (int \<Rightarrow> int list \<Rightarrow> 'a) \<Rightarrow> nat \<Rightarrow> 'a" where
  "row_value sel d cell a \<equiv> cell_at cell (row_disk_index sel d (row_positions d ! a))"

abbreviation row_present :: "selection \<Rightarrow> ResultShapeData \<Rightarrow> nat set" where
  "row_present sel d \<equiv> {a. \<forall>i \<in> set (row_disk_index sel d (row_positions d ! a)). 0 \<le> i}"

lemma row_position_index:
  assumes "is_row sel d k m" and "a < prod_list (rows_of d ! m)"
  shows "disk_index (row_sel sel d k m) (one_row (rows_of d ! m)) (box (one_row (rows_of d ! m)) ! a) =
    row_disk_index sel d (row_positions d ! (row_start d m + a))"
  using disk_index_row [OF assms(1), of "box (rows_of d ! m) ! a"] in_box_length [OF box_nth_in_box [OF assms(2)]]
    is_row_shape(1,4) [OF assms(1)] row_positions_nth(1) [OF _ assms(2)] box_one_row [OF assms(2)]
  by simp

lemma row_chunk_reads:
  assumes "is_row sel d k m" and "row_chunks sel d k m chs" and "ch \<in> set chs" and "reads_cells rd cell"
  shows "chunk_reads (length (row_positions d)) sz rd (row_value sel d cell) (row_places d ch) ch"
proof -
  let ?sh = "rows_of d ! m"
  from assms(2) obtain L where row: "in_row (row_start d m) m ch"
    and L: "chunks_of (row_sel sel d k m) (one_row ?sh) L (map (local_chunk (row_start d m)) chs)"
    using assms(3) by (auto simp: row_chunks_def)
  have "fixed_chunk (row_sel sel d k m) (one_row ?sh) (local_chunk (row_start d m) ch)"
    using fixed_chunks [OF L sel_fits_row [OF assms(1)]] assms(3) by simp
  note reads = fixed_chunk_reads [OF this assms(4), of sz, simplified]
  have m: "row_of_chunk ch = m" using row by (simp add: row_of_chunk_def in_row_def)
  have "prod_list ?sh \<noteq> 0" using is_row_shape(2) [OF assms(1)] by (simp add: prod_list_zero_iff)
  then have fits: "row_start d m + prod_list ?sh \<le> length (row_positions d)"
    using row_positions_nth(2) [OF is_row_shape(4) [OF assms(1)], of 0] by simp
  have "\<forall>a < prod_list ?sh. row_value sel d cell (row_start d m + a) =
      cell_at cell (disk_index (row_sel sel d k m) (one_row ?sh) (box (one_row ?sh) ! a))"
    using row_position_index [OF assms(1)] by simp
  from chunk_reads_local [OF row reads fits this] show ?thesis by (simp add: row_places_def m Let_def conj_commute)
qed

lemma row_mems:
  assumes "is_row sel d k m" and "row_chunks sel d k m chs" and "a < prod_list (rows_of d ! m)"
  shows "(\<exists>ch \<in> set chs. box (one_row (rows_of d ! m)) ! a \<in> mems_read [local_chunk (row_start d m) ch]) \<longleftrightarrow>
    row_start d m + a \<in> row_present sel d"
proof -
  let ?sh = "rows_of d ! m"
  from assms(2) obtain L where L: "chunks_of (row_sel sel d k m) (one_row ?sh) L (map (local_chunk (row_start d m)) chs)"
    by (auto simp: row_chunks_def)
  have "in_box (one_row ?sh) (box (one_row ?sh) ! a)" using assms(3) by (intro box_nth_in_box) simp
  from mems_read_chunks_of [OF L sel_fits_row [OF assms(1)] _ this] row_position_index [OF assms(1,3)]
  have "box (one_row ?sh) ! a \<in> mems_read (map (local_chunk (row_start d m)) chs) \<longleftrightarrow> row_start d m + a \<in> row_present sel d" by simp
  then show ?thesis by (auto simp: mems_read_def)
qed

lemma rows_partition_row:
  assumes "rows_partition sel d k chunks" and "m < nRows d"
  obtains chs where "row_chunks sel d k m chs" and "set chs \<subseteq> set chunks"
proof -
  from assms(1) obtain ms css where ms: "mset ms = mset [0..<nRows d]" and css: "chunks = concat css"
    "list_all2 (\<lambda>m chs. row_chunks sel d k m chs \<and> chs \<noteq> []) ms css" unfolding rows_partition_def by blast
  have "m \<in> set ms" using mset_eq_setD [OF ms] assms(2) by simp
  then obtain j where j: "j < length ms" "ms ! j = m" by (auto simp: in_set_conv_nth)
  then have "row_chunks sel d k m (css ! j)" "css ! j \<in> set css" using css(2) by (auto simp: list_all2_conv_all_nth)
  then show thesis using that css(1) by auto
qed

lemma rows_partition_chunk:
  assumes "rows_partition sel d k chunks" and "ch \<in> set chunks"
  obtains m chs where "m < nRows d" and "row_chunks sel d k m chs" and "ch \<in> set chs"
proof -
  from assms(1) obtain ms css where ms: "mset ms = mset [0..<nRows d]" and css: "chunks = concat css"
    "list_all2 (\<lambda>m chs. row_chunks sel d k m chs \<and> chs \<noteq> []) ms css" unfolding rows_partition_def by blast
  from assms(2) css(1) obtain chs where "chs \<in> set css" "ch \<in> set chs" by auto
  then obtain j where j: "j < length css" "ch \<in> set (css ! j)" by (metis in_set_conv_nth)
  then have "row_chunks sel d k (ms ! j) (css ! j)" "ms ! j \<in> set ms" using css(2) by (auto simp: list_all2_conv_all_nth)
  moreover have "set ms = {0..<nRows d}" using mset_eq_setD [OF ms] by simp
  ultimately show thesis using that j(2) by auto
qed

lemma rows_places:
  assumes "varying_result sel d k" and "rows_fit sel d k" and "rows_partition sel d k chunks" and "a < length (row_positions d)"
  shows "a \<in> (\<Union>ch \<in> set chunks. row_places d ch) \<longleftrightarrow> a \<in> row_present sel d"
proof -
  have is_row: "is_row sel d k m" if "m < nRows d" for m using assms(1,2) that by (simp add: is_row_def)
  show ?thesis
  proof
    assume "a \<in> (\<Union>ch \<in> set chunks. row_places d ch)"
    then obtain ch where ch: "ch \<in> set chunks" "a \<in> row_places d ch" by blast
    from rows_partition_chunk [OF assms(3) ch(1)] obtain m chs where
      m: "m < nRows d" "row_chunks sel d k m chs" "ch \<in> set chs" by blast
    then have "row_of_chunk ch = m" by (auto simp: row_chunks_def in_row_def row_of_chunk_def)
    with ch(2) obtain b where "a = row_start d m + b" "b < prod_list (rows_of d ! m)"
      "box (one_row (rows_of d ! m)) ! b \<in> mems_read [local_chunk (row_start d m) ch]"
      by (auto simp: row_places_def Let_def)
    with row_mems [OF is_row [OF m(1)] m(2)] m(3) show "a \<in> row_present sel d" by blast
  next
    assume p: "a \<in> row_present sel d"
    obtain m b where m: "m < nRows d" "b < prod_list (rows_of d ! m)" "a = row_start d m + b"
      using row_positions_split [OF assms(4)] by blast
    from rows_partition_row [OF assms(3) m(1)] obtain chs where chs: "row_chunks sel d k m chs" "set chs \<subseteq> set chunks" by blast
    from row_mems [OF is_row [OF m(1)] chs(1) m(2)] p m(3) obtain ch where
      ch: "ch \<in> set chs" "box (one_row (rows_of d ! m)) ! b \<in> mems_read [local_chunk (row_start d m) ch]" by blast
    have "row_of_chunk ch = m" using chs(1) ch(1) by (auto simp: row_chunks_def in_row_def row_of_chunk_def)
    with ch m have "a \<in> row_places d ch" by (auto simp: row_places_def Let_def)
    with ch(1) chs(2) show "a \<in> (\<Union>ch \<in> set chunks. row_places d ch)" by blast
  qed
qed

lemma rows_partition_reads:
  assumes "varying_result sel d k" and "rows_fit sel d k" and "rows_partition sel d k chunks"
  shows "partition_reads (length (row_positions d)) cell (row_value sel d cell) (row_present sel d) chunks"
  unfolding partition_reads_def
proof (intro exI [of _ "row_places d"] conjI allI impI ballI)
  show "chunk_reads (length (row_positions d)) sz rd (row_value sel d cell) (row_places d ch) ch"
    if "reads_cells rd cell" "ch \<in> set chunks" for rd sz ch
    using rows_partition_chunk [OF assms(3) that(2)] row_chunk_reads assms(1,2) that(1) by (metis is_row_def)
qed (rule rows_places [OF assms])

section \<open>The number of elements\<close>

definition row_elements_read :: "selection \<Rightarrow> ResultShapeData \<Rightarrow> nat" where
  "row_elements_read sel d = length (filter (\<lambda>pos. \<forall>i \<in> set (row_disk_index sel d pos). 0 \<le> i) (row_positions d))"

lemma local_elements:
  assumes "in_row base m ch"
  shows "ChunkElements (local_chunk base ch) = ChunkElements ch" and "IsEmpty (local_chunk base ch) = IsEmpty ch"
proof -
  have row: "nDim ch = length (DimensionSpans ch)" "DimensionSpans ch \<noteq> []"
    using assms by (simp_all add: in_row_def)
  show "ChunkElements (local_chunk base ch) = ChunkElements ch" "IsEmpty (local_chunk base ch) = IsEmpty ch"
    using disks_determine(1,3) [OF local_disks [OF assms] local_chunk_simps(2) [OF assms] row] by simp_all
qed

lemma row_elements:
  assumes "is_row sel d k m" and "row_chunks sel d k m chs"
  shows "sum_list (map ChunkElements chs) = prod_list (rows_of d ! m)"
    and "elements_in chs = length (filter (\<lambda>pos. \<forall>i \<in> set (row_disk_index sel d pos). 0 \<le> i)
      (map (\<lambda>idx. idx @ [m]) (box (rows_of d ! m))))"
proof -
  let ?sh = "rows_of d ! m" and ?local = "map (local_chunk (row_start d m)) chs"
  from assms(2) obtain L where L: "chunks_of (row_sel sel d k m) (one_row ?sh) L ?local" by (auto simp: row_chunks_def)
  have same: "map ChunkElements ?local = map ChunkElements chs" "map IsEmpty ?local = map IsEmpty chs"
    using assms(2) local_elements by (auto simp: row_chunks_def)
  have "sum_list (map ChunkElements ?local) = prod_list ?sh"
    using partition_elements [of "row_sel sel d k m" "one_row ?sh" L "\<lparr>data_chunks = ?local, dp_dtype = TpInt\<rparr>"]
      L sel_fits_row [OF assms(1)] by (simp add: PartitionElements_eq del: map_map)
  then show "sum_list (map ChunkElements chs) = prod_list ?sh" by (simp only: same(1))
  have "elements_in cs = sum_list (map2 (\<lambda>n e. if e then 0 else n) (map ChunkElements cs) (map IsEmpty cs))" for cs
    by (induction cs) (auto simp: elements_in_def)
  then have "elements_in chs = elements_in ?local" by (simp only: same)
  also have "\<dots> = length (filter (\<lambda>idx. \<forall>i \<in> set (disk_index (row_sel sel d k m) (one_row ?sh) idx). 0 \<le> i) (box (one_row ?sh)))"
    using elements_read_count [OF L sel_fits_row [OF assms(1)]] by (simp add: elements_in_def)
  also have "box (one_row ?sh) = map (\<lambda>idx. idx @ [0]) (box ?sh)" by (simp add: one_row_def box_snoc)
  also have "length (filter (\<lambda>idx. \<forall>i \<in> set (disk_index (row_sel sel d k m) (one_row ?sh) idx). 0 \<le> i) (map (\<lambda>idx. idx @ [0]) (box ?sh))) =
      length (filter (\<lambda>idx. \<forall>i \<in> set (row_disk_index sel d (idx @ [m])). 0 \<le> i) (box ?sh))"
  proof -
    have "disk_index (row_sel sel d k m) (one_row ?sh) (idx @ [0]) = row_disk_index sel d (idx @ [m])" if "idx \<in> set (box ?sh)" for idx
      using that is_row_shape(1) [OF assms(1)] by (intro disk_index_row [OF assms(1)]) (simp add: set_box in_box_length)
    then show ?thesis by (simp add: filter_map comp_def cong: filter_cong)
  qed
  finally show "elements_in chs = length (filter (\<lambda>pos. \<forall>i \<in> set (row_disk_index sel d pos). 0 \<le> i) (map (\<lambda>idx. idx @ [m]) (box ?sh)))"
    by (simp add: filter_map comp_def)
qed

lemma sum_list_rows:
  assumes "mset ms = mset [0..<n]" and "list_all2 (\<lambda>m chs. F chs = (G m :: nat)) ms css"
  shows "sum_list (map F css) = sum_list (map G [0..<n])"
proof -
  have "map F css = map G ms" using assms(2) by (auto simp: list_eq_iff_nth_eq list_all2_conv_all_nth)
  moreover have "sum_mset (mset (map G ms)) = sum_mset (mset (map G [0..<n]))" using assms(1) by simp
  ultimately show ?thesis by (simp only: sum_mset_sum_list)
qed

lemma rows_partition_elements:
  assumes "varying_result sel d k" and "rows_fit sel d k" and "rows_partition sel d k chunks"
  shows "sum_list (map ChunkElements chunks) = length (row_positions d)" and "elements_in chunks = row_elements_read sel d"
    and "chunks \<noteq> []"
proof -
  from assms(3) obtain ms css where ms: "mset ms = mset [0..<nRows d]" and css: "chunks = concat css"
    "list_all2 (\<lambda>m chs. row_chunks sel d k m chs \<and> chs \<noteq> []) ms css" unfolding rows_partition_def by blast
  have "set ms = {0..<nRows d}" using mset_eq_setD [OF ms] by simp
  then have is_row: "is_row sel d k m" if "m \<in> set ms" for m using that assms(1,2) by (simp add: is_row_def)
  let ?G = "\<lambda>m. length (filter (\<lambda>pos. \<forall>i \<in> set (row_disk_index sel d pos). 0 \<le> i) (map (\<lambda>idx. idx @ [m]) (box (rows_of d ! m))))"
  have "list_all2 (\<lambda>m chs. sum_list (map ChunkElements chs) = prod_list (rows_of d ! m)) ms css"
    "list_all2 (\<lambda>m chs. elements_in chs = ?G m) ms css"
    using css(2) row_elements [OF is_row] by (auto simp: list_all2_conv_all_nth)
  note sums = this [THEN sum_list_rows [OF ms]]
  have "sum_list (map ChunkElements (concat css)) = sum_list (map (\<lambda>chs. sum_list (map ChunkElements chs)) css)"
    by (induction css) auto
  also have "\<dots> = sum_list (map prod_list (map ((!) (rows_of d)) [0..<length (rows_of d)]))"
    unfolding sums(1) by (simp add: comp_def length_rows_of)
  finally show "sum_list (map ChunkElements chunks) = length (row_positions d)"
    by (simp only: css(1) map_nth length_row_positions)
  have "elements_in (concat css) = sum_list (map elements_in css)"
    by (induction css) (auto simp: elements_in_def)
  also have "\<dots> = length (filter (\<lambda>pos. \<forall>i \<in> set (row_disk_index sel d pos). 0 \<le> i) (row_positions d))"
    unfolding sums(2) row_positions_def by (simp add: filter_concat length_concat comp_def)
  finally show "elements_in chunks = row_elements_read sel d" by (simp add: css(1) row_elements_read_def)
  have "ms \<noteq> []" using varying_resultD(3) [OF assms(1)] mset_eq_length [OF ms] by auto
  then show "chunks \<noteq> []" using css by (cases css) (auto simp: list_all2_Cons2)
qed

lemma rows_buffer_patched:
  assumes "length buffer = length (row_positions d)"
  shows "rows_buffer sel d cell buffer = patched (row_value sel d cell) (row_present sel d) buffer"
  by (rule nth_equalityI) (use assms in \<open>simp_all add: rows_buffer_def nth_patched\<close>)

lemma ReadChunks_rows:
  assumes "varying_result sel d k" and "rows_fit sel d k" and "Make string_size sel d opts = Inr p"
    and "reads_cells rd cell" and "length buffer = sum_list (map prod_list (rows_of d))"
    and "CasaDataTypeSize string_size (rs_dtype d) = Inr sz" and "mset chs = mset (data_chunks p)"
  shows "ReadChunks string_size rd (dp_dtype p) (map Some chs) (buffer, n) =
    Inr (rows_buffer sel d cell buffer, n + sz * row_elements_read sel d)"
proof -
  from Make_varying [OF assms(1,2), where string_size = string_size and opts = opts] assms(3) have
    dt: "dp_dtype p = rs_dtype d" and p: "rows_partition sel d k (data_chunks p)" by auto
  have len: "length buffer = length (row_positions d)" using assms(5) by (simp add: length_row_positions)
  from partition_reads_loop [OF rows_partition_reads [OF assms(1,2) p] assms(4) mset_eq_setD [OF assms(7)] len]
    elements_in_mset [OF assms(7)] rows_partition_elements(2) [OF assms(1,2) p]
  show ?thesis
    using assms(6) by (simp add: ReadChunks_def dt DispatchCasaType_size [OF assms(6)] rows_buffer_patched [OF len])
qed

lemma rows_buffer_nth:
  assumes "m < nRows d" and "in_box (rows_of d ! m) idx" and "length buffer = sum_list (map prod_list (rows_of d))"
  shows "rows_buffer sel d cell buffer ! (row_start d m + lin (rows_of d ! m) idx) =
    (if \<forall>i \<in> set (row_disk_index sel d (idx @ [m])). 0 \<le> i
     then cell (last (row_disk_index sel d (idx @ [m]))) (butlast (row_disk_index sel d (idx @ [m])))
     else buffer ! (row_start d m + lin (rows_of d ! m) idx))"
proof -
  let ?a = "lin (rows_of d ! m) idx"
  have a: "?a < prod_list (rows_of d ! m)" by (rule lin_less [OF assms(2)])
  note pos = row_positions_nth [OF assms(1) a]
  have len: "length buffer = length (row_positions d)" using assms(3) by (simp add: length_row_positions)
  have "row_positions d ! (row_start d m + ?a) = idx @ [m]" using pos(1) box_nth_lin [OF assms(2)] by simp
  moreover have "row_start d m + ?a < length buffer" using pos(2) a len by simp
  ultimately show ?thesis unfolding rows_buffer_patched [OF len] by (simp add: nth_patched cell_at_def)
qed

section \<open>Properties\<close>

text \<open>
  C16. Reads of results whose rows vary are correct from the selection to the buffer. Making the
  partition of such a result, or of a fixed one whose cells cover the rows to a different extent,
  succeeds exactly when no row selects an index twice in a dimension. Reading its chunks in any
  order then returns: the element at an index of a row is the one the selection names in the cell
  of that row, where it has one, and elsewhere the buffer keeps what it held; each row starts after
  the elements of the rows before it; and the bytes reported are those of the elements read.
\<close>

theorem ReadChunks_reads_rows:
  assumes "varying_result sel d k" and "rows_fit sel d k" and "reads_cells rd cell"
    and "length buffer = sum_list (map prod_list (rows_of d))" and "CasaDataTypeSize string_size (rs_dtype d) = Inr sz"
  shows "case Make string_size sel d opts of
      Inl e \<Rightarrow> \<not> no_row_duplicates sel d k
    | Inr p \<Rightarrow> no_row_duplicates sel d k \<and>
        (\<forall>chs. mset chs = mset (data_chunks p) \<longrightarrow>
          ReadChunks string_size rd (dp_dtype p) (map Some chs) (buffer, n) =
            Inr (rows_buffer sel d cell buffer, n + sz * row_elements_read sel d)) \<and>
        (\<forall>m < nRows d. \<forall>idx. in_box (rows_of d ! m) idx \<longrightarrow>
          rows_buffer sel d cell buffer ! (row_start d m + lin (rows_of d ! m) idx) =
            (if \<forall>i \<in> set (row_disk_index sel d (idx @ [m])). 0 \<le> i
             then cell (last (row_disk_index sel d (idx @ [m]))) (butlast (row_disk_index sel d (idx @ [m])))
             else buffer ! (row_start d m + lin (rows_of d ! m) idx)))"
proof (cases "Make string_size sel d opts")
  case (Inl e)
  with Make_varying [OF assms(1,2), where string_size = string_size and opts = opts] show ?thesis by simp
next
  case (Inr p)
  with Make_varying [OF assms(1,2), where string_size = string_size and opts = opts]
    ReadChunks_rows [OF assms(1,2) Inr assms(3-5)] rows_buffer_nth [OF _ _ assms(4)]
  show ?thesis by simp
qed

text \<open>Three rows of which the second covers one of two elements, read in the order 2, 0, 1.\<close>

definition padded_result :: ResultShapeData where
  "padded_result = \<lparr>rs_name = ''DATA'', rs_shape = Some [2, 3], rs_ndim = 2, rs_dtype = TpFloat,
     rs_row_shapes = None, rs_cell_extents = Some [[2], [1], [2]]\<rparr>"

definition rows_sel :: selection where
  "rows_sel = FromInit IndexElem [[2, 0, 1]]"

lemma padded_facts:
  "varying_result rows_sel padded_result 1" "rows_fit rows_sel padded_result 1" "no_row_duplicates rows_sel padded_result 1"
proof -
  have s: "MaybeFSpan rows_sel 0 (Suc (Suc 0)) = None" "row_ids rows_sel 1 3 = [2, 0, 1]" by code_simp+
  have d: "nRows padded_result = 3" "rows_of padded_result = [[2], [2], [2]]"
    by (simp_all add: padded_result_def nRows_def rows_of_def numeral_3_eq_3)
  have three: "i < 3 \<longleftrightarrow> i = 0 \<or> i = 1 \<or> i = (2 :: nat)" for i by auto
  show "varying_result rows_sel padded_result 1"
    using s d by (auto simp: varying_result_def extents_ok_def three padded_result_def)
  have ids: "row_dim_ids rows_sel padded_result [2] 0 0 = [0, 1]" "row_dim_ids rows_sel padded_result [2] 1 0 = [0, -1]"
    "row_dim_ids rows_sel padded_result [2] 2 0 = [0, 1]" by code_simp+
  show "rows_fit rows_sel padded_result 1" "no_row_duplicates rows_sel padded_result 1"
    using s d ids by (auto simp: rows_fit_def no_row_duplicates_def row_distinct_def three)
qed

theorem ReadChunks_reads_rows_witness:
  "\<exists>p. Make 32 rows_sel padded_result no_split = Inr p \<and>
     ReadChunks 32 (cells_reader sample_cell) (dp_dtype p) (map Some (rev (data_chunks p))) ([7, 7, 7, 7, 7, 7], 0) =
       Inr ([20, 21, 0, 7, 10, 11], 20)"
proof -
  have len: "length [7, 7, 7, 7, 7, 7 :: int] = sum_list (map prod_list (rows_of padded_result))"
    by (simp add: padded_result_def rows_of_def numeral_3_eq_3)
  have sz: "CasaDataTypeSize 32 (rs_dtype padded_result) = Inr 4" by (simp add: padded_result_def)
  have "rows_buffer rows_sel padded_result sample_cell [7, 7, 7, 7, 7, 7] = [20, 21, 0, 7, 10, 11]"
    "row_elements_read rows_sel padded_result = 5" by code_simp+
  with ReadChunks_reads_rows [OF padded_facts(1,2) reads_cells_reader [of sample_cell] len sz, where opts = no_split and n = 0]
    padded_facts(3)
  show ?thesis by (cases "Make 32 rows_sel padded_result no_split") (auto dest: spec [of _ "rev xs" for xs])
qed

end
