(* ===== verification/RowRoundTrip.thy ===== *)
theory RowRoundTrip
  imports ColumnRoundTrip RowRead
begin

text \<open>
  Whole reads of new results whose rows vary: what \<open>ReadImpl\<close> makes of \<open>MakeRead\<close>, of the partition
  that is cut row by row, and of its chunks.
\<close>

section \<open>New results whose rows vary\<close>

lemma row_ids_selected:
  assumes "length (selected_rows col sel) = n"
  shows "row_ids sel k n = selected_rows col sel"
proof (cases "HasRowSpan sel")
  case True
  then have "MaybeFSpan sel k (Suc k) = Some (GetRowSpan sel)" using MaybeFSpan_row [of sel "Suc k"] by simp
  with True show ?thesis by (simp add: row_ids_def selected_rows_def)
next
  case False
  then have "MaybeFSpan sel k (Suc k) = None" using MaybeFSpan_no_row [of sel "Suc k"] by simp
  with False assms show ?thesis by (simp add: row_ids_def selected_rows_def)
qed

text \<open>The shape of a read whose rows vary fits its selection.\<close>

lemma MakeRead_rows_fit:
  assumes "MakeRead col sel False = Inr d" and "ranks_ok col" and "length (tc_shape col) < 2 ^ 64 - 1"
    and "rs_shape d = None" and "\<forall>sh \<in> set (rows_of d). length sh = k"
  shows "rows_fit sel d k" and "row_ids sel k (nRows d) = selected_rows col sel" and "rs_cell_extents d = None"
    and "rs_row_shapes d \<noteq> None"
proof -
  from MakeRead_cells [OF assms(1-3)] assms(4) obtain shs where
    shs: "rs_row_shapes d = Some shs" "list_all2 (reads_row col sel False) (selected_rows col sel) shs"
    and ext: "rs_cell_extents d = None" by auto
  then have rows: "rows_of d = shs" "nRows d = length shs" using assms(4) by (simp_all add: rows_of_def nRows_def)
  have len: "length (selected_rows col sel) = nRows d" using shs(2) rows(2) by (simp add: list_all2_lengthD)
  show ids: "row_ids sel k (nRows d) = selected_rows col sel" by (rule row_ids_selected [OF len])
  show "rs_cell_extents d = None" by (rule ext)
  show "rs_row_shapes d \<noteq> None" using shs(1) by simp
  have "length (row_dim_ids sel d (rows_of d ! m) m dim) = rows_of d ! m ! dim" if "m < nRows d" "dim < k" for m dim
  proof -
    have "reads_row col sel False (selected_rows col sel ! m) (shs ! m)"
      using shs(2) that(1) len by (simp add: list_all2_conv_all_nth)
    then obtain cell where "cell_fits sel cell (shs ! m)" unfolding reads_row_def by (auto split: if_splits)
    moreover have "length (shs ! m) = k" using assms(5) that(1) rows by simp
    ultimately show ?thesis using that(2) rows(1) ext
      by (auto simp: cell_fits_def row_dim_ids_def split: option.splits dest!: spec [of _ dim])
  qed
  then show "rows_fit sel d k" using len ids by (simp add: rows_fit_def)
qed

context table_access
begin

lemma read_partition_rows:
  assumes "column \<in> set (column_names A t)" and "MakeRead (column_of A column t) sel False = Inr d"
    and "varying_result sel d k" and "rows_fit sel d k" and "no_row_duplicates sel d k"
  shows "\<exists>p opts. read_partition A ninstances column sel None t = Inr (p, d) \<and> Make (sizeof_String A) sel d opts = Inr p"
proof -
  let ?opts = "\<lparr>max_splits = ninstances, min_bytes = kMinSplitBytes,
     unit_start = (if 1 < ninstances then MakeRowUnitStart (storage_of A column t) else None)\<rparr>"
  from Make_varying [OF assms(3,4), where string_size = "sizeof_String A" and opts = ?opts] assms(5)
  obtain p where p: "Make (sizeof_String A) sel d ?opts = Inr p" by (cases "Make (sizeof_String A) sel d ?opts") auto
  have "read_shape A column sel None t = Inr (sel, d)" using assms(2) by (simp add: read_shape_def)
  with p assms(1) show ?thesis by (auto simp: read_partition_def ColumnExists_def)
qed

lemma ReadImpl_rows:
  assumes "column \<in> set (column_names A t)"
    and "MakeRead (column_of A column t) sel False = Inr d" and "ranks_ok (column_of A column t)"
    and "length (tc_shape (column_of A column t)) < 2 ^ 64 - 1"
    and "varying_result sel d k" and "2 * sum_list (map prod_list (rows_of d)) < 2 ^ 31" and "no_row_duplicates sel d k"
    and "rs_shape d = None"
    and "CasaDataTypeSize (sizeof_String A) (rs_dtype d) = Inr sz"
    and "allocate A (rs_dtype d) (sum_list (map prod_list (rows_of d))) (GetSafeAlignment (default_alignment A) sz) = Inr fresh"
    and "GetConvertStrategy loc = (Inr strat, loc')"
    and "\<forall>g. cells column (table_at g) = cells column t" and "\<forall>n. mset (order n) = mset [0..<n]"
    and "\<forall>r i. length (arrow_values A (cells column t r i)) = value_width (rs_dtype d)"
  shows "\<exists>arr buffer ty d'. ReadImpl A ninstances column sel None t table_at order loc = (Inr arr, loc') \<and>
    GetFlatArray False arr = Inr (Values ty (concat (map (arrow_values A) buffer)) 0 (length (concat (map (arrow_values A) buffer)))) \<and>
    length buffer = sum_list (map prod_list (rows_of d)) \<and>
    (\<forall>m < nRows d. \<forall>idx. in_box (rows_of d ! m) idx \<and> (\<forall>i \<in> set (row_disk_index sel d (idx @ [m])). 0 \<le> i) \<longrightarrow>
      buffer ! (row_start d m + lin (rows_of d ! m) idx) =
        cells column t (selected_rows (column_of A column t) sel ! m) (butlast (row_disk_index sel d (idx @ [m])))) \<and>
    FromArray (column_of A column t) (Some arr) = Inr d' \<and> rows_of d' = rows_of d \<and> rs_dtype d' = rs_dtype d"
proof -
  let ?N = "sum_list (map prod_list (rows_of d))"
  have shapes: "\<forall>sh \<in> set (rows_of d). length sh = k" "0 < k" "rs_ndim d = int k + 1" "rows_of d \<noteq> []"
    "\<forall>sh \<in> set (rows_of d). 0 \<notin> set sh" using assms(5,8) by (auto simp: varying_result_def)
  note fit = MakeRead_rows_fit [OF assms(2-4,8) shapes(1)]
  have dt: "tc_dtype (column_of A column t) = rs_dtype d" using MakeRead_cells [OF assms(2-4)] by simp
  obtain p opts where p: "read_partition A ninstances column sel None t = Inr (p, d)" "Make (sizeof_String A) sel d opts = Inr p"
    using read_partition_rows [OF assms(1,2,5) fit(1) assms(7)] by blast
  from Make_varying [OF assms(5) fit(1), where string_size = "sizeof_String A" and opts = opts] p(2)
  have pd: "dp_dtype p = rs_dtype d" and part: "rows_partition sel d k (data_chunks p)" by auto
  from GetResultBufferOrAllocate_new [OF assms(9,10)] obtain b0 where
    b0: "GetResultBufferOrAllocate A ?N (rs_dtype d) None = Inr b0" "length b0 = ?N"
    "\<forall>x \<in> set b0. length (arrow_values A x) = value_width (rs_dtype d)" by blast
  have len: "length b0 = length (row_positions d)" using b0(2) by (simp add: length_row_positions)
  note el = rows_partition_elements [OF assms(5) fit(1) part]
  have "PartitionElements p = length (row_positions d)" using el(1) by (simp add: PartitionElements_eq)
  from ReadImpl_patched [OF p(1) rows_partition_reads [OF assms(5) fit(1) part] el(3) this, unfolded pd length_row_positions,
      OF b0(1,2) assms(9,12,13)]
  have read: "ReadImpl A ninstances column sel None t table_at order loc = array_of A loc d (rows_buffer sel d (cells column t) b0)"
    by (simp add: rows_buffer_patched [OF len])
  let ?b = "rows_buffer sel d (cells column t) b0"
  have full: "full_shape k d"
    using shapes assms(6,8) by (auto simp: full_shape_def)
  have lb: "length ?b = nElements d" using len full_shape_elements [OF full] by (simp add: rows_buffer_def length_row_positions)
  have "\<forall>x \<in> set ?b. length (arrow_values A x) = value_width (rs_dtype d)"
    using assms(14) b0(3) by (auto simp: rows_buffer_def cell_at_def dest!: set_zip_rightD)
  from array_of_rows [OF full lb this assms(9,11) dt] obtain arr d' ty where
    arr: "array_of A loc d ?b = (Inr arr, loc')"
    "GetFlatArray False arr = Inr (Values ty (concat (map (arrow_values A) ?b)) 0 (length (concat (map (arrow_values A) ?b))))"
    "FromArray (column_of A column t) (Some arr) = Inr d'" "rows_of d' = rows_of d" "rs_dtype d' = rs_dtype d" by blast
  have "?b ! (row_start d m + lin (rows_of d ! m) idx) =
      cells column t (selected_rows (column_of A column t) sel ! m) (butlast (row_disk_index sel d (idx @ [m])))"
    if "m < nRows d" "in_box (rows_of d ! m) idx" "\<forall>i \<in> set (row_disk_index sel d (idx @ [m])). 0 \<le> i" for m idx
  proof -
    have "length idx = k" using in_box_length [OF that(2)] that(1) shapes(1) by (simp add: length_rows_of)
    then have "last (row_disk_index sel d (idx @ [m])) = selected_rows (column_of A column t) sel ! m"
      using fit(2) by (simp add: row_disk_index_def Let_def)
    then show ?thesis using rows_buffer_nth [OF that(1,2) b0(2), of sel "cells column t"] that(3) by simp
  qed
  with read arr lb full_shape_elements [OF full] show ?thesis by auto
qed

end

section \<open>Properties\<close>

text \<open>
  C4. A read of cells of different shapes returns the cells that are selected. For a new result
  whose rows vary, without empty cells, and whatever the number of instances, the tables of the
  instances that run the tasks and their order, \<open>ReadImpl\<close> returns an array of nested lists whose
  rows have the shapes of the result, and whose values, in order, are those of a buffer that
  holds, row after row, the element of the selected cell for each index that is present on disk.
\<close>

theorem ReadImpl_reads_rows:
  assumes "table_access A cells" and "column \<in> set (column_names A t)"
    and "MakeRead (column_of A column t) sel False = Inr d" and "ranks_ok (column_of A column t)"
    and "length (tc_shape (column_of A column t)) < 2 ^ 64 - 1"
    and "varying_result sel d k" and "2 * sum_list (map prod_list (rows_of d)) < 2 ^ 31" and "no_row_duplicates sel d k"
    and "rs_shape d = None"
    and "CasaDataTypeSize (sizeof_String A) (rs_dtype d) = Inr sz"
    and "allocate A (rs_dtype d) (sum_list (map prod_list (rows_of d))) (GetSafeAlignment (default_alignment A) sz) = Inr fresh"
    and "GetConvertStrategy loc = (Inr strat, loc')"
    and "\<forall>g. cells column (table_at g) = cells column t" and "\<forall>n. mset (order n) = mset [0..<n]"
    and "\<forall>r i. length (arrow_values A (cells column t r i)) = value_width (rs_dtype d)"
  shows "\<exists>arr buffer ty d'. ReadImpl A ninstances column sel None t table_at order loc = (Inr arr, loc') \<and>
    GetFlatArray False arr = Inr (Values ty (concat (map (arrow_values A) buffer)) 0 (length (concat (map (arrow_values A) buffer)))) \<and>
    length buffer = sum_list (map prod_list (rows_of d)) \<and>
    (\<forall>m < nRows d. \<forall>idx. in_box (rows_of d ! m) idx \<and> (\<forall>i \<in> set (row_disk_index sel d (idx @ [m])). 0 \<le> i) \<longrightarrow>
      buffer ! (row_start d m + lin (rows_of d ! m) idx) =
        cells column t (selected_rows (column_of A column t) sel ! m) (butlast (row_disk_index sel d (idx @ [m])))) \<and>
    FromArray (column_of A column t) (Some arr) = Inr d' \<and> rows_of d' = rows_of d \<and> rs_dtype d' = rs_dtype d"
  by (rule table_access.ReadImpl_rows [OF assms])

text \<open>A column whose cells have two, one and three values; the rows 2 and 1 are read, by two instances.\<close>

definition jagged_column :: table_column where
  "jagged_column = \<lparr>tc_name = ''DATA'', tc_dtype = TpFloat, tc_fixed = False, tc_shape = [], tc_ndim = -1,
     tc_nrow = 3, tc_defined = (\<lambda>row. True), tc_cell = (\<lambda>row. [[2, 1, 3] ! row])\<rparr>"

definition jagged_table :: memory_table where
  "jagged_table = (True, jagged_column, \<lambda>row i. [10 * row + hd i])"

definition jagged_selection :: selection where
  "jagged_selection = FromInit IndexElem [[2, 1]]"

definition jagged_result :: ResultShapeData where
  "jagged_result = \<lparr>rs_name = ''DATA'', rs_shape = None, rs_ndim = 2, rs_dtype = TpFloat,
     rs_row_shapes = Some [[3], [1]], rs_cell_extents = None\<rparr>"

lemma jagged_facts:
  "MakeRead jagged_column jagged_selection False = Inr jagged_result" "varying_result jagged_selection jagged_result 1"
  "no_row_duplicates jagged_selection jagged_result 1" "ranks_ok jagged_column" "length (tc_shape jagged_column) < 2 ^ 64 - 1"
  "nRows jagged_result = 2" "rows_of jagged_result = [[3], [1]]" "rs_dtype jagged_result = TpFloat"
proof -
  show "MakeRead jagged_column jagged_selection False = Inr jagged_result" by code_simp
  show d: "nRows jagged_result = 2" "rows_of jagged_result = [[3], [1]]" "rs_dtype jagged_result = TpFloat"
    by (simp_all add: jagged_result_def nRows_def rows_of_def)
  show "varying_result jagged_selection jagged_result 1"
    using d by (auto simp: varying_result_def extents_ok_def jagged_result_def)
  have "row_dim_ids jagged_selection jagged_result [3] 0 0 = [0, 1, 2]" "row_dim_ids jagged_selection jagged_result [1] 1 0 = [0]"
    by code_simp+
  then show "no_row_duplicates jagged_selection jagged_result 1"
    using d by (auto simp: no_row_duplicates_def row_distinct_def less_2_cases_iff)
  show "ranks_ok jagged_column" "length (tc_shape jagged_column) < 2 ^ 64 - 1"
    by (simp_all add: ranks_ok_def jagged_column_def)
qed

theorem ReadImpl_reads_rows_witness:
  "\<exists>arr ty. ReadImpl memory_access 2 ''DATA'' jagged_selection None jagged_table (\<lambda>g. jagged_table) (\<lambda>n. rev [0..<n]) None =
      (Inr arr, Some []) \<and> GetFlatArray False arr = Inr (Values ty [20, 21, 22, 10] 0 4)"
proof -
  have col: "column_of memory_access ''DATA'' jagged_table = jagged_column" "''DATA'' \<in> set (column_names memory_access jagged_table)"
    "snd (snd jagged_table) = (\<lambda>row i. [10 * row + hd i])"
    by (simp_all add: memory_access_def jagged_table_def jagged_column_def)
  have typed: "\<forall>r i. length (arrow_values memory_access (snd (snd jagged_table) r i)) = value_width (rs_dtype jagged_result)"
    by (simp add: col(3) memory_access_def value_width_def jagged_result_def)
  note v = jagged_facts
  have small: "2 * sum_list (map prod_list (rows_of jagged_result)) < (2 :: nat) ^ 31" by (simp add: v(7))
  have none: "rs_shape jagged_result = None" by (simp add: jagged_result_def)
  from ReadImpl_reads_rows [OF memory.table_access_axioms col(2) v(1)[folded col(1)] v(4)[folded col(1)] v(5)[folded col(1)] v(2) small v(3) none
      vector_facts(7)[folded v(8)] vector_facts(8)[folded v(8)] vector_facts(6) _ _ typed, of "\<lambda>g. jagged_table" "\<lambda>n. rev [0..<n]" 2]
  obtain arr buffer ty where r: "ReadImpl memory_access 2 ''DATA'' jagged_selection None jagged_table (\<lambda>g. jagged_table) (\<lambda>n. rev [0..<n]) None =
      (Inr arr, Some [])"
    "GetFlatArray False arr = Inr (Values ty (concat (map (arrow_values memory_access) buffer)) 0
        (length (concat (map (arrow_values memory_access) buffer))))"
    "length buffer = 4" and b: "\<forall>m < 2. \<forall>idx. in_box (rows_of jagged_result ! m) idx \<and>
      (\<forall>i \<in> set (row_disk_index jagged_selection jagged_result (idx @ [m])). 0 \<le> i) \<longrightarrow>
      buffer ! (row_start jagged_result m + lin (rows_of jagged_result ! m) idx) =
      [10 * selected_rows jagged_column jagged_selection ! m + hd (butlast (row_disk_index jagged_selection jagged_result (idx @ [m])))]"
    by (auto simp: col(1,3) v(6,7))
  have idx: "row_disk_index jagged_selection jagged_result ([0] @ [0]) = [0, 2]" "row_disk_index jagged_selection jagged_result ([1] @ [0]) = [1, 2]"
    "row_disk_index jagged_selection jagged_result ([2] @ [0]) = [2, 2]" "row_disk_index jagged_selection jagged_result ([0] @ [1]) = [0, 1]"
    "selected_rows jagged_column jagged_selection ! 0 = 2" "selected_rows jagged_column jagged_selection ! 1 = 1"
    "row_start jagged_result 0 = 0" "row_start jagged_result 1 = 3"
    "lin [3] [0] = 0" "lin [3] [1] = 1" "lin [3] [2] = 2" "lin [1] [0] = 0" by code_simp+
  have "buffer ! 0 = [20]" "buffer ! 1 = [21]" "buffer ! 2 = [22]" "buffer ! 3 = [10]"
    using b [rule_format, of 0 "[0]"] b [rule_format, of 0 "[1]"] b [rule_format, of 0 "[2]"] b [rule_format, of 1 "[0]"] idx
    by (simp_all add: v(7) in_box_Cons flip: numeral_2_eq_2)
  with r(3) have "buffer = [[20], [21], [22], [10]]" by (auto simp: length_Suc_conv numeral_eq_Suc)
  with r(1,2) show ?thesis by (auto simp: memory_access_def)
qed

end
