(* ===== verification/SuppliedRead.thy ===== *)
theory SuppliedRead
  imports RowRoundTrip
begin

text \<open>
  Reads into a result the caller supplies. \<open>NegateMissingSelectedRows\<close> marks the rows that are missing
  and pads the dimensions of small cells, in the selection or in extents of each row, so that the
  partition is that of a fixed result or one cut row by row. In both cases the elements wanted are
  read into the buffer of the result, and the others keep their values.
\<close>

section \<open>The selection and the extents of \<open>NegateMissingSelectedRows\<close>\<close>

text \<open>The extents that come of \<open>NegateMissingSelectedRows\<close> are those of cells, or whole rows.\<close>

definition extent_found :: "shape \<Rightarrow> selection \<Rightarrow> shape \<Rightarrow> bool" where
  "extent_found res sel e \<longleftrightarrow> e = res \<or> (\<exists>cell. e = CellExtent cell res sel)"

lemma negate_loop_extents:
  assumes "negate_loop col res sel rows acc modified common extents = Inr (acc', modified', common', Some es)"
    and "\<forall>c. common = Some c \<longrightarrow> extent_found res sel c"
    and "\<forall>es. extents = Some es \<longrightarrow> (\<forall>e \<in> set es. extent_found res sel e)"
  shows "\<forall>e \<in> set es. extent_found res sel e"
  using assms
proof (induction rows arbitrary: acc modified common extents)
  case (Cons r rows)
  have found: "extent_found res sel res" "extent_found res sel (CellExtent cell res sel)" for cell
    by (auto simp: extent_found_def)
  have whole: "\<forall>es. map_option (\<lambda>es. es @ [res]) extents = Some es \<longrightarrow> (\<forall>e \<in> set es. extent_found res sel e)"
    using Cons.prems(3) by (cases extents) (simp_all add: found)
  consider (read) "0 \<le> r" "tc_defined col (nat r)" | (undefined) "0 \<le> r" "\<not> tc_defined col (nat r)" | (negative) "r < 0"
    using not_less by blast
  then show ?case
  proof cases
    case read
    let ?e = "CellExtent (tc_cell col (nat r)) res sel"
    let ?common = "case common of None \<Rightarrow> Some ?e | Some c \<Rightarrow> common"
    let ?extents = "case common of None \<Rightarrow> extents
      | Some c \<Rightarrow> if extents = None \<and> ?e \<noteq> c then Some (replicate (length acc) c) else extents"
    have "negate_loop col res sel rows (acc @ [r]) modified ?common (map_option (\<lambda>es. es @ [?e]) ?extents) =
        Inr (acc', modified', common', Some es)"
      using Cons.prems(1) read by (auto simp: rbind_Inr_conv Let_def split: option.splits if_splits)
    moreover have "\<forall>c. ?common = Some c \<longrightarrow> extent_found res sel c" using Cons.prems(2) found by (auto split: option.splits)
    moreover have "\<forall>es. map_option (\<lambda>es. es @ [?e]) ?extents = Some es \<longrightarrow> (\<forall>e \<in> set es. extent_found res sel e)"
      using Cons.prems(2,3) by (cases common; cases extents) (simp_all add: found)
    ultimately show ?thesis by (rule Cons.IH)
  next
    case undefined
    then have "negate_loop col res sel rows (acc @ [-1]) True common (map_option (\<lambda>es. es @ [res]) extents) =
        Inr (acc', modified', common', Some es)" using Cons.prems(1) by (simp split: if_splits)
    from Cons.IH [OF this Cons.prems(2) whole] show ?thesis .
  next
    case negative
    then have "negate_loop col res sel rows (acc @ [r]) modified common (map_option (\<lambda>es. es @ [res]) extents) =
        Inr (acc', modified', common', Some es)" using Cons.prems(1) by (simp split: if_splits)
    from Cons.IH [OF this Cons.prems(2) whole] show ?thesis .
  qed
qed simp

lemma extent_found_ok: "extent_found res sel e \<Longrightarrow> extents_ok sel res (Some e)"
  by (auto simp: extent_found_def extents_ok_def CellExtent_nth)

lemma NegateMissing_extents:
  assumes "rs_shape d0 = Some sh" and "rs_cell_extents d0 = None"
    and "NegateMissingSelectedRows d0 col sel = Inr (sel', d)"
  shows "d = d0 \<or> (\<exists>es. d = d0\<lparr>rs_cell_extents := Some es\<rparr> \<and> length es = nRows d0 \<and>
    (\<forall>e \<in> set es. extents_ok sel' (butlast sh) (Some e)))"
proof (cases "tc_fixed col")
  case True
  with NegateMissing_fixed [OF True assms(1,3)] show ?thesis by blast
next
  case False
  let ?res = "butlast sh" and ?rows = "selected_rows col sel"
  from assms False obtain rows modified common extents where n: "length ?rows = nRows d0"
    and loop: "negate_loop col ?res sel ?rows [] False None None = Inr (rows, modified, common, extents)"
    and ret: "negate_return d0 sel ?res rows modified common extents = (sel', d)"
    by (auto simp: NegateMissingSelectedRows_def IsFixed_def GetShape_def Let_def rbind_Inr_conv require_Inr_conv)
  show ?thesis
  proof (cases extents)
    case None
    with ret show ?thesis by (auto simp: negate_return_def Let_def split: if_splits)
  next
    case (Some es)
    have "negate_inv col ?res sel [] [] False None None" by (simp add: negate_inv_def)
    from negate_loop_inv [OF this loop] have rows: "rows = map (negated col) ?rows" and len: "length es = length ?rows"
      using Some by (auto simp: negate_inv_def)
    have "\<forall>e \<in> set es. extent_found ?res sel e"
      by (rule negate_loop_extents [OF loop [unfolded Some]]) simp_all
    moreover have "MaybeFSpan sel' dim (length ?res + 1) = MaybeFSpan sel dim (length ?res + 1)" if "dim < length ?res" for dim
    proof (cases "sel' = sel")
      case False
      with ret Some have "sel' = RebuildSelection sel ?res ?res (if modified then Some rows else None)"
        by (auto simp: negate_return_def Let_def split: if_splits)
      moreover have "MaybeFSpan (RebuildSelection sel ?res ?res x) dim (length ?res + 1) = MaybeFSpan sel dim (length ?res + 1)" for x
        using MaybeFSpan_Rebuild [OF that refl order_refl, of sel x] by (simp split: option.splits)
      ultimately show ?thesis by (simp only:)
    qed simp
    ultimately have "\<forall>e \<in> set es. extents_ok sel' ?res (Some e)"
      using extent_found_ok [of ?res sel] by (fastforce simp: extents_ok_def)
    with ret Some len n show ?thesis by (auto simp: negate_return_def Let_def split: if_splits)
  qed
qed

text \<open>
  What reading into a result of shape \<open>sh\<close> should do: the element at an index is the one wanted of
  the cell of the row that is selected, if the row is read and its cell has the element; every other
  element stays as it was.
\<close>

definition is_read_row :: "table_column \<Rightarrow> index \<Rightarrow> bool" where
  "is_read_row col r \<longleftrightarrow> 0 \<le> r \<and> (tc_fixed col \<or> tc_defined col (nat r))"

definition cell_shape_of :: "table_column \<Rightarrow> index \<Rightarrow> shape" where
  "cell_shape_of col r = (if tc_fixed col then tc_shape col else tc_cell col (nat r))"

definition wanted_index :: "table_column \<Rightarrow> selection \<Rightarrow> shape \<Rightarrow> index \<Rightarrow> nat list \<Rightarrow> index list" where
  "wanted_index col sel res r idx =
     map (\<lambda>dim. wanted_ids sel res (cell_shape_of col r) dim ! (idx ! dim)) [0..<length res]"

definition fills :: "table_column \<Rightarrow> selection \<Rightarrow> shape \<Rightarrow> (int \<Rightarrow> int list \<Rightarrow> 'a) \<Rightarrow> 'a list \<Rightarrow> 'a list \<Rightarrow> bool" where
  "fills col sel sh cell old new \<longleftrightarrow> length new = length old \<and>
     (\<forall>i < last sh. \<forall>idx \<in> set (box (butlast sh)).
        let r = selected_rows col sel ! i; w = wanted_index col sel (butlast sh) r idx
        in new ! lin sh (idx @ [i]) =
          (if is_read_row col r \<and> list_all (\<lambda>x. 0 \<le> x) w then cell r w else old ! lin sh (idx @ [i])))"

lemma distinct_padded: "distinct (filter (\<lambda>x. 0 \<le> x) (padded_ids n e))"
  by (simp add: padded_ids_def filter_replicate distinct_map inj_on_def)

lemma distinct_negated:
  "distinct (filter (\<lambda>x. 0 \<le> x) rows) \<Longrightarrow> distinct (filter (\<lambda>x. 0 \<le> x) (map (negated col) rows))"
proof (induction rows)
  case (Cons r rows)
  have "set (filter (\<lambda>x. 0 \<le> x) (map (negated col) rows)) \<subseteq> set rows" by (auto simp: negated_def split: if_splits)
  with Cons show ?case by (auto simp: negated_def)
qed simp

text \<open>The selection and extents that \<open>NegateMissingSelectedRows\<close> returns.\<close>

definition negates :: "table_column \<Rightarrow> selection \<Rightarrow> shape \<Rightarrow> selection \<Rightarrow> ResultShapeData \<Rightarrow> bool" where
  "negates col sel sh sel' d \<longleftrightarrow> length (selected_rows col sel') = last sh \<and>
     (\<forall>i < last sh. let r = selected_rows col sel ! i
        in if is_read_row col r
           then selected_rows col sel' ! i = r \<and> reads_wanted sel sel' d (butlast sh) (cell_shape_of col r) i
           else selected_rows col sel' ! i < 0) \<and>
     (distinct (filter (\<lambda>x. 0 \<le> x) (selected_rows col sel)) \<longrightarrow> distinct (filter (\<lambda>x. 0 \<le> x) (selected_rows col sel')))"

lemma NegateMissing_negates:
  assumes "rs_shape d0 = Some sh" and "rs_cell_extents d0 = None"
    and "NegateMissingSelectedRows d0 col sel = Inr (sel', d)" and "length (selected_rows col sel) = last sh"
  shows "negates col sel sh sel' d"
proof (cases "tc_fixed col")
  case True
  have f: "d = d0 \<and> selected_rows col sel' = selected_rows col sel \<and>
      (rs_cell_extents d0 = None \<longrightarrow> reads_wanted sel sel' d (butlast sh) (tc_shape col) i)" for i
    by (rule NegateMissing_fixed [OF True assms(1,3)])
  show ?thesis
    unfolding negates_def
  proof (intro conjI allI impI)
    show "length (selected_rows col sel') = last sh" using f assms(4) by simp
    show "let r = selected_rows col sel ! i in if is_read_row col r
        then selected_rows col sel' ! i = r \<and> reads_wanted sel sel' d (butlast sh) (cell_shape_of col r) i
        else selected_rows col sel' ! i < 0" for i
      using f [of i] assms(2) True by (auto simp: is_read_row_def cell_shape_of_def Let_def)
    show "distinct (filter (\<lambda>x. 0 \<le> x) (selected_rows col sel'))" if "distinct (filter (\<lambda>x. 0 \<le> x) (selected_rows col sel))"
      using f that by simp
  qed
next
  case False
  note v = NegateMissing_varying [OF False assms(1-3)]
  show ?thesis
    unfolding negates_def
  proof (intro conjI allI impI)
    show "length (selected_rows col sel') = last sh" using v(3) assms(4) by simp
    fix i assume i: "i < last sh"
    let ?r = "selected_rows col sel ! i"
    have neg: "selected_rows col sel' ! i = negated col ?r" using v(3) i assms(4) by simp
    have "is_read_row col ?r \<longleftrightarrow> row_is_read col ?r" using False by (simp add: is_read_row_def row_is_read_def)
    moreover have "reads_wanted sel sel' d (butlast sh) (cell_shape_of col ?r) i" if "row_is_read col ?r"
      using v(5) i assms(4) that False by (simp add: cell_shape_of_def)
    ultimately show "let r = ?r in if is_read_row col r
        then selected_rows col sel' ! i = r \<and> reads_wanted sel sel' d (butlast sh) (cell_shape_of col r) i
        else selected_rows col sel' ! i < 0"
      unfolding neg by (auto simp: Let_def negated_def row_is_read_def)
  next
    show "distinct (filter (\<lambda>x. 0 \<le> x) (selected_rows col sel'))" if "distinct (filter (\<lambda>x. 0 \<le> x) (selected_rows col sel))"
      unfolding v(3) by (rule distinct_negated [OF that])
  qed
qed

section \<open>The partition of a supplied result\<close>

text \<open>The index on disk of an element of row \<open>i\<close>, and chunks that read these elements into the buffer.\<close>

definition supplied_index :: "table_column \<Rightarrow> selection \<Rightarrow> ResultShapeData \<Rightarrow> shape \<Rightarrow> nat list \<Rightarrow> nat \<Rightarrow> index list" where
  "supplied_index col sel d res idx i =
     map (\<lambda>dim. row_dim_ids sel d res i dim ! (idx ! dim)) [0..<length res] @ [selected_rows col sel ! i]"

definition reads_rows :: "table_column \<Rightarrow> selection \<Rightarrow> ResultShapeData \<Rightarrow> shape \<Rightarrow> (int \<Rightarrow> int list \<Rightarrow> 'a) \<Rightarrow> DataChunk list \<Rightarrow> bool" where
  "reads_rows col sel d sh cell chunks \<longleftrightarrow>
     (\<exists>f P. partition_reads (prod_list sh) cell f P chunks \<and>
        (\<forall>i < last sh. \<forall>idx \<in> set (box (butlast sh)). let di = supplied_index col sel d (butlast sh) idx i; a = lin sh (idx @ [i])
           in f a = cell_at cell di \<and> (a \<in> P \<longleftrightarrow> (\<forall>x \<in> set di. 0 \<le> x))))"

lemma reads_rows_fill:
  assumes "negates col sel sh sel' d" and "reads_rows col sel' d sh cell chunks"
  shows "\<exists>f P. partition_reads (prod_list sh) cell f P chunks \<and>
    (\<forall>old. length old = prod_list sh \<longrightarrow> sh \<noteq> [] \<longrightarrow> fills col sel sh cell old (patched f P old))"
proof -
  from assms(2) obtain f P where p: "partition_reads (prod_list sh) cell f P chunks"
    and fP: "\<forall>i < last sh. \<forall>idx \<in> set (box (butlast sh)). let di = supplied_index col sel' d (butlast sh) idx i; a = lin sh (idx @ [i])
      in f a = cell_at cell di \<and> (a \<in> P \<longleftrightarrow> (\<forall>x \<in> set di. 0 \<le> x))" unfolding reads_rows_def by blast
  have "fills col sel sh cell old (patched f P old)" if len: "length old = prod_list sh" and ne: "sh \<noteq> []" for old
    unfolding fills_def
  proof (intro conjI allI impI ballI)
    show "length (patched f P old) = length old" by (simp add: patched_def)
    fix i idx assume i: "i < last sh" and idx: "idx \<in> set (box (butlast sh))"
    let ?r = "selected_rows col sel ! i" and ?a = "lin sh (idx @ [i])" and ?di = "supplied_index col sel' d (butlast sh) idx i"
    let ?w = "wanted_index col sel (butlast sh) ?r idx"
    have "in_box (butlast sh @ [last sh]) (idx @ [i])" using idx i by (auto simp: in_box_snoc set_box)
    then have a: "?a < length old" using lin_less [of sh "idx @ [i]"] ne len by simp
    note n = assms(1) [unfolded negates_def Let_def]
    have "patched f P old ! ?a = (if is_read_row col ?r \<and> list_all (\<lambda>x. 0 \<le> x) ?w then cell ?r ?w else old ! ?a)"
    proof (cases "is_read_row col ?r")
      case True
      then have "reads_wanted sel sel' d (butlast sh) (cell_shape_of col ?r) i" "selected_rows col sel' ! i = ?r" "0 \<le> ?r"
        using n i by (auto simp: is_read_row_def)
      then have "?di = ?w @ [?r]" by (auto simp: supplied_index_def wanted_index_def reads_wanted_def)
      with fP i idx a True \<open>0 \<le> ?r\<close> show ?thesis by (auto simp: nth_patched Let_def cell_at_def list_all_iff)
    next
      case False
      then have "selected_rows col sel' ! i < 0" using n i by auto
      then have "\<not> (\<forall>x \<in> set ?di. 0 \<le> x)" by (simp add: supplied_index_def)
      with fP i idx a False show ?thesis by (auto simp: nth_patched Let_def)
    qed
    then show "let r = ?r; w = wanted_index col sel (butlast sh) r idx in patched f P old ! ?a =
        (if is_read_row col r \<and> list_all (\<lambda>x. 0 \<le> x) w then cell r w else old ! ?a)" by (simp add: Let_def)
  qed
  with p show ?thesis by blast
qed

text \<open>The spans selected have the sizes of the result and no duplicates, if those wanted have none.\<close>

lemma negates_spans:
  assumes "negates col sel sh sel' d" and "no_duplicates sel sh" and "sh \<noteq> []"
    and "i < last sh" and "is_read_row col (selected_rows col sel ! i)"
    and "dim < length (butlast sh)" and "MaybeFSpan sel' dim (length sh) = Some span"
  shows "length span = sh ! dim" and "distinct (filter (\<lambda>x. 0 \<le> x) span)"
proof -
  have n: "length (butlast sh) + 1 = length sh" using assms(3) by simp
  have "reads_wanted sel sel' d (butlast sh) (cell_shape_of col (selected_rows col sel ! i)) i"
    using assms(1,4,5) by (auto simp: negates_def Let_def)
  then have w: "row_dim_ids sel' d (butlast sh) i dim = wanted_ids sel (butlast sh) (cell_shape_of col (selected_rows col sel ! i)) dim"
    "length (row_dim_ids sel' d (butlast sh) i dim) = butlast sh ! dim"
    using assms(6) by (auto simp: reads_wanted_def)
  have span: "row_dim_ids sel' d (butlast sh) i dim = span" using assms(7) n by (simp add: row_dim_ids_def)
  with w(2) show "length span = sh ! dim" using assms(6) by (simp add: nth_butlast)
  have "distinct (filter (\<lambda>x. 0 \<le> x) (disk_ids sel sh dim))" using assms(2,6) by (simp add: no_duplicates_def)
  then have "distinct (filter (\<lambda>x. 0 \<le> x) (wanted_ids sel (butlast sh) c dim))" for c
    using distinct_padded n by (auto simp: wanted_ids_def disk_ids_def split: option.splits)
  with w(1) span show "distinct (filter (\<lambda>x. 0 \<le> x) span)" by simp
qed

lemma disk_ids_rows:
  "sh \<noteq> [] \<Longrightarrow> length (selected_rows col sel) = last sh \<Longrightarrow> disk_ids sel sh (length sh - 1) = selected_rows col sel"
  using row_ids_selected [of col sel "last sh" "length sh - 1"] by (simp add: disk_ids_def row_ids_def last_conv_nth)

lemma disk_ids_dim:
  "sh \<noteq> [] \<Longrightarrow> dim < length sh - 1 \<Longrightarrow> rs_cell_extents d = None \<Longrightarrow> disk_ids sel sh dim = row_dim_ids sel d (butlast sh) i dim"
  by (simp add: disk_ids_def row_dim_ids_def nth_butlast cong: option.case_cong)

text \<open>Without extents, the partition is that of a fixed result.\<close>

lemma fixed_reads_rows:
  assumes "fixed_result d sh" and "sel_fits sel sh" and "length (selected_rows col sel) = last sh"
    and "chunks_of sel sh L chunks"
  shows "reads_rows col sel d sh cell chunks"
proof -
  have sh: "sh \<noteq> []" "rs_cell_extents d = None" using assms(1) by (auto simp: fixed_result_def)
  obtain k where k: "length sh = Suc k" using sh(1) by (cases sh) auto
  have at: "box sh ! lin sh (idx @ [i]) = idx @ [i] \<and> disk_index sel sh (idx @ [i]) = supplied_index col sel d (butlast sh) idx i"
    if "i < last sh" "idx \<in> set (box (butlast sh))" for i idx
  proof
    have b: "in_box (butlast sh) idx" using that(2) by (simp add: set_box)
    then have "in_box (butlast sh @ [last sh]) (idx @ [i])" using that(1) by (simp add: in_box_snoc)
    then show "box sh ! lin sh (idx @ [i]) = idx @ [i]" using sh(1) by (simp add: box_nth_lin)
    have "disk_ids sel sh k = selected_rows col sel" using disk_ids_rows [OF sh(1) assms(3)] k by simp
    moreover have "disk_ids sel sh dim = row_dim_ids sel d (butlast sh) i dim" if "dim < k" for dim
      using disk_ids_dim [OF sh(1) _ sh(2)] that k by simp
    ultimately show "disk_index sel sh (idx @ [i]) = supplied_index col sel d (butlast sh) idx i"
      using in_box_length [OF b] by (simp add: disk_index_def supplied_index_def k nth_append)
  qed
  show ?thesis
    unfolding reads_rows_def
  proof (rule exI, rule exI, rule conjI)
    show "partition_reads (prod_list sh) cell (\<lambda>a. cell_at cell (disk_index sel sh (box sh ! a)))
        {a. \<forall>x \<in> set (disk_index sel sh (box sh ! a)). 0 \<le> x} chunks"
      by (rule chunks_of_reads [OF assms(4,2) sh(1)])
  qed (use at in \<open>simp add: Let_def\<close>)
qed

text \<open>With extents, it is the one that is cut row by row.\<close>

lemma extents_rows:
  assumes "fixed_result d0 sh"
  shows "rows_of (d0\<lparr>rs_cell_extents := es\<rparr>) = replicate (last sh) (butlast sh)" and "nRows (d0\<lparr>rs_cell_extents := es\<rparr>) = last sh"
    and "i \<le> last sh \<Longrightarrow> row_start (d0\<lparr>rs_cell_extents := es\<rparr>) i = i * prod_list (butlast sh)"
    and "sum_list (map prod_list (rows_of (d0\<lparr>rs_cell_extents := es\<rparr>))) = prod_list sh"
proof -
  have sh: "rs_shape d0 = Some sh" "sh \<noteq> []" using assms by (auto simp: fixed_result_def)
  then show r: "rows_of (d0\<lparr>rs_cell_extents := es\<rparr>) = replicate (last sh) (butlast sh)" by (simp add: rows_of_def)
  show "nRows (d0\<lparr>rs_cell_extents := es\<rparr>) = last sh" using sh by (simp add: nRows_def)
  show "i \<le> last sh \<Longrightarrow> row_start (d0\<lparr>rs_cell_extents := es\<rparr>) i = i * prod_list (butlast sh)"
    unfolding row_start_def r by (simp add: sum_list_replicate min_absorb1)
  have "prod_list sh = last sh * prod_list (butlast sh)"
    using sh(2) by (metis append_butlast_last_id mult.commute mult.right_neutral prod_list.Cons prod_list.Nil prod_list.append)
  then show "sum_list (map prod_list (rows_of (d0\<lparr>rs_cell_extents := es\<rparr>))) = prod_list sh"
    unfolding r by (simp add: sum_list_replicate)
qed

lemma extents_varying:
  assumes "fixed_result d0 sh" and "length es = nRows d0" and "\<forall>e \<in> set es. extents_ok sel (butlast sh) (Some e)"
  shows "varying_result sel (d0\<lparr>rs_cell_extents := Some es\<rparr>) (length sh - 1)"
proof -
  have sh: "rs_shape d0 = Some sh" "sh \<noteq> []" "0 \<notin> set sh" "rs_ndim d0 = int (length sh)"
    "prod_list (butlast sh) < 2 ^ 31" "prod_list sh < 2 ^ 63"
    using assms(1) by (auto simp: fixed_result_def)
  have zero: "0 \<notin> set (butlast sh)" using sh(3) by (auto dest: in_set_butlastD)
  have "prod_list (butlast (butlast sh)) \<le> prod_list (butlast sh)"
  proof (cases "butlast sh = []")
    case False
    then have "prod_list (butlast sh) = prod_list (butlast (butlast sh)) * last (butlast sh)"
      by (metis append_butlast_last_id mult.right_neutral prod_list.Cons prod_list.Nil prod_list.append)
    moreover have "last (butlast sh) \<noteq> 0" using last_in_set [OF False] zero by metis
    ultimately show ?thesis by simp
  qed simp
  moreover have "last sh \<noteq> 0" using last_in_set [OF sh(2)] sh(3) by metis
  moreover have "nRows d0 = last sh" using sh(1,2) by (simp add: nRows_def)
  ultimately have dims: "prod_list (butlast (butlast sh)) < 2 ^ 31" "last sh \<noteq> 0" "length es = last sh"
    using sh(5) assms(2) by simp_all
  obtain k where k: "length sh = Suc k" using sh(2) by (cases sh) auto
  note rows = extents_rows [OF assms(1), where es = "Some es"]
  have "extents_ok sel (butlast sh) (Some (es ! i))" if "i < last sh" for i
    using assms(3) that dims(3) by simp
  with dims k sh(1,4,5,6) zero show ?thesis
    by (simp add: varying_result_def rows(1,2))
qed

lemma extents_fit:
  assumes "fixed_result d0 sh" and "length es = nRows d0" and "\<forall>e \<in> set es. extents_ok sel (butlast sh) (Some e)"
    and "length (selected_rows col sel) = last sh"
    and "\<And>dim span. dim < length sh - 1 \<Longrightarrow> MaybeFSpan sel dim (length sh) = Some span \<Longrightarrow>
      length span = sh ! dim \<and> distinct (filter (\<lambda>x. 0 \<le> x) span)"
  shows "rows_fit sel (d0\<lparr>rs_cell_extents := Some es\<rparr>) (length sh - 1)"
    and "no_row_duplicates sel (d0\<lparr>rs_cell_extents := Some es\<rparr>) (length sh - 1)"
proof -
  let ?d = "d0\<lparr>rs_cell_extents := Some es\<rparr>" and ?res = "butlast sh"
  have sh: "rs_shape d0 = Some sh" "sh \<noteq> []" using assms(1) by (auto simp: fixed_result_def)
  obtain k where k: "length sh = Suc k" using sh(2) by (cases sh) auto
  note rows = extents_rows [OF assms(1), where es = "Some es"]
  have n: "length es = last sh" using assms(2) sh by (simp add: nRows_def)
  have ids: "length (row_dim_ids sel ?d ?res m dim) = ?res ! dim \<and> distinct (filter (\<lambda>x. 0 \<le> x) (row_dim_ids sel ?d ?res m dim))"
    if "m < last sh" "dim < k" for m dim
  proof (cases "MaybeFSpan sel dim (length sh)")
    case None
    have "extents_ok sel ?res (Some (es ! m))" using assms(3) that(1) n by simp
    then have "es ! m ! dim \<le> ?res ! dim" using that(2) k by (simp add: extents_ok_def)
    with None k show ?thesis using distinct_padded [of "?res ! dim" "es ! m ! dim"] by (simp add: row_dim_ids_def padded_ids_def)
  next
    case (Some span)
    with assms(5) [OF _ Some] that(2) k show ?thesis by (simp add: row_dim_ids_def nth_butlast)
  qed
  have "row_ids sel k (last sh) = selected_rows col sel" by (rule row_ids_selected [OF assms(4)])
  then show "rows_fit sel ?d (length sh - 1)" using ids assms(4) k by (simp add: rows_fit_def rows)
  show "no_row_duplicates sel ?d (length sh - 1)" using ids k by (simp add: no_row_duplicates_def row_distinct_def rows)
qed

lemma extents_reads_rows:
  assumes "fixed_result d0 sh" and "d = d0\<lparr>rs_cell_extents := Some es\<rparr>"
    and "varying_result sel d (length sh - 1)" and "rows_fit sel d (length sh - 1)" and "rows_partition sel d (length sh - 1) chunks"
    and "length (selected_rows col sel) = last sh"
  shows "reads_rows col sel d sh cell chunks"
proof -
  have sh: "rs_shape d0 = Some sh" "sh \<noteq> []" using assms(1) by (auto simp: fixed_result_def)
  obtain k where k: "length sh = Suc k" using sh(2) by (cases sh) auto
  note rows = extents_rows [OF assms(1), where es = "Some es", folded assms(2)]
  have at: "row_disk_index sel d (row_positions d ! lin sh (idx @ [i])) = supplied_index col sel d (butlast sh) idx i"
    if "i < last sh" "idx \<in> set (box (butlast sh))" for i idx
  proof -
    have b: "in_box (butlast sh) idx" using that(2) by (simp add: set_box)
    note len = in_box_length [OF b]
    have "lin sh (idx @ [i]) = lin (butlast sh @ [last sh]) (idx @ [i])" using sh(2) by simp
    also have "\<dots> = row_start d i + lin (butlast sh) idx" using that(1) len rows(3) [of i] by (simp add: lin_snoc)
    finally have a: "lin sh (idx @ [i]) = row_start d i + lin (butlast sh) idx" .
    have "i < nRows d" "lin (butlast sh) idx < prod_list (rows_of d ! i)"
      using that(1) lin_less [OF b] by (simp_all add: rows(1,2))
    from row_positions_nth(1) [OF this] have "row_positions d ! lin sh (idx @ [i]) = idx @ [i]"
      using that(1) box_nth_lin [OF b] by (simp add: a rows(1))
    moreover have "row_ids sel k (nRows d) = selected_rows col sel" using row_ids_selected [OF assms(6)] by (simp add: rows(2))
    ultimately show ?thesis using that(1) len k by (simp add: row_disk_index_def supplied_index_def rows(1) nth_append)
  qed
  have "length (row_positions d) = prod_list sh" using rows(4) by (simp add: length_row_positions)
  with rows_partition_reads [OF assms(3-5), of cell]
  have "partition_reads (prod_list sh) cell (row_value sel d cell) (row_present sel d) chunks" by simp
  moreover have "let di = supplied_index col sel d (butlast sh) idx i; a = lin sh (idx @ [i])
      in row_value sel d cell a = cell_at cell di \<and> (a \<in> row_present sel d \<longleftrightarrow> (\<forall>x \<in> set di. 0 \<le> x))"
    if "i < last sh" "idx \<in> set (box (butlast sh))" for i idx
    by (simp add: Let_def at [OF that])
  ultimately show ?thesis unfolding reads_rows_def by blast
qed

text \<open>What \<open>Make\<close> makes of the selection and the extents reads what is wanted.\<close>

lemma supplied_partition:
  assumes "fixed_result d0 sh" and "NegateMissingSelectedRows d0 col sel = Inr (sel', d)"
    and "length (selected_rows col sel) = last sh" and "i < last sh" and "is_read_row col (selected_rows col sel ! i)"
    and "no_duplicates sel sh" and "CasaDataTypeSize string_size (rs_dtype d0) = Inr sz"
  shows "\<exists>p. Make string_size sel' d opts = Inr p \<and> dp_dtype p = rs_dtype d0 \<and> data_chunks p \<noteq> [] \<and>
    PartitionElements p = prod_list sh \<and> reads_rows col sel' d sh cell (data_chunks p)"
proof -
  have sh: "rs_shape d0 = Some sh" "rs_cell_extents d0 = None" "sh \<noteq> []" using assms(1) by (auto simp: fixed_result_def)
  obtain k where k: "length sh = Suc k" using sh(3) by (cases sh) auto
  note neg = NegateMissing_negates [OF sh(1,2) assms(2,3)]
  have rows: "length (selected_rows col sel') = last sh" using neg by (simp add: negates_def)
  have "distinct (filter (\<lambda>x. 0 \<le> x) (disk_ids sel sh k))" using assms(6) k by (simp add: no_duplicates_def)
  then have distinct: "distinct (filter (\<lambda>x. 0 \<le> x) (selected_rows col sel'))"
    using neg disk_ids_rows [OF sh(3) assms(3)] k by (simp add: negates_def)
  have spans: "length span = sh ! dim \<and> distinct (filter (\<lambda>x. 0 \<le> x) span)"
    if "dim < length sh - 1" "MaybeFSpan sel' dim (length sh) = Some span" for dim span
    using negates_spans [OF neg assms(6) sh(3) assms(4,5) _ that(2)] that(1) by simp
  from NegateMissing_extents [OF sh(1,2) assms(2)] consider (fixed) "d = d0"
    | (extents) es where "d = d0\<lparr>rs_cell_extents := Some es\<rparr>" "length es = nRows d0"
        "\<forall>e \<in> set es. extents_ok sel' (butlast sh) (Some e)" by blast
  then show ?thesis
  proof cases
    case fixed
    note last = disk_ids_rows [OF sh(3) rows]
    have ids: "length (disk_ids sel' sh dim) = sh ! dim \<and> distinct (filter (\<lambda>x. 0 \<le> x) (disk_ids sel' sh dim))" if "dim < length sh" for dim
    proof (cases "dim = k")
      case True
      then show ?thesis using last rows distinct k sh(3) last_conv_nth [of sh] by simp
    next
      case False
      with that k spans [of dim] show ?thesis by (auto simp: disk_ids_def distinct_map inj_on_def split: option.split)
    qed
    have "case MaybeFSpan sel' dim (length sh) of Some span \<Rightarrow> length span = sh ! dim | None \<Rightarrow> True" if "dim < length sh" for dim
      using ids [OF that] by (simp add: disk_ids_def split: option.splits)
    then have fits: "sel_fits sel' sh" by (simp add: sel_fits_def)
    have dup: "no_duplicates sel' sh" using ids by (simp add: no_duplicates_def)
    from Make_fixed [OF assms(1) fits, where string_size = string_size and opts = opts] dup assms(7) obtain p L where
      p: "Make string_size sel' d0 opts = Inr p" "dp_dtype p = rs_dtype d0" "chunks_of sel' sh L (data_chunks p)"
      by (auto split: sum.splits)
    with fixed fixed_reads_rows [OF assms(1) fits rows p(3)] chunks_of_ne [OF p(3)] partition_elements [OF p(3) fits]
    show ?thesis by simp
  next
    case extents
    have k': "length sh - 1 = k" using k by simp
    note var = extents_varying [OF assms(1) extents(2,3), folded extents(1)]
    note fit = extents_fit [OF assms(1) extents(2,3) rows spans, folded extents(1)]
    from Make_varying [OF var fit(1), where string_size = string_size and opts = opts] fit(2) obtain p where
      p: "Make string_size sel' d opts = Inr p" "dp_dtype p = rs_dtype d" "rows_partition sel' d (length sh - 1) (data_chunks p)"
      by (auto split: sum.splits)
    note el = rows_partition_elements [OF var fit(1) p(3)]
    have "PartitionElements p = prod_list sh"
      using el(1) extents_rows(4) [OF assms(1), of "Some es"] by (simp add: PartitionElements_eq length_row_positions extents(1))
    with p el(3) extents_reads_rows [OF assms(1) extents(1) var fit(1) p(3) rows] show ?thesis by (simp add: extents(1))
  qed
qed

section \<open>The read as a whole\<close>

text \<open>The buffer of a supplied result has one CASA value for each element of its shape.\<close>

lemma result_values_type: "result_values arr nbytes = Inr (ty, buf) \<Longrightarrow> ty \<noteq> Value_type utf8 \<and> buffer_size ty buf = nbytes"
  by (induction arr) (auto split: if_splits)

lemma result_buffer_length:
  assumes "GetResultBuffer result (n * sz) = Inr (Value_type adt, buf)" and "ArrowDataType dt = Inr adt"
    and "CasaDataTypeSize string_size dt = Inr sz"
  shows "length buf = value_width dt * n"
proof -
  have "adt \<noteq> utf8" "buffer_size (Value_type adt) buf = n * sz"
    using assms(1) result_values_type by (auto simp: GetResultBuffer_def split: option.splits)
  with assms(2,3) show ?thesis by (cases dt) (auto simp: buffer_size_def value_width_def)
qed

lemma fills_eq:
  assumes "fills col sel sh cell old new" and "length old = prod_list sh" and "sh \<noteq> []"
  shows "new = map (\<lambda>pos. let r = selected_rows col sel ! last pos; w = wanted_index col sel (butlast sh) r (butlast pos)
    in if is_read_row col r \<and> list_all (\<lambda>x. 0 \<le> x) w then cell r w else old ! lin sh pos) (box sh)" (is "new = map ?f (box sh)")
proof (rule nth_equalityI)
  show len: "length new = length (map ?f (box sh))" using assms(1,2) by (simp add: fills_def)
  fix a assume "a < length new"
  with len have a: "a < prod_list sh" by simp
  have "in_box (butlast sh @ [last sh]) (box sh ! a)" using box_nth_in_box [OF a] assms(3) by simp
  then obtain idx i where pos: "box sh ! a = idx @ [i]" "in_box (butlast sh) idx" "i < last sh" unfolding in_box_snoc by blast
  have "new ! lin sh (idx @ [i]) = ?f (idx @ [i])"
    using assms(1) pos(2,3) by (auto simp: fills_def set_box Let_def)
  with lin_box_nth [OF a] pos(1) a show "new ! a = map ?f (box sh) ! a" by (simp add: Let_def)
qed

lemma fills_all:
  assumes "fills col sel sh cell old new" and "length old = prod_list sh" and "sh \<noteq> []"
    and "\<forall>x \<in> set old. Q x" and "\<And>r w. Q (cell r w)"
  shows "\<forall>x \<in> set new. Q x"
  unfolding fills_eq [OF assms(1-3)] using assms(2,4,5) lin_less [of sh] by (auto simp: Let_def set_box)

lemma FromArray_dtype: "FromArray col array = Inr d \<Longrightarrow> rs_dtype d = tc_dtype col"
  by (auto simp: FromArray_def GetResultShapeData_def GetArrowResultShapeData_def rbind_Inr_conv split: if_splits option.splits)

context table_access
begin

lemma ReadImpl_supplied:
  assumes "column \<in> set (column_names A t)" and "FromArray (column_of A column t) (Some result) = Inr d0"
    and "NegateMissingSelectedRows d0 (column_of A column t) sel = Inr (sel', d)"
    and "fixed_result d0 sh" and "2 * prod_list sh < 2 ^ 31" and "no_duplicates sel sh"
    and "length (selected_rows (column_of A column t) sel) = last sh"
    and "\<exists>i < last sh. is_read_row (column_of A column t) (selected_rows (column_of A column t) sel ! i)"
    and "CasaDataTypeSize (sizeof_String A) (rs_dtype d0) = Inr sz" and "ArrowDataType (rs_dtype d0) = Inr adt"
    and "GetResultBuffer (Some result) (prod_list sh * sz) = Inr (Value_type adt, buf)"
    and "GetConvertStrategy loc = (Inr strat, loc')"
    and "\<forall>g. cells column (table_at g) = cells column t" and "\<forall>n. mset (order n) = mset [0..<n]"
    and "\<forall>r i. length (arrow_values A (cells column t r i)) = value_width (rs_dtype d0)"
  shows "\<exists>arr old new ty d'. ReadImpl A ninstances column sel (Some result) t table_at order loc = (Inr arr, loc') \<and>
    length old = prod_list sh \<and> (\<forall>x \<in> set old. length (arrow_values A x) = value_width (rs_dtype d0)) \<and>
    concat (map (arrow_values A) old) = buf \<and>
    fills (column_of A column t) sel sh (cells column t) old new \<and>
    GetFlatArray False arr = Inr (Values ty (concat (map (arrow_values A) new)) 0 (length (concat (map (arrow_values A) new)))) \<and>
    FromArray (column_of A column t) (Some arr) = Inr d' \<and> rows_of d' = replicate (last sh) (butlast sh) \<and> rs_dtype d' = rs_dtype d0"
proof -
  let ?col = "column_of A column t"
  have sh: "rs_shape d0 = Some sh" "rs_cell_extents d0 = None" "sh \<noteq> []" using assms(4) by (auto simp: fixed_result_def)
  obtain i where i: "i < last sh" "is_read_row ?col (selected_rows ?col sel ! i)" using assms(8) by blast
  obtain p where p: "read_partition A ninstances column sel (Some result) t = Inr (p, d)" "dp_dtype p = rs_dtype d0"
    "data_chunks p \<noteq> []" "PartitionElements p = prod_list sh" "reads_rows ?col sel' d sh (cells column t) (data_chunks p)"
  proof -
    let ?opts = "\<lparr>max_splits = ninstances, min_bytes = kMinSplitBytes,
       unit_start = (if 1 < ninstances then MakeRowUnitStart (storage_of A column t) else None)\<rparr>"
    from supplied_partition [OF assms(4,3,7) i assms(6,9), of ?opts "cells column t"] obtain p where
      p: "Make (sizeof_String A) sel' d ?opts = Inr p" "dp_dtype p = rs_dtype d0" "data_chunks p \<noteq> []"
      "PartitionElements p = prod_list sh" "reads_rows ?col sel' d sh (cells column t) (data_chunks p)" by blast
    have "read_partition A ninstances column sel (Some result) t = Inr (p, d)"
      using assms(1,2,3) p(1) by (simp add: read_partition_def ColumnExists_def read_shape_def)
    from this p(2-) show thesis by (rule that)
  qed
  from reads_rows_fill [OF NegateMissing_negates [OF sh(1,2) assms(3,7)] p(5)] obtain f P where
    fP: "partition_reads (prod_list sh) (cells column t) f P (data_chunks p)"
    and fill: "\<And>old. length old = prod_list sh \<Longrightarrow> fills ?col sel sh (cells column t) old (patched f P old)" using sh(3) by blast
  let ?old = "casa_view A (rs_dtype d0) (Value_type adt) buf"
  have buf: "length buf = value_width (rs_dtype d0) * prod_list sh" by (rule result_buffer_length [OF assms(11,10,9)])
  then have "value_width (rs_dtype d0) dvd length buf" by simp
  from view [OF assms(10) this] buf have old: "length ?old = prod_list sh"
    "\<forall>x \<in> set ?old. length (arrow_values A x) = value_width (rs_dtype d0)" "concat (map (arrow_values A) ?old) = buf"
    by (auto simp: value_width_def split: if_splits)
  have "GetResultBufferOrAllocate A (prod_list sh) (rs_dtype d0) (Some result) = Inr ?old"
    using assms(9,11) by (simp add: GetResultBufferOrAllocate_def)
  from ReadImpl_patched [OF p(1) fP p(3,4), unfolded p(2), OF this old(1) assms(9,13,14)]
  have read: "ReadImpl A ninstances column sel (Some result) t table_at order loc = array_of A loc d (patched f P ?old)" .
  let ?new = "patched f P ?old"
  have typed: "\<forall>x \<in> set ?new. length (arrow_values A x) = value_width (rs_dtype d)" and dt: "rs_dtype d = rs_dtype d0"
    and full: "full_shape (length sh - 1) d" and n: "length ?new = nElements d" and rows: "rows_of d = replicate (last sh) (butlast sh)"
  proof -
    obtain es where d: "d = d0\<lparr>rs_cell_extents := es\<rparr>"
      using NegateMissing_extents [OF sh(1,2) assms(3)] sh(2) that [of None] by (cases d0) auto
    show "rs_dtype d = rs_dtype d0" by (simp add: d)
    show "\<forall>x \<in> set ?new. length (arrow_values A x) = value_width (rs_dtype d)"
      using fills_all [OF fill [OF old(1)] old(1) sh(3) old(2)] assms(15) by (simp add: d)
    note f = full_shape_fixed [OF assms(4,5)]
    have nz: "0 \<notin> set (butlast sh)" using assms(4) by (auto simp: fixed_result_def dest: in_set_butlastD)
    show "full_shape (length sh - 1) d" "rows_of d = replicate (last sh) (butlast sh)"
      using f(1,3) sh(1) nz by (simp_all add: full_shape_def d rows_of_def)
    show "length ?new = nElements d" using f(2) old(1) sh(1) by (simp add: patched_def d nElements_def)
  qed
  have "tc_dtype ?col = rs_dtype d" using FromArray_dtype [OF assms(2)] dt by simp
  from array_of_rows [OF full n typed assms(9) [folded dt] assms(12) this] obtain arr d' ty where
    "array_of A loc d ?new = (Inr arr, loc')"
    "GetFlatArray False arr = Inr (Values ty (concat (map (arrow_values A) ?new)) 0 (length (concat (map (arrow_values A) ?new))))"
    "FromArray ?col (Some arr) = Inr d'" "rows_of d' = rows_of d" "rs_dtype d' = rs_dtype d" by blast
  with read old fill [OF old(1)] rows dt show ?thesis by auto
qed

end

section \<open>Properties\<close>

text \<open>
  C5. A read into a supplied result takes exactly the elements wanted. For a result of a fixed
  shape of the type of the column, and a selection that \<open>NegateMissingSelectedRows\<close> accepts, of which at
  least one row is read, and whatever the number of instances and the order of their tasks,
  \<open>ReadImpl\<close> returns an array of the shape of the result, whose values are those of the buffer of the
  result but for the elements of cells that are selected: each of these lies at the index its cell and
  row have in the result, also where cells differ in shape and are smaller than the result. Rows
  that are negative or not defined, and elements beyond a cell, keep what the result held.
\<close>

theorem ReadImpl_fills_result:
  assumes "table_access A cells" and "column \<in> set (column_names A t)"
    and "FromArray (column_of A column t) (Some result) = Inr d0"
    and "NegateMissingSelectedRows d0 (column_of A column t) sel = Inr (sel', d)"
    and "fixed_result d0 sh" and "2 * prod_list sh < 2 ^ 31" and "no_duplicates sel sh"
    and "length (selected_rows (column_of A column t) sel) = last sh"
    and "\<exists>i < last sh. is_read_row (column_of A column t) (selected_rows (column_of A column t) sel ! i)"
    and "CasaDataTypeSize (sizeof_String A) (rs_dtype d0) = Inr sz" and "ArrowDataType (rs_dtype d0) = Inr adt"
    and "GetResultBuffer (Some result) (prod_list sh * sz) = Inr (Value_type adt, buf)"
    and "GetConvertStrategy loc = (Inr strat, loc')"
    and "\<forall>g. cells column (table_at g) = cells column t" and "\<forall>n. mset (order n) = mset [0..<n]"
    and "\<forall>r i. length (arrow_values A (cells column t r i)) = value_width (rs_dtype d0)"
  shows "\<exists>arr old new ty d'. ReadImpl A ninstances column sel (Some result) t table_at order loc = (Inr arr, loc') \<and>
    length old = prod_list sh \<and> (\<forall>x \<in> set old. length (arrow_values A x) = value_width (rs_dtype d0)) \<and>
    concat (map (arrow_values A) old) = buf \<and>
    fills (column_of A column t) sel sh (cells column t) old new \<and>
    GetFlatArray False arr = Inr (Values ty (concat (map (arrow_values A) new)) 0 (length (concat (map (arrow_values A) new)))) \<and>
    FromArray (column_of A column t) (Some arr) = Inr d' \<and> rows_of d' = replicate (last sh) (butlast sh) \<and> rs_dtype d' = rs_dtype d0"
  by (rule table_access.ReadImpl_supplied [OF assms])

text \<open>
  Rows 0, 1 and 2 of the column of cells with two, one and three values, of which the last is not
  defined here, read into three rows of three values.
\<close>

definition patchy_column :: table_column where
  "patchy_column = \<lparr>tc_name = ''DATA'', tc_dtype = TpFloat, tc_fixed = False, tc_shape = [], tc_ndim = -1,
     tc_nrow = 3, tc_defined = (\<lambda>row. row < 2), tc_cell = (\<lambda>row. [[2, 1, 3] ! row])\<rparr>"

definition patchy_table :: memory_table where
  "patchy_table = (True, patchy_column, \<lambda>row i. [10 * row + hd i])"

definition given_result :: "int arrow" where
  "given_result = FixedLists 3 3 0 None (Values (Value_type float32) [7, 7, 7, 7, 7, 7, 7, 7, 7] 0 9)"

definition given_shape :: ResultShapeData where
  "given_shape = \<lparr>rs_name = ''DATA'', rs_shape = Some [3, 3], rs_ndim = 2, rs_dtype = TpFloat,
     rs_row_shapes = None, rs_cell_extents = None\<rparr>"

definition given_selection :: selection where
  "given_selection = FromInit IndexElem [[1, 0, 2]]"

lemma given_facts:
  "FromArray patchy_column (Some given_result) = Inr given_shape" "fixed_result given_shape [3, 3]"
  "\<exists>sel' d. NegateMissingSelectedRows given_shape patchy_column given_selection = Inr (sel', d)"
  "no_duplicates given_selection [3, 3]" "length (selected_rows patchy_column given_selection) = last [3, 3]"
  "\<exists>i < last [3, 3]. is_read_row patchy_column (selected_rows patchy_column given_selection ! i)"
  "GetResultBuffer (Some given_result) (prod_list [3, 3] * 4) = Inr (Value_type float32, [7, 7, 7, 7, 7, 7, 7, 7, 7])"
proof -
  show "FromArray patchy_column (Some given_result) = Inr given_shape" by code_simp
  show "fixed_result given_shape [3, 3]" by (simp add: fixed_result_def given_shape_def)
  have "\<not> isl (NegateMissingSelectedRows given_shape patchy_column given_selection)" by code_simp
  then show "\<exists>sel' d. NegateMissingSelectedRows given_shape patchy_column given_selection = Inr (sel', d)"
    by (cases "NegateMissingSelectedRows given_shape patchy_column given_selection") auto
  have "distinct (filter (\<lambda>x. 0 \<le> x) (disk_ids given_selection [3, 3] 0))"
    "distinct (filter (\<lambda>x. 0 \<le> x) (disk_ids given_selection [3, 3] 1))" by code_simp+
  then show "no_duplicates given_selection [3, 3]" by (simp add: no_duplicates_def All_less_Suc2 numeral_2_eq_2)
  show "length (selected_rows patchy_column given_selection) = last [3, 3]" by code_simp
  have "is_read_row patchy_column (selected_rows patchy_column given_selection ! 0)" by code_simp
  then show "\<exists>i < last [3, 3]. is_read_row patchy_column (selected_rows patchy_column given_selection ! i)" by (intro exI [of _ 0]) simp
  show "GetResultBuffer (Some given_result) (prod_list [3, 3] * 4) = Inr (Value_type float32, [7, 7, 7, 7, 7, 7, 7, 7, 7])" by code_simp
qed

theorem ReadImpl_fills_result_witness:
  "\<exists>arr ty. ReadImpl memory_access 2 ''DATA'' given_selection (Some given_result) patchy_table (\<lambda>g. patchy_table) (\<lambda>n. rev [0..<n]) None =
      (Inr arr, Some []) \<and> GetFlatArray False arr = Inr (Values ty [10, 7, 7, 0, 1, 7, 7, 7, 7] 0 9)"
proof -
  have col: "column_of memory_access ''DATA'' patchy_table = patchy_column" "''DATA'' \<in> set (column_names memory_access patchy_table)"
    "snd (snd patchy_table) = (\<lambda>row i. [10 * row + hd i])"
    by (simp_all add: memory_access_def patchy_table_def patchy_column_def)
  have dt: "rs_dtype given_shape = TpFloat" by (simp add: given_shape_def)
  have typed: "\<forall>r i. length (arrow_values memory_access (snd (snd patchy_table) r i)) = value_width (rs_dtype given_shape)"
    by (simp add: col(3) memory_access_def value_width_def given_shape_def)
  obtain sel' d where neg: "NegateMissingSelectedRows given_shape patchy_column given_selection = Inr (sel', d)"
    using given_facts(3) by blast
  have small: "2 * prod_list [3, 3] < (2 :: nat) ^ 31" by simp
  have adt: "ArrowDataType (rs_dtype given_shape) = Inr float32" by (simp add: dt)
  note g = given_facts
  from ReadImpl_fills_result [OF memory.table_access_axioms col(2) g(1)[folded col(1)] neg[folded col(1)] g(2) small g(4) g(5)[folded col(1)]
      g(6)[folded col(1)] vector_facts(7)[folded dt] adt g(7) vector_facts(6) _ _ typed, of "\<lambda>g. patchy_table" "\<lambda>n. rev [0..<n]" 2]
  obtain arr old new ty where r: "ReadImpl memory_access 2 ''DATA'' given_selection (Some given_result) patchy_table (\<lambda>g. patchy_table) (\<lambda>n. rev [0..<n]) None =
      (Inr arr, Some [])"
    "GetFlatArray False arr = Inr (Values ty (concat (map (arrow_values memory_access) new)) 0
        (length (concat (map (arrow_values memory_access) new))))"
    and old: "length old = 9" "\<forall>x \<in> set old. length (arrow_values memory_access x) = 1"
      "concat (map (arrow_values memory_access) old) = [7, 7, 7, 7, 7, 7, 7, 7, 7]"
    and fill: "fills patchy_column given_selection [3, 3] (\<lambda>row i. [10 * row + hd i]) old new"
    by (auto simp: col dt value_width_def)
  have id: "arrow_values memory_access = (\<lambda>x. x)" by (simp add: memory_access_def)
  have "old = map (\<lambda>x. [x]) (concat old)" using old(2) unfolding id
    by (induction old) (auto simp: length_Suc_conv)
  then have "old = map (\<lambda>x. [x]) [7, 7, 7, 7, 7, 7, 7, 7, 7]" using old(3) by (simp add: id)
  then have seven: "old = [[7], [7], [7], [7], [7], [7], [7], [7], [7]]" by simp
  have "new = map (\<lambda>pos. let r = selected_rows patchy_column given_selection ! last pos;
        w = wanted_index patchy_column given_selection (butlast [3, 3]) r (butlast pos)
      in if is_read_row patchy_column r \<and> list_all (\<lambda>x. 0 \<le> x) w then [10 * r + hd w] else old ! lin [3, 3] pos) (box [3, 3])"
    by (rule fills_eq [OF fill]) (simp_all add: old(1))
  also have "\<dots> = [[10], [7], [7], [0], [1], [7], [7], [7], [7]]" unfolding seven by code_simp
  finally show ?thesis using r by (simp add: id)
qed

end
