(* ===== verification/RowWrite.thy ===== *)
theory RowWrite
  imports RowRead WriteImpl
begin

text \<open>
  Writing data whose rows vary: what \<open>WriteChunks\<close> makes of the chunks of a partition that is cut row
  by row. As for reads, a chunk of a row is written as the chunk of a fixed result of this one row
  would be from the part of the buffer where the row lies.
\<close>

section \<open>Writing a chunk of a row\<close>

lemma gather_loop_local:
  assumes "length ms = length ts" and "length bs = Suc (length ts)"
    and "gather_loop (ts @ [\<lparr>disk = r, mem = [b]\<rparr>]) (ms @ [b]) cs bs offset buffer pos out = Some out'"
  shows "gather_loop (ts @ [\<lparr>disk = r, mem = [a]\<rparr>]) (ms @ [a]) cs bs (length pre + offset) (pre @ buffer @ post) pos out = Some out'"
proof -
  let ?t = "\<lambda>x. ts @ [\<lparr>disk = r, mem = [x]\<rparr>]" and ?m = "\<lambda>x. ms @ [x]"
  let ?P = "\<lambda>sps mins cs' bs' offset' buffer' pos out out'. sps = ?t b \<and> mins = ?m b \<and> cs' = cs \<and> bs' = bs \<and>
      offset' = offset \<and> buffer' = buffer \<longrightarrow>
    gather_loop (?t a) (?m a) cs bs (length pre + offset) (pre @ buffer @ post) pos out = Some out'"
  have sizes: "map (\<lambda>sp. length (mem sp)) (?t x) = map (\<lambda>sp. length (mem sp)) ts @ [1]" for x by simp
  have "?P (?t b) (?m b) cs bs offset buffer pos out out'"
  proof (rule gather_loop.raw_induct [where P = ?P, OF _ assms(3)], intro impI, elim conjE)
    fix loop sps mins cs' bs' offset' buffer' pos and out out' :: "'a list"
    assume ih: "\<And>sps mins cs bs offset buffer pos out y. loop sps mins cs bs offset buffer pos out = Some y \<Longrightarrow>
        ?P sps mins cs bs offset buffer pos out y"
      and step: "(if pos_ok sps mins pos \<and> offset' + buffer_index sps mins bs' pos < length buffer' \<and> dot pos cs' < length out
          then let out' = out[dot pos cs' := buffer' ! (offset' + buffer_index sps mins bs' pos)];
                   step = advance (map (\<lambda>sp. length (mem sp)) sps) pos
               in if snd step then Some out' else loop sps mins cs' bs' offset' buffer' (fst step) out'
          else None) = Some out'"
      and eqs: "sps = ?t b" "mins = ?m b" "cs' = cs" "bs' = bs" "offset' = offset" "buffer' = buffer"
    let ?i = "buffer_index (?t b) (?m b) bs pos"
    from step have ok: "pos_ok (?t b) (?m b) pos" "dot pos cs < length out" "offset + ?i < length buffer"
      unfolding eqs by (simp_all split: if_splits)
    have ok_a: "pos_ok (?t a) (?m a) pos" "buffer_index (?t a) (?m a) bs pos = ?i"
      using local_pos [OF assms(1,2)] ok(1) by metis+
    have at: "(pre @ buffer @ post) ! (length pre + offset + ?i) = buffer ! (offset + ?i)"
      using ok(3) by (simp add: nth_append add.assoc)
    show "gather_loop (?t a) (?m a) cs bs (length pre + offset) (pre @ buffer @ post) pos out = Some out'"
      using step ih [of "?t b" "?m b" cs bs offset buffer] ok ok_a at
      by (subst gather_loop.simps) (auto simp: eqs Let_def sizes split: if_splits)
  qed
  then show ?thesis by blast
qed

lemma write_chunk_local:
  assumes "in_row (length pre) m ch" and "write_chunk sz wr fresh sub (local_chunk (length pre) ch) st = Inr st'"
  shows "write_chunk sz wr fresh (pre @ sub @ post) ch st = Inr st'"
proof -
  let ?l = "local_chunk (length pre) ch"
  note simps = local_chunk_simps [OF assms(1)]
  have row: "nDim ch = length (DimensionSpans ch)" "DimensionSpans ch \<noteq> []" "length pre \<le> ChunkOffset ch"
    using assms(1) by (simp_all add: in_row_def)
  note same = disks_determine [OF local_disks [OF assms(1)] simps(2) row(1,2)]
  show ?thesis
  proof (cases "IsEmpty ch")
    case True
    with assms(2) show ?thesis by (simp add: write_chunk_def same)
  next
    case False
    have shared: "shared_storage (ChunkOffset ch) n (pre @ sub @ post) = Some vals"
      if "shared_storage (ChunkOffset ch - length pre) n sub = Some vals" for n vals
      using that row(3) by (auto simp: shared_storage_def subspan_def split: if_splits)
    have contig: "WriteContiguousChunk wr ch (pre @ sub @ post) s = Some s'" if "WriteContiguousChunk wr ?l sub s = Some s'" for s s'
      using that shared by (auto simp: WriteContiguousChunk_def same simps Let_def split: if_splits)
    have gather: "GatherChunkArray fresh ch (pre @ sub @ post) = Some vals" if "GatherChunkArray fresh ?l sub = Some vals" for vals
    proof -
      let ?t = "DimensionSpans ch" and ?ms = "MinMemIndex ch"
      have lens: "length (butlast ?ms) = length (butlast ?t)" "length (BufferStrides ch) = Suc (length (butlast ?t))"
        using assms(1) by (auto simp: in_row_def)
      have "gather_loop (butlast ?t @ [\<lparr>disk = disk (last ?t), mem = [m]\<rparr>]) (butlast ?ms @ [m]) (ChunkStrides ch) (BufferStrides ch)
          (length pre + (ChunkOffset ch - length pre)) (pre @ sub @ post) (replicate (nDim ch) 0) (replicate (prod_list (ChunkShape ch)) fresh) = Some vals"
        by (rule gather_loop_local [OF lens]) (use that in \<open>simp add: GatherChunkArray_def simps local_spans_def same\<close>)
      then show ?thesis using row(3) by (simp only: GatherChunkArray_def flip: in_row_ends [OF assms(1)]) simp
    qed
    have put: "WriteChunkArray wr ?l = WriteChunkArray wr ch" by (intro ext) (simp add: WriteChunkArray_def same simps Let_def)
    from assms(2) False show ?thesis
      by (cases "IsContiguous ch") (auto simp: write_chunk_def same simps put dest!: contig gather split: option.splits bind_splits)
  qed
qed

section \<open>The cells a write changes\<close>

text \<open>
  The column after the elements \<open>P\<close> of the buffer were written to the indices \<open>D\<close>: these hold the values and
  every other one is as before.
\<close>

definition wrote :: "(nat \<Rightarrow> index list) \<Rightarrow> 'a list \<Rightarrow> nat set \<Rightarrow> (int \<Rightarrow> int list \<Rightarrow> 'a) \<Rightarrow> (int \<Rightarrow> int list \<Rightarrow> 'a) \<Rightarrow> bool" where
  "wrote D buffer P before after \<longleftrightarrow>
     (\<forall>a \<in> P. cell_at after (D a) = buffer ! a) \<and> (\<forall>r c. (\<forall>a \<in> P. D a \<noteq> c @ [r]) \<longrightarrow> after r c = before r c)"

lemma wrote_none [simp]: "wrote D buffer {} s s"
  by (simp add: wrote_def)

lemma wrote_union:
  assumes "wrote D buffer P s0 s1" and "wrote D buffer Q s1 s2"
    and "\<And>a b. a \<in> P \<Longrightarrow> b \<in> Q \<Longrightarrow> D a = D b \<Longrightarrow> a = b" and "\<And>a. a \<in> P \<Longrightarrow> D a \<noteq> []"
  shows "wrote D buffer (P \<union> Q) s0 s2"
  unfolding wrote_def
proof (intro conjI ballI allI impI)
  fix a assume a: "a \<in> P \<union> Q"
  show "cell_at s2 (D a) = buffer ! a"
  proof (cases "a \<in> Q")
    case True
    with assms(2) show ?thesis by (simp add: wrote_def)
  next
    case False
    with a have P: "a \<in> P" by simp
    then have "butlast (D a) @ [last (D a)] = D a" using assms(4) by simp
    moreover have "D b \<noteq> D a" if "b \<in> Q" for b using assms(3) [OF P that] that False by metis
    ultimately have "s2 (last (D a)) (butlast (D a)) = s1 (last (D a)) (butlast (D a))"
      using assms(2) unfolding wrote_def by metis
    then show ?thesis using assms(1) P by (simp add: wrote_def cell_at_def)
  qed
next
  fix r c assume "\<forall>a \<in> P \<union> Q. D a \<noteq> c @ [r]"
  with assms(1,2) show "s2 r c = s0 r c" by (simp add: wrote_def)
qed

text \<open>The cells of a fixed result, by places in the buffer.\<close>

lemma written_wrote:
  assumes "written sel sh (subspan base (prod_list sh) buffer) A before after" and "base + prod_list sh \<le> length buffer"
    and "\<And>a. a < prod_list sh \<Longrightarrow> D (base + a) = disk_index sel sh (box sh ! a)" and "\<And>idx. idx \<in> A \<Longrightarrow> in_box sh idx"
  shows "wrote D buffer {base + a | a. a < prod_list sh \<and> box sh ! a \<in> A} before after"
  unfolding wrote_def
proof (intro conjI ballI allI impI)
  fix b assume "b \<in> {base + a | a. a < prod_list sh \<and> box sh ! a \<in> A}"
  then obtain a where a: "b = base + a" "a < prod_list sh" "box sh ! a \<in> A" by blast
  then have "cell_at after (disk_index sel sh (box sh ! a)) = subspan base (prod_list sh) buffer ! lin sh (box sh ! a)"
    using assms(1) by (simp add: written_def)
  with a assms(2,3) show "cell_at after (D b) = buffer ! b" by (simp add: lin_box_nth subspan_def)
next
  fix r c assume none: "\<forall>b \<in> {base + a | a. a < prod_list sh \<and> box sh ! a \<in> A}. D b \<noteq> c @ [r]"
  have "disk_index sel sh idx \<noteq> c @ [r]" if "idx \<in> A" for idx
    using none assms(3) [OF lin_less [OF assms(4) [OF that]]] box_nth_lin [OF assms(4) [OF that]] lin_less [OF assms(4) [OF that]] that
    by (metis (mono_tags, lifting) mem_Collect_eq)
  with assms(1) show "after r c = before r c" by (simp add: written_def)
qed

section \<open>Writing the chunks of the rows\<close>

text \<open>No element is named twice if no row is, and no index of a row.\<close>

definition rows_distinct :: "selection \<Rightarrow> ResultShapeData \<Rightarrow> nat \<Rightarrow> bool" where
  "rows_distinct sel d k \<longleftrightarrow> no_row_duplicates sel d k \<and> distinct (filter (\<lambda>x. 0 \<le> x) (row_ids sel k (nRows d)))"

lemma no_duplicates_row:
  assumes "is_row sel d k m" and "no_row_duplicates sel d k"
  shows "no_duplicates (row_sel sel d k m) (one_row (rows_of d ! m))"
  using disk_ids_row [OF assms(1)] assms(2) is_row_shape(1,4) [OF assms(1)]
  by (auto simp: no_duplicates_def no_row_duplicates_def row_distinct_def less_Suc_eq)

abbreviation row_place_index :: "selection \<Rightarrow> ResultShapeData \<Rightarrow> nat \<Rightarrow> index list" where
  "row_place_index sel d a \<equiv> row_disk_index sel d (row_positions d ! a)"

lemma row_place_inj:
  assumes "varying_result sel d k" and "rows_fit sel d k" and "rows_distinct sel d k"
    and "a < length (row_positions d)" and "b < length (row_positions d)" and "a \<in> row_present sel d"
    and "row_place_index sel d a = row_place_index sel d b"
  shows "a = b"
proof -
  have is_row: "is_row sel d k m" if "m < nRows d" for m using assms(1,2) that by (simp add: is_row_def)
  have at: "last (row_place_index sel d (row_start d m + x)) = row_ids sel k (nRows d) ! m" if "m < nRows d" "x < prod_list (rows_of d ! m)" for m x
    using row_positions_nth(1) [OF that] in_box_length [OF box_nth_in_box [OF that(2)]] is_row_shape(1) [OF is_row [OF that(1)]]
    by (simp add: row_disk_index_def Let_def)
  obtain m x where x: "m < nRows d" "x < prod_list (rows_of d ! m)" "a = row_start d m + x" using row_positions_split [OF assms(4)] by blast
  obtain m' y where y: "m' < nRows d" "y < prod_list (rows_of d ! m')" "b = row_start d m' + y" using row_positions_split [OF assms(5)] by blast
  have rows: "row_ids sel k (nRows d) ! m = row_ids sel k (nRows d) ! m'"
    using at [OF x(1,2)] at [OF y(1,2)] assms(7) x(3) y(3) by simp
  have "row_place_index sel d a \<noteq> []" by (simp add: row_disk_index_def Let_def)
  then have "0 \<le> row_ids sel k (nRows d) ! m" using at [OF x(1,2)] assms(6) x(3) last_in_set by fastforce
  moreover have "length (row_ids sel k (nRows d)) = nRows d" "distinct (filter (\<lambda>x. 0 \<le> x) (row_ids sel k (nRows d)))"
    using assms(2,3) by (simp_all add: rows_fit_def rows_distinct_def)
  ultimately have m: "m = m'" by (intro distinct_filter_nth [of "\<lambda>x. 0 \<le> x" "row_ids sel k (nRows d)"]) (use rows x y in simp_all)
  let ?sh = "one_row (rows_of d ! m)"
  have "no_duplicates (row_sel sel d k m) ?sh" using no_duplicates_row [OF is_row [OF x(1)]] assms(3) by (simp add: rows_distinct_def)
  then have "box ?sh ! x = box ?sh ! y"
    by (rule disk_index_inj [OF _ sel_fits_row [OF is_row [OF x(1)]]])
      (use x y m assms(6,7) row_position_index [OF is_row [OF x(1)]] box_nth_in_box [of _ ?sh] in simp_all)
  then have "x = y" using lin_box_nth [of _ ?sh] x(2) y(2) m by (metis one_row_simps(3))
  with m x(3) y(3) show ?thesis by simp
qed

lemma row_chunk_writes:
  assumes "is_row sel d k m" and "row_chunks sel d k m chs" and "ch \<in> set chs" and "no_row_duplicates sel d k"
    and "writes_cells wr cells" and "length buffer = length (row_positions d)"
  shows "\<exists>s'. write_chunk sz wr fresh buffer ch (s, n) = Inr (s', n + (if IsEmpty ch then 0 else ChunkElements ch * sz)) \<and>
    wrote (row_place_index sel d) buffer (row_places d ch) (cells s) (cells s')"
proof -
  let ?sh = "one_row (rows_of d ! m)" and ?base = "row_start d m"
  let ?l = "local_chunk ?base ch" and ?sel = "row_sel sel d k m"
  from assms(2) obtain L where row: "in_row ?base m ch" and L: "chunks_of ?sel ?sh L (map (local_chunk ?base) chs)"
    using assms(3) by (auto simp: row_chunks_def)
  note fits = sel_fits_row [OF assms(1)]
  have fc: "fixed_chunk ?sel ?sh ?l" using fixed_chunks [OF L fits] assms(3) by simp
  have m: "row_of_chunk ch = m" using row by (simp add: row_of_chunk_def in_row_def)
  have places: "row_places d ch = {?base + a | a. a < prod_list ?sh \<and> box ?sh ! a \<in> mems_read [?l]}"
    by (simp add: row_places_def m Let_def)
  have dims: "nDim ch = length (DimensionSpans ch)" "DimensionSpans ch \<noteq> []" using row by (simp_all add: in_row_def)
  note same = disks_determine [OF local_disks [OF row] local_chunk_simps(2) [OF row] dims]
  show ?thesis
  proof (cases "IsEmpty ch")
    case True
    then have "row_places d ch = {}" unfolding places by (simp add: mems_read_def same)
    with True show ?thesis by (simp add: write_chunk_def)
  next
    case False
    then have ne: "\<not> IsEmpty ?l" by (simp add: same)
    have "prod_list ?sh \<noteq> 0" using is_row_shape(2) [OF assms(1)] by (simp add: prod_list_zero_iff)
    then have end_row: "?base + prod_list ?sh \<le> length buffer"
      using row_positions_nth(2) [OF is_row_shape(4) [OF assms(1)], of 0] assms(6) by simp
    let ?pre = "take ?base buffer" and ?sub = "subspan ?base (prod_list ?sh) buffer" and ?post = "drop (?base + prod_list ?sh) buffer"
    have split: "buffer = ?pre @ ?sub @ ?post"
      unfolding subspan_def by (metis add.commute append_take_drop_id drop_drop)
    have lens: "length ?pre = ?base" "length ?sub = prod_list ?sh" using end_row by simp_all
    note nd = no_duplicates_row [OF assms(1,4)]
    from write_chunk_assigns [OF fc ne _ nd fits assms(5) lens(2), of sz fresh s n] obtain s' where
      s': "write_chunk sz wr fresh ?sub ?l (s, n) = Inr (s', n + ChunkElements ?l * sz)"
      "cells s' = assign (chunk_values Pair (DimensionSpans ?l)) (buffer_values ?sh ?sub (DimensionSpans ?l)) (cells s)" by auto
    have "mems_read [?l] = chunk_mems (DimensionSpans ?l)" using ne by (auto simp: mems_read_def)
    with written_assign [OF fc ne _ nd fits s'(2)] have "written ?sel ?sh ?sub (mems_read [?l]) (cells s) (cells s')" by simp
    then have "wrote (row_place_index sel d) buffer (row_places d ch) (cells s) (cells s')"
      unfolding places
    proof (rule written_wrote [OF _ end_row])
      show "row_place_index sel d (?base + a) = disk_index ?sel ?sh (box ?sh ! a)" if "a < prod_list ?sh" for a
        using row_position_index [OF assms(1)] that by simp
      show "in_box ?sh idx" if "idx \<in> mems_read [?l]" for idx
        using mems_read_index [of "[?l]" ?sel ?sh idx] fc that by simp
    qed
    moreover have "write_chunk sz wr fresh (?pre @ ?sub @ ?post) ch (s, n) = Inr (s', n + ChunkElements ?l * sz)"
      by (rule write_chunk_local) (use row lens(1) s'(1) in simp_all)
    ultimately show ?thesis using False by (simp only: same if_False flip: split) blast
  qed
qed

text \<open>The places that chunks write lie in the buffer and are present on disk.\<close>

lemma row_places_present:
  assumes "varying_result sel d k" and "rows_fit sel d k" and "rows_partition sel d k chunks" and "ch \<in> set chunks" and "a \<in> row_places d ch"
  shows "a < length (row_positions d)" and "a \<in> row_present sel d"
proof -
  from rows_partition_chunk [OF assms(3,4)] obtain m chs where m: "m < nRows d" "row_chunks sel d k m chs" "ch \<in> set chs" by blast
  then have "row_of_chunk ch = m" by (auto simp: row_chunks_def in_row_def row_of_chunk_def)
  with assms(5) obtain b where b: "a = row_start d m + b" "b < prod_list (rows_of d ! m)" by (auto simp: row_places_def Let_def)
  then show "a < length (row_positions d)" using row_positions_nth(2) [OF m(1) b(2)] by simp
  then show "a \<in> row_present sel d" using rows_places [OF assms(1-3)] assms(4,5) by blast
qed

lemma rows_loop_writes:
  assumes "varying_result sel d k" and "rows_fit sel d k" and "rows_partition sel d k chunks" and "rows_distinct sel d k"
    and "writes_cells wr cells" and "length buffer = length (row_positions d)" and "set chs \<subseteq> set chunks"
  shows "\<exists>s'. chunk_loop (write_chunk sz wr fresh buffer) (map Some chs) (s, n) = Inr (s', n + sz * elements_in chs) \<and>
    wrote (row_place_index sel d) buffer (\<Union>ch \<in> set chs. row_places d ch) (cells s) (cells s')"
  using assms(7)
proof (induction chs arbitrary: s n)
  case Nil
  then show ?case by (simp add: elements_in_def)
next
  case (Cons ch chs)
  then have ch: "ch \<in> set chunks" and chs: "set chs \<subseteq> set chunks" by auto
  have nd: "no_row_duplicates sel d k" using assms(4) by (simp add: rows_distinct_def)
  from rows_partition_chunk [OF assms(3) ch] obtain m row where m: "m < nRows d" "row_chunks sel d k m row" "ch \<in> set row" by blast
  have "is_row sel d k m" using assms(1,2) m(1) by (simp add: is_row_def)
  from row_chunk_writes [OF this m(2,3) nd assms(5,6), of sz fresh s n] obtain s1 where
    s1: "write_chunk sz wr fresh buffer ch (s, n) = Inr (s1, n + (if IsEmpty ch then 0 else ChunkElements ch * sz))"
      "wrote (row_place_index sel d) buffer (row_places d ch) (cells s) (cells s1)" by blast
  from Cons.IH [OF chs, of s1 "n + (if IsEmpty ch then 0 else ChunkElements ch * sz)"] obtain s2 where
    s2: "chunk_loop (write_chunk sz wr fresh buffer) (map Some chs) (s1, n + (if IsEmpty ch then 0 else ChunkElements ch * sz)) =
        Inr (s2, n + (if IsEmpty ch then 0 else ChunkElements ch * sz) + sz * elements_in chs)"
      "wrote (row_place_index sel d) buffer (\<Union>ch \<in> set chs. row_places d ch) (cells s1) (cells s2)" by blast
  note here = row_places_present [OF assms(1-3)]
  have "wrote (row_place_index sel d) buffer (row_places d ch \<union> (\<Union>ch \<in> set chs. row_places d ch)) (cells s) (cells s2)"
  proof (rule wrote_union [OF s1(2) s2(2)])
    show "a = b" if "a \<in> row_places d ch" "b \<in> (\<Union>ch \<in> set chs. row_places d ch)" "row_place_index sel d a = row_place_index sel d b" for a b
      using that chs here [OF ch that(1)] here(1) [of _ b] row_place_inj [OF assms(1,2,4) _ _ _ that(3)] by blast
    show "row_place_index sel d a \<noteq> []" for a by (simp add: row_disk_index_def Let_def)
  qed
  moreover have "elements_in (ch # chs) = (if IsEmpty ch then 0 else ChunkElements ch) + elements_in chs"
    by (simp add: elements_in_def)
  ultimately show ?case using s1(1) s2(1) by (cases "IsEmpty ch") (auto simp: algebra_simps)
qed

section \<open>Properties\<close>

lemma WriteChunks_rows:
  assumes "varying_result sel d k" and "rows_fit sel d k" and "Make string_size sel d opts = Inr p"
    and "distinct (filter (\<lambda>x. 0 \<le> x) (row_ids sel k (nRows d)))"
    and "writes_cells wr cells" and "length buffer = sum_list (map prod_list (rows_of d))"
    and "CasaDataTypeSize string_size (rs_dtype d) = Inr sz"
  shows "\<exists>s'. WriteChunks string_size wr fresh (dp_dtype p) (map Some (data_chunks p)) buffer (s, n) =
      Inr (s', n + sz * row_elements_read sel d) \<and>
    wrote (row_place_index sel d) buffer {a. a < length buffer \<and> a \<in> row_present sel d} (cells s) (cells s')"
proof -
  from Make_varying [OF assms(1,2), where string_size = string_size and opts = opts] assms(3) have
    dt: "dp_dtype p = rs_dtype d" and p: "rows_partition sel d k (data_chunks p)" and nd: "no_row_duplicates sel d k" by auto
  have len: "length buffer = length (row_positions d)" using assms(6) by (simp add: length_row_positions)
  have "rows_distinct sel d k" using nd assms(4) by (simp add: rows_distinct_def)
  from rows_loop_writes [OF assms(1,2) p this assms(5) len subset_refl, of sz fresh s n] obtain s' where
    s': "chunk_loop (write_chunk sz wr fresh buffer) (map Some (data_chunks p)) (s, n) = Inr (s', n + sz * elements_in (data_chunks p))"
      "wrote (row_place_index sel d) buffer (\<Union>ch \<in> set (data_chunks p). row_places d ch) (cells s) (cells s')" by blast
  have "(\<Union>ch \<in> set (data_chunks p). row_places d ch) = {a. a < length buffer \<and> a \<in> row_present sel d}"
  proof (rule set_eqI)
    fix a
    show "a \<in> (\<Union>ch \<in> set (data_chunks p). row_places d ch) \<longleftrightarrow> a \<in> {a. a < length buffer \<and> a \<in> row_present sel d}"
    proof (cases "a < length buffer")
      case True
      with rows_places [OF assms(1,2) p, of a] len show ?thesis by (simp only: mem_Collect_eq simp_thms)
    next
      case False
      then have "a \<notin> row_places d ch" if "ch \<in> set (data_chunks p)" for ch
        using row_places_present(1) [OF assms(1,2) p that] len by metis
      with False show ?thesis by simp
    qed
  qed
  from s'(2) [unfolded this] s'(1) [unfolded rows_partition_elements(2) [OF assms(1,2) p]] assms(7)
  show ?thesis unfolding WriteChunks_def dt DispatchCasaType_size [OF assms(7)] by simp
qed

text \<open>The same, by indices of the rows.\<close>

lemma wrote_rows:
  assumes "wrote (row_place_index sel d) buffer {a. a < length buffer \<and> a \<in> row_present sel d} before after"
    and "length buffer = sum_list (map prod_list (rows_of d))"
  shows "m < nRows d \<Longrightarrow> in_box (rows_of d ! m) idx \<Longrightarrow> \<forall>i \<in> set (row_disk_index sel d (idx @ [m])). 0 \<le> i \<Longrightarrow>
      after (last (row_disk_index sel d (idx @ [m]))) (butlast (row_disk_index sel d (idx @ [m]))) =
        buffer ! (row_start d m + lin (rows_of d ! m) idx)"
    and "(\<And>m idx. m < nRows d \<Longrightarrow> in_box (rows_of d ! m) idx \<Longrightarrow> \<forall>i \<in> set (row_disk_index sel d (idx @ [m])). 0 \<le> i \<Longrightarrow>
      row_disk_index sel d (idx @ [m]) \<noteq> c @ [r]) \<Longrightarrow> after r c = before r c"
proof -
  have len: "length buffer = length (row_positions d)" using assms(2) by (simp add: length_row_positions)
  have at: "row_positions d ! (row_start d m + lin (rows_of d ! m) idx) = idx @ [m]" "row_start d m + lin (rows_of d ! m) idx < length buffer"
    if "m < nRows d" "in_box (rows_of d ! m) idx" for m idx
    using row_positions_nth [OF that(1) lin_less [OF that(2)]] lin_less [OF that(2)] box_nth_lin [OF that(2)] len by simp_all
  show "after (last (row_disk_index sel d (idx @ [m]))) (butlast (row_disk_index sel d (idx @ [m]))) =
      buffer ! (row_start d m + lin (rows_of d ! m) idx)"
    if "m < nRows d" "in_box (rows_of d ! m) idx" "\<forall>i \<in> set (row_disk_index sel d (idx @ [m])). 0 \<le> i"
    using assms(1) at [OF that(1,2)] that(3)
    by (auto simp: wrote_def cell_at_def dest!: spec [of _ "row_start d m + lin (rows_of d ! m) idx"])
  show "after r c = before r c" if none: "\<And>m idx. m < nRows d \<Longrightarrow> in_box (rows_of d ! m) idx \<Longrightarrow>
      \<forall>i \<in> set (row_disk_index sel d (idx @ [m])). 0 \<le> i \<Longrightarrow> row_disk_index sel d (idx @ [m]) \<noteq> c @ [r]"
  proof -
    have "row_place_index sel d a \<noteq> c @ [r]" if a: "a < length buffer" "a \<in> row_present sel d" for a
    proof -
      obtain m b where b: "m < nRows d" "b < prod_list (rows_of d ! m)" "a = row_start d m + b"
        using row_positions_split a(1) len by metis
      note box = box_nth_in_box [OF b(2)]
      have "row_positions d ! a = box (rows_of d ! m) ! b @ [m]" using row_positions_nth(1) [OF b(1,2)] b(3) by simp
      with none [OF b(1) box] a(2) show ?thesis by simp
    qed
    with assms(1) show ?thesis by (simp add: wrote_def)
  qed
qed

text \<open>
  C17. Data whose rows vary are written and read back. Whenever the partition is made and no row is
  selected twice, writing its chunks returns; then reading the chunks of the partition of the same
  selection, in any order, gives a buffer that holds the values written at each index of a row that is
  present on disk, and keeps what it held elsewhere; every element of a cell that no such index
  names is as it was; and both report the bytes of the elements moved.
\<close>

theorem WriteChunks_ReadChunks_rows:
  assumes "varying_result sel d k" and "rows_fit sel d k" and "Make string_size sel d opts = Inr p"
    and "distinct (filter (\<lambda>x. 0 \<le> x) (row_ids sel k (nRows d)))"
    and "writes_cells wr cells" and "\<forall>s. reads_cells (rd s) (cells s)"
    and "length data = sum_list (map prod_list (rows_of d))" and "length buffer = sum_list (map prod_list (rows_of d))"
    and "CasaDataTypeSize string_size (rs_dtype d) = Inr sz" and "mset chs = mset (data_chunks p)"
  shows "\<exists>s' buffer'.
    WriteChunks string_size wr fresh (dp_dtype p) (map Some (data_chunks p)) data (s, n) = Inr (s', n + sz * row_elements_read sel d) \<and>
    ReadChunks string_size (rd s') (dp_dtype p) (map Some chs) (buffer, n') = Inr (buffer', n' + sz * row_elements_read sel d) \<and>
    length buffer' = length buffer \<and>
    (\<forall>m < nRows d. \<forall>idx. in_box (rows_of d ! m) idx \<longrightarrow>
      buffer' ! (row_start d m + lin (rows_of d ! m) idx) =
        (if \<forall>i \<in> set (row_disk_index sel d (idx @ [m])). 0 \<le> i then data ! (row_start d m + lin (rows_of d ! m) idx)
         else buffer ! (row_start d m + lin (rows_of d ! m) idx))) \<and>
    (\<forall>r c. (\<forall>m < nRows d. \<forall>idx. in_box (rows_of d ! m) idx \<and> (\<forall>i \<in> set (row_disk_index sel d (idx @ [m])). 0 \<le> i) \<longrightarrow>
        row_disk_index sel d (idx @ [m]) \<noteq> c @ [r]) \<longrightarrow> cells s' r c = cells s r c)"
proof -
  from WriteChunks_rows [OF assms(1-5,7,9), of fresh s n] obtain s' where
    w: "WriteChunks string_size wr fresh (dp_dtype p) (map Some (data_chunks p)) data (s, n) = Inr (s', n + sz * row_elements_read sel d)"
      "wrote (row_place_index sel d) data {a. a < length data \<and> a \<in> row_present sel d} (cells s) (cells s')" by blast
  note rows = wrote_rows [OF w(2) assms(7)]
  have "reads_cells (rd s') (cells s')" using assms(6) by simp
  note r = ReadChunks_rows [OF assms(1-3) this assms(8,9,10), of n']
  have "length (rows_buffer sel d (cells s') buffer) = length buffer"
    using assms(8) by (simp add: rows_buffer_def length_row_positions)
  moreover have "rows_buffer sel d (cells s') buffer ! (row_start d m + lin (rows_of d ! m) idx) =
      (if \<forall>i \<in> set (row_disk_index sel d (idx @ [m])). 0 \<le> i then data ! (row_start d m + lin (rows_of d ! m) idx)
       else buffer ! (row_start d m + lin (rows_of d ! m) idx))" if "m < nRows d" "in_box (rows_of d ! m) idx" for m idx
    using rows_buffer_nth [OF that assms(8), of sel "cells s'"] rows(1) [OF that] by simp
  moreover have "cells s' r c = cells s r c" if "\<forall>m < nRows d. \<forall>idx. in_box (rows_of d ! m) idx \<and>
      (\<forall>i \<in> set (row_disk_index sel d (idx @ [m])). 0 \<le> i) \<longrightarrow> row_disk_index sel d (idx @ [m]) \<noteq> c @ [r]" for r c
    using rows(2) that by blast
  ultimately show ?thesis using w(1) r by blast
qed

text \<open>Six values for three rows of which the second covers one of two elements.\<close>

theorem WriteChunks_ReadChunks_rows_witness:
  "\<exists>p s'. Make 32 rows_sel padded_result no_split = Inr p \<and>
     WriteChunks 32 cells_writer 0 (dp_dtype p) (map Some (data_chunks p)) [1, 2, 3, 4, 5, 6] (\<lambda>r c. 0 :: int, 0) = Inr (s', 20) \<and>
     s' 5 [0] = 0 \<and>
     ReadChunks 32 (cells_reader s') (dp_dtype p) (map Some (rev (data_chunks p))) ([7, 7, 7, 7, 7, 7], 0) =
       Inr ([1, 2, 3, 7, 5, 6], 20)"
proof -
  obtain p where p: "Make 32 rows_sel padded_result no_split = Inr p"
    using Make_varying [OF padded_facts(1,2), where string_size = 32 and opts = no_split] padded_facts(3)
    by (cases "Make 32 rows_sel padded_result no_split") auto
  have d: "nRows padded_result = 3" "rows_of padded_result = [[2], [2], [2]]"
    by (simp_all add: padded_result_def nRows_def rows_of_def numeral_3_eq_3)
  have len: "length [1, 2, 3, 4, 5, 6 :: int] = sum_list (map prod_list (rows_of padded_result))"
    "length [7, 7, 7, 7, 7, 7 :: int] = sum_list (map prod_list (rows_of padded_result))" by (simp_all add: d)
  have sz: "CasaDataTypeSize 32 (rs_dtype padded_result) = Inr 4" by (simp add: padded_result_def)
  have rows: "distinct (filter (\<lambda>x. 0 \<le> x) (row_ids rows_sel 1 (nRows padded_result)))"
    and five: "row_elements_read rows_sel padded_result = 5" by code_simp+
  from WriteChunks_ReadChunks_rows [where rd = cells_reader, OF padded_facts(1,2) p rows writes_cells_writer _ len sz, of "rev (data_chunks p)" 0 "\<lambda>r c. 0" 0 0]
  obtain s' b where w: "WriteChunks 32 cells_writer 0 (dp_dtype p) (map Some (data_chunks p)) [1, 2, 3, 4, 5, 6] (\<lambda>r c. 0 :: int, 0) = Inr (s', 20)"
    "ReadChunks 32 (cells_reader s') (dp_dtype p) (map Some (rev (data_chunks p))) ([7, 7, 7, 7, 7, 7], 0) = Inr (b, 20)"
    "length b = 6"
    and b: "\<And>m idx. m < 3 \<Longrightarrow> in_box (rows_of padded_result ! m) idx \<Longrightarrow> b ! (row_start padded_result m + lin (rows_of padded_result ! m) idx) =
        (if \<forall>i \<in> set (row_disk_index rows_sel padded_result (idx @ [m])). 0 \<le> i
         then [1, 2, 3, 4, 5, 6] ! (row_start padded_result m + lin (rows_of padded_result ! m) idx)
         else [7, 7, 7, 7, 7, 7] ! (row_start padded_result m + lin (rows_of padded_result ! m) idx))"
    and frame: "\<And>r c. (\<forall>m < 3. \<forall>idx. in_box (rows_of padded_result ! m) idx \<and>
        (\<forall>i \<in> set (row_disk_index rows_sel padded_result (idx @ [m])). 0 \<le> i) \<longrightarrow>
        row_disk_index rows_sel padded_result (idx @ [m]) \<noteq> c @ [r]) \<Longrightarrow> s' r c = 0"
    unfolding d(1) five by auto
  have idx: "row_disk_index rows_sel padded_result ([0] @ [0]) = [0, 2]" "row_disk_index rows_sel padded_result ([1] @ [0]) = [1, 2]"
    "row_disk_index rows_sel padded_result ([0] @ [1]) = [0, 0]" "row_disk_index rows_sel padded_result ([1] @ [1]) = [-1, 0]"
    "row_disk_index rows_sel padded_result ([0] @ [2]) = [0, 1]" "row_disk_index rows_sel padded_result ([1] @ [2]) = [1, 1]"
    "row_start padded_result 0 = 0" "row_start padded_result 1 = 2" "row_start padded_result 2 = 4" "lin [2] [0] = 0" "lin [2] [1] = 1"
    by code_simp+
  have vals: "b ! 0 = 1" "b ! 1 = 2" "b ! 2 = 3" "b ! 3 = 7" "b ! 4 = 5" "b ! 5 = 6"
    using b [of 0 "[0]"] b [of 0 "[1]"] b [of 1 "[0]"] b [of 1 "[1]"] b [of 2 "[0]"] b [of 2 "[1]"] idx
    by (simp_all add: d(2) in_box_Cons flip: numeral_2_eq_2)
  then have "b = [1, 2, 3, 7, 5, 6]" using w(3) by (auto simp: length_Suc_conv numeral_eq_Suc)
  moreover have "s' 5 [0] = 0"
  proof (rule frame, intro allI impI, elim conjE)
    fix m idx assume m: "m < 3" "in_box (rows_of padded_result ! m) idx"
    then have "m \<in> {0, 1, 2}" "idx \<in> {[0], [1]}" by (auto simp: d(2) in_box_Cons less_Suc_eq numeral_eq_Suc nth_Cons')
    with idx show "row_disk_index rows_sel padded_result (idx @ [m]) \<noteq> [0] @ [5]" by auto
  qed
  ultimately show ?thesis using p w(1,2) by blast
qed

end
