(* ===== verification/RowWriteImpl.thy ===== *)
theory RowWriteImpl
  imports RowRoundTrip RowWrite
begin

text \<open>
  Whole writes of arrays whose rows vary: what \<open>WriteImpl\<close> makes of \<open>MakeWrite\<close>, the partition that is cut
  row by row and \<open>WriteChunks\<close>.
\<close>

text \<open>The data of a write that \<open>MakeWrite\<close> accepts fit the selection.\<close>

lemma MakeWrite_rows_fit:
  assumes "MakeWrite look setShape s (Some arr) sel = (Inr d, s')" and "varying_result sel d k" and "rs_shape d = None"
  shows "rows_fit sel d k"
proof -
  from MakeWrite_shape [where look = look and s = s, OF assms(1)] obtain n where
    w: "write_shape (look s) (Some arr) sel = Inr (d, n)" by blast
  then have d: "GetResultShapeData (tc_name (look s)) (tc_dtype (look s)) (Some arr) = Inr d" "rs_ndim d = int n"
    "rows_ok (look s) sel d" by (simp_all add: write_shape_Inr)
  note D = varying_resultD [OF assms(2)]
  have n: "n = Suc k" using d(2) D(1) by simp
  have ext: "rs_cell_extents d = None" and rows: "rs_row_shapes d \<noteq> None" using assms(2,3) by (auto simp: varying_result_def)
  have big: "1 < n" using D(2) [OF assms(3)] n by simp
  from iffD1 [OF MakeWrite_checked [where look = look and s = s, OF w big GetResult_ranks [OF d(1)] d(2)] assms(1)] assms(3)
  have match: "\<forall>r < nRows d. dims_match sel n (DataRowShape d (n - 1) r)" by (simp add: IsFixed_def)
  have shape: "DataRowShape d (n - 1) m = rows_of d ! m" if "m < nRows d" for m
    using rows assms(3) that by (auto simp: DataRowShape_def IsFixed_def GetRowShape_def rows_of_def)
  have "length (row_ids sel k (nRows d)) = nRows d"
  proof (cases "HasRowSpan sel")
    case True
    then have "MaybeFSpan sel k (Suc k) = Some (GetRowSpan sel)" using MaybeFSpan_row [of sel "Suc k"] by simp
    with True d(3) show ?thesis by (simp add: row_ids_def rows_ok_def)
  next
    case False
    then have "MaybeFSpan sel k (Suc k) = None" using MaybeFSpan_no_row [of sel "Suc k"] by simp
    then show ?thesis by (simp add: row_ids_def)
  qed
  moreover have "length (row_dim_ids sel d (rows_of d ! m) m dim) = rows_of d ! m ! dim" if "m < nRows d" "dim < k" for m dim
    using match that shape n ext D(4) [OF that(1)]
    by (auto simp: row_dim_ids_def dims_match_conv split: option.split)
  ultimately show ?thesis by (simp add: rows_fit_def)
qed

text \<open>The partition has the type and the number of elements of the rows.\<close>

lemma Make_rows_elements:
  assumes "varying_result sel d k" and "rows_fit sel d k" and "Make string_size sel d opts = Inr p"
  shows "dp_dtype p = rs_dtype d \<and> PartitionElements p = sum_list (map prod_list (rows_of d))"
  using Make_varying [OF assms(1,2), where string_size = string_size and opts = opts] assms(3)
    rows_partition_elements(1) [OF assms(1,2)] by (auto simp: PartitionElements_eq length_row_positions)

context table_access
begin

lemma WriteImpl_rows:
  assumes "WriteImpl A column (Some data) sel t = (Inr ok, t')"
    and "GetResultShapeData (tc_name (column_of A column t)) (tc_dtype (column_of A column t)) (Some data) = Inr d"
    and "varying_result sel d k" and "rs_shape d = None"
    and "distinct (filter (\<lambda>x. 0 \<le> x) (row_ids sel k (nRows d)))"
    and "GetFlatArray False data = Inr (Values (Value_type adt) buf 0 (length buf))"
    and "ArrowDataType (rs_dtype d) = Inr adt" and "CasaDataTypeSize (sizeof_String A) (rs_dtype d) = Inr sz"
  shows "\<exists>buffer s. ok \<and> length buffer = sum_list (map prod_list (rows_of d)) \<and>
    concat (map (arrow_values A) buffer) = buf \<and>
    (\<forall>x \<in> set buffer. length (arrow_values A x) = value_width (rs_dtype d)) \<and>
    wrote (row_place_index sel d) buffer {a. a < length buffer \<and> a \<in> row_present sel d} s (cells column t') \<and>
    (\<forall>row. tc_fixed (column_of A column t) \<or> tc_defined (column_of A column t) row \<longrightarrow> s (int row) = cells column t (int row))"
proof -
  obtain t1 t2 p buffer n where
    make: "MakeWrite (column_of A column) (set_cell_shape A column) t1 (Some data) sel = (Inr d, t2)"
    and wb: "write_buffer A sel data d = Inr (p, buffer)"
    and wr: "WriteChunks (sizeof_String A) (writer_of A column) (fresh_value A) (dp_dtype p) (map Some (data_chunks p)) buffer (t2, 0) = Inr (t', n)"
    and ok: "ok"
    and keeps: "\<forall>row. tc_fixed (column_of A column t) \<or> tc_defined (column_of A column t) row \<longrightarrow> cells column t2 (int row) = cells column t (int row)"
    by (rule WriteImpl_steps [OF assms(1,2)])
  note fit = MakeWrite_rows_fit [OF make assms(3,4)]
  from write_buffer_casa [OF wb Make_rows_elements [OF assms(3) fit] assms(6,7)] have
    b: "Make (sizeof_String A) sel d no_split = Inr p" "length buffer = sum_list (map prod_list (rows_of d))"
    "concat (map (arrow_values A) buffer) = buf" "\<forall>x \<in> set buffer. length (arrow_values A x) = value_width (rs_dtype d)"
    by simp_all
  from WriteChunks_rows [OF assms(3) fit b(1) assms(5) writes b(2) assms(8), of column "fresh_value A" t2 0] wr
  have "wrote (row_place_index sel d) buffer {a. a < length buffer \<and> a \<in> row_present sel d} (cells column t2) (cells column t')" by auto
  then show ?thesis using ok b keeps by blast
qed

end

section \<open>Properties\<close>

text \<open>
  C6. A write of an array whose rows vary changes the cells that are selected to the values of the
  array, and nothing else. When \<open>WriteImpl\<close> returns, for an array of lists of different lengths that is no
  slice, of the arrow type of the column, and a selection that names no row twice, the element at
  each index of a row that is present on disk is the value of its cell element; every other element
  keeps its value, in each row that had a cell before.
\<close>

theorem WriteImpl_writes_rows:
  assumes "table_access A cells" and "WriteImpl A column (Some data) sel t = (Inr ok, t')"
    and "GetResultShapeData (tc_name (column_of A column t)) (tc_dtype (column_of A column t)) (Some data) = Inr d"
    and "varying_result sel d k" and "rs_shape d = None"
    and "distinct (filter (\<lambda>x. 0 \<le> x) (row_ids sel k (nRows d)))"
    and "GetFlatArray False data = Inr (Values (Value_type adt) buf 0 (length buf))"
    and "ArrowDataType (rs_dtype d) = Inr adt" and "CasaDataTypeSize (sizeof_String A) (rs_dtype d) = Inr sz"
  shows "\<exists>buffer. length buffer = sum_list (map prod_list (rows_of d)) \<and> concat (map (arrow_values A) buffer) = buf \<and>
    (\<forall>x \<in> set buffer. length (arrow_values A x) = value_width (rs_dtype d)) \<and>
    (\<forall>m < nRows d. \<forall>idx. in_box (rows_of d ! m) idx \<and> (\<forall>i \<in> set (row_disk_index sel d (idx @ [m])). 0 \<le> i) \<longrightarrow>
       cells column t' (last (row_disk_index sel d (idx @ [m]))) (butlast (row_disk_index sel d (idx @ [m]))) =
         buffer ! (row_start d m + lin (rows_of d ! m) idx)) \<and>
    (\<forall>row c. (tc_fixed (column_of A column t) \<or> tc_defined (column_of A column t) row) \<and>
       (\<forall>m < nRows d. \<forall>idx. in_box (rows_of d ! m) idx \<and> (\<forall>i \<in> set (row_disk_index sel d (idx @ [m])). 0 \<le> i) \<longrightarrow>
          row_disk_index sel d (idx @ [m]) \<noteq> c @ [int row]) \<longrightarrow>
       cells column t' (int row) c = cells column t (int row) c)"
proof -
  from table_access.WriteImpl_rows [OF assms] obtain buffer s where
    b: "length buffer = sum_list (map prod_list (rows_of d))" "concat (map (arrow_values A) buffer) = buf"
      "\<forall>x \<in> set buffer. length (arrow_values A x) = value_width (rs_dtype d)"
    and w: "wrote (row_place_index sel d) buffer {a. a < length buffer \<and> a \<in> row_present sel d} s (cells column t')"
    and s: "\<forall>row. tc_fixed (column_of A column t) \<or> tc_defined (column_of A column t) row \<longrightarrow> s (int row) = cells column t (int row)"
    by blast
  note rows = wrote_rows [OF w b(1)]
  have "cells column t' (int row) c = cells column t (int row) c"
    if "tc_fixed (column_of A column t) \<or> tc_defined (column_of A column t) row"
      "\<forall>m < nRows d. \<forall>idx. in_box (rows_of d ! m) idx \<and> (\<forall>i \<in> set (row_disk_index sel d (idx @ [m])). 0 \<le> i) \<longrightarrow>
        row_disk_index sel d (idx @ [m]) \<noteq> c @ [int row]" for row c
    using rows(2) [of c "int row"] s that by metis
  with b rows(1) show ?thesis by (intro exI [of _ buffer]) blast
qed

text \<open>Lists of three values and of one are written to the rows 2 and 1 of a column of such cells.\<close>

definition jagged_data :: "int arrow" where
  "jagged_data = Lists List32 [0, 3, 4] None (Values (Value_type float32) [5, 6, 7, 8] 0 4)"

lemma jagged_column_of [simp]: "column_of memory_access ''DATA'' jagged_table = jagged_column"
  by (simp add: memory_access_def jagged_table_def)

lemma jagged_shape: "GetResultShapeData (tc_name jagged_column) (tc_dtype jagged_column) (Some jagged_data) = Inr jagged_result"
  by code_simp

lemma jagged_values:
  "GetFlatArray False jagged_data = Inr (Values (Value_type float32) [5, 6, 7, 8] 0 (length [5, 6, 7, 8]))"
  "ArrowDataType (rs_dtype jagged_result) = Inr float32" "CasaDataTypeSize (sizeof_String memory_access) (rs_dtype jagged_result) = Inr 4"
  "distinct (filter (\<lambda>x. 0 \<le> x) (row_ids jagged_selection 1 (nRows jagged_result)))"
proof -
  show "GetFlatArray False jagged_data = Inr (Values (Value_type float32) [5, 6, 7, 8] 0 (length [5, 6, 7, 8]))" by code_simp
  show "ArrowDataType (rs_dtype jagged_result) = Inr float32" "CasaDataTypeSize (sizeof_String memory_access) (rs_dtype jagged_result) = Inr 4"
    by (simp_all add: jagged_result_def)
  show "distinct (filter (\<lambda>x. 0 \<le> x) (row_ids jagged_selection 1 (nRows jagged_result)))" by code_simp
qed

lemma jagged_write:
  "\<exists>t'. WriteImpl memory_access ''DATA'' (Some jagged_data) jagged_selection jagged_table = (Inr True, t')"
proof -
  have "fst (MakeWrite (column_of memory_access ''DATA'') (set_cell_shape memory_access ''DATA'') jagged_table
      (Some jagged_data) jagged_selection) = Inr jagged_result" by code_simp
  then obtain t where make: "MakeWrite (column_of memory_access ''DATA'') (set_cell_shape memory_access ''DATA'') jagged_table
      (Some jagged_data) jagged_selection = (Inr jagged_result, t)" by (metis prod.collapse)
  have none: "rs_shape jagged_result = None" by (simp add: jagged_result_def)
  note fit = MakeWrite_rows_fit [OF make jagged_facts(2) none]
  have "case write_buffer memory_access jagged_selection jagged_data jagged_result of Inr _ \<Rightarrow> True | Inl e \<Rightarrow> False" by code_simp
  then obtain p buffer where b: "write_buffer memory_access jagged_selection jagged_data jagged_result = Inr (p, buffer)"
    by (auto split: sum.splits)
  note v = memory.write_buffer_casa [OF b Make_rows_elements [OF jagged_facts(2) fit, where string_size = "sizeof_String memory_access" and opts = no_split]
      jagged_values(1,2)]
  from WriteChunks_rows [OF jagged_facts(2) fit v[THEN conjunct1] jagged_values(4) memory.writes [of "''DATA''"] _ jagged_values(3),
      where buffer = buffer and fresh = "fresh_value memory_access" and s = t and n = 0] v
  obtain t' n where "WriteChunks (sizeof_String memory_access) (writer_of memory_access ''DATA'') (fresh_value memory_access) (dp_dtype p)
      (map Some (data_chunks p)) buffer (t, 0) = Inr (t', n)" by auto
  moreover have "is_writable memory_access jagged_table" "ColumnExists (column_names memory_access jagged_table) ''DATA'' = Inr ()"
    by (simp_all add: memory_access_def jagged_table_def jagged_column_def ColumnExists_def)
  ultimately show ?thesis using make b by (cases t') (simp add: WriteImpl_def write_task_def)
qed

theorem WriteImpl_writes_rows_witness:
  "\<exists>t'. WriteImpl memory_access ''DATA'' (Some jagged_data) jagged_selection jagged_table = (Inr True, t') \<and>
     snd (snd t') 2 [1] = [6] \<and> snd (snd t') 1 [0] = [8] \<and> snd (snd t') 0 [0] = [0]"
proof -
  obtain t' where w: "WriteImpl memory_access ''DATA'' (Some jagged_data) jagged_selection jagged_table = (Inr True, t')"
    using jagged_write by blast
  have none: "rs_shape jagged_result = None" by (simp add: jagged_result_def)
  from WriteImpl_writes_rows [OF memory.table_access_axioms w jagged_shape[folded jagged_column_of] jagged_facts(2) none jagged_values(4,1-3)]
  obtain buffer where b: "length buffer = 4" "concat buffer = [5, 6, 7, 8]" "\<forall>x \<in> set buffer. length x = 1"
    and cells: "\<And>m idx. m < 2 \<Longrightarrow> in_box ([[3], [1]] ! m) idx \<Longrightarrow> \<forall>i \<in> set (row_disk_index jagged_selection jagged_result (idx @ [m])). 0 \<le> i \<Longrightarrow>
       snd (snd t') (last (row_disk_index jagged_selection jagged_result (idx @ [m]))) (butlast (row_disk_index jagged_selection jagged_result (idx @ [m]))) =
         buffer ! (row_start jagged_result m + lin ([[3], [1]] ! m) idx)"
    and frame: "\<And>row c. (\<forall>m < 2. \<forall>idx. in_box ([[3], [1]] ! m) idx \<and> (\<forall>i \<in> set (row_disk_index jagged_selection jagged_result (idx @ [m])). 0 \<le> i) \<longrightarrow>
          row_disk_index jagged_selection jagged_result (idx @ [m]) \<noteq> c @ [int row]) \<Longrightarrow> snd (snd t') (int row) c = snd (snd jagged_table) (int row) c"
    unfolding jagged_facts(6,7,8) by (auto simp: memory_access_def jagged_table_def jagged_column_def value_width_def)
  have buf: "buffer = [[5], [6], [7], [8]]" using b by (auto simp: length_Suc_conv numeral_eq_Suc)
  have idx: "row_disk_index jagged_selection jagged_result ([1] @ [0]) = [1, 2]" "row_disk_index jagged_selection jagged_result ([0] @ [1]) = [0, 1]"
    "row_start jagged_result 0 = 0" "row_start jagged_result 1 = 3" "lin [3] [1] = 1" "lin [1] [0] = 0"
    "row_disk_index jagged_selection jagged_result ([0] @ [0]) = [0, 2]" "row_disk_index jagged_selection jagged_result ([2] @ [0]) = [2, 2]"
    by code_simp+
  have "snd (snd t') 2 [1] = [6]" "snd (snd t') 1 [0] = [8]"
    using cells [of 0 "[1]"] cells [of 1 "[0]"] idx by (simp_all add: buf in_box_Cons)
  moreover have "snd (snd t') (int 0) [0] = snd (snd jagged_table) (int 0) [0]"
  proof (rule frame, intro allI impI, elim conjE)
    fix m idx assume "m < 2" "in_box ([[3], [1]] ! m) idx"
    then have "m = 0 \<and> idx \<in> {[0], [1], [2]} \<or> m = 1 \<and> idx = [0]" by (auto simp: in_box_Cons less_Suc_eq numeral_eq_Suc)
    with idx show "row_disk_index jagged_selection jagged_result (idx @ [m]) \<noteq> [0] @ [int 0]" by auto
  qed
  then have "snd (snd t') 0 [0] = [0]" by (simp add: jagged_table_def)
  ultimately show ?thesis using w by blast
qed

end
