(* ===== verification/Spec2Isabelle.thy ===== *)
theory Spec2Isabelle
  imports WriteImpl MergeSort TableUtils IsolatedLiveness Factory SuppliedRead RowWriteImpl
begin

text \<open>
  A model of arcae, which reads and writes the columns of CASA tables (casacore) as arrays of Apache
  Arrow, with selections along each dimension and several instances of a table on threads of their own.
  The C++ library is under \<open>src/cpp/arcae\<close>; the merge of sorted partitions is \<open>src/src/arcae/lib/merge_sort.cc\<close>.

  \<^bold>\<open>How the parts interact.\<close> A call of the public class (\<open>NewTableProxy\<close>) runs a task on one of the
  tables of an \<open>IsolatedTableProxy\<close>, which the least loaded instance executes. To read a column, the task
  derives the shape of the result from the selection and the cells (\<open>ResultShapeData::MakeRead\<close>), decomposes
  the selection into chunks that are read in one go (\<open>DataPartition::Make\<close>, on spans, with the rows split
  for the instances), reads the chunks into one buffer (\<open>ReadChunks\<close>), alone or with further tasks on the
  other instances, and makes an arrow array of it (\<open>MakeArray\<close>). A write goes the other way: the shape of
  the array, checked against the cells (\<open>MakeWrite\<close>), the partition, the buffer of the array, the cells
  (\<open>WriteChunks\<close>). The factory opens and creates the tables, with descriptions of Measurement Sets.

  \<^bold>\<open>The theories\<close>, each with the files it models and what its lemmas show.
  \<^item> \<open>Prelude\<close>: results with the statuses of arrow (\<open>result\<close>, \<open>rbind\<close>, \<open>rmapM\<close>, \<open>rfor\<close>), where \<open>Undefined\<close>
    stands for undefined behaviour of the C++; integers of fixed width; lists. \<open>NDIndex\<close>: positions in
    boxes in FORTRAN order, shared by everything that linearises an index.
  \<^item> \<open>TypeTraits\<close> (\<open>type_traits.cc\<close>, \<open>.h\<close>): CASA and arrow data types and their sizes.
  \<^item> \<open>Selections\<close> (\<open>selection.h\<close>): selections of indices along dimensions, their builder and its orders.
  \<^item> \<open>Spans\<close>, \<open>RowSplit\<close>, \<open>DataPartition\<close>, \<open>FixedPartition\<close> (\<open>data_partition.cc\<close>, \<open>.h\<close>): sorting the indices of
    a dimension and cutting them into ranges; splitting rows into pieces aligned to storage units; the
    product of the ranges, as chunks. The chunks of a fixed result hold each element exactly once.
  \<^item> \<open>ResultShape\<close>, \<open>ReadShapes\<close>, \<open>WriteShapes\<close> (\<open>result_shape.cc\<close>, \<open>.h\<close>): the shapes of results, offsets
    in the flat buffer, the shape of a read with missing rows and cells that vary, reading into a given
    result, the checks of a write and the shapes it gives to cells.
  \<^item> \<open>ArrowArrays\<close>, \<open>ArrowRoundTrip\<close> (\<open>result_shape.cc\<close>, \<open>read_impl.cc\<close>, \<open>write_impl.cc\<close>): arrow arrays in the
    columnar format as a data type; shapes of arrays, arrays of shapes, making and flattening arrays. An
    array made of a shape and a buffer shows this shape and these values.
  \<^item> \<open>ChunkCopy\<close>, \<open>ColumnRead\<close>, \<open>ColumnWrite\<close>, \<open>ReadImpl\<close>, \<open>WriteImpl\<close>: \<open>ReadChunks\<close> of \<open>read_impl.cc\<close> and
    \<open>WriteChunks\<close> of \<open>write_impl.cc\<close> with their direct and transposing paths. Reading and writing chunks moves
    exactly the elements selected, in any order of the chunks.
  \<^item> \<open>TableAccess\<close>, \<open>ColumnAccess\<close>, \<open>ColumnRoundTrip\<close>: \<open>ReadImpl\<close> and \<open>WriteImpl\<close> put together, over the record
    \<open>access\<close> of what casacore and arrow offer, with its laws in the locale \<open>table_access\<close>. From the cells to the
    array and back. \<open>ReadTable\<close>: \<open>ReadTableImpl\<close>, many columns as an arrow table.
  \<^item> \<open>RowPartition\<close>, \<open>RowRead\<close>, \<open>RowRoundTrip\<close>: the same for results that \<open>DataPartition::Make\<close> cuts row by row,
    since the rows vary or the cells are smaller than the rows they are read into. The chunks of a row are
    those of a fixed result of that one row, moved to where the row starts in the buffer. \<open>SuppliedRead\<close>: whole
    reads into a result the caller supplies, through \<open>NegateMissingSelectedRows\<close> and either partition.
    \<open>RowWrite\<close>, \<open>RowWriteImpl\<close>: writes of such data, chunk by chunk and as a whole.
  \<^item> \<open>Config\<close> (\<open>configuration.cc\<close>, \<open>service_locator.cc\<close>), \<open>TableUtils\<close> (\<open>table_utils.cc\<close>): settings; cache
    sizes of storage managers, reopening.
  \<^item> \<open>IsolatedTable\<close>, \<open>IsolatedSafety\<close>, \<open>IsolatedLiveness\<close> (\<open>isolated_table_proxy.cc\<close>, \<open>.h\<close>): a family of proxies
    as a step relation over threads, one step per atomic operation, with rule inductions over the reachable
    states: the choice of an instance, exact accounts, isolation, closing, what \<open>Spawn\<close> collects from the
    workers, termination of every schedule, and a deadlock.
  \<^item> \<open>TableProxy\<close> (\<open>new_table_proxy.cc\<close>): the methods as operations on the tables of the instances, with
    exceptions of tasks; a refinement of a view of names, rows and keywords. \<open>TableDescriptors\<close>
    (\<open>descriptor.cc\<close>): required descriptions of Measurement Set tables and their merge with the user's.
    \<open>Factory\<close> (\<open>table_factory.cc\<close>, and \<open>Make\<close>, \<open>Spawn\<close> of \<open>new_table_proxy.h\<close>): opening and creating tables.
  \<^item> \<open>MergeSort\<close> (\<open>merge_sort.cc\<close>): the k-way merge of sorted partitions on bytes.

  \<^bold>\<open>How state and operations correspond.\<close> A struct is a record, an early return an \<open>Inl\<close> branch with the
  pieces of its message, a loop a recursive function over the list or the counter it runs over. All loops
  of the code end, so that all functions are total and no fuel is used; where a loop has an index, the
  function carries it (\<open>sub_spans_loop\<close>, \<open>split_ends\<close>, \<open>merge_loop\<close>) and its recursion is structural or has a
  measure. A change of a table is a function that returns the table as it is left, also after a failure.
  Exceptions of casacore are modelled where the code meets them (\<open>exn\<close>, \<open>catching\<close>, \<open>awaited\<close> in \<open>TableProxy\<close>,
  \<open>TableDescriptors\<close>, \<open>Factory\<close>), in \<open>IsolatedTable\<close> as outcomes of jobs, and not in the calls of \<open>access\<close>, which
  read and write cells.

  \<^bold>\<open>What is assumed of casacore and arrow.\<close> Their calls are parameters, collected in records; what the
  theorems need of them is stated as locales, each interpreted on tables in memory, which shows that the
  laws can be met: \<open>list_maker\<close> (arrow's \<open>FromArrays\<close>), \<open>shape_setter\<close> (\<open>setShape\<close>), \<open>table_access\<close> (cells,
  buffers), \<open>table_metadata\<close> (keywords, rows and columns of a table), \<open>table_desc\<close> (entries of a description),
  \<open>disk_laws\<close> (files and links), \<open>settings\<close> (of \<open>Config\<close>, on the model itself).

  \<^bold>\<open>Bounds.\<close> Sizes are \<open>nat\<close>; narrowing to 32 bits and to \<open>std::size_t\<close> is written out where the code does it
  (\<open>wrap_int32\<close>, \<open>wrap_size\<close>), and a theorem that needs a product below \<open>2 ^ 31\<close> says so. The counters of the
  isolated proxy are words of 64 bits and may wrap.

  \<^bold>\<open>Not modelled.\<close> The Python bindings and applications, the tests and the build files. The text that
  \<open>ToString\<close> of a partition prints for debugging. Locks and atomics below the granularity of the steps of
  \<open>IsolatedTable\<close>; futures of arrow beyond their completion; the lifetimes of proxies. Sharing of buffers between arrays (values have
  no identity here), except that reads into a given result are reads into its buffer. In \<open>TableProxy\<close>, a
  method is one operation, though two methods called by different threads may interleave their tasks.
\<close>

end
